(* ===== verification/Prelude.thy ===== *)
theory Prelude
  imports Main "HOL-Library.Word" "HOL-Library.Char_ord" "HOL-Library.List_Lexorder"
begin

text \<open>
  The vocabulary the component theories share.

  A C string is a HOL \<^typ>\<open>string\<close>: its bytes up to, and without, the terminating
  NUL. A \<^verbatim>\<open>char *\<close> that walks along a string is the suffix that starts there. Reading
  the byte a pointer points at is \<^verbatim>\<open>deref\<close>: on the empty suffix it is the terminating
  NUL. The characters of \<^typ>\<open>char\<close> are ordered by their code (\<^verbatim>\<open>Char_ord\<close>), strings
  lexicographically (\<^verbatim>\<open>List_Lexorder\<close>), which is the order of \<^verbatim>\<open>strcmp\<close> on unsigned
  bytes.

  The ctype and string functions of the C library are those of the C locale.
\<close>

unbundle bit_operations_syntax

named_theorems cstring \<open>definitions of the C string functions\<close>

section \<open>Types\<close>

type_synonym cint = "32 word"
type_synonym byte = "8 word"

abbreviation NUL :: char where "NUL \<equiv> CHR 0x00"
abbreviation TAB :: char where "TAB \<equiv> CHR 0x09"
abbreviation LF :: char where "LF \<equiv> CHR 0x0A"
abbreviation CR :: char where "CR \<equiv> CHR 0x0D"

section \<open>ctype.h and string.h\<close>

definition deref :: "string \<Rightarrow> char" where
  "deref s = (case s of [] \<Rightarrow> NUL | c # _ \<Rightarrow> c)"

definition char_at :: "string \<Rightarrow> nat \<Rightarrow> char" where
  "char_at s i = (if i < length s then s ! i else NUL)"

definition isdigit :: "char \<Rightarrow> bool" where
  "isdigit c \<longleftrightarrow> CHR ''0'' \<le> c \<and> c \<le> CHR ''9''"

definition isupper :: "char \<Rightarrow> bool" where
  "isupper c \<longleftrightarrow> CHR ''A'' \<le> c \<and> c \<le> CHR ''Z''"

definition islower :: "char \<Rightarrow> bool" where
  "islower c \<longleftrightarrow> CHR ''a'' \<le> c \<and> c \<le> CHR ''z''"

definition isspace :: "char \<Rightarrow> bool" where
  "isspace c \<longleftrightarrow> c = CHR '' '' \<or> (TAB \<le> c \<and> c \<le> CR)"

definition tolower :: "char \<Rightarrow> char" where
  "tolower c = (if isupper c then char_of (of_char c + 32 :: nat) else c)"

definition toupper :: "char \<Rightarrow> char" where
  "toupper c = (if islower c then char_of (of_char c - 32 :: nat) else c)"

text \<open>
  \<^verbatim>\<open>strchr s c\<close> for \<^verbatim>\<open>c\<close> other than NUL: the text before the first \<^verbatim>\<open>c\<close> and the suffix
  that follows it.
\<close>

definition strchr :: "string \<Rightarrow> char \<Rightarrow> (string \<times> string) option" where
  "strchr s c = (case dropWhile (\<lambda>x. x \<noteq> c) s of
     [] \<Rightarrow> None | _ # r \<Rightarrow> Some (takeWhile (\<lambda>x. x \<noteq> c) s, r))"

definition strrchr :: "string \<Rightarrow> char \<Rightarrow> (string \<times> string) option" where
  "strrchr s c = map_option (\<lambda>(p, q). (rev q, rev p)) (strchr (rev s) c)"

text \<open>\<^verbatim>\<open>!strncmp(s, t, n)\<close>, \<^verbatim>\<open>!strcasecmp(s, t)\<close> and \<^verbatim>\<open>!strncasecmp(s, t, n)\<close>.\<close>

definition strn_eq :: "string \<Rightarrow> string \<Rightarrow> nat \<Rightarrow> bool" where
  "strn_eq s t n \<longleftrightarrow> take n s = take n t"

definition strcase_eq :: "string \<Rightarrow> string \<Rightarrow> bool" where
  "strcase_eq s t \<longleftrightarrow> map tolower s = map tolower t"

definition strncase_eq :: "string \<Rightarrow> string \<Rightarrow> nat \<Rightarrow> bool" where
  "strncase_eq s t n \<longleftrightarrow> map tolower (take n s) = map tolower (take n t)"

declare deref_def [cstring] char_at_def [cstring] strn_eq_def [cstring]
  strcase_eq_def [cstring] strncase_eq_def [cstring]

text \<open>\<^verbatim>\<open>printf\<close> of a number that is not negative with \<^verbatim>\<open>%d\<close>.\<close>

fun decimal :: "nat \<Rightarrow> string" where
  "decimal n = (if n < 10 then [char_of (48 + n)] else decimal (n div 10) @ [char_of (48 + n mod 10)])"

declare decimal.simps [simp del]

section \<open>Lemmas on strings\<close>

lemma deref_simps [simp]: "deref [] = NUL" "deref (c # s) = c"
  by (simp_all add: deref_def)

lemma char_at_0 [simp]: "char_at s 0 = deref s"
  by (cases s) (simp_all add: char_at_def)

lemma char_at_Cons_Suc [simp]: "char_at (c # s) (Suc i) = char_at s i"
  by (simp add: char_at_def)

lemma strchr_Nil [simp]: "strchr [] c = None"
  by (simp add: strchr_def)

lemma strchr_None_iff: "strchr s c = None \<longleftrightarrow> c \<notin> set s"
proof -
  have "strchr s c = None \<longleftrightarrow> dropWhile (\<lambda>x. x \<noteq> c) s = []"
    by (cases "dropWhile (\<lambda>x. x \<noteq> c) s") (auto simp: strchr_def dropWhile_eq_Nil_conv simp del: dropWhile_eq_Nil_conv)
  then show ?thesis by (auto simp: dropWhile_eq_Nil_conv)
qed

lemma strchr_Some_iff:
  "strchr s c = Some (p, q) \<longleftrightarrow> s = p @ c # q \<and> c \<notin> set p"
proof
  assume "strchr s c = Some (p, q)"
  then obtain x where x: "dropWhile (\<lambda>x. x \<noteq> c) s = x # q"
    and p: "p = takeWhile (\<lambda>x. x \<noteq> c) s"
    by (auto simp: strchr_def split: list.splits)
  have "x = c"
    using x by (metis (mono_tags, lifting) hd_dropWhile list.distinct(1) list.sel(1))
  moreover have "s = p @ x # q"
    using x p by (metis takeWhile_dropWhile_id)
  ultimately show "s = p @ c # q \<and> c \<notin> set p"
    using p by (auto dest: set_takeWhileD)
next
  assume s: "s = p @ c # q \<and> c \<notin> set p"
  then have "takeWhile (\<lambda>x. x \<noteq> c) s = p" and "dropWhile (\<lambda>x. x \<noteq> c) s = c # q"
    by (auto simp: takeWhile_append dropWhile_append dropWhile_eq_Nil_conv)
  then show "strchr s c = Some (p, q)"
    by (simp add: strchr_def)
qed

lemma strchr_append [simp]: "c \<notin> set p \<Longrightarrow> strchr (p @ c # q) c = Some (p, q)"
  by (simp add: strchr_Some_iff)

lemma strchr_shorter: "strchr s c = Some (p, q) \<Longrightarrow> length q < length s"
  by (auto simp: strchr_Some_iff)

lemma strrchr_append [simp]: "c \<notin> set q \<Longrightarrow> strrchr (p @ c # q) c = Some (p, q)"
  by (simp add: strrchr_def)

lemma strrchr_None: "c \<notin> set s \<Longrightarrow> strrchr s c = None"
  by (simp add: strrchr_def strchr_None_iff)

lemma strrchr_Some: "strrchr s c = Some (p, q) \<Longrightarrow> s = p @ c # q \<and> c \<notin> set q"
proof -
  assume "strrchr s c = Some (p, q)"
  then have "strchr (rev s) c = Some (rev q, rev p)" by (auto simp: strrchr_def)
  then show ?thesis using strchr_Some_iff [of "rev s" c "rev q" "rev p"] by (metis append.assoc append_Cons append_Nil
    rev.simps(2) rev_append rev_rev_ident set_rev)
qed

lemma strn_eq_prefix: "length t = n \<Longrightarrow> strn_eq s t n \<longleftrightarrow> (\<exists>r. s = t @ r)"
  by (auto simp: strn_eq_def) (metis append_take_drop_id)

section \<open>Lemmas on words\<close>

lemma sint_of_nat_small: "n < 2 ^ 31 \<Longrightarrow> sint (of_nat n :: cint) = int n"
  by (simp add: signed_of_nat signed_take_bit_int_eq_self)

section \<open>Network byte order\<close>

text \<open>The bytes of an \<^verbatim>\<open>int\<close> in network order.\<close>

definition htonl :: "cint \<Rightarrow> string" where
  "htonl x = (let n = unat x in
     [char_of (n div 2 ^ 24), char_of (n div 2 ^ 16), char_of (n div 2 ^ 8), char_of n])"

definition ntohl :: "string \<Rightarrow> cint" where
  "ntohl bs = of_nat (foldl (\<lambda>n c. 256 * n + of_char c) 0 bs)"

lemma htonl_length [simp]: "length (htonl x) = 4"
  by (simp add: htonl_def Let_def)

lemma htonl_not_Nil [simp]: "htonl x \<noteq> []"
  using htonl_length [of x] by fastforce

lemma ntohl_htonl [simp]: "ntohl (htonl x) = x"
proof -
  define n where "n = unat x"
  have n: "n < 2 ^ 32" using unsigned_less [of x, where 'a = nat] by (simp add: n_def)
  have d: "n div 2 ^ 16 = n div 2 ^ 8 div 256" "n div 2 ^ 24 = n div 2 ^ 8 div 256 div 256"
    by (simp_all add: div_mult2_eq [symmetric])
  have m: "n div 2 ^ 8 div 256 div 256 mod 256 = n div 2 ^ 8 div 256 div 256"
    using n by (simp add: div_mult2_eq [symmetric])
  have "256 * (256 * (256 * (n div 2 ^ 24 mod 256) + n div 2 ^ 16 mod 256) + n div 2 ^ 8 mod 256) + n mod 256 = n"
    unfolding d m using mult_div_mod_eq [of 256 "n div 2 ^ 8 div 256"]
      mult_div_mod_eq [of 256 "n div 2 ^ 8"] mult_div_mod_eq [of 256 n] by simp
  then have "of_nat (256 * (256 * (256 * (n div 2 ^ 24 mod 256) + n div 2 ^ 16 mod 256)
      + n div 2 ^ 8 mod 256) + n mod 256) = x"
    by (simp only: n_def) simp
  then show ?thesis
    by (simp add: ntohl_def htonl_def Let_def n_def)
qed

section \<open>Contracts of state machines\<close>

text \<open>An invariant of the states a step relation reaches.\<close>

locale step_invariant =
  fixes start :: "'s \<Rightarrow> bool" and step :: "'s \<Rightarrow> 's \<Rightarrow> bool" and inv :: "'s \<Rightarrow> bool"
  assumes holds_at_start: "start s \<Longrightarrow> inv s"
    and kept_by_step: "inv s \<Longrightarrow> step s t \<Longrightarrow> inv t"
begin

lemma holds_later: "step\<^sup>*\<^sup>* s t \<Longrightarrow> inv s \<Longrightarrow> inv t"
  by (induction rule: rtranclp_induct) (auto intro: kept_by_step)

lemma holds_always: "start s \<Longrightarrow> step\<^sup>*\<^sup>* s t \<Longrightarrow> inv t"
  using holds_later holds_at_start by blast

end

text \<open>
  A concrete state that stands for an abstract one: every good operation keeps the invariant and acts on
  the abstract state as its specification says. Then so does every sequence of good operations.
\<close>

locale simulation =
  fixes inv :: "'c \<Rightarrow> bool" and rep :: "'c \<Rightarrow> 'a" and cstep :: "'l \<Rightarrow> 'c \<Rightarrow> 'c option" and astep :: "'l \<Rightarrow> 'a \<Rightarrow> 'a"
    and good :: "'l \<Rightarrow> bool"
  assumes simulates: "inv c \<Longrightarrow> good l \<Longrightarrow> \<exists>c'. cstep l c = Some c' \<and> inv c' \<and> rep c' = astep l (rep c)"
begin

lemma simulates_all:
  "inv c \<Longrightarrow> list_all good ls \<Longrightarrow>
   \<exists>c'. foldl (\<lambda>r l. Option.bind r (cstep l)) (Some c) ls = Some c' \<and> inv c' \<and> rep c' = fold astep ls (rep c)"
proof (induction ls arbitrary: c)
  case (Cons l ls)
  then obtain c1 where "cstep l c = Some c1" "inv c1" "rep c1 = astep l (rep c)" using simulates [of c l] by auto
  then show ?case using Cons.IH [of c1] Cons.prems(2) by simp
qed simp

end

end
