(* ===== verification/Auth_Unix.thy ===== *)
theory Auth_Unix
  imports Prelude
begin

text \<open>
  The Unix authorization mechanism, \<^verbatim>\<open>lib/auth_unix.c\<close>: canonical identifiers, the groups of
  a user and the membership test that access control lists rest on.

  The group and password databases are the C library's. A group database is the list
  \<^verbatim>\<open>getgrent\<close> walks; \<^verbatim>\<open>getgrnam\<close> finds its first entry with the given name, \<^verbatim>\<open>getpwnam\<close>
  is a parameter that gives the primary group of a user. The configuration switches
  \<^verbatim>\<open>username_tolower\<close> and \<^verbatim>\<open>auth_unix_group_enable\<close> are arguments. The buffer the C code
  returns (\<^verbatim>\<open>retbuf\<close>, 81 bytes) is the returned string.

  The interface the access control lists use is the locale \<^verbatim>\<open>auth_canon\<close>.
\<close>

section \<open>State and data\<close>

record auth_state =
  userid :: string
  group :: "string list"
  ngroups :: nat

definition auth_anonymous :: auth_state where
  "auth_anonymous = \<lparr>userid = ''anonymous'', group = [], ngroups = 0\<rparr>"

record group_entry =
  gr_name :: string
  gr_gid :: nat
  gr_mem :: "string list"

type_synonym group_db = "group_entry list"

definition getgrnam :: "group_db \<Rightarrow> string \<Rightarrow> group_entry option" where
  "getgrnam db name = find (\<lambda>g. gr_name g = name) db"

section \<open>Operations\<close>

text \<open>The loop over the groups of the user, from index \<^verbatim>\<open>i\<close> to \<^verbatim>\<open>ngroups\<close>.\<close>

fun group_loop :: "string \<Rightarrow> string list \<Rightarrow> nat \<Rightarrow> nat" where
  "group_loop name gs 0 = 0"
| "group_loop name [] (Suc n) = 0"
| "group_loop name (g # gs) (Suc n) = (if name = g then 2 else group_loop name gs n)"

definition mymemberof :: "auth_state option \<Rightarrow> string \<Rightarrow> nat" where
  "mymemberof auth_state_opt identifier =
     (let auth = (case auth_state_opt of None \<Rightarrow> auth_anonymous | Some a \<Rightarrow> a) in
      if identifier = ''anyone'' then 1
      else if identifier = userid auth then 3
      else if \<not> strn_eq identifier ''group:'' 6 then 0
      else group_loop (drop 6 identifier) (group auth) (ngroups auth))"

text \<open>
  The table \<^verbatim>\<open>allowedchars\<close>, by rows of sixteen: 0 is not allowed, 2 is a letter.
\<close>

definition allowedchars_table :: "nat list" where
  "allowedchars_table =
    [0, 0, 0, 0, 0, 0, 0, 0, 0, 0, 0, 0, 0, 0, 0, 0,
     0, 0, 0, 0, 0, 0, 0, 0, 0, 0, 0, 0, 0, 0, 0, 0,
     1, 1, 1, 1, 1, 0, 0, 1, 1, 1, 0, 1, 1, 1, 1, 0,
     1, 1, 1, 1, 1, 1, 1, 1, 1, 1, 0, 1, 1, 1, 1, 0,
     1, 2, 2, 2, 2, 2, 2, 2, 2, 2, 2, 2, 2, 2, 2, 2,
     2, 2, 2, 2, 2, 2, 2, 2, 2, 2, 2, 1, 1, 1, 1, 1,
     1, 2, 2, 2, 2, 2, 2, 2, 2, 2, 2, 2, 2, 2, 2, 2,
     2, 2, 2, 2, 2, 2, 2, 2, 2, 2, 2, 1, 1, 1, 1, 0] @ replicate 128 0"

definition allowedchars :: "char \<Rightarrow> nat" where
  "allowedchars c = allowedchars_table ! of_char c"

text \<open>The loop over \<^verbatim>\<open>retbuf\<close>: lower-case if asked to, reject on a forbidden byte.\<close>

fun canon_loop :: "bool \<Rightarrow> string \<Rightarrow> string option" where
  "canon_loop username_tolower [] = Some []"
| "canon_loop username_tolower (p # ps) =
     (let c = (if username_tolower \<and> isupper p then tolower p else p) in
      if allowedchars c = 0 then None
      else map_option ((#) c) (canon_loop username_tolower ps))"

definition mycanonifyid :: "group_db \<Rightarrow> bool \<Rightarrow> string \<Rightarrow> nat \<Rightarrow> string option" where
  "mycanonifyid db username_tolower identifier len0 =
     (let len = (if len0 = 0 then length identifier else len0) in
      if len \<ge> 81 then None
      else
        let retbuf = take len identifier in
        if strn_eq retbuf ''group:'' 6
        then (case getgrnam db (drop 6 retbuf) of
                None \<Rightarrow> None
              | Some grp \<Rightarrow> Some (take 6 retbuf @ gr_name grp))
        else canon_loop username_tolower retbuf)"

text \<open>\<^verbatim>\<open>getpwnam\<close> gives the \<^verbatim>\<open>pw_gid\<close> of a user, if the user has a passwd entry.\<close>

fun newstate_groups ::
  "string \<Rightarrow> nat option \<Rightarrow> group_db \<Rightarrow> string list \<Rightarrow> nat \<Rightarrow> string list \<times> nat" where
  "newstate_groups identifier pwd [] gs n = (gs, n)"
| "newstate_groups identifier pwd (grp # db) gs n =
     (if identifier \<in> set (gr_mem grp) \<or> pwd = Some (gr_gid grp)
      then newstate_groups identifier pwd db (gs @ [gr_name grp]) (Suc n)
      else newstate_groups identifier pwd db gs n)"

definition mynewstate ::
  "group_db \<Rightarrow> (string \<Rightarrow> nat option) \<Rightarrow> bool \<Rightarrow> bool \<Rightarrow> string \<Rightarrow> auth_state option" where
  "mynewstate db getpwnam username_tolower group_enable identifier0 =
     (case mycanonifyid db username_tolower identifier0 0 of
        None \<Rightarrow> None
      | Some identifier \<Rightarrow>
          if strn_eq identifier ''group:'' 6 then None
          else if \<not> group_enable
          then Some \<lparr>userid = identifier, group = [], ngroups = 0\<rparr>
          else
            let (gs, n) = newstate_groups identifier (getpwnam identifier) db [] 0
            in Some \<lparr>userid = identifier, group = gs, ngroups = n\<rparr>)"

section \<open>The interface to access control lists\<close>

text \<open>
  What \<^verbatim>\<open>cyrus_acl_set\<close> needs of \<^verbatim>\<open>auth_canonifyid\<close>: the separator of the list never
  enters through canonicalisation, and a canonical identifier is not longer than the
  buffer of the mechanism.
\<close>

locale auth_canon =
  fixes canonifyid :: "string \<Rightarrow> string option"
  assumes canon_no_tab: "canonifyid i = Some c \<Longrightarrow> TAB \<notin> set i \<Longrightarrow> TAB \<notin> set c"
    and canon_length: "canonifyid i = Some c \<Longrightarrow> length c \<le> 80"

section \<open>Lemmas\<close>

lemma group_loop_iff:
  "n = length gs \<Longrightarrow> group_loop name gs n = (if name \<in> set gs then 2 else 0)"
  by (induction name gs n rule: group_loop.induct) auto

lemma canon_loop_Some:
  "canon_loop lower s = Some c \<Longrightarrow>
     length c = length s \<and> (\<forall>x \<in> set c. allowedchars x \<noteq> 0)"
proof (induction s arbitrary: c)
  case (Cons p ps)
  let ?c = "if lower \<and> isupper p then tolower p else p"
  from Cons.prems obtain c' where "allowedchars ?c \<noteq> 0"
    and "canon_loop lower ps = Some c'" and "c = ?c # c'"
    by (auto simp: Let_def split: if_split_asm)
  with Cons.IH [of c'] show ?case by (simp del: if_split)
qed simp

lemma allowedchars_TAB: "allowedchars TAB = 0"
  by (simp add: allowedchars_def allowedchars_table_def)

lemma getgrnam_name: "getgrnam db n = Some g \<Longrightarrow> gr_name g = n"
  by (auto simp: getgrnam_def find_Some_iff)

lemma canon_group_id:
  "strn_eq r ''group:'' 6 \<Longrightarrow> getgrnam db (drop 6 r) = Some g \<Longrightarrow> take 6 r @ gr_name g = r"
  by (simp add: getgrnam_name)

lemma mycanonifyid_Some:
  assumes "mycanonifyid db lower i 0 = Some c"
  shows "length c = length i \<and> length i \<le> 80 \<and>
    (c = i \<and> strn_eq i ''group:'' 6 \<or> (\<forall>x \<in> set c. allowedchars x \<noteq> 0))"
  using assms
  by (auto simp: mycanonifyid_def Let_def getgrnam_name split: if_splits option.splits
      dest: canon_loop_Some)

interpretation unix_canon: auth_canon "\<lambda>i. mycanonifyid db lower i 0" for db lower
proof
  fix i c
  assume c: "mycanonifyid db lower i 0 = Some c"
  then show "length c \<le> 80" by (auto dest: mycanonifyid_Some)
  assume "TAB \<notin> set i"
  with mycanonifyid_Some [OF c] show "TAB \<notin> set c" by (auto simp: allowedchars_TAB)
qed

lemma newstate_groups_eq:
  "newstate_groups i pwd db gs n =
     (let ms = map gr_name (filter (\<lambda>g. i \<in> set (gr_mem g) \<or> pwd = Some (gr_gid g)) db)
      in (gs @ ms, n + length ms))"
  by (induction i pwd db gs n rule: newstate_groups.induct) (auto simp: Let_def)

end
