(* ===== verification/Acl.thy ===== *)
theory Acl
  imports Auth_Unix
begin

text \<open>
  Access control lists: the rights bit vector and its letters (\<^verbatim>\<open>lib/acl.h\<close>, \<^verbatim>\<open>lib/acl.c\<close>)
  and the list of identifiers with their rights (\<^verbatim>\<open>lib/acl_afs.c\<close>).

  A rights mask is the C \<^verbatim>\<open>int\<close>, a \<^typ>\<open>cint\<close>. The configuration option \<^verbatim>\<open>deleteright\<close> is an
  argument. A list is the string \<^verbatim>\<open>identifier TAB rights TAB identifier TAB rights TAB\<close>; the
  loops walk its suffixes. The C loops write NUL over the separators of an entry to compare
  it and put the separators back, so the string they leave is the one they read.

  The authorization mechanism is a parameter: \<^verbatim>\<open>memberof\<close> for \<^verbatim>\<open>auth_memberof\<close> at a fixed
  user, \<^verbatim>\<open>canonifyid\<close> for \<^verbatim>\<open>auth_canonifyid\<close>; \<^verbatim>\<open>Auth_Unix\<close> provides both.
\<close>

named_theorems acl_bits \<open>the rights masks\<close>

section \<open>Rights\<close>

definition ACL_LOOKUP :: cint where [acl_bits]: "ACL_LOOKUP = 0x000001"
definition ACL_READ :: cint where [acl_bits]: "ACL_READ = 0x000002"
definition ACL_SEEN :: cint where [acl_bits]: "ACL_SEEN = 0x000004"
definition ACL_WRITE :: cint where [acl_bits]: "ACL_WRITE = 0x000008"
definition ACL_INSERT :: cint where [acl_bits]: "ACL_INSERT = 0x000010"
definition ACL_POST :: cint where [acl_bits]: "ACL_POST = 0x000020"
definition ACL_CREATE :: cint where [acl_bits]: "ACL_CREATE = 0x000040"
definition ACL_DELETEMBOX :: cint where [acl_bits]: "ACL_DELETEMBOX = 0x000080"
definition ACL_DELETEMSG :: cint where [acl_bits]: "ACL_DELETEMSG = 0x000100"
definition ACL_EXPUNGE :: cint where [acl_bits]: "ACL_EXPUNGE = 0x000200"
definition ACL_ADMIN :: cint where [acl_bits]: "ACL_ADMIN = 0x000400"
definition ACL_USER0 :: cint where [acl_bits]: "ACL_USER0 = 0x000800"
definition ACL_USER1 :: cint where [acl_bits]: "ACL_USER1 = 0x001000"
definition ACL_USER2 :: cint where [acl_bits]: "ACL_USER2 = 0x002000"
definition ACL_USER3 :: cint where [acl_bits]: "ACL_USER3 = 0x004000"
definition ACL_USER4 :: cint where [acl_bits]: "ACL_USER4 = 0x008000"
definition ACL_USER5 :: cint where [acl_bits]: "ACL_USER5 = 0x010000"
definition ACL_USER6 :: cint where [acl_bits]: "ACL_USER6 = 0x020000"
definition ACL_USER7 :: cint where [acl_bits]: "ACL_USER7 = 0x040000"
definition ACL_USER8 :: cint where [acl_bits]: "ACL_USER8 = 0x080000"
definition ACL_USER9 :: cint where [acl_bits]: "ACL_USER9 = 0x100000"
definition ACL_FULL :: cint where [acl_bits]: "ACL_FULL = 0x1FFFFF"

definition ACL_MAXSTR :: nat where "ACL_MAXSTR = 32"

datatype acl_mode = ACL_MODE_SET | ACL_MODE_ADD | ACL_MODE_REMOVE

section \<open>Letters to mask\<close>

text \<open>The state of the loop: \<^verbatim>\<open>result\<close>, \<^verbatim>\<open>legacy_create\<close>, \<^verbatim>\<open>legacy_delete\<close>.\<close>

type_synonym mask_state = "cint \<times> cint \<times> cint"

definition strtomask_letter :: "char \<Rightarrow> mask_state \<Rightarrow> mask_state" where
  "strtomask_letter c st = (case st of (result, legacy_create, legacy_delete) \<Rightarrow>
     if c = CHR ''l'' then (result OR ACL_LOOKUP, legacy_create, legacy_delete)
     else if c = CHR ''r'' then (result OR ACL_READ, legacy_create, legacy_delete)
     else if c = CHR ''s'' then (result OR ACL_SEEN, legacy_create, legacy_delete)
     else if c = CHR ''w'' then (result OR ACL_WRITE, legacy_create, legacy_delete)
     else if c = CHR ''i'' then (result OR ACL_INSERT, legacy_create, legacy_delete)
     else if c = CHR ''p'' then (result OR ACL_POST, legacy_create, legacy_delete)
     else if c = CHR ''c'' then (result, ACL_CREATE, legacy_delete)
     else if c = CHR ''k'' then (result OR ACL_CREATE, legacy_create, legacy_delete)
     else if c = CHR ''x'' then (result OR ACL_DELETEMBOX, legacy_create, legacy_delete)
     else if c = CHR ''t'' then (result OR ACL_DELETEMSG, legacy_create, legacy_delete)
     else if c = CHR ''e'' then (result OR ACL_EXPUNGE, legacy_create, legacy_delete)
     else if c = CHR ''d'' then (result, legacy_create, ACL_DELETEMSG OR ACL_EXPUNGE)
     else if c = CHR ''a'' then (result OR ACL_ADMIN, legacy_create, legacy_delete)
     else if c = CHR ''0'' then (result OR ACL_USER0, legacy_create, legacy_delete)
     else if c = CHR ''1'' then (result OR ACL_USER1, legacy_create, legacy_delete)
     else if c = CHR ''2'' then (result OR ACL_USER2, legacy_create, legacy_delete)
     else if c = CHR ''3'' then (result OR ACL_USER3, legacy_create, legacy_delete)
     else if c = CHR ''4'' then (result OR ACL_USER4, legacy_create, legacy_delete)
     else if c = CHR ''5'' then (result OR ACL_USER5, legacy_create, legacy_delete)
     else if c = CHR ''6'' then (result OR ACL_USER6, legacy_create, legacy_delete)
     else if c = CHR ''7'' then (result OR ACL_USER7, legacy_create, legacy_delete)
     else if c = CHR ''8'' then (result OR ACL_USER8, legacy_create, legacy_delete)
     else if c = CHR ''9'' then (result OR ACL_USER9, legacy_create, legacy_delete)
     else st)"

definition strtomask_deleteright :: "char \<Rightarrow> char \<Rightarrow> mask_state \<Rightarrow> mask_state" where
  "strtomask_deleteright dr c st = (case st of (result, legacy_create, legacy_delete) \<Rightarrow>
     if c = dr
     then (if dr = CHR ''c'' then (result, legacy_create OR ACL_DELETEMBOX, legacy_delete)
           else if dr = CHR ''d'' then (result, legacy_create, legacy_delete OR ACL_DELETEMBOX)
           else (result OR ACL_DELETEMBOX, legacy_create, legacy_delete))
     else st)"

fun strtomask_loop :: "char \<Rightarrow> string \<Rightarrow> mask_state \<Rightarrow> mask_state" where
  "strtomask_loop dr [] st = st"
| "strtomask_loop dr (c # str) st =
     strtomask_loop dr str (strtomask_deleteright dr c (strtomask_letter c st))"

definition cyrus_acl_strtomask :: "string \<Rightarrow> string \<Rightarrow> cint" where
  "cyrus_acl_strtomask deleteright str =
     (let (result, legacy_create, legacy_delete) =
            strtomask_loop (deref deleteright) str (0, 0, 0);
          result = (if result AND legacy_create = 0 then result OR legacy_create else result);
          result = (if result AND legacy_delete = 0 then result OR legacy_delete else result)
      in result)"

section \<open>Mask to letters\<close>

definition right_letter :: "cint \<Rightarrow> cint \<Rightarrow> char \<Rightarrow> string" where
  "right_letter acl right c = (if acl AND right \<noteq> 0 then [c] else [])"

definition legacy_create_mask :: "char \<Rightarrow> cint" where
  "legacy_create_mask dr =
     (if dr = CHR ''c'' then ACL_CREATE OR ACL_DELETEMBOX else ACL_CREATE)"

definition legacy_delete_mask :: "char \<Rightarrow> cint" where
  "legacy_delete_mask dr =
     (if dr = CHR ''d'' then (ACL_DELETEMSG OR ACL_EXPUNGE) OR ACL_DELETEMBOX
      else ACL_DELETEMSG OR ACL_EXPUNGE)"

definition cyrus_acl_masktostr :: "string \<Rightarrow> cint \<Rightarrow> string" where
  "cyrus_acl_masktostr deleteright acl =
     right_letter acl ACL_LOOKUP CHR ''l'' @
     right_letter acl ACL_READ CHR ''r'' @
     right_letter acl ACL_SEEN CHR ''s'' @
     right_letter acl ACL_WRITE CHR ''w'' @
     right_letter acl ACL_INSERT CHR ''i'' @
     right_letter acl ACL_POST CHR ''p'' @
     right_letter acl ACL_CREATE CHR ''k'' @
     right_letter acl ACL_DELETEMBOX CHR ''x'' @
     right_letter acl ACL_DELETEMSG CHR ''t'' @
     right_letter acl ACL_EXPUNGE CHR ''e'' @
     right_letter acl (legacy_create_mask (deref deleteright)) CHR ''c'' @
     right_letter acl (legacy_delete_mask (deref deleteright)) CHR ''d'' @
     right_letter acl ACL_ADMIN CHR ''a'' @
     right_letter acl ACL_USER0 CHR ''0'' @
     right_letter acl ACL_USER1 CHR ''1'' @
     right_letter acl ACL_USER2 CHR ''2'' @
     right_letter acl ACL_USER3 CHR ''3'' @
     right_letter acl ACL_USER4 CHR ''4'' @
     right_letter acl ACL_USER5 CHR ''5'' @
     right_letter acl ACL_USER6 CHR ''6'' @
     right_letter acl ACL_USER7 CHR ''7'' @
     right_letter acl ACL_USER8 CHR ''8'' @
     right_letter acl ACL_USER9 CHR ''9''"

section \<open>Lists of rights\<close>

text \<open>
  One entry read off the front of a list: the identifier, the rights and the rest.
  \<^verbatim>\<open>None\<close> at the end of the list and on trailing garbage, where the loops stop.
\<close>

definition next_entry :: "string \<Rightarrow> (string \<times> string \<times> string) option" where
  "next_entry thisid =
     (if thisid = [] then None
      else case strchr thisid TAB of
        None \<Rightarrow> None
      | Some (ident, rest) \<Rightarrow>
          (case strchr rest TAB of
             None \<Rightarrow> None
           | Some (rights, nextid) \<Rightarrow> Some (ident, rights, nextid)))"

lemma next_entry_shorter: "next_entry s = Some (i, r, n) \<Longrightarrow> length n < length s"
  by (auto simp: next_entry_def dest!: strchr_shorter split: if_splits option.splits)

function myrights_loop ::
  "(string \<Rightarrow> nat) \<Rightarrow> string \<Rightarrow> string \<Rightarrow> cint \<Rightarrow> cint \<Rightarrow> cint \<times> cint" where
  "myrights_loop memberof deleteright thisid acl_positive acl_negative =
     (case next_entry thisid of
        None \<Rightarrow> (acl_positive, acl_negative)
      | Some (ident, rights, nextid) \<Rightarrow>
          if deref ident = CHR ''-'' then
            (if memberof (tl ident) \<noteq> 0
             then myrights_loop memberof deleteright nextid acl_positive
                    (acl_negative OR cyrus_acl_strtomask deleteright rights)
             else myrights_loop memberof deleteright nextid acl_positive acl_negative)
          else
            (if memberof ident \<noteq> 0
             then myrights_loop memberof deleteright nextid
                    (acl_positive OR cyrus_acl_strtomask deleteright rights) acl_negative
             else myrights_loop memberof deleteright nextid acl_positive acl_negative))"
  by pat_completeness auto
termination
  by (relation "measure (\<lambda>(_, _, s, _, _). length s)") (auto dest: next_entry_shorter)

definition cyrus_acl_myrights :: "(string \<Rightarrow> nat) \<Rightarrow> string \<Rightarrow> string \<Rightarrow> cint" where
  "cyrus_acl_myrights memberof deleteright acl =
     (let (acl_positive, acl_negative) = myrights_loop memberof deleteright acl 0 0
      in acl_positive AND NOT acl_negative)"

text \<open>
  The search of \<^verbatim>\<open>cyrus_acl_set\<close> for an existing entry: the text before the entry (the bytes
  \<^verbatim>\<open>*acl\<close> to \<^verbatim>\<open>thisid\<close>), the text after it (\<^verbatim>\<open>nextid\<close>) and the rights it had. Where the list
  ends or turns into garbage, the garbage is cut off and \<^verbatim>\<open>nextid\<close> is empty.
\<close>

function acl_find :: "string \<Rightarrow> string \<Rightarrow> string \<Rightarrow> string \<times> string \<times> cint" where
  "acl_find deleteright identifier thisid =
     (case next_entry thisid of
        None \<Rightarrow> ([], [], 0)
      | Some (ident, rights, nextid) \<Rightarrow>
          if identifier = ident
          then ([], nextid, cyrus_acl_strtomask deleteright rights)
          else
            let (before, after, oldaccess) = acl_find deleteright identifier nextid
            in (ident @ TAB # rights @ TAB # before, after, oldaccess))"
  by pat_completeness auto
termination
  by (relation "measure (\<lambda>(_, _, s). length s)") (auto dest: next_entry_shorter)

declare myrights_loop.simps [simp del] acl_find.simps [simp del]

text \<open>The first part of \<^verbatim>\<open>cyrus_acl_set\<close>: the canonical identifier and access, or -1.\<close>

definition acl_set_canon ::
  "(string \<Rightarrow> string option) \<Rightarrow> (string \<Rightarrow> cint \<Rightarrow> cint) option \<Rightarrow> string \<Rightarrow> cint \<Rightarrow>
   (string \<times> cint) option" where
  "acl_set_canon canonifyid canonproc identifier access =
     (if deref identifier = CHR ''-'' then
        (case canonifyid (tl identifier) of
           None \<Rightarrow>
             if access \<noteq> 0 then None
             else Some (CHR ''-'' # tl identifier,
               (case canonproc of None \<Rightarrow> access
                | Some f \<Rightarrow> NOT (f (tl identifier) (NOT access))))
         | Some canonid \<Rightarrow>
             Some (CHR ''-'' # canonid,
               (case canonproc of None \<Rightarrow> access
                | Some f \<Rightarrow> NOT (f canonid (NOT access)))))
      else
        (case canonifyid identifier of
           None \<Rightarrow>
             if access \<noteq> 0 then None
             else Some (identifier,
               (case canonproc of None \<Rightarrow> access | Some f \<Rightarrow> f identifier access))
         | Some canonid \<Rightarrow>
             Some (canonid,
               (case canonproc of None \<Rightarrow> access | Some f \<Rightarrow> f canonid access))))"

definition acl_mode_access :: "acl_mode \<Rightarrow> cint \<Rightarrow> cint \<Rightarrow> cint" where
  "acl_mode_access mode oldaccess access = (case mode of
     ACL_MODE_SET \<Rightarrow> access
   | ACL_MODE_ADD \<Rightarrow> access OR oldaccess
   | ACL_MODE_REMOVE \<Rightarrow> oldaccess AND NOT access)"

text \<open>\<^verbatim>\<open>None\<close> is the return value -1, \<^verbatim>\<open>Some\<close> the new list.\<close>

definition cyrus_acl_set ::
  "(string \<Rightarrow> string option) \<Rightarrow> (string \<Rightarrow> cint \<Rightarrow> cint) option \<Rightarrow> string \<Rightarrow>
   string \<Rightarrow> string \<Rightarrow> acl_mode \<Rightarrow> cint \<Rightarrow> string option" where
  "cyrus_acl_set canonifyid canonproc deleteright acl identifier0 mode access0 =
     (case acl_set_canon canonifyid canonproc identifier0 access0 of
        None \<Rightarrow> None
      | Some (identifier, access1) \<Rightarrow>
          let (before, nextid, oldaccess) = acl_find deleteright identifier acl;
              access = acl_mode_access mode oldaccess access1
          in if access = 0 then Some (before @ nextid)
             else Some (before @ identifier @ [TAB] @
                    cyrus_acl_masktostr deleteright access @ [TAB] @ nextid))"

definition cyrus_acl_remove ::
  "(string \<Rightarrow> string option) \<Rightarrow> (string \<Rightarrow> cint \<Rightarrow> cint) option \<Rightarrow> string \<Rightarrow>
   string \<Rightarrow> string \<Rightarrow> string option" where
  "cyrus_acl_remove canonifyid canonproc deleteright acl identifier =
     cyrus_acl_set canonifyid canonproc deleteright acl identifier ACL_MODE_SET 0"

section \<open>The mask and its letters\<close>

text \<open>A right is one bit: a mask has all of it or nothing.\<close>

definition one_bit :: "cint \<Rightarrow> bool" where
  "one_bit b \<longleftrightarrow> (\<forall>a. a AND b = 0 \<or> a AND b = b)"

lemma one_bit_exp: "one_bit (2 ^ n)"
proof -
  have "a AND 2 ^ n = 2 ^ n" if "bit a n" for a :: cint
    using that by (intro bit_word_eqI) (auto simp: bit_simps)
  then show ?thesis
    unfolding one_bit_def using and_exp_eq_0_iff_not_bit by metis
qed

lemma one_bit_rights [simp]:
  "one_bit ACL_LOOKUP" "one_bit ACL_READ" "one_bit ACL_SEEN" "one_bit ACL_WRITE"
  "one_bit ACL_INSERT" "one_bit ACL_POST" "one_bit ACL_CREATE" "one_bit ACL_DELETEMBOX"
  "one_bit ACL_DELETEMSG" "one_bit ACL_EXPUNGE" "one_bit ACL_ADMIN" "one_bit ACL_USER0"
  "one_bit ACL_USER1" "one_bit ACL_USER2" "one_bit ACL_USER3" "one_bit ACL_USER4"
  "one_bit ACL_USER5" "one_bit ACL_USER6" "one_bit ACL_USER7" "one_bit ACL_USER8"
  "one_bit ACL_USER9"
  unfolding acl_bits
  using one_bit_exp [of 0] one_bit_exp [of 1] one_bit_exp [of 2] one_bit_exp [of 3]
    one_bit_exp [of 4] one_bit_exp [of 5] one_bit_exp [of 6] one_bit_exp [of 7]
    one_bit_exp [of 8] one_bit_exp [of 9] one_bit_exp [of 10] one_bit_exp [of 11]
    one_bit_exp [of 12] one_bit_exp [of 13] one_bit_exp [of 14] one_bit_exp [of 15]
    one_bit_exp [of 16] one_bit_exp [of 17] one_bit_exp [of 18] one_bit_exp [of 19]
    one_bit_exp [of 20]
  by simp_all

lemma strtomask_loop_right:
  assumes "one_bit b"
    and "\<And>r. strtomask_deleteright dr c (strtomask_letter c (r, lc, ld)) = (r OR b, lc, ld)"
  shows "strtomask_loop dr (right_letter acl b c @ s) (r, lc, ld) =
    strtomask_loop dr s (r OR (acl AND b), lc, ld)"
    and "strtomask_loop dr (right_letter acl b c) (r, lc, ld) = (r OR (acl AND b), lc, ld)"
  using assms by (auto simp: right_letter_def one_bit_def)

lemma strtomask_loop_macro:
  "strtomask_loop dr (right_letter acl (legacy_create_mask dr) CHR ''c'' @ s) (r, lc, ld) =
     strtomask_loop dr s
       (r, if acl AND legacy_create_mask dr \<noteq> 0 then legacy_create_mask dr else lc, ld)"
  "strtomask_loop dr (right_letter acl (legacy_delete_mask dr) CHR ''d'' @ s) (r, lc, ld) =
     strtomask_loop dr s
       (r, lc, if acl AND legacy_delete_mask dr \<noteq> 0 then legacy_delete_mask dr else ld)"
  by (auto simp: right_letter_def strtomask_letter_def strtomask_deleteright_def
      legacy_create_mask_def legacy_delete_mask_def)

text \<open>
  The option \<^verbatim>\<open>deleteright\<close> makes sense when it names one of the two macros, the right
  itself, or nothing that has a meaning of its own.
\<close>

definition deleteright_ok :: "string \<Rightarrow> bool" where
  "deleteright_ok dr \<longleftrightarrow> list_all (\<lambda>c. c \<noteq> deref dr) ''lrswipktea0123456789''"

lemma masktostr_loop:
  assumes "deleteright_ok dr"
  shows "strtomask_loop (deref dr) (cyrus_acl_masktostr dr acl) (0, 0, 0) =
    (acl AND ACL_FULL,
     if acl AND legacy_create_mask (deref dr) \<noteq> 0 then legacy_create_mask (deref dr) else 0,
     if acl AND legacy_delete_mask (deref dr) \<noteq> 0 then legacy_delete_mask (deref dr) else 0)"
proof -
  define r :: cint where "r = (((((((((((((((((((((acl AND ACL_LOOKUP) OR (acl AND ACL_READ))
    OR (acl AND ACL_SEEN)) OR (acl AND ACL_WRITE)) OR (acl AND ACL_INSERT)) OR (acl AND ACL_POST))
    OR (acl AND ACL_CREATE)) OR (acl AND ACL_DELETEMBOX)) OR (acl AND ACL_DELETEMSG))
    OR (acl AND ACL_EXPUNGE)) OR (acl AND ACL_ADMIN)) OR (acl AND ACL_USER0))
    OR (acl AND ACL_USER1)) OR (acl AND ACL_USER2)) OR (acl AND ACL_USER3)) OR (acl AND ACL_USER4))
    OR (acl AND ACL_USER5)) OR (acl AND ACL_USER6)) OR (acl AND ACL_USER7)) OR (acl AND ACL_USER8))
    OR (acl AND ACL_USER9))"
  have r: "r = acl AND ACL_FULL"
    unfolding r_def bit.conj_disj_distrib [symmetric] by (simp add: acl_bits)
  show ?thesis
    using assms unfolding r [symmetric] r_def cyrus_acl_masktostr_def
    by (simp add: strtomask_loop_right strtomask_loop_macro strtomask_letter_def
        strtomask_deleteright_def deleteright_ok_def)
qed

lemma acl_mask_read_back:
  assumes "deleteright_ok deleteright"
  shows "cyrus_acl_strtomask deleteright (cyrus_acl_masktostr deleteright acl) = acl AND ACL_FULL"
proof -
  let ?dr = "deref deleteright"
  have sub: "ACL_FULL AND legacy_create_mask ?dr = legacy_create_mask ?dr"
    "ACL_FULL AND legacy_delete_mask ?dr = legacy_delete_mask ?dr"
    by (simp_all add: legacy_create_mask_def legacy_delete_mask_def acl_bits)
  have "(acl AND ACL_FULL) AND legacy_create_mask ?dr = acl AND legacy_create_mask ?dr"
    "(acl AND ACL_FULL) AND legacy_delete_mask ?dr = acl AND legacy_delete_mask ?dr"
    by (simp_all only: and.assoc sub)
  then show ?thesis
    by (simp add: cyrus_acl_strtomask_def masktostr_loop [OF assms])
qed

section \<open>Bounds\<close>

lemma right_letter_length: "length (right_letter acl b c) \<le> 1"
  by (simp add: right_letter_def)

lemma masktostr_length: "length (cyrus_acl_masktostr deleteright acl) \<le> 23"
proof -
  have step: "length (right_letter acl b c @ s) \<le> Suc n" if "length s \<le> n" for b c s n
    using right_letter_length [of acl b c] that by simp
  have "length (cyrus_acl_masktostr deleteright acl) \<le> Suc (Suc (Suc (Suc (Suc (Suc (Suc (Suc (Suc
      (Suc (Suc (Suc (Suc (Suc (Suc (Suc (Suc (Suc (Suc (Suc (Suc (Suc 1)))))))))))))))))))))"
    unfolding cyrus_acl_masktostr_def by (intro step right_letter_length)
  then show ?thesis by simp
qed

lemma masktostr_no_tab: "TAB \<notin> set (cyrus_acl_masktostr deleteright acl)"
  by (auto simp: cyrus_acl_masktostr_def right_letter_def)

section \<open>The entries of a list\<close>

text \<open>The abstract view of a list: its entries in order, without trailing garbage.\<close>

function acl_entries :: "string \<Rightarrow> (string \<times> string) list" where
  "acl_entries s = (case next_entry s of
     None \<Rightarrow> [] | Some (ident, rights, nextid) \<Rightarrow> (ident, rights) # acl_entries nextid)"
  by pat_completeness auto
termination
  by (relation "measure length") (auto dest: next_entry_shorter)

declare acl_entries.simps [simp del]

definition acl_text :: "(string \<times> string) list \<Rightarrow> string" where
  "acl_text es = concat (map (\<lambda>(i, r). i @ TAB # r @ [TAB]) es)"

lemma acl_text_simps [simp]:
  "acl_text [] = []" "acl_text ((i, r) # es) = i @ TAB # r @ TAB # acl_text es"
  by (simp_all add: acl_text_def)

lemma next_entry_Some_iff:
  "next_entry s = Some (i, r, n) \<longleftrightarrow> s = i @ TAB # r @ TAB # n \<and> TAB \<notin> set i \<and> TAB \<notin> set r"
  (is "?L \<longleftrightarrow> ?R")
proof
  assume ?L
  then show ?R by (auto simp: next_entry_def strchr_Some_iff split: if_splits option.splits)
next
  assume ?R
  then show ?L by (simp add: next_entry_def)
qed

lemma next_entry_entry [simp]:
  "TAB \<notin> set i \<Longrightarrow> TAB \<notin> set r \<Longrightarrow> next_entry (i @ TAB # r @ TAB # n) = Some (i, r, n)"
  by (simp add: next_entry_Some_iff)

lemma acl_entries_entry [simp]:
  "TAB \<notin> set i \<Longrightarrow> TAB \<notin> set r \<Longrightarrow>
     acl_entries (i @ TAB # r @ TAB # n) = (i, r) # acl_entries n"
  by (simp add: acl_entries.simps [of "i @ TAB # r @ TAB # n"])

lemma acl_entries_None: "next_entry s = None \<Longrightarrow> acl_entries s = []"
  by (simp add: acl_entries.simps [of s])

lemma acl_entries_Nil [simp]: "acl_entries [] = []"
  by (simp add: acl_entries_None next_entry_def)

text \<open>Walking a list entry by entry, as every loop of the module does.\<close>

lemma acl_walk [case_names stop entry]:
  assumes "\<And>s. next_entry s = None \<Longrightarrow> P s"
    and "\<And>i r n. TAB \<notin> set i \<Longrightarrow> TAB \<notin> set r \<Longrightarrow> P n \<Longrightarrow> P (i @ TAB # r @ TAB # n)"
  shows "P s"
proof (induction s rule: acl_entries.induct)
  case (1 s)
  show ?case
  proof (cases "next_entry s")
    case None
    then show ?thesis by (rule assms(1))
  next
    case (Some e)
    obtain i r n where e: "e = (i, r, n)" by (cases e)
    with Some have "P n" using "1.IH" by blast
    with Some e show ?thesis by (auto simp: next_entry_Some_iff intro: assms(2))
  qed
qed

definition acl_wf :: "(string \<times> string) list \<Rightarrow> bool" where
  "acl_wf es \<longleftrightarrow> (\<forall>(i, r) \<in> set es. TAB \<notin> set i \<and> TAB \<notin> set r)"

lemma acl_entries_wf: "acl_wf (acl_entries s)"
  by (induction s rule: acl_walk) (auto simp: acl_wf_def acl_entries_None)

lemma acl_entries_text: "acl_wf es \<Longrightarrow> acl_entries (acl_text es @ s) = es @ acl_entries s"
  by (induction es) (auto simp: acl_wf_def)

section \<open>Effective rights\<close>

text \<open>The rights a set of entries grants to, or with a leading minus takes from, a user.\<close>

fun acl_granted :: "(string \<Rightarrow> nat) \<Rightarrow> string \<Rightarrow> (string \<times> string) list \<Rightarrow> cint" where
  "acl_granted memberof dr [] = 0"
| "acl_granted memberof dr ((i, r) # es) =
     (if deref i \<noteq> CHR ''-'' \<and> memberof i \<noteq> 0
      then cyrus_acl_strtomask dr r OR acl_granted memberof dr es
      else acl_granted memberof dr es)"

fun acl_denied :: "(string \<Rightarrow> nat) \<Rightarrow> string \<Rightarrow> (string \<times> string) list \<Rightarrow> cint" where
  "acl_denied memberof dr [] = 0"
| "acl_denied memberof dr ((i, r) # es) =
     (if deref i = CHR ''-'' \<and> memberof (tl i) \<noteq> 0
      then cyrus_acl_strtomask dr r OR acl_denied memberof dr es
      else acl_denied memberof dr es)"

lemma myrights_loop_eq:
  "myrights_loop memberof dr s p n =
     (p OR acl_granted memberof dr (acl_entries s), n OR acl_denied memberof dr (acl_entries s))"
proof (induction s arbitrary: p n rule: acl_walk)
  case (stop s)
  then show ?case by (simp add: myrights_loop.simps [of _ _ s] acl_entries_None)
next
  case (entry i r s)
  then show ?case
    by (auto simp: myrights_loop.simps [of _ _ "i @ TAB # r @ TAB # s"] or.assoc)
qed

lemma acl_granted_append:
  "acl_granted memberof dr (es @ fs) = acl_granted memberof dr es OR acl_granted memberof dr fs"
  by (induction es) (auto simp: or.assoc)

lemma acl_denied_append:
  "acl_denied memberof dr (es @ fs) = acl_denied memberof dr es OR acl_denied memberof dr fs"
  by (induction es) (auto simp: or.assoc)

lemma cyrus_acl_myrights_eq:
  "cyrus_acl_myrights memberof dr acl =
     acl_granted memberof dr (acl_entries acl) AND NOT (acl_denied memberof dr (acl_entries acl))"
  by (simp add: cyrus_acl_myrights_def myrights_loop_eq)

section \<open>Changing a list\<close>

text \<open>What \<^verbatim>\<open>acl_find\<close> splits the list into.\<close>

lemma acl_find_split:
  assumes "acl_find dr ident s = (before, after, old)"
  shows "(\<exists>es r fs. acl_entries s = es @ (ident, r) # fs \<and> ident \<notin> fst ` set es \<and>
            before = acl_text es \<and> acl_entries after = fs \<and> old = cyrus_acl_strtomask dr r) \<or>
         (ident \<notin> fst ` set (acl_entries s) \<and> before = acl_text (acl_entries s) \<and>
            after = [] \<and> old = 0)"
  using assms
proof (induction s arbitrary: before after old rule: acl_walk)
  case (stop s)
  then show ?case by (simp add: acl_find.simps [of _ _ s] acl_entries_None)
next
  case (entry i r n)
  show ?case
  proof (cases "ident = i")
    case True
    with entry show ?thesis
      by (intro disjI1 exI [of _ "[]"] exI [of _ r] exI [of _ "acl_entries n"])
        (auto simp: acl_find.simps [of _ _ "i @ TAB # r @ TAB # n"])
  next
    case False
    with entry obtain b where b: "acl_find dr ident n = (b, after, old)"
      and before: "before = i @ TAB # r @ TAB # b"
      by (auto simp: acl_find.simps [of _ _ "i @ TAB # r @ TAB # n"] split: prod.splits)
    from entry.IH [OF b] show ?thesis
    proof (elim disjE exE conjE)
      fix es q fs
      assume "acl_entries n = es @ (ident, q) # fs" "ident \<notin> fst ` set es"
        "b = acl_text es" "acl_entries after = fs" "old = cyrus_acl_strtomask dr q"
      with entry False before show ?thesis
        by (intro disjI1 exI [of _ "(i, r) # es"] exI [of _ q] exI [of _ fs]) auto
    qed (use entry False before in auto)
  qed
qed

text \<open>The rights a list gives to an identifier, the first entry counting.\<close>

abbreviation acl_map :: "string \<Rightarrow> string \<rightharpoonup> string" where
  "acl_map acl \<equiv> map_of (acl_entries acl)"

definition acl_old :: "string \<Rightarrow> string \<Rightarrow> string \<Rightarrow> cint" where
  "acl_old dr acl ident = (case acl_map acl ident of
     None \<Rightarrow> 0 | Some r \<Rightarrow> cyrus_acl_strtomask dr r)"

lemma acl_set_entries:
  assumes set: "cyrus_acl_set canon cp dr acl ident0 mode access0 = Some acl'"
    and canon: "acl_set_canon canon cp ident0 access0 = Some (ident, access1)"
    and tab: "TAB \<notin> set ident"
  shows "let access = acl_mode_access mode (acl_old dr acl ident) access1;
             new = (if access = 0 then [] else [(ident, cyrus_acl_masktostr dr access)])
         in (\<exists>es r fs. acl_entries acl = es @ (ident, r) # fs \<and> ident \<notin> fst ` set es \<and>
                acl_entries acl' = es @ new @ fs) \<or>
            (ident \<notin> fst ` set (acl_entries acl) \<and> acl_entries acl' = acl_entries acl @ new)"
proof -
  obtain before after old where f: "acl_find dr ident acl = (before, after, old)"
    by (metis prod_cases3)
  let ?a = "acl_mode_access mode old access1"
  have acl': "acl' = (if ?a = 0 then before @ after
      else before @ ident @ TAB # cyrus_acl_masktostr dr ?a @ TAB # after)"
    using set canon f by (auto simp: cyrus_acl_set_def split: if_splits)
  have wf: "acl_wf (acl_entries acl)" by (rule acl_entries_wf)
  from acl_find_split [OF f] show ?thesis
  proof (elim disjE exE conjE)
    fix es r fs
    assume e: "acl_entries acl = es @ (ident, r) # fs" "ident \<notin> fst ` set es"
      "before = acl_text es" "acl_entries after = fs" "old = cyrus_acl_strtomask dr r"
    have "map_of es ident = None" using e(2) by (simp add: map_of_eq_None_iff)
    with e have "acl_old dr acl ident = old"
      by (simp add: acl_old_def map_add_def)
    moreover have "acl_wf es" using wf e(1) by (auto simp: acl_wf_def)
    ultimately show ?thesis
      using e acl' tab by (auto simp: Let_def acl_entries_text masktostr_no_tab)
  next
    assume e: "ident \<notin> fst ` set (acl_entries acl)" "before = acl_text (acl_entries acl)"
      "after = []" "old = 0"
    then have "acl_map acl ident = None" by (simp add: map_of_eq_None_iff)
    with e have "acl_old dr acl ident = old" by (simp add: acl_old_def)
    then show ?thesis
      using e acl' tab acl_entries_text [OF wf, of "[]"]
        acl_entries_text [OF wf, of "ident @ TAB # cyrus_acl_masktostr dr ?a @ [TAB]"]
      by (auto simp: Let_def masktostr_no_tab)
  qed
qed

lemma acl_mode_access_SET [simp]: "acl_mode_access ACL_MODE_SET old access = access"
  by (simp add: acl_mode_access_def)

lemma filter_other: "k \<notin> fst ` set es \<Longrightarrow> filter (\<lambda>(i, r). i \<noteq> k) es = es"
  by (induction es) auto

text \<open>
  Under the contract of the authorization mechanism a tab never enters the list with an
  identifier.
\<close>

context auth_canon
begin

lemma set_canon_no_tab:
  assumes "acl_set_canon canonifyid cp ident0 access0 = Some (ident, access1)"
    and "TAB \<notin> set ident0"
  shows "TAB \<notin> set ident"
proof -
  have "TAB \<notin> set (tl ident0)" using assms(2) by (cases ident0) auto
  then show ?thesis
    using assms by (auto simp: acl_set_canon_def split: if_splits option.splits dest: canon_no_tab)
qed

lemma acl_set_map:
  assumes set: "cyrus_acl_set canonifyid cp dr acl ident0 mode access0 = Some acl'"
    and tab: "TAB \<notin> set ident0"
    and dist: "distinct (map fst (acl_entries acl))"
  shows "\<exists>ident access1. acl_set_canon canonifyid cp ident0 access0 = Some (ident, access1) \<and>
    distinct (map fst (acl_entries acl')) \<and>
    (let access = acl_mode_access mode (acl_old dr acl ident) access1 in
     acl_map acl' = (acl_map acl)
       (ident := if access = 0 then None else Some (cyrus_acl_masktostr dr access)))"
proof -
  obtain ident access1 where canon: "acl_set_canon canonifyid cp ident0 access0 = Some (ident, access1)"
    using set by (auto simp: cyrus_acl_set_def split: option.splits)
  let ?a = "acl_mode_access mode (acl_old dr acl ident) access1"
  let ?new = "if ?a = 0 then [] else [(ident, cyrus_acl_masktostr dr ?a)]"
  have E: "(\<exists>es r fs. acl_entries acl = es @ (ident, r) # fs \<and> ident \<notin> fst ` set es \<and>
                acl_entries acl' = es @ ?new @ fs) \<or>
            (ident \<notin> fst ` set (acl_entries acl) \<and> acl_entries acl' = acl_entries acl @ ?new)"
    using acl_set_entries [OF set canon set_canon_no_tab [OF canon tab]] by (simp add: Let_def)
  have D: "distinct (map fst (acl_entries acl'))"
    using E dist by auto
  have "acl_map acl' k = ((acl_map acl)(ident := if ?a = 0 then None
      else Some (cyrus_acl_masktostr dr ?a))) k" for k
    using E
  proof (elim disjE exE conjE)
    fix es r fs
    assume e: "acl_entries acl = es @ (ident, r) # fs" "ident \<notin> fst ` set es"
      "acl_entries acl' = es @ ?new @ fs"
    then have "map_of es ident = None" "map_of fs ident = None"
      using dist by (auto simp: map_of_eq_None_iff)
    with e show ?thesis by (auto simp: map_add_def split: option.split)
  next
    assume e: "ident \<notin> fst ` set (acl_entries acl)" "acl_entries acl' = acl_entries acl @ ?new"
    then have "acl_map acl ident = None" by (simp add: map_of_eq_None_iff)
    with e show ?thesis by (auto simp: map_add_def split: option.split)
  qed
  with canon D show ?thesis by (auto simp: Let_def fun_eq_iff)
qed

lemma acl_set_myrights:
  assumes set: "cyrus_acl_set canonifyid cp dr acl ident0 ACL_MODE_SET access0 = Some acl'"
    and canon: "acl_set_canon canonifyid cp ident0 access0 = Some (ident, access)"
    and tab: "TAB \<notin> set ident0"
    and dist: "distinct (map fst (acl_entries acl))"
    and dr: "deleteright_ok dr"
  defines "others \<equiv> filter (\<lambda>(i, r). i \<noteq> ident) (acl_entries acl)"
  shows "cyrus_acl_myrights memberof dr acl' =
    (acl_granted memberof dr others OR
       (if deref ident \<noteq> CHR ''-'' \<and> memberof ident \<noteq> 0 then access AND ACL_FULL else 0)) AND
    NOT (acl_denied memberof dr others OR
       (if deref ident = CHR ''-'' \<and> memberof (tl ident) \<noteq> 0 then access AND ACL_FULL else 0))"
proof -
  let ?new = "if access = 0 then [] else [(ident, cyrus_acl_masktostr dr access)]"
  have G: "acl_granted memberof dr ?new =
      (if deref ident \<noteq> CHR ''-'' \<and> memberof ident \<noteq> 0 then access AND ACL_FULL else 0)"
    and N: "acl_denied memberof dr ?new =
      (if deref ident = CHR ''-'' \<and> memberof (tl ident) \<noteq> 0 then access AND ACL_FULL else 0)"
    by (auto simp: acl_mask_read_back [OF dr])
  have "\<exists>es fs. others = es @ fs \<and> acl_entries acl' = es @ ?new @ fs"
    using acl_set_entries [OF set canon set_canon_no_tab [OF canon tab]]
    unfolding Let_def acl_mode_access_SET
  proof (elim disjE exE conjE)
    fix es r fs
    assume e: "acl_entries acl = es @ (ident, r) # fs" "acl_entries acl' = es @ ?new @ fs"
    have "ident \<notin> fst ` set es" "ident \<notin> fst ` set fs"
      using dist e(1) by auto
    with e show ?thesis by (auto simp: others_def filter_other)
  next
    assume e: "ident \<notin> fst ` set (acl_entries acl)" "acl_entries acl' = acl_entries acl @ ?new"
    then show ?thesis by (intro exI [of _ others] exI [of _ "[]"]) (simp add: others_def filter_other)
  qed
  then obtain es fs where "others = es @ fs" and "acl_entries acl' = es @ ?new @ fs" by blast
  then have "acl_granted memberof dr (acl_entries acl') =
      acl_granted memberof dr others OR acl_granted memberof dr ?new"
    and "acl_denied memberof dr (acl_entries acl') =
      acl_denied memberof dr others OR acl_denied memberof dr ?new"
    by (simp_all only: acl_granted_append acl_denied_append or.assoc or.commute or.left_commute)
  then show ?thesis by (simp only: cyrus_acl_myrights_eq G N)
qed

end

section \<open>Properties\<close>

text \<open>
  C32: the letters written for a mask read back as that mask, reduced to the rights that
  exist. The legacy macros \<^verbatim>\<open>c\<close> and \<^verbatim>\<open>d\<close> that \<^verbatim>\<open>cyrus_acl_masktostr\<close> adds for old clients
  never add a right on the way back, for every setting of \<^verbatim>\<open>deleteright\<close> that names a macro,
  the delete-mailbox right or no other right.
\<close>

theorem acl_mask_roundtrip:
  assumes "deleteright_ok deleteright"
  shows "cyrus_acl_strtomask deleteright (cyrus_acl_masktostr deleteright acl) = acl AND ACL_FULL"
  using assms by (rule acl_mask_read_back)

theorem acl_mask_roundtrip_witness:
  "cyrus_acl_strtomask ''c'' (cyrus_acl_masktostr ''c'' 0xC3) = 0xC3"
  using acl_mask_roundtrip [of "''c''" "0xC3"] by (simp add: deleteright_ok_def ACL_FULL_def)

text \<open>
  C27: with the Unix mechanism, a successful change of a list with pairwise different
  identifiers changes exactly the entry of the canonical identifier: it is removed when the
  resulting rights are empty, and otherwise holds the letters of the rights that the mode
  (set, add, remove) computes from the old ones; every other entry is kept and the
  identifiers stay pairwise different.
\<close>

theorem acl_set_changes_one_entry:
  assumes "cyrus_acl_set (\<lambda>i. mycanonifyid db lower i 0) canonproc deleteright acl
      identifier mode access = Some acl'"
    and "TAB \<notin> set identifier"
    and "distinct (map fst (acl_entries acl))"
  shows "\<exists>ident access1.
    acl_set_canon (\<lambda>i. mycanonifyid db lower i 0) canonproc identifier access =
      Some (ident, access1) \<and>
    distinct (map fst (acl_entries acl')) \<and>
    (let new = acl_mode_access mode (acl_old deleteright acl ident) access1 in
     acl_map acl' = (acl_map acl)
       (ident := if new = 0 then None else Some (cyrus_acl_masktostr deleteright new)))"
  using assms by (rule unix_canon.acl_set_map)

lemma acl_witness_eval:
  "cyrus_acl_set (\<lambda>i. mycanonifyid [] False i 0) None ''c''
     (''bob'' @ TAB # ''lr'' @ [TAB]) ''ann'' ACL_MODE_SET 3 =
   Some (''bob'' @ TAB # ''lr'' @ TAB # ''ann'' @ TAB # ''lr'' @ [TAB])"
  by code_simp

lemma acl_witness_distinct:
  "distinct (map fst (acl_entries (''bob'' @ TAB # ''lr'' @ [TAB])))"
  using acl_entries_entry [of "''bob''" "''lr''" "[]"] by simp

theorem acl_set_changes_one_entry_witness:
  "\<exists>ident access1.
    acl_set_canon (\<lambda>i. mycanonifyid [] False i 0) None ''ann'' 3 = Some (ident, access1) \<and>
    distinct (map fst (acl_entries (''bob'' @ TAB # ''lr'' @ TAB # ''ann'' @ TAB # ''lr'' @ [TAB]))) \<and>
    (let new = acl_mode_access ACL_MODE_SET (acl_old ''c'' (''bob'' @ TAB # ''lr'' @ [TAB]) ident) access1 in
     acl_map (''bob'' @ TAB # ''lr'' @ TAB # ''ann'' @ TAB # ''lr'' @ [TAB]) =
       (acl_map (''bob'' @ TAB # ''lr'' @ [TAB]))
       (ident := if new = 0 then None else Some (cyrus_acl_masktostr ''c'' new)))"
  by (rule acl_set_changes_one_entry [OF acl_witness_eval _ acl_witness_distinct]) simp

text \<open>
  C26: the effective rights after setting an identifier. For a user of the Unix mechanism,
  they are what the other entries grant, together with the rights set if the user is the
  identifier or in its group, less what negative entries deny.
\<close>

theorem acl_set_effective_rights:
  assumes "cyrus_acl_set (\<lambda>i. mycanonifyid db lower i 0) canonproc deleteright acl
      identifier ACL_MODE_SET access0 = Some acl'"
    and "acl_set_canon (\<lambda>i. mycanonifyid db lower i 0) canonproc identifier access0 =
      Some (ident, access)"
    and "TAB \<notin> set identifier"
    and "distinct (map fst (acl_entries acl))"
    and "deleteright_ok deleteright"
  shows "cyrus_acl_myrights (mymemberof user) deleteright acl' =
    (let others = filter (\<lambda>(i, r). i \<noteq> ident) (acl_entries acl) in
    (acl_granted (mymemberof user) deleteright others OR
       (if deref ident \<noteq> CHR ''-'' \<and> mymemberof user ident \<noteq> 0 then access AND ACL_FULL else 0)) AND
    NOT (acl_denied (mymemberof user) deleteright others OR
       (if deref ident = CHR ''-'' \<and> mymemberof user (tl ident) \<noteq> 0
        then access AND ACL_FULL else 0)))"
  unfolding Let_def using assms by (rule unix_canon.acl_set_myrights)

lemma acl_witness_canon:
  "acl_set_canon (\<lambda>i. mycanonifyid [] False i 0) None ''ann'' 3 = Some (''ann'', 3)"
  by code_simp

theorem acl_set_effective_rights_witness:
  "cyrus_acl_myrights (mymemberof (Some \<lparr>userid = ''ann'', group = [], ngroups = 0\<rparr>)) ''c''
     (''bob'' @ TAB # ''lr'' @ TAB # ''ann'' @ TAB # ''lr'' @ [TAB]) = 3"
proof -
  have "deleteright_ok ''c''" by (simp add: deleteright_ok_def)
  moreover have "acl_entries (''bob'' @ TAB # ''lr'' @ [TAB]) = [(''bob'', ''lr'')]"
    using acl_entries_entry [of "''bob''" "''lr''" "[]"] by simp
  ultimately show ?thesis
    using acl_set_effective_rights [OF acl_witness_eval acl_witness_canon _ acl_witness_distinct,
        of "Some \<lparr>userid = ''ann'', group = [], ngroups = 0\<rparr>"]
    by (simp add: mymemberof_def strn_eq_def acl_bits)
qed

text \<open>
  the buffers are large enough. The letters of a mask fit in \<^verbatim>\<open>ACL_MAXSTR\<close> bytes with
  their NUL, and the new list \<^verbatim>\<open>cyrus_acl_set\<close> builds, with its NUL, fits in the
  \<^verbatim>\<open>(thisid - *acl) + strlen(identifier) + 40 + strlen(nextid)\<close> bytes it allocates.
\<close>

theorem acl_buffers_suffice:
  "length (cyrus_acl_masktostr deleteright acl) + 1 \<le> ACL_MAXSTR \<and>
   length (before @ identifier @ [TAB] @ cyrus_acl_masktostr deleteright acl @ [TAB] @ nextid) + 1
     \<le> length before + length identifier + 40 + length nextid"
  using masktostr_length [of deleteright acl] by (simp add: ACL_MAXSTR_def)

end
