(* ===== verification/Hash.thy ===== *)
theory Hash
  imports Prelude
begin

text \<open>
  The chained hash table of \<^verbatim>\<open>lib/hash.c\<close> with the hash of \<^verbatim>\<open>lib/strhash.c\<close>.

  A bucket chain is the list of its keys and data, sorted by \<^verbatim>\<open>strcmp\<close>; the table is the
  list of the chains. A \<^verbatim>\<open>void *\<close> is an option value, \<^verbatim>\<open>None\<close> for \<^verbatim>\<open>NULL\<close>. Whether the table
  lives in a memory pool decides only where its cells are allocated. A \<^verbatim>\<open>char\<close> is signed,
  as on the platforms the server is built for.

  The contract a client relies on is the locale \<^verbatim>\<open>keyed_store\<close>.
\<close>

section \<open>Data\<close>

type_synonym 'a ptr = "'a option"
type_synonym 'a chain = "(string \<times> 'a ptr) list"

record 'a hash_table =
  ht_size :: nat
  ht_table :: "'a chain list"
  ht_pool :: bool

section \<open>Operations\<close>

definition signed_char :: "char \<Rightarrow> cint" where
  "signed_char c =
     (let n = of_char c :: nat in if n < 128 then of_nat n else of_nat n - 256)"

fun strhash_loop :: "string \<Rightarrow> cint \<Rightarrow> cint" where
  "strhash_loop [] ret_val = ret_val"
| "strhash_loop (c # string) ret_val =
     strhash_loop string (push_bit 1 (ret_val XOR signed_char c))"

definition strhash :: "string \<Rightarrow> cint" where
  "strhash string = strhash_loop string 0"

text \<open>\<^verbatim>\<open>None\<close> is the call of \<^verbatim>\<open>fatal\<close>.\<close>

definition construct_hash_table :: "nat \<Rightarrow> bool \<Rightarrow> 'a hash_table option" where
  "construct_hash_table sz use_mpool =
     (if sz = 0 then None
      else Some \<lparr>ht_size = sz, ht_table = replicate sz [], ht_pool = use_mpool\<rparr>)"

text \<open>The walk along a chain: the returned pointer and the new chain.\<close>

fun chain_insert :: "string \<Rightarrow> 'a ptr \<Rightarrow> 'a chain \<Rightarrow> 'a ptr \<times> 'a chain" where
  "chain_insert key data [] = (data, [(key, data)])"
| "chain_insert key data ((k, d) # ptr) =
     (if key = k then (d, (k, data) # ptr)
      else if key < k then (data, (key, data) # (k, d) # ptr)
      else (let (ret, rest) = chain_insert key data ptr in (ret, (k, d) # rest)))"

fun chain_lookup :: "string \<Rightarrow> 'a chain \<Rightarrow> 'a ptr" where
  "chain_lookup key [] = None"
| "chain_lookup key ((k, d) # ptr) =
     (if key = k then d else if key < k then None else chain_lookup key ptr)"

fun chain_del :: "string \<Rightarrow> 'a chain \<Rightarrow> 'a ptr \<times> 'a chain" where
  "chain_del key [] = (None, [])"
| "chain_del key ((k, d) # ptr) =
     (if key = k then (d, ptr)
      else if key < k then (None, (k, d) # ptr)
      else (let (ret, rest) = chain_del key ptr in (ret, (k, d) # rest)))"

definition hash_slot :: "string \<Rightarrow> 'a hash_table \<Rightarrow> nat" where
  "hash_slot key t = unat (strhash key) mod ht_size t"

definition hash_insert ::
  "string \<Rightarrow> 'a ptr \<Rightarrow> 'a hash_table \<Rightarrow> 'a ptr \<times> 'a hash_table" where
  "hash_insert key data t =
     (let val = hash_slot key t;
          (ret, chain) = chain_insert key data (ht_table t ! val)
      in (ret, t\<lparr>ht_table := (ht_table t)[val := chain]\<rparr>))"

definition hash_lookup :: "string \<Rightarrow> 'a hash_table \<Rightarrow> 'a ptr" where
  "hash_lookup key t = chain_lookup key (ht_table t ! hash_slot key t)"

definition hash_del :: "string \<Rightarrow> 'a hash_table \<Rightarrow> 'a ptr \<times> 'a hash_table" where
  "hash_del key t =
     (let val = hash_slot key t;
          (ret, chain) = chain_del key (ht_table t ! val)
      in (ret, t\<lparr>ht_table := (ht_table t)[val := chain]\<rparr>))"

text \<open>
  \<^verbatim>\<open>free_hash_table\<close> applies \<^verbatim>\<open>func\<close> to the data of every node, in the order of the table, and
  leaves an empty structure; the effect of \<^verbatim>\<open>func\<close> is threaded through as a state.
\<close>

fun chain_free :: "('a ptr \<Rightarrow> 's \<Rightarrow> 's) \<Rightarrow> 'a chain \<Rightarrow> 's \<Rightarrow> 's" where
  "chain_free func [] s = s"
| "chain_free func ((k, d) # ptr) s = chain_free func ptr (func d s)"

definition free_hash_table ::
  "'a hash_table \<Rightarrow> ('a ptr \<Rightarrow> 's \<Rightarrow> 's) option \<Rightarrow> 's \<Rightarrow> 's \<times> 'a hash_table" where
  "free_hash_table t func s =
     ((case func of None \<Rightarrow> s | Some f \<Rightarrow> fold (chain_free f) (take (ht_size t) (ht_table t)) s),
      t\<lparr>ht_table := [], ht_size := 0, ht_pool := False\<rparr>)"

fun chain_enumerate :: "(string \<Rightarrow> 'a ptr \<Rightarrow> 'r \<Rightarrow> 'r) \<Rightarrow> 'a chain \<Rightarrow> 'r \<Rightarrow> 'r" where
  "chain_enumerate func [] rock = rock"
| "chain_enumerate func ((k, d) # temp) rock = chain_enumerate func temp (func k d rock)"

definition hash_enumerate ::
  "'a hash_table \<Rightarrow> (string \<Rightarrow> 'a ptr \<Rightarrow> 'r \<Rightarrow> 'r) \<Rightarrow> 'r \<Rightarrow> 'r" where
  "hash_enumerate t func rock = fold (chain_enumerate func) (take (ht_size t) (ht_table t)) rock"

section \<open>The contract of a keyed store\<close>

locale keyed_store =
  fixes lookup :: "'k \<Rightarrow> 't \<Rightarrow> 'v option"
    and insert :: "'k \<Rightarrow> 'v option \<Rightarrow> 't \<Rightarrow> 'v option \<times> 't"
    and del :: "'k \<Rightarrow> 't \<Rightarrow> 'v option \<times> 't"
    and invar :: "'t \<Rightarrow> bool"
  assumes lookup_insert:
      "invar t \<Longrightarrow> lookup k' (snd (insert k d t)) = (if k' = k then d else lookup k' t)"
    and invar_insert: "invar t \<Longrightarrow> invar (snd (insert k d t))"
    and lookup_del:
      "invar t \<Longrightarrow> lookup k' (snd (del k t)) = (if k' = k then None else lookup k' t)"
    and invar_del: "invar t \<Longrightarrow> invar (snd (del k t))"
    and del_returns: "invar t \<Longrightarrow> fst (del k t) = lookup k t"
begin

text \<open>
  The cache idiom: look a key up and, where it is missing, compute the value and insert it.
  A cache that only holds values of \<^verbatim>\<open>f\<close> stays one, and the value found or computed is
  the value of \<^verbatim>\<open>f\<close>.
\<close>

definition caches :: "('k \<Rightarrow> 'v) \<Rightarrow> 't \<Rightarrow> bool" where
  "caches f t \<longleftrightarrow> invar t \<and> (\<forall>k v. lookup k t = Some v \<longrightarrow> v = f k)"

definition memo :: "('k \<Rightarrow> 'v) \<Rightarrow> 'k \<Rightarrow> 't \<Rightarrow> 'v \<times> 't" where
  "memo f k t = (case lookup k t of
     Some v \<Rightarrow> (v, t) | None \<Rightarrow> (f k, snd (insert k (Some (f k)) t)))"

lemma memo_correct: "caches f t \<Longrightarrow> fst (memo f k t) = f k \<and> caches f (snd (memo f k t))"
  by (auto simp: memo_def caches_def lookup_insert invar_insert split: option.splits if_splits)

end

section \<open>The invariant and the abstraction\<close>

definition chain_ok :: "'a chain \<Rightarrow> bool" where
  "chain_ok c \<longleftrightarrow> sorted_wrt (<) (map fst c)"

definition hash_wf :: "'a hash_table \<Rightarrow> bool" where
  "hash_wf t \<longleftrightarrow> 0 < ht_size t \<and> length (ht_table t) = ht_size t \<and>
     (\<forall>i < ht_size t. chain_ok (ht_table t ! i) \<and>
        (\<forall>k \<in> fst ` set (ht_table t ! i). hash_slot k t = i))"

text \<open>The finite map a table stands for.\<close>

definition hash_map :: "'a hash_table \<Rightarrow> string \<rightharpoonup> 'a ptr" where
  "hash_map t k = map_of (ht_table t ! hash_slot k t) k"

section \<open>Chains\<close>

lemma chain_ok_Cons [simp]:
  "chain_ok ((k, d) # c) \<longleftrightarrow> (\<forall>x \<in> fst ` set c. k < x) \<and> chain_ok c"
  by (auto simp: chain_ok_def)

lemma chain_ok_Nil [simp]: "chain_ok []"
  by (simp add: chain_ok_def)

lemma chain_insert_map: "map_of (snd (chain_insert k d c)) = (map_of c)(k \<mapsto> d)"
  by (induction k d c rule: chain_insert.induct) (auto simp: Let_def split_def fun_eq_iff)

lemma chain_insert_ret:
  "chain_ok c \<Longrightarrow> fst (chain_insert k d c) = (case map_of c k of None \<Rightarrow> d | Some old \<Rightarrow> old)"
proof (induction k d c rule: chain_insert.induct)
  case (2 key data k d c)
  have "map_of c key = None" if "key < k"
    using "2.prems" that by (force simp: map_of_eq_None_iff)
  with 2 show ?case by (auto simp: Let_def split_def)
qed simp

lemma chain_insert_keys: "fst ` set (snd (chain_insert k d c)) = Set.insert k (fst ` set c)"
  by (induction k d c rule: chain_insert.induct) (auto simp: Let_def split_def)

lemma chain_insert_ok: "chain_ok c \<Longrightarrow> chain_ok (snd (chain_insert k d c))"
proof (induction k d c rule: chain_insert.induct)
  case (2 key data k d c)
  show ?case
  proof (cases "key = k \<or> key < k")
    case True
    with "2.prems" show ?thesis by (auto dest: less_trans)
  next
    case False
    then have "k < key" by auto
    with 2 False show ?thesis by (auto simp: Let_def split_def chain_insert_keys)
  qed
qed simp

lemma chain_lookup_map:
  "chain_ok c \<Longrightarrow> chain_lookup k c = (case map_of c k of None \<Rightarrow> None | Some d \<Rightarrow> d)"
proof (induction k c rule: chain_lookup.induct)
  case (2 key k d c)
  have "map_of c key = None" if "key < k"
    using "2.prems" that by (force simp: map_of_eq_None_iff)
  with 2 show ?case by auto
qed simp

lemma chain_del_map: "chain_ok c \<Longrightarrow> map_of (snd (chain_del k c)) = (map_of c)(k := None)"
proof (induction k c rule: chain_del.induct)
  case (2 key k d c)
  have "map_of c key = None" if "key \<le> k"
    using "2.prems" that by (force simp: map_of_eq_None_iff)
  with 2 show ?case by (auto simp: Let_def split_def fun_eq_iff)
qed simp

lemma chain_del_ret: "fst (chain_del k c) = chain_lookup k c"
  by (induction k c rule: chain_del.induct) (auto simp: Let_def split_def)

lemma chain_del_keys: "fst ` set (snd (chain_del k c)) \<subseteq> fst ` set c"
  by (induction k c rule: chain_del.induct) (auto simp: Let_def split_def)

lemma chain_del_ok: "chain_ok c \<Longrightarrow> chain_ok (snd (chain_del k c))"
proof (induction k c rule: chain_del.induct)
  case (2 key k d c)
  have k: "\<forall>x \<in> fst ` set c. k < x" and c: "chain_ok c"
    using "2.prems" by simp_all
  have rest: "\<forall>x \<in> fst ` set (snd (chain_del key c)). k < x"
    using k chain_del_keys [of key c] by blast
  show ?case
  proof (cases "key = k \<or> key < k")
    case True
    with k c show ?thesis by auto
  next
    case False
    with "2.IH" c have "chain_ok (snd (chain_del key c))" by simp
    with False rest show ?thesis by (simp add: Let_def split_def)
  qed
qed simp

section \<open>Tables\<close>

lemma hash_slot_less: "hash_wf t \<Longrightarrow> hash_slot k t < ht_size t"
  by (simp add: hash_wf_def hash_slot_def)

lemma hash_slot_table [simp]: "hash_slot k (t\<lparr>ht_table := c\<rparr>) = hash_slot k t"
  by (simp add: hash_slot_def)

lemma hash_chain_ok: "hash_wf t \<Longrightarrow> chain_ok (ht_table t ! hash_slot k t)"
  using hash_slot_less [of t k] by (simp add: hash_wf_def)

text \<open>Replacing one chain by another that may only add its own key.\<close>

lemma hash_wf_update:
  assumes "hash_wf t" and "chain_ok c"
    and "fst ` set c \<subseteq> Set.insert k (fst ` set (ht_table t ! hash_slot k t))"
  shows "hash_wf (t\<lparr>ht_table := (ht_table t)[hash_slot k t := c]\<rparr>)"
proof -
  have k: "hash_slot k t < ht_size t" by (rule hash_slot_less [OF assms(1)])
  have "hash_slot x t = hash_slot k t" if "x \<in> fst ` set c" for x
    using that assms(1,3) k unfolding hash_wf_def by blast
  with assms(1,2) k show ?thesis by (auto simp: hash_wf_def nth_list_update)
qed

lemma hash_map_update:
  assumes "hash_wf t" and "map_of c = (map_of (ht_table t ! hash_slot k t))(k := v)"
  shows "hash_map (t\<lparr>ht_table := (ht_table t)[hash_slot k t := c]\<rparr>) = (hash_map t)(k := v)"
  using assms hash_slot_less [OF assms(1)]
  by (auto simp: hash_map_def fun_eq_iff nth_list_update hash_wf_def)

lemma hash_insert_simps:
  "snd (hash_insert k d t) =
     t\<lparr>ht_table := (ht_table t)[hash_slot k t := snd (chain_insert k d (ht_table t ! hash_slot k t))]\<rparr>"
  "fst (hash_insert k d t) = fst (chain_insert k d (ht_table t ! hash_slot k t))"
  by (simp_all add: hash_insert_def Let_def split_def)

lemma hash_del_simps:
  "snd (hash_del k t) =
     t\<lparr>ht_table := (ht_table t)[hash_slot k t := snd (chain_del k (ht_table t ! hash_slot k t))]\<rparr>"
  "fst (hash_del k t) = fst (chain_del k (ht_table t ! hash_slot k t))"
  by (simp_all add: hash_del_def Let_def split_def)

lemma hash_insert_wf: "hash_wf t \<Longrightarrow> hash_wf (snd (hash_insert k d t))"
  unfolding hash_insert_simps
  by (intro hash_wf_update) (auto simp: chain_insert_ok hash_chain_ok chain_insert_keys)

lemma hash_del_wf: "hash_wf t \<Longrightarrow> hash_wf (snd (hash_del k t))"
  unfolding hash_del_simps using chain_del_keys [of k "ht_table t ! hash_slot k t"]
  by (intro hash_wf_update) (auto simp: chain_del_ok hash_chain_ok)

lemma hash_insert_map: "hash_wf t \<Longrightarrow> hash_map (snd (hash_insert k d t)) = (hash_map t)(k \<mapsto> d)"
  unfolding hash_insert_simps by (rule hash_map_update) (simp_all add: chain_insert_map)

lemma hash_del_map: "hash_wf t \<Longrightarrow> hash_map (snd (hash_del k t)) = (hash_map t)(k := None)"
  unfolding hash_del_simps by (rule hash_map_update) (simp_all add: chain_del_map hash_chain_ok)

lemma hash_lookup_map:
  "hash_wf t \<Longrightarrow> hash_lookup k t = (case hash_map t k of None \<Rightarrow> None | Some d \<Rightarrow> d)"
  by (simp add: hash_lookup_def hash_map_def chain_lookup_map hash_chain_ok)

lemma construct_hash_table_wf:
  "construct_hash_table n p = Some t \<Longrightarrow> hash_wf t \<and> hash_map t = Map.empty"
  by (auto simp: construct_hash_table_def hash_wf_def hash_map_def hash_slot_def fun_eq_iff
      split: if_splits)

interpretation hashtab: keyed_store hash_lookup hash_insert hash_del hash_wf
proof
  fix t :: "'a hash_table" and k k' d
  assume t: "hash_wf t"
  show "hash_lookup k' (snd (hash_insert k d t)) = (if k' = k then d else hash_lookup k' t)"
    using t by (simp add: hash_lookup_map hash_insert_wf hash_insert_map)
  show "hash_lookup k' (snd (hash_del k t)) = (if k' = k then None else hash_lookup k' t)"
    using t by (simp add: hash_lookup_map hash_del_wf hash_del_map)
  show "fst (hash_del k t) = hash_lookup k t"
    by (simp add: hash_del_simps chain_del_ret hash_lookup_def)
qed (simp_all add: hash_insert_wf hash_del_wf)

section \<open>Properties\<close>

text \<open>Sequences of operations and the finite map they build.\<close>

datatype 'a hash_op = HInsert string "'a ptr" | HDel string

fun hash_step :: "'a hash_op \<Rightarrow> 'a hash_table \<Rightarrow> 'a hash_table" where
  "hash_step (HInsert k d) t = snd (hash_insert k d t)"
| "hash_step (HDel k) t = snd (hash_del k t)"

fun map_step :: "'a hash_op \<Rightarrow> (string \<rightharpoonup> 'a) \<Rightarrow> (string \<rightharpoonup> 'a)" where
  "map_step (HInsert k d) f = f(k := d)"
| "map_step (HDel k) f = f(k := None)"

lemma hash_step_wf: "hash_wf t \<Longrightarrow> hash_wf (hash_step x t)"
  by (cases x) (simp_all add: hash_insert_wf hash_del_wf)

lemma hash_step_lookup:
  "hash_wf t \<Longrightarrow> (\<lambda>k. hash_lookup k (hash_step x t)) = map_step x (\<lambda>k. hash_lookup k t)"
  by (cases x) (auto simp: fun_eq_iff hashtab.lookup_insert hashtab.lookup_del)

lemma hash_run:
  "hash_wf t \<Longrightarrow> hash_wf (fold hash_step xs t) \<and>
     (\<lambda>k. hash_lookup k (fold hash_step xs t)) = fold map_step xs (\<lambda>k. hash_lookup k t)"
  by (induction xs arbitrary: t) (simp_all add: hash_step_wf hash_step_lookup)

text \<open>
  C25: refinement to a finite map. After any sequence of inserts and deletes on a fresh
  table of any positive size, the chains are sorted and hold only keys of their slot, and
  looking a key up gives what the same sequence leaves in an abstract map.
\<close>

theorem hash_table_refines_map:
  assumes "construct_hash_table n use_mpool = Some t"
  shows "hash_wf (fold hash_step xs t) \<and>
    (\<lambda>k. hash_lookup k (fold hash_step xs t)) = fold map_step xs Map.empty"
proof -
  have t: "hash_wf t" "hash_map t = Map.empty"
    using construct_hash_table_wf [OF assms] by simp_all
  then have "(\<lambda>k. hash_lookup k t) = Map.empty" by (simp add: hash_lookup_map)
  with hash_run [OF t(1), of xs] show ?thesis by simp
qed

theorem hash_table_refines_map_witness:
  "hash_lookup ''b'' (fold hash_step [HInsert ''a'' (Some (1::nat)), HInsert ''b'' (Some 2), HDel ''a'']
     \<lparr>ht_size = 1, ht_table = [[]], ht_pool = False\<rparr>) = Some 2"
proof -
  have "construct_hash_table 1 False =
      Some (\<lparr>ht_size = 1, ht_table = [[]], ht_pool = False\<rparr> :: nat hash_table)"
    by (simp add: construct_hash_table_def)
  from hash_table_refines_map [OF this,
      of "[HInsert ''a'' (Some 1), HInsert ''b'' (Some 2), HDel ''a'']", THEN conjunct2,
      THEN fun_cong, of "''b''"]
  show ?thesis by simp
qed

text \<open>The nodes of a table in the order \<^verbatim>\<open>hash_enumerate\<close> and \<^verbatim>\<open>free_hash_table\<close> visit them.\<close>

definition hash_nodes :: "'a hash_table \<Rightarrow> 'a chain" where
  "hash_nodes t = concat (ht_table t)"

lemma chain_enumerate_fold: "chain_enumerate func = fold (\<lambda>(k, d). func k d)"
proof (intro ext)
  show "chain_enumerate func c r = fold (\<lambda>(k, d). func k d) c r" for c r
    by (induction func c r rule: chain_enumerate.induct) simp_all
qed

lemma chain_free_fold: "chain_free func = fold (\<lambda>(k, d). func d)"
proof (intro ext)
  show "chain_free func c s = fold (\<lambda>(k, d). func d) c s" for c s
    by (induction func c s rule: chain_free.induct) simp_all
qed

lemma fold_chain_concat: "fold (fold f) cs r = fold f (concat cs) r"
  by (induction cs arbitrary: r) simp_all

lemma hash_enumerate_nodes:
  "hash_wf t \<Longrightarrow> hash_enumerate t func rock = fold (\<lambda>(k, d). func k d) (hash_nodes t) rock"
  by (simp add: hash_enumerate_def hash_nodes_def hash_wf_def chain_enumerate_fold fold_chain_concat)

lemma free_hash_table_nodes:
  "hash_wf t \<Longrightarrow> fst (free_hash_table t (Some f) s) = fold (\<lambda>(k, d). f d) (hash_nodes t) s"
  by (simp add: free_hash_table_def hash_nodes_def hash_wf_def chain_free_fold fold_chain_concat)

lemma chain_ok_distinct: "chain_ok c \<Longrightarrow> distinct (map fst c)"
  by (auto simp: chain_ok_def strict_sorted_iff)

lemma distinct_concat_slots:
  assumes "\<And>i. i < length cs \<Longrightarrow> distinct (cs ! i) \<and> (\<forall>x \<in> set (cs ! i). f x = b + i)"
  shows "distinct (concat cs) \<and> (\<forall>x \<in> set (concat cs). b \<le> f x)"
  using assms
proof (induction cs arbitrary: b)
  case (Cons c cs)
  have "distinct (concat cs) \<and> (\<forall>x \<in> set (concat cs). Suc b \<le> f x)"
  proof (rule Cons.IH)
    show "distinct (cs ! i) \<and> (\<forall>x \<in> set (cs ! i). f x = Suc b + i)" if "i < length cs" for i
      using Cons.prems [of "Suc i"] that by simp
  qed
  moreover have "distinct c" "\<forall>x \<in> set c. f x = b"
    using Cons.prems [of 0] by simp_all
  ultimately show ?case by (fastforce simp: disjoint_iff)
qed simp

lemma hash_nodes_distinct:
  assumes "hash_wf t"
  shows "distinct (map fst (hash_nodes t))"
proof -
  have "distinct (concat (map (map fst) (ht_table t))) \<and>
      (\<forall>x \<in> set (concat (map (map fst) (ht_table t))). 0 \<le> hash_slot x t)"
    by (rule distinct_concat_slots) (use assms in \<open>auto simp: hash_wf_def chain_ok_distinct\<close>)
  then show ?thesis by (simp add: hash_nodes_def map_concat)
qed

lemma hash_nodes_map:
  assumes "hash_wf t"
  shows "(k, d) \<in> set (hash_nodes t) \<longleftrightarrow> hash_map t k = Some d"
proof
  assume "(k, d) \<in> set (hash_nodes t)"
  then obtain i where i: "i < ht_size t" "(k, d) \<in> set (ht_table t ! i)"
    using assms by (auto simp: hash_nodes_def hash_wf_def in_set_conv_nth [of _ "ht_table t"])
  moreover from this have "hash_slot k t = i"
    using assms by (force simp: hash_wf_def)
  ultimately show "hash_map t k = Some d"
    using assms chain_ok_distinct [of "ht_table t ! i"] by (auto simp: hash_wf_def hash_map_def)
next
  assume "hash_map t k = Some d"
  then have "(k, d) \<in> set (ht_table t ! hash_slot k t)"
    by (auto simp: hash_map_def dest: map_of_SomeD)
  then show "(k, d) \<in> set (hash_nodes t)"
    using hash_slot_less [OF assms, of k] assms
    by (auto simp: hash_nodes_def hash_wf_def intro!: bexI [of _ "ht_table t ! hash_slot k t"])
qed

text \<open>
  the walks. In every table built by inserts and deletes, \<^verbatim>\<open>hash_enumerate\<close> calls its
  function, and \<^verbatim>\<open>free_hash_table\<close> its destructor, once for every key that is present, with
  its data, and for no other key.
\<close>

theorem hash_walks_every_key_once:
  assumes "construct_hash_table n use_mpool = Some t0"
    and "t = fold hash_step xs t0"
  shows "hash_enumerate t func rock = fold (\<lambda>(k, d). func k d) (hash_nodes t) rock \<and>
     free_hash_table t (Some f) s = (fold (\<lambda>(k, d). f d) (hash_nodes t) s,
        \<lparr>ht_size = 0, ht_table = [], ht_pool = False\<rparr>) \<and>
     distinct (map fst (hash_nodes t)) \<and> map_of (hash_nodes t) = hash_map t"
proof -
  have t: "hash_wf t"
    unfolding assms(2) using hash_run construct_hash_table_wf [OF assms(1)] by blast
  have "map_of (hash_nodes t) k = hash_map t k" for k
    using hash_nodes_map [OF t, of k] hash_nodes_distinct [OF t]
    by (metis map_of_eq_Some_iff option.exhaust)
  then show ?thesis
    using hash_enumerate_nodes [OF t, of func rock] free_hash_table_nodes [OF t, of f s]
      hash_nodes_distinct [OF t]
    by (auto simp: free_hash_table_def)
qed

theorem hash_walks_every_key_once_witness:
  "hash_enumerate (snd (hash_insert ''a'' (Some 1) \<lparr>ht_size = 1, ht_table = [[]], ht_pool = False\<rparr>))
     (\<lambda>k d r. r @ [(k, d)]) [] = [(''a'', Some (1::nat))]"
proof -
  let ?t = "\<lparr>ht_size = 1, ht_table = [[]], ht_pool = False\<rparr> :: nat hash_table"
  have "construct_hash_table 1 False = Some ?t"
    by (simp add: construct_hash_table_def)
  from hash_walks_every_key_once [OF this, of _ "[HInsert ''a'' (Some 1)]"
      "\<lambda>k d r. r @ [(k, d)]" "[]", OF refl, THEN conjunct1]
  show ?thesis by (simp add: hash_nodes_def hash_insert_def hash_slot_def)
qed

end
