(* ===== verification/Sieve_Tree.thy ===== *)
theory Sieve_Tree
  imports Prelude
begin

text \<open>
  The data the Sieve compiler and interpreter share: the parse tree of
  \<^verbatim>\<open>sieve/tree.h\<close>, the numbers of \<^verbatim>\<open>sieve/bytecode.h\<close> and the result codes of
  \<^verbatim>\<open>sieve/sieve_err.h\<close>.

  A node of the tree is a union selected by its \<^verbatim>\<open>type\<close> field; a constructor stands for one
  value of that field with the members the code uses for it, \<^verbatim>\<open>T_OTHER\<close> and \<^verbatim>\<open>C_OTHER\<close> for
  every value no case of the code names. The other integer fields hold tokens of the
  grammar; \<^verbatim>\<open>TK_NONE\<close> is any number that is not one of them, \<^verbatim>\<open>-1\<close> for instance. A linked
  list is a list; the \<^verbatim>\<open>next\<close> field of a command list is the tail. A \<^verbatim>\<open>char *\<close> the code tests
  for \<^verbatim>\<open>NULL\<close> is an option. The code is modelled with \<^verbatim>\<open>ENABLE_REGEX\<close> set.
\<close>

section \<open>Tokens\<close>

datatype token =
    TK_IS | TK_CONTAINS | TK_MATCHES | TK_REGEX | TK_COUNT | TK_VALUE
  | TK_OVER | TK_UNDER
  | TK_GT | TK_GE | TK_LT | TK_LE | TK_EQ | TK_NE
  | TK_ALL | TK_LOCALPART | TK_DOMAIN | TK_USER | TK_DETAIL
  | TK_RAW | TK_TEXT | TK_CONTENT
  | TK_LOW | TK_NORMAL | TK_HIGH | TK_ANY
  | TK_PERSONAL | TK_GLOBAL
  | TK_NONE

section \<open>The parse tree\<close>

type_synonym stringlist = "string list"

text \<open>The fields \<^verbatim>\<open>comptag\<close>, \<^verbatim>\<open>relation\<close> and \<^verbatim>\<open>comparator\<close> three of the tests begin with.\<close>

record match_spec =
  comptag :: token
  relation :: token
  comparator :: string

datatype test =
    T_STRUE
  | T_SFALSE
  | T_NOT test
  | T_SIZE token cint
  | T_EXISTS stringlist
  | T_ANYOF "test list"
  | T_ALLOF "test list"
  | T_HEADER match_spec stringlist stringlist
  | T_ADDRESS match_spec token stringlist stringlist
  | T_ENVELOPE match_spec token stringlist stringlist
  | T_BODY match_spec token cint stringlist stringlist
  | T_OTHER

record vacation_args =
  v_subject :: "string option"
  v_days :: cint
  v_addresses :: stringlist
  v_message :: "string option"
  v_from :: "string option"
  v_handle :: "string option"
  v_mime :: cint

record notify_args =
  n_method :: string
  n_id :: "string option"
  n_options :: stringlist
  n_priority :: token
  n_message :: string

record denotify_args =
  d_comptag :: token
  d_relation :: token
  d_pattern :: "string option"
  d_priority :: token

datatype command =
    C_STOP | C_DISCARD | C_KEEP | C_MARK | C_UNMARK | C_RETURN
  | C_REJCT string
  | C_FILEINTO string cint
  | C_REDIRECT string cint
  | C_ADDFLAG stringlist
  | C_SETFLAG stringlist
  | C_REMOVEFLAG stringlist
  | C_NOTIFY notify_args
  | C_DENOTIFY denotify_args
  | C_VACATION vacation_args
  | C_INCLUDE token string
  | C_IF test "command list" "command list"
  | C_OTHER

section \<open>Bytecode numbers\<close>

definition B_STOP :: cint where [simp]: "B_STOP = 0"
definition B_KEEP :: cint where [simp]: "B_KEEP = 1"
definition B_DISCARD :: cint where [simp]: "B_DISCARD = 2"
definition B_REJECT :: cint where [simp]: "B_REJECT = 3"
definition B_FILEINTO_ORIG :: cint where [simp]: "B_FILEINTO_ORIG = 4"
definition B_REDIRECT_ORIG :: cint where [simp]: "B_REDIRECT_ORIG = 5"
definition B_IF :: cint where [simp]: "B_IF = 6"
definition B_MARK :: cint where [simp]: "B_MARK = 7"
definition B_UNMARK :: cint where [simp]: "B_UNMARK = 8"
definition B_ADDFLAG :: cint where [simp]: "B_ADDFLAG = 9"
definition B_SETFLAG :: cint where [simp]: "B_SETFLAG = 10"
definition B_REMOVEFLAG :: cint where [simp]: "B_REMOVEFLAG = 11"
definition B_NOTIFY :: cint where [simp]: "B_NOTIFY = 12"
definition B_DENOTIFY :: cint where [simp]: "B_DENOTIFY = 13"
definition B_VACATION :: cint where [simp]: "B_VACATION = 14"
definition B_NULL :: cint where [simp]: "B_NULL = 15"
definition B_JUMP :: cint where [simp]: "B_JUMP = 16"
definition B_INCLUDE :: cint where [simp]: "B_INCLUDE = 17"
definition B_RETURN :: cint where [simp]: "B_RETURN = 18"
definition B_FILEINTO :: cint where [simp]: "B_FILEINTO = 19"
definition B_REDIRECT :: cint where [simp]: "B_REDIRECT = 20"

definition BC_FALSE :: cint where [simp]: "BC_FALSE = 0"
definition BC_TRUE :: cint where [simp]: "BC_TRUE = 1"
definition BC_NOT :: cint where [simp]: "BC_NOT = 2"
definition BC_EXISTS :: cint where [simp]: "BC_EXISTS = 3"
definition BC_SIZE :: cint where [simp]: "BC_SIZE = 4"
definition BC_ANYOF :: cint where [simp]: "BC_ANYOF = 5"
definition BC_ALLOF :: cint where [simp]: "BC_ALLOF = 6"
definition BC_ADDRESS :: cint where [simp]: "BC_ADDRESS = 7"
definition BC_ENVELOPE :: cint where [simp]: "BC_ENVELOPE = 8"
definition BC_HEADER :: cint where [simp]: "BC_HEADER = 9"
definition BC_BODY :: cint where [simp]: "BC_BODY = 10"

definition B_OVER :: cint where [simp]: "B_OVER = 0"
definition B_UNDER :: cint where [simp]: "B_UNDER = 1"
definition B_GT :: cint where [simp]: "B_GT = 4"
definition B_GE :: cint where [simp]: "B_GE = 5"
definition B_LT :: cint where [simp]: "B_LT = 6"
definition B_LE :: cint where [simp]: "B_LE = 7"
definition B_EQ :: cint where [simp]: "B_EQ = 8"
definition B_NE :: cint where [simp]: "B_NE = 9"
definition B_LOW :: cint where [simp]: "B_LOW = 12"
definition B_NORMAL :: cint where [simp]: "B_NORMAL = 13"
definition B_HIGH :: cint where [simp]: "B_HIGH = 14"
definition B_ANY :: cint where [simp]: "B_ANY = 15"
definition B_ALL :: cint where [simp]: "B_ALL = 20"
definition B_LOCALPART :: cint where [simp]: "B_LOCALPART = 21"
definition B_DOMAIN :: cint where [simp]: "B_DOMAIN = 22"
definition B_USER :: cint where [simp]: "B_USER = 23"
definition B_DETAIL :: cint where [simp]: "B_DETAIL = 24"
definition B_ASCIICASEMAP :: cint where [simp]: "B_ASCIICASEMAP = 29"
definition B_OCTET :: cint where [simp]: "B_OCTET = 30"
definition B_ASCIINUMERIC :: cint where [simp]: "B_ASCIINUMERIC = 31"
definition B_IS :: cint where [simp]: "B_IS = 36"
definition B_CONTAINS :: cint where [simp]: "B_CONTAINS = 37"
definition B_MATCHES :: cint where [simp]: "B_MATCHES = 38"
definition B_REGEX :: cint where [simp]: "B_REGEX = 39"
definition B_COUNT :: cint where [simp]: "B_COUNT = 40"
definition B_VALUE :: cint where [simp]: "B_VALUE = 41"
definition B_RAW :: cint where [simp]: "B_RAW = 46"
definition B_TEXT :: cint where [simp]: "B_TEXT = 47"
definition B_CONTENT :: cint where [simp]: "B_CONTENT = 48"
definition B_PERSONAL :: cint where [simp]: "B_PERSONAL = 54"
definition B_GLOBAL :: cint where [simp]: "B_GLOBAL = 55"

definition BYTECODE_VERSION :: cint where [simp]: "BYTECODE_VERSION = 5"
definition BYTECODE_MIN_VERSION :: cint where [simp]: "BYTECODE_MIN_VERSION = 3"
definition BYTECODE_MAGIC :: string where "BYTECODE_MAGIC = ''CyrSBytecode''"

section \<open>Result codes\<close>

definition SIEVE_OK :: int where [simp]: "SIEVE_OK = 0"
definition SIEVE_FAIL :: int where [simp]: "SIEVE_FAIL = -1237848064"
definition SIEVE_NOT_FINALIZED :: int where [simp]: "SIEVE_NOT_FINALIZED = -1237848063"
definition SIEVE_PARSE_ERROR :: int where [simp]: "SIEVE_PARSE_ERROR = -1237848062"
definition SIEVE_NOMEM :: int where [simp]: "SIEVE_NOMEM = -1237848059"
definition SIEVE_RUN_ERROR :: int where [simp]: "SIEVE_RUN_ERROR = -1237848061"
definition SIEVE_INTERNAL_ERROR :: int where [simp]: "SIEVE_INTERNAL_ERROR = -1237848060"
definition SIEVE_DONE :: int where [simp]: "SIEVE_DONE = -1237848058"

end
