(* ===== verification/Sieve_Comparator.thy ===== *)
theory Sieve_Comparator
  imports Sieve_Tree
begin

text \<open>
  The comparators of \<^verbatim>\<open>sieve/comparator.c\<close> and \<^verbatim>\<open>lookup_comp\<close>.

  A text is the memory its pointer reaches and a length \<^verbatim>\<open>tlen\<close>; for a C string the length is
  the length of the memory, and the byte behind it is the terminating NUL. A pattern is a
  C string, or a compiled regular expression, which is an opaque value: the regular
  expression library is a parameter. A pointer to a comparator function with its rock is a
  value of a datatype, and \<^verbatim>\<open>run_comp\<close> calls it.
\<close>

section \<open>Comparing octets\<close>

definition schar :: "char \<Rightarrow> int" where
  "schar c = (let n = of_char c :: nat in if n < 128 then int n else int n - 256)"

definition char_diff :: "bool \<Rightarrow> char \<Rightarrow> char \<Rightarrow> int" where
  "char_diff casemap a b =
     (if casemap then schar (toupper a) - schar (toupper b) else schar a - schar b)"

fun octet_cmp_loop :: "bool \<Rightarrow> string \<Rightarrow> string \<Rightarrow> int" where
  "octet_cmp_loop casemap (a # text) (b # pat) =
     (let r = char_diff casemap a b in
      if r \<noteq> 0 then r else octet_cmp_loop casemap text pat)"
| "octet_cmp_loop casemap _ _ = 0"

text \<open>The difference of the lengths is computed in \<^verbatim>\<open>size_t\<close> and returned as an \<^verbatim>\<open>int\<close>.\<close>

definition octet_cmp_gen :: "string \<Rightarrow> nat \<Rightarrow> string \<Rightarrow> bool \<Rightarrow> int" where
  "octet_cmp_gen text tlen pat casemap =
     (let r = octet_cmp_loop casemap (take tlen text) pat in
      if r = 0 then sint (of_nat tlen - of_nat (length pat) :: cint) else r)"

definition octet_cmp :: "string \<Rightarrow> nat \<Rightarrow> string \<Rightarrow> int" where
  "octet_cmp text tlen pat = octet_cmp_gen text tlen pat False"

definition ascii_casemap_cmp :: "string \<Rightarrow> nat \<Rightarrow> string \<Rightarrow> int" where
  "ascii_casemap_cmp text tlen pat = octet_cmp_gen text tlen pat True"

section \<open>Substrings\<close>

definition same_char :: "bool \<Rightarrow> char \<Rightarrow> char \<Rightarrow> bool" where
  "same_char casemap a b \<longleftrightarrow> a = b \<or> (casemap \<and> toupper a = toupper b)"

function contains_loop :: "bool \<Rightarrow> string \<Rightarrow> nat \<Rightarrow> string \<Rightarrow> nat \<Rightarrow> nat \<Rightarrow> bool" where
  "contains_loop casemap text N pat i j =
     (if j < length pat \<and> i < N then
        if same_char casemap (char_at text i) (char_at pat j)
        then contains_loop casemap text N pat (i + 1) (j + 1)
        else contains_loop casemap text N pat (i - j + 1) 0
      else j = length pat)"
  by pat_completeness auto
termination
  by (relation "measures [\<lambda>(_, _, N, _, i, j). N - (i - j), \<lambda>(_, _, _, pat, _, j). length pat - j]")
    auto

declare contains_loop.simps [simp del]

definition octet_contains_gen :: "string \<Rightarrow> nat \<Rightarrow> string \<Rightarrow> bool \<Rightarrow> bool" where
  "octet_contains_gen text tlen pat casemap = contains_loop casemap text tlen pat 0 0"

definition octet_contains :: "string \<Rightarrow> nat \<Rightarrow> string \<Rightarrow> bool" where
  "octet_contains text tlen pat = octet_contains_gen text tlen pat False"

definition ascii_casemap_contains :: "string \<Rightarrow> nat \<Rightarrow> string \<Rightarrow> bool" where
  "ascii_casemap_contains text tlen pat = octet_contains_gen text tlen pat True"

section \<open>Wildcards\<close>

text \<open>
  The wildcards right after a star; \<^verbatim>\<open>None\<close> when a question mark finds no text left.
\<close>

fun coalesce :: "string \<Rightarrow> 64 word \<Rightarrow> string \<Rightarrow> (string \<times> 64 word \<times> string) option" where
  "coalesce t tlen [] = Some (t, tlen, [])"
| "coalesce t tlen (c # p) =
     (if c = CHR ''?'' then if tlen = 0 then None else coalesce (tl t) (tlen - 1) p
      else if c = CHR ''*'' then coalesce t tlen p
      else Some (t, tlen, c # p))"

lemma coalesce_shorter: "coalesce t tlen p = Some (t', tlen', p') \<Longrightarrow> length p' \<le> length p"
  by (induction t tlen p rule: coalesce.induct) (force split: if_splits)+

text \<open>
  The matcher. \<^verbatim>\<open>tlen\<close> is a \<^verbatim>\<open>size_t\<close> and wraps. The backslash case skips the next pattern
  character and compares the backslash itself; the star case, when the text is used up,
  falls through into it. \<^verbatim>\<open>None\<close>: the pattern is read behind its terminating NUL.
\<close>

function octet_matches_gen :: "bool \<Rightarrow> string \<Rightarrow> 64 word \<Rightarrow> string \<Rightarrow> bool option"
  and star_loop :: "bool \<Rightarrow> string \<Rightarrow> 64 word \<Rightarrow> string \<Rightarrow> bool option" where
  "octet_matches_gen casemap t tlen p = (case p of
     [] \<Rightarrow> Some (tlen = 0)
   | c # p \<Rightarrow>
       if c = CHR ''?'' then
         (if tlen = 0 then Some False else octet_matches_gen casemap (tl t) (tlen - 1) p)
       else if c = CHR ''*'' then
         (case coalesce t tlen p of
            None \<Rightarrow> Some False
          | Some (t, tlen, p) \<Rightarrow> if p = [] then Some True else star_loop casemap t tlen p)
       else if same_char casemap c (deref t) then
         (if c = CHR 0x5C then
            (if p = [] then None else octet_matches_gen casemap (tl t) (tlen - 1) (tl p))
          else octet_matches_gen casemap (tl t) (tlen - 1) p)
       else Some False)"
| "star_loop casemap t tlen p =
     (if tlen = 0 then
        (if same_char casemap (CHR ''*'') (deref t)
         then if p = [] then None else octet_matches_gen casemap (tl t) (tlen - 1) (tl p)
         else Some False)
      else case octet_matches_gen casemap t tlen p of
        None \<Rightarrow> None
      | Some b \<Rightarrow> if b then Some True else star_loop casemap (tl t) (tlen - 1) p)"
  by pat_completeness auto
termination
  by (relation "measures [\<lambda>x. case x of Inl (_, _, _, p) \<Rightarrow> 2 * length p | Inr (_, _, _, p) \<Rightarrow> 2 * length p + 1,
      \<lambda>x. case x of Inl (_, _, n, _) \<Rightarrow> unat n | Inr (_, _, n, _) \<Rightarrow> unat n]")
    (auto dest: coalesce_shorter simp: measure_unat less_Suc_eq_le)

declare octet_matches_gen.simps [simp del] star_loop.simps [simp del]

definition octet_matches :: "string \<Rightarrow> nat \<Rightarrow> string \<Rightarrow> bool option" where
  "octet_matches text tlen pat = octet_matches_gen False text (of_nat tlen) pat"

definition ascii_casemap_matches :: "string \<Rightarrow> nat \<Rightarrow> string \<Rightarrow> bool option" where
  "ascii_casemap_matches text tlen pat = octet_matches_gen True text (of_nat tlen) pat"

section \<open>Numbers\<close>

text \<open>The two loops that pad the shorter number: \<^verbatim>\<open>None\<close> when a digit above 0 is skipped.\<close>

fun skip_zeros :: "nat \<Rightarrow> string \<Rightarrow> string option" where
  "skip_zeros 0 s = Some s"
| "skip_zeros (Suc n) s = (if CHR ''0'' < deref s then None else skip_zeros n (tl s))"

fun digits_cmp :: "nat \<Rightarrow> string \<Rightarrow> string \<Rightarrow> int" where
  "digits_cmp 0 text pat = 0"
| "digits_cmp (Suc n) text pat =
     (if deref text < deref pat then - 1 else if deref pat < deref text then 1
      else digits_cmp n (tl text) (tl pat))"

definition ascii_numeric_cmp :: "string \<Rightarrow> nat \<Rightarrow> string \<Rightarrow> int" where
  "ascii_numeric_cmp text tlen pat =
     (if isdigit (deref pat) then
        if isdigit (deref text) then
          (let text_digit_len = length (takeWhile isdigit (take tlen text));
               pat_digit_len = length (takeWhile isdigit pat)
           in if text_digit_len < pat_digit_len then
                (case skip_zeros (pat_digit_len - text_digit_len) pat of
                   None \<Rightarrow> - 1 | Some pat \<Rightarrow> digits_cmp text_digit_len text pat)
              else
                (case skip_zeros (text_digit_len - pat_digit_len) text of
                   None \<Rightarrow> 1 | Some text \<Rightarrow> digits_cmp pat_digit_len text pat))
        else 1
      else if isdigit (deref text) then - 1
      else 0)"

section \<open>Choosing a comparator\<close>

datatype 'r pattern = PStr string | PReg 'r

datatype compare_t = Octet_cmp | Ascii_casemap_cmp | Ascii_numeric_cmp

datatype comparator_t =
    Rel_eq compare_t | Rel_ne compare_t | Rel_gt compare_t
  | Rel_ge compare_t | Rel_lt compare_t | Rel_le compare_t
  | Octet_contains | Octet_matches | Octet_regex
  | Ascii_casemap_contains | Ascii_casemap_matches

fun run_compare :: "compare_t \<Rightarrow> string \<Rightarrow> nat \<Rightarrow> string \<Rightarrow> int" where
  "run_compare Octet_cmp text tlen pat = octet_cmp text tlen pat"
| "run_compare Ascii_casemap_cmp text tlen pat = ascii_casemap_cmp text tlen pat"
| "run_compare Ascii_numeric_cmp text tlen pat = ascii_numeric_cmp text tlen pat"

text \<open>
  \<^verbatim>\<open>regexec\<close> needs a NUL-terminated string; where the text has no NUL at \<^verbatim>\<open>tlen\<close>, a copy of
  its first \<^verbatim>\<open>tlen\<close> bytes is used.
\<close>

definition octet_regex :: "('r \<Rightarrow> string \<Rightarrow> bool) \<Rightarrow> string \<Rightarrow> nat \<Rightarrow> 'r \<Rightarrow> bool" where
  "octet_regex regexec text tlen reg =
     (if char_at text tlen = NUL then regexec reg (takeWhile (\<lambda>c. c \<noteq> NUL) text)
      else regexec reg (takeWhile (\<lambda>c. c \<noteq> NUL) (take tlen text)))"

text \<open>
  A call through the function pointer. Giving a string to the regular expression
  comparator or a compiled expression to another one has no defined result.
\<close>

fun run_comp :: "('r \<Rightarrow> string \<Rightarrow> bool) \<Rightarrow> comparator_t \<Rightarrow> string \<Rightarrow> nat \<Rightarrow> 'r pattern \<Rightarrow> bool option" where
  "run_comp rx (Rel_eq c) text tlen (PStr pat) = Some (run_compare c text tlen pat = 0)"
| "run_comp rx (Rel_ne c) text tlen (PStr pat) = Some (run_compare c text tlen pat \<noteq> 0)"
| "run_comp rx (Rel_gt c) text tlen (PStr pat) = Some (run_compare c text tlen pat > 0)"
| "run_comp rx (Rel_ge c) text tlen (PStr pat) = Some (run_compare c text tlen pat \<ge> 0)"
| "run_comp rx (Rel_lt c) text tlen (PStr pat) = Some (run_compare c text tlen pat < 0)"
| "run_comp rx (Rel_le c) text tlen (PStr pat) = Some (run_compare c text tlen pat \<le> 0)"
| "run_comp rx Octet_contains text tlen (PStr pat) = Some (octet_contains text tlen pat)"
| "run_comp rx Octet_matches text tlen (PStr pat) = octet_matches text tlen pat"
| "run_comp rx Ascii_casemap_contains text tlen (PStr pat) =
     Some (ascii_casemap_contains text tlen pat)"
| "run_comp rx Ascii_casemap_matches text tlen (PStr pat) = ascii_casemap_matches text tlen pat"
| "run_comp rx Octet_regex text tlen (PReg reg) = Some (octet_regex rx text tlen reg)"
| "run_comp rx _ _ _ _ = None"

definition lookup_rel :: "cint \<Rightarrow> compare_t \<Rightarrow> comparator_t option" where
  "lookup_rel rel c =
     (if rel = B_EQ then Some (Rel_eq c) else if rel = B_NE then Some (Rel_ne c)
      else if rel = B_GT then Some (Rel_gt c) else if rel = B_GE then Some (Rel_ge c)
      else if rel = B_LT then Some (Rel_lt c) else if rel = B_LE then Some (Rel_le c)
      else None)"

definition lookup_comp :: "cint \<Rightarrow> cint \<Rightarrow> cint \<Rightarrow> comparator_t option" where
  "lookup_comp cmp mode rel =
     (if cmp = B_OCTET then
        (if mode = B_IS then Some (Rel_eq Octet_cmp)
         else if mode = B_CONTAINS then Some Octet_contains
         else if mode = B_MATCHES then Some Octet_matches
         else if mode = B_REGEX then Some Octet_regex
         else if mode = B_VALUE then lookup_rel rel Octet_cmp
         else None)
      else if cmp = B_ASCIICASEMAP then
        (if mode = B_IS then Some (Rel_eq Ascii_casemap_cmp)
         else if mode = B_CONTAINS then Some Ascii_casemap_contains
         else if mode = B_MATCHES then Some Ascii_casemap_matches
         else if mode = B_REGEX then Some Octet_regex
         else if mode = B_VALUE then lookup_rel rel Ascii_casemap_cmp
         else None)
      else if cmp = B_ASCIINUMERIC then
        (if mode = B_IS then Some (Rel_eq Ascii_numeric_cmp)
         else if mode = B_COUNT \<or> mode = B_VALUE then lookup_rel rel Ascii_numeric_cmp
         else None)
      else None)"

section \<open>Equality and order\<close>

abbreviation folded :: "bool \<Rightarrow> char \<Rightarrow> char" where
  "folded casemap \<equiv> (if casemap then toupper else id)"

lemma schar_eq_iff: "schar a = schar b \<longleftrightarrow> a = b"
proof -
  define x y :: nat where "x = of_char a" and "y = of_char b"
  have "x < 256" "y < 256" by (simp_all add: x_def y_def)
  moreover have "a = b \<longleftrightarrow> x = y" by (simp add: x_def y_def)
  ultimately show ?thesis by (auto simp: schar_def Let_def x_def [symmetric] y_def [symmetric])
qed

lemma char_diff_0: "char_diff casemap a b = 0 \<longleftrightarrow> folded casemap a = folded casemap b"
  by (auto simp: char_diff_def schar_eq_iff)

lemma same_char_iff: "same_char casemap a b \<longleftrightarrow> folded casemap a = folded casemap b"
  by (auto simp: same_char_def)

lemma octet_cmp_loop_0:
  "octet_cmp_loop casemap text pat = 0 \<longleftrightarrow>
   (let n = min (length text) (length pat) in
    map (folded casemap) (take n text) = map (folded casemap) (take n pat))"
  by (induction casemap "text" pat rule: octet_cmp_loop.induct) (auto simp: Let_def char_diff_0)

lemma length_diff_0:
  assumes "m < 2 ^ 31" and "n < 2 ^ 31"
  shows "sint (of_nat m - of_nat n :: cint) = int m - int n"
proof -
  have "(of_nat m - of_nat n :: cint) = of_int (int m - int n)" by simp
  then have "sint (of_nat m - of_nat n :: cint) = signed_take_bit 31 (int m - int n)"
    by (simp only: signed_of_int) simp
  also have "\<dots> = int m - int n"
    using assms by (intro signed_take_bit_int_eq_self) simp_all
  finally show ?thesis .
qed

text \<open>Texts and patterns of seven bits, on which a signed \<^verbatim>\<open>char\<close> is ordered as its octet.\<close>

definition ascii :: "string \<Rightarrow> bool" where
  "ascii s \<longleftrightarrow> list_all (\<lambda>c. (of_char c :: nat) < 128) s"

lemma schar_less_iff:
  assumes "(of_char a :: nat) < 128" and "(of_char b :: nat) < 128"
  shows "schar a < schar b \<longleftrightarrow> a < b"
proof -
  show ?thesis using assms by (simp add: schar_def Let_def less_char_def)
qed

lemma Nil_less_string: "[] < (s :: string) \<longleftrightarrow> s \<noteq> []"
  by (cases s) auto

lemma octet_cmp_loop_order:
  "ascii text \<Longrightarrow> ascii pat \<Longrightarrow>
   (if octet_cmp_loop False text pat = 0 then length text < length pat
    else octet_cmp_loop False text pat < 0) \<longleftrightarrow> text < pat"
proof (induction False "text" pat rule: octet_cmp_loop.induct)
  case (1 a s b p)
  have ab: "char_diff False a b < 0 \<longleftrightarrow> a < b" "char_diff False a b = 0 \<longleftrightarrow> a = b"
    using "1.prems" schar_less_iff [of a b] by (auto simp: ascii_def char_diff_def schar_eq_iff)
  with 1 show ?case by (auto simp: Let_def ascii_def)
qed (auto simp: Nil_less_string)

text \<open>
  the equality and order comparators. On strings shorter than \<^verbatim>\<open>2^31\<close>,
  \<^verbatim>\<open>i;octet\<close> and \<^verbatim>\<open>i;ascii-casemap\<close> find two strings equal exactly when they are equal, up
  to the case of letters for the latter, and \<^verbatim>\<open>i;octet\<close> orders seven bit strings
  lexicographically.
\<close>

theorem octet_cmp_correct:
  assumes "length text < 2 ^ 31" and "length pat < 2 ^ 31"
  shows "(octet_cmp text (length text) pat = 0 \<longleftrightarrow> text = pat) \<and>
    (ascii_casemap_cmp text (length text) pat = 0 \<longleftrightarrow> map toupper text = map toupper pat) \<and>
    (ascii text \<longrightarrow> ascii pat \<longrightarrow> (octet_cmp text (length text) pat < 0 \<longleftrightarrow> text < pat))"
proof -
  have eq: "octet_cmp_gen text (length text) pat casemap = 0 \<longleftrightarrow>
      map (folded casemap) text = map (folded casemap) pat" for casemap
    using octet_cmp_loop_0 [of casemap "text" pat] length_diff_0 [OF assms]
    by (auto simp: octet_cmp_gen_def Let_def simp flip: take_map dest: map_eq_imp_length_eq)
  have "octet_cmp text (length text) pat < 0 \<longleftrightarrow> text < pat" if "ascii text" "ascii pat"
    using octet_cmp_loop_order [OF that] length_diff_0 [OF assms]
    by (auto simp: octet_cmp_def octet_cmp_gen_def Let_def split: if_splits)
  with eq [of False] eq [of True] show ?thesis
    by (simp add: octet_cmp_def ascii_casemap_cmp_def)
qed

theorem octet_cmp_correct_witness:
  "octet_cmp ''abc'' (length ''abc'') ''abd'' < 0 \<and>
   ascii_casemap_cmp ''abc'' (length ''abc'') ''ABC'' = 0"
proof -
  have "''abc'' < (''abd'' :: string)" "ascii ''abc''" "ascii ''abd''"
    by (simp_all add: ascii_def)
  moreover have "map toupper ''abc'' = map toupper ''ABC''" by code_simp
  ultimately show ?thesis
    using octet_cmp_correct [of "''abc''" "''abd''"] octet_cmp_correct [of "''abc''" "''ABC''"]
    by simp
qed

section \<open>Substrings found\<close>

definition match_at :: "bool \<Rightarrow> string \<Rightarrow> string \<Rightarrow> nat \<Rightarrow> bool" where
  "match_at casemap s pat k \<longleftrightarrow> k + length pat \<le> length s \<and>
     (\<forall>l < length pat. same_char casemap (s ! (k + l)) (pat ! l))"

lemma contains_loop_correct:
  assumes "j \<le> length pat" and "j \<le> i" and "i \<le> length s"
    and "\<forall>l < j. same_char casemap (s ! (i - j + l)) (pat ! l)"
    and "N = length s"
  shows "contains_loop casemap s N pat i j \<longleftrightarrow> (\<exists>k \<ge> i - j. match_at casemap s pat k)"
  using assms
proof (induction casemap s N pat i j rule: contains_loop.induct)
  case (1 casemap s N pat i j)
  show ?case
  proof (cases "j < length pat \<and> i < N")
    case True
    then have c: "char_at s i = s ! i" "char_at pat j = pat ! j" using "1.prems" by (simp_all add: char_at_def)
    show ?thesis
    proof (cases "same_char casemap (s ! i) (pat ! j)")
      case same: True
      have "\<forall>l < j + 1. same_char casemap (s ! (i + 1 - (j + 1) + l)) (pat ! l)"
        using "1.prems" same by (auto simp: less_Suc_eq)
      with "1.IH"(1) [OF True] "1.prems" True same c
      show ?thesis by (subst contains_loop.simps) simp
    next
      case differ: False
      have "\<not> match_at casemap s pat (i - j)"
        using True differ "1.prems" by (auto simp: match_at_def dest: spec [of _ j])
      then have "(\<exists>k \<ge> i - j. match_at casemap s pat k) \<longleftrightarrow> (\<exists>k \<ge> i - j + 1. match_at casemap s pat k)"
        by (metis Suc_eq_plus1 Suc_leD le_antisym not_less_eq_eq)
      moreover have "i - j + 1 \<le> length s" using True "1.prems" by linarith
      ultimately show ?thesis using "1.IH"(2) [OF True] "1.prems" True differ c
        by (subst contains_loop.simps) simp
    qed
  next
    case False
    show ?thesis
    proof (cases "j = length pat")
      case True
      then have "match_at casemap s pat (i - j)" using "1.prems" by (simp add: match_at_def)
      with True show ?thesis by (subst contains_loop.simps) auto
    next
      case j: False
      then have "i = length s" using False "1.prems" by auto
      then have "\<nexists>k. i - j \<le> k \<and> match_at casemap s pat k"
        using j "1.prems" by (auto simp: match_at_def)
      with False j show ?thesis by (subst contains_loop.simps) auto
    qed
  qed
qed

lemma match_at_sublist:
  "(\<exists>k. match_at casemap s pat k) \<longleftrightarrow>
   (\<exists>u w v. s = u @ w @ v \<and> map (folded casemap) w = map (folded casemap) pat)"
proof
  assume "\<exists>k. match_at casemap s pat k"
  then obtain k where k: "k + length pat \<le> length s"
    and eq: "\<forall>l < length pat. same_char casemap (s ! (k + l)) (pat ! l)"
    by (auto simp: match_at_def)
  have "map (folded casemap) (take (length pat) (drop k s)) = map (folded casemap) pat"
    using k eq by (intro nth_equalityI) (auto simp: same_char_iff)
  then show "\<exists>u w v. s = u @ w @ v \<and> map (folded casemap) w = map (folded casemap) pat"
    by (metis append_take_drop_id)
next
  assume "\<exists>u w v. s = u @ w @ v \<and> map (folded casemap) w = map (folded casemap) pat"
  then obtain u w v where s: "s = u @ w @ v" and eq: "map (folded casemap) w = map (folded casemap) pat"
    by blast
  have len: "length w = length pat" using eq by (rule map_eq_imp_length_eq)
  have "same_char casemap (w ! l) (pat ! l)" if "l < length pat" for l
    using arg_cong [OF eq, of "\<lambda>xs. xs ! l"] that len by (simp add: same_char_iff)
  then have "match_at casemap s pat (length u)"
    using len by (auto simp: match_at_def s nth_append)
  then show "\<exists>k. match_at casemap s pat k" by blast
qed

text \<open>
  the substring comparators. \<^verbatim>\<open>octet_contains\<close> says yes exactly when the pattern occurs
  in the text, \<^verbatim>\<open>ascii_casemap_contains\<close> when it occurs up to the case of letters; the search
  ends on every text.
\<close>

theorem contains_correct:
  "(octet_contains s (length s) pat \<longleftrightarrow> (\<exists>u v. s = u @ pat @ v)) \<and>
   (ascii_casemap_contains s (length s) pat \<longleftrightarrow>
     (\<exists>u w v. s = u @ w @ v \<and> map toupper w = map toupper pat))"
proof -
  have "contains_loop casemap s (length s) pat 0 0 \<longleftrightarrow>
      (\<exists>u w v. s = u @ w @ v \<and> map (folded casemap) w = map (folded casemap) pat)" for casemap
    using contains_loop_correct [of 0 pat 0 s casemap] match_at_sublist by simp
  from this [of False] this [of True] show ?thesis
    by (simp add: octet_contains_def ascii_casemap_contains_def octet_contains_gen_def)
qed

section \<open>Wildcards matched\<close>

text \<open>
  What a pattern means: a question mark is one character, a star any number of them, so that
  what follows it matches some suffix of the text.
\<close>

fun somewhere :: "(string \<Rightarrow> bool) \<Rightarrow> string \<Rightarrow> bool" where
  "somewhere P [] = P []"
| "somewhere P (x # t) = (P (x # t) \<or> somewhere P t)"

lemma somewhere_iff: "somewhere P t \<longleftrightarrow> (\<exists>u v. t = u @ v \<and> P v)"
  by (induction t) (auto simp: Cons_eq_append_conv)

primrec sieve_glob :: "bool \<Rightarrow> string \<Rightarrow> string \<Rightarrow> bool" where
  "sieve_glob casemap [] t = (t = [])"
| "sieve_glob casemap (c # p) t =
     (if c = CHR ''?'' then t \<noteq> [] \<and> sieve_glob casemap p (tl t)
      else if c = CHR ''*'' then somewhere (sieve_glob casemap p) t
      else t \<noteq> [] \<and> same_char casemap c (hd t) \<and> sieve_glob casemap p (tl t))"

lemma somewhere_question: "somewhere (\<lambda>t. t \<noteq> [] \<and> P (tl t)) t \<longleftrightarrow> t \<noteq> [] \<and> somewhere P (tl t)"
proof (induction t)
  case (Cons x t)
  then show ?case by (cases t) auto
qed simp

lemma somewhere_star: "somewhere (somewhere P) t \<longleftrightarrow> somewhere P t"
  by (induction t) auto

lemma glob_question:
  "sieve_glob casemap (CHR ''?'' # p) = (\<lambda>t. t \<noteq> [] \<and> sieve_glob casemap p (tl t))"
  by (rule ext) simp

lemma glob_star: "sieve_glob casemap (CHR ''*'' # p) = somewhere (sieve_glob casemap p)"
  by (rule ext) simp

lemma of_nat_length_0: "length t < 2 ^ 64 \<Longrightarrow> (of_nat (length t) :: 64 word) = 0 \<longleftrightarrow> t = []"
proof -
  assume "length t < 2 ^ 64"
  then have "unat (of_nat (length t) :: 64 word) = length t"
    by (simp add: unsigned_of_nat take_bit_nat_eq_self)
  then show ?thesis
    using unat_0_iff [of "of_nat (length t) :: 64 word"] by simp
qed

lemma coalesce_somewhere:
  assumes "length t < 2 ^ 64"
  shows "case coalesce t (of_nat (length t)) p of
      None \<Rightarrow> \<not> somewhere (sieve_glob casemap p) t
    | Some (t', n', p') \<Rightarrow> n' = of_nat (length t') \<and> length t' \<le> length t \<and>
        length p' \<le> length p \<and> set p' \<subseteq> set p \<and> set t' \<subseteq> set t \<and>
        (somewhere (sieve_glob casemap p) t \<longleftrightarrow> somewhere (sieve_glob casemap p') t') \<and>
        (p' \<noteq> [] \<longrightarrow> hd p' \<noteq> CHR ''?'' \<and> hd p' \<noteq> CHR ''*'')"
  using assms
proof (induction p arbitrary: t)
  case (Cons c p)
  show ?case
  proof (cases "c = CHR ''?''")
    case True
    show ?thesis
    proof (cases t)
      case Nil
      then show ?thesis using True by simp
    next
      case (Cons x t')
      with Cons.prems Cons.IH [of t'] True show ?thesis
        by (auto simp: glob_question somewhere_question of_nat_length_0 [of "x # t'", simplified]
            simp del: sieve_glob.simps split: option.splits)
    qed
  next
    case q: False
    show ?thesis
    proof (cases "c = CHR ''*''")
      case True
      with Cons.prems Cons.IH [of t] show ?thesis
        by (auto simp: glob_star somewhere_star simp del: sieve_glob.simps split: option.splits)
    next
      case False
      with q show ?thesis by simp
    qed
  qed
qed simp

lemma same_char_NUL: "c \<noteq> NUL \<Longrightarrow> \<not> same_char casemap c NUL"
proof -
  have up: "toupper c = NUL \<Longrightarrow> c = NUL"
  proof (cases "islower c")
    case True
    assume "toupper c = NUL"
    moreover have "of_char (toupper c) = (of_char c - 32 :: nat) mod 256"
      using True by (simp add: toupper_def)
    ultimately have "(of_char c - 32 :: nat) mod 256 = 0" by simp
    moreover have "(of_char c :: nat) \<ge> 97" "(of_char c :: nat) \<le> 122"
      using True by (auto simp: islower_def less_eq_char_def)
    ultimately show "c = NUL" by simp
  qed (simp add: toupper_def)
  assume "c \<noteq> NUL"
  with up show ?thesis by (auto simp: same_char_def toupper_def islower_def)
qed

lemma star_loop_somewhere:
  assumes "\<And>t'. length t' \<le> length t \<Longrightarrow>
      octet_matches_gen casemap t' (of_nat (length t')) p = Some (sieve_glob casemap p t')"
    and "p \<noteq> []" "hd p \<noteq> CHR ''?''" "hd p \<noteq> CHR ''*''" and "length t < 2 ^ 64"
  shows "star_loop casemap t (of_nat (length t)) p = Some (somewhere (sieve_glob casemap p) t)"
  using assms
proof (induction t)
  case Nil
  then show ?case
    by (subst star_loop.simps) (auto simp: same_char_NUL neq_Nil_conv)
next
  case (Cons x t)
  have "star_loop casemap t (of_nat (length t)) p = Some (somewhere (sieve_glob casemap p) t)"
    using Cons.prems by (intro Cons.IH) auto
  moreover have "(of_nat (length (x # t)) :: 64 word) \<noteq> 0"
    using Cons.prems(5) of_nat_length_0 [of "x # t"] by simp
  ultimately show ?case
    using Cons.prems(1) [of "x # t"] by (subst star_loop.simps) auto
qed

lemma octet_matches_glob:
  assumes "length t < 2 ^ 64" and "NUL \<notin> set p" and "CHR 0x5C \<notin> set p"
  shows "octet_matches_gen casemap t (of_nat (length t)) p = Some (sieve_glob casemap p t)"
  using assms
proof (induction "length p" arbitrary: p t rule: less_induct)
  case less
  show ?case
  proof (cases p)
    case Nil
    then show ?thesis using less.prems by (subst octet_matches_gen.simps) (simp add: of_nat_length_0)
  next
    case (Cons c q)
    have IH: "octet_matches_gen casemap t' (of_nat (length t')) q' = Some (sieve_glob casemap q' t')"
      if "length q' < length p" "set q' \<subseteq> set p" "length t' < 2 ^ 64" for t' q'
      using that less.prems by (intro less.hyps) auto
    have z: "(of_nat (length t) :: 64 word) = 0 \<longleftrightarrow> t = []"
      using less.prems(1) by (rule of_nat_length_0)
    consider "c = CHR ''?''" | "c = CHR ''*''" | "c \<noteq> CHR ''?''" "c \<noteq> CHR ''*''" by blast
    then show ?thesis
    proof cases
      case 1
      have "octet_matches_gen casemap (tl t) (of_nat (length (tl t))) q =
          Some (sieve_glob casemap q (tl t))"
        by (rule IH) (use Cons less.prems in auto)
      with 1 Cons z show ?thesis
        by (subst octet_matches_gen.simps) (cases t; auto)
    next
      case 2
      note co = coalesce_somewhere [OF less.prems(1), where p = q and casemap = casemap]
      show ?thesis
      proof (cases "coalesce t (of_nat (length t)) q")
        case None
        with co Cons 2 show ?thesis by (subst octet_matches_gen.simps) simp
      next
        case (Some r)
        then obtain t' n' p' where r: "coalesce t (of_nat (length t)) q = Some (t', n', p')"
          by (cases r) auto
        with co have p': "n' = of_nat (length t')" "length t' \<le> length t" "length p' \<le> length q"
            "set p' \<subseteq> set q" "p' \<noteq> [] \<longrightarrow> hd p' \<noteq> CHR ''?'' \<and> hd p' \<noteq> CHR ''*''"
            "somewhere (sieve_glob casemap q) t \<longleftrightarrow> somewhere (sieve_glob casemap p') t'"
          by auto
        have "star_loop casemap t' (of_nat (length t')) p' = Some (somewhere (sieve_glob casemap p') t')"
          if "p' \<noteq> []"
          using that p' less.prems Cons by (intro star_loop_somewhere IH) auto
        moreover have "somewhere (sieve_glob casemap []) t'" by (induction t') auto
        ultimately show ?thesis
          using r p' Cons 2 by (subst octet_matches_gen.simps) auto
      qed
    next
      case 3
      have c: "c \<noteq> NUL" "c \<noteq> CHR 0x5C" using less.prems Cons by auto
      show ?thesis
      proof (cases t)
        case Nil
        then show ?thesis using Cons 3 c by (subst octet_matches_gen.simps) (simp add: same_char_NUL)
      next
        case (Cons x t')
        then show ?thesis
          using \<open>p = c # q\<close> 3 c less.prems IH [of q t'] by (subst octet_matches_gen.simps) auto
      qed
    qed
  qed
qed

text \<open>
  C33: the wildcard comparators. On a C string and a pattern without backslashes,
  \<^verbatim>\<open>octet_matches\<close> and \<^verbatim>\<open>ascii_casemap_matches\<close> decide whether the pattern matches the
  whole text, a question mark standing for one character and a star for any number of them;
  the recursion ends and nothing is read behind the strings.
\<close>

theorem matches_correct:
  assumes "length t < 2 ^ 64" and "NUL \<notin> set p" and "CHR 0x5C \<notin> set p"
  shows "octet_matches t (length t) p = Some (sieve_glob False p t) \<and>
    ascii_casemap_matches t (length t) p = Some (sieve_glob True p t)"
  by (simp add: octet_matches_def ascii_casemap_matches_def octet_matches_glob [OF assms])

theorem matches_correct_witness:
  "octet_matches ''report.txt'' (length ''report.txt'') ''r*.t?t'' = Some True \<and>
   ascii_casemap_matches ''report'' (length ''report'') ''*X*'' = Some False"
proof -
  have "sieve_glob False ''r*.t?t'' ''report.txt''" "\<not> sieve_glob True ''*X*'' ''report''"
    by code_simp+
  then show ?thesis
    using matches_correct [of "''report.txt''" "''r*.t?t''"] matches_correct [of "''report''" "''*X*''"]
    by simp
qed

text \<open>
  A backslash does not quote: the pattern \<^verbatim>\<open>\*\<close> matches a text that is one backslash, and not
  the star it is meant to match.
\<close>

theorem matches_backslash_does_not_quote:
  "octet_matches ''*'' 1 [CHR 0x5C, CHR ''*''] = Some False \<and>
   octet_matches [CHR 0x5C] 1 [CHR 0x5C, CHR ''*''] = Some True"
  by code_simp

section \<open>Numbers compared\<close>

definition digit_val :: "char \<Rightarrow> nat" where
  "digit_val c = of_char c - 48"

primrec digits_val :: "string \<Rightarrow> nat" where
  "digits_val [] = 0"
| "digits_val (c # s) = digit_val c * 10 ^ length s + digits_val s"

definition leading_number :: "string \<Rightarrow> nat" where
  "leading_number s = digits_val (takeWhile isdigit s)"

definition cmp3 :: "nat \<Rightarrow> nat \<Rightarrow> int" where
  "cmp3 m n = (if m < n then - 1 else if n < m then 1 else 0)"

lemma isdigit_val:
  assumes "isdigit c"
  shows "digit_val c < 10" and "CHR ''0'' < c \<longleftrightarrow> digit_val c \<noteq> 0"
  using assms by (auto simp: isdigit_def digit_val_def less_eq_char_def less_char_def)

lemma digit_less: "isdigit c \<Longrightarrow> isdigit d \<Longrightarrow> c < d \<longleftrightarrow> digit_val c < digit_val d"
  by (auto simp: isdigit_def digit_val_def less_eq_char_def less_char_def)

lemma digits_val_bound: "list_all isdigit s \<Longrightarrow> digits_val s < 10 ^ length s"
proof (induction s)
  case (Cons c s)
  then have "digit_val c \<le> 9" "digits_val s < 10 ^ length s"
    using isdigit_val(1) [of c] by auto
  then have "digit_val c * 10 ^ length s + digits_val s < 9 * 10 ^ length s + 10 ^ length s"
    by (intro add_le_less_mono mult_right_mono) auto
  then show ?case by simp
qed simp

lemma digits_val_append: "digits_val (a @ b) = digits_val a * 10 ^ length b + digits_val b"
  by (induction a) (simp_all add: power_add algebra_simps)

lemma skip_zeros_digits:
  "list_all isdigit z \<Longrightarrow> skip_zeros (length z) (z @ r) = (if digits_val z = 0 then Some r else None)"
  by (induction z) (auto simp: isdigit_val(2))

lemma digits_cmp_digits:
  "list_all isdigit a \<Longrightarrow> list_all isdigit b \<Longrightarrow> length a = length b \<Longrightarrow>
   digits_cmp (length a) (a @ x) (b @ y) = cmp3 (digits_val a) (digits_val b)"
proof (induction a arbitrary: b)
  case (Cons c a)
  then obtain d b' where b: "b = d # b'" by (cases b) auto
  let ?P = "(10 :: nat) ^ length a"
  have bounds: "digits_val a < ?P" "digits_val b' < ?P"
    using Cons.prems digits_val_bound [of a] digits_val_bound [of b'] by (auto simp: b)
  have less: "digit_val x * ?P + u < digit_val y * ?P + v"
    if "digit_val x < digit_val y" "u < ?P" for x y u v
  proof -
    have "digit_val x * ?P + u < (digit_val x + 1) * ?P" using that by simp
    also have "\<dots> \<le> digit_val y * ?P" using that by (intro mult_right_mono) auto
    finally show ?thesis by simp
  qed
  show ?case
    using Cons.prems Cons.IH [of b'] bounds less [of c d "digits_val a" "digits_val b'"]
      less [of d c "digits_val b'" "digits_val a"] digit_less [of c d] digit_less [of d c]
    by (auto simp: b cmp3_def not_less_iff_gr_or_eq digit_val_def)
qed (simp add: cmp3_def)

lemma takeWhile_digits [simp]: "list_all isdigit (takeWhile isdigit s)"
  by (simp add: list_all_iff) (metis set_takeWhileD)

lemma pad_split:
  assumes "length u \<le> length v" and "list_all isdigit u" and "list_all isdigit v"
  obtains z c where "v = z @ c" "length z = length v - length u" "length c = length u"
    "list_all isdigit z" "list_all isdigit c"
    "digits_val z = 0 \<longrightarrow> digits_val v = digits_val c"
    "digits_val z \<noteq> 0 \<longrightarrow> digits_val u < digits_val v"
proof -
  let ?z = "take (length v - length u) v" and ?c = "drop (length v - length u) v"
  have v: "digits_val v = digits_val ?z * 10 ^ length u + digits_val ?c"
    using assms(1) digits_val_append [of ?z ?c] by simp
  have u: "digits_val u < 10 ^ length u" using assms(2) by (rule digits_val_bound)
  have z: "10 ^ length u \<le> digits_val ?z * 10 ^ length u" if "digits_val ?z \<noteq> 0"
    using that by (cases "digits_val ?z") auto
  have "digits_val u < digits_val v" if "digits_val ?z \<noteq> 0"
    using u z [OF that] v by linarith
  with v assms show thesis
    by (intro that [of ?z ?c]) (auto simp: list_all_iff dest: in_set_takeD in_set_dropD)
qed

lemma pad_shorter:
  assumes "length u \<le> length v" and "list_all isdigit u" and "list_all isdigit v"
  shows "(case skip_zeros (length v - length u) (v @ w) of
      None \<Rightarrow> - 1 | Some p \<Rightarrow> digits_cmp (length u) (u @ t) p) = cmp3 (digits_val u) (digits_val v)"
proof -
  obtain z c where zc: "v = z @ c" "length z = length v - length u" "length c = length u"
    "list_all isdigit z" "list_all isdigit c"
    "digits_val z = 0 \<longrightarrow> digits_val v = digits_val c"
    "digits_val z \<noteq> 0 \<longrightarrow> digits_val u < digits_val v"
    by (rule pad_split [OF assms])
  have "v @ w = z @ c @ w" by (simp add: zc(1))
  then have "skip_zeros (length v - length u) (v @ w) =
      (if digits_val z = 0 then Some (c @ w) else None)"
    by (simp only: zc(2) [symmetric] skip_zeros_digits [OF zc(4)])
  then show ?thesis
    using zc(5-7) digits_cmp_digits [OF assms(2) zc(5), of t w] zc(3) by (auto simp: cmp3_def)
qed

lemma pad_longer:
  assumes "length u \<le> length v" and "list_all isdigit v" and "list_all isdigit u"
  shows "(case skip_zeros (length v - length u) (v @ w) of
      None \<Rightarrow> 1 | Some p \<Rightarrow> digits_cmp (length u) p (u @ t)) = cmp3 (digits_val v) (digits_val u)"
proof -
  obtain z c where zc: "v = z @ c" "length z = length v - length u" "length c = length u"
    "list_all isdigit z" "list_all isdigit c"
    "digits_val z = 0 \<longrightarrow> digits_val v = digits_val c"
    "digits_val z \<noteq> 0 \<longrightarrow> digits_val u < digits_val v"
    by (rule pad_split [OF assms(1,3,2)])
  have "v @ w = z @ c @ w" by (simp add: zc(1))
  then have "skip_zeros (length v - length u) (v @ w) =
      (if digits_val z = 0 then Some (c @ w) else None)"
    by (simp only: zc(2) [symmetric] skip_zeros_digits [OF zc(4)])
  then show ?thesis
    using zc(5-7) digits_cmp_digits [OF zc(5) assms(3), of w t] zc(3) by (auto simp: cmp3_def)
qed

text \<open>
  the numeric comparator. \<^verbatim>\<open>i;ascii-numeric\<close> compares the numbers two strings begin
  with, of any length; a string that begins with no digit is greater than every number and
  equal to every other such string.
\<close>

theorem ascii_numeric_correct:
  "ascii_numeric_cmp s (length s) pat =
    (if isdigit (deref s) \<and> isdigit (deref pat) then cmp3 (leading_number s) (leading_number pat)
     else if isdigit (deref pat) then 1 else if isdigit (deref s) then - 1 else 0)"
proof (cases "isdigit (deref s) \<and> isdigit (deref pat)")
  case True
  define a x where "a = takeWhile isdigit s" and "x = dropWhile isdigit s"
  define b y where "b = takeWhile isdigit pat" and "y = dropWhile isdigit pat"
  have s: "s = a @ x" "pat = b @ y" by (simp_all add: a_def x_def b_def y_def)
  have digits: "list_all isdigit a" "list_all isdigit b" by (simp_all add: a_def b_def)
  have num: "leading_number s = digits_val a" "leading_number pat = digits_val b"
    by (simp_all add: leading_number_def a_def b_def)
  have len: "length (takeWhile isdigit (take (length s) s)) = length a"
      "length (takeWhile isdigit pat) = length b"
    by (simp_all add: a_def b_def)
  show ?thesis
  proof (cases "length a < length b")
    case less: True
    show ?thesis
      using True less pad_shorter [OF less_imp_le [OF less] digits, where w = y and t = x]
      unfolding ascii_numeric_cmp_def Let_def len num unfolding s by simp
  next
    case False
    then show ?thesis
      using True pad_longer [OF _ digits, where w = x and t = y]
      unfolding ascii_numeric_cmp_def Let_def len num unfolding s by simp
  qed
qed (auto simp: ascii_numeric_cmp_def)

end
