(* ===== verification/Sieve_Message.thy ===== *)
theory Sieve_Message
  imports Sieve_Comparator
begin

text \<open>
  The actions a Sieve script collects, \<^verbatim>\<open>sieve/message.c\<close>: the list of actions with the rules
  for incompatible ones, the list of notifications, and the walk over the addresses of a
  header.

  A \<^verbatim>\<open>char *\<close> that may be \<^verbatim>\<open>NULL\<close> is an option. A linked list is the list of its nodes,
  \<^verbatim>\<open>NULL\<close> is the empty one. The flags a \<^verbatim>\<open>fileinto\<close> or \<^verbatim>\<open>keep\<close> action points to are the one
  list of flags of the script, so the node does not hold them. \<^verbatim>\<open>None\<close> is a result the code
  does not define: a \<^verbatim>\<open>NULL\<close> pointer is followed. \<^verbatim>\<open>xmalloc\<close> does not return \<^verbatim>\<open>NULL\<close>.
\<close>

section \<open>The list of actions\<close>

record vacation_ctx =
  vac_addr :: "string option"
  vac_fromaddr :: "string option"
  vac_subj :: string
  vac_msg :: "string option"
  vac_mime :: cint
  vac_hash :: string
  vac_days :: cint

datatype action_data =
    ACTION_NONE
  | ACTION_REJECT "string option"
  | ACTION_FILEINTO "string option"
  | ACTION_KEEP
  | ACTION_REDIRECT "string option"
  | ACTION_DISCARD
  | ACTION_VACATION vacation_ctx
  | ACTION_SETFLAG "string option"
  | ACTION_ADDFLAG "string option"
  | ACTION_REMOVEFLAG "string option"
  | ACTION_MARK
  | ACTION_UNMARK

record action =
  act :: action_data
  cancel_keep :: bool

definition new_action_list :: "action list" where
  "new_action_list = [\<lparr>act = ACTION_NONE, cancel_keep = False\<rparr>]"

text \<open>
  The loop all the functions start with: the first node for which \<^verbatim>\<open>f\<close> has an answer ends
  the function with that answer. Otherwise a node is added behind the last one.
\<close>

fun walk_actions :: "(action_data \<Rightarrow> int option) \<Rightarrow> action list \<Rightarrow> int option" where
  "walk_actions f [] = None"
| "walk_actions f (b # a) = (case f (act b) of Some r \<Rightarrow> Some r | None \<Rightarrow> walk_actions f a)"

definition add_action ::
  "(action_data \<Rightarrow> int option) \<Rightarrow> action_data \<Rightarrow> bool \<Rightarrow> action list \<Rightarrow> (int \<times> action list) option"
where
  "add_action f d cancel a =
     (case walk_actions f a of
        Some r \<Rightarrow> Some (r, a)
      | None \<Rightarrow> if a = [] then None
                else Some (0, a @ [\<lparr>act = d, cancel_keep = cancel\<rparr>]))"

fun is_reject :: "action_data \<Rightarrow> bool" where
  "is_reject (ACTION_REJECT _) = True"
| "is_reject _ = False"

fun is_vacation :: "action_data \<Rightarrow> bool" where
  "is_vacation (ACTION_VACATION _) = True"
| "is_vacation _ = False"

definition not_after_reject :: "action_data \<Rightarrow> int option" where
  "not_after_reject d = (if is_reject d then Some SIEVE_RUN_ERROR else None)"

fun reject_conflict :: "action_data \<Rightarrow> int option" where
  "reject_conflict ACTION_NONE = None"
| "reject_conflict ACTION_DISCARD = None"
| "reject_conflict _ = Some SIEVE_RUN_ERROR"

definition do_reject :: "string option \<Rightarrow> action list \<Rightarrow> (int \<times> action list) option" where
  "do_reject msg a = add_action reject_conflict (ACTION_REJECT msg) True a"

definition do_fileinto :: "string option \<Rightarrow> bool \<Rightarrow> action list \<Rightarrow> (int \<times> action list) option" where
  "do_fileinto mbox cancel a = add_action not_after_reject (ACTION_FILEINTO mbox) cancel a"

definition do_redirect :: "string option \<Rightarrow> bool \<Rightarrow> action list \<Rightarrow> (int \<times> action list) option" where
  "do_redirect addr cancel a = add_action not_after_reject (ACTION_REDIRECT addr) cancel a"

definition do_keep :: "action list \<Rightarrow> (int \<times> action list) option" where
  "do_keep a = add_action
     (\<lambda>d. if is_reject d then Some SIEVE_RUN_ERROR else if d = ACTION_KEEP then Some 0 else None)
     ACTION_KEEP True a"

definition do_discard :: "action list \<Rightarrow> (int \<times> action list) option" where
  "do_discard a = add_action (\<lambda>d. if d = ACTION_DISCARD then Some 0 else None) ACTION_DISCARD True a"

text \<open>
  The hash that identifies a reply; \<^verbatim>\<open>md5\<close> is the digest of the bytes given to
  \<^verbatim>\<open>MD5Update\<close>.
\<close>

definition makehash ::
  "(string \<Rightarrow> string) \<Rightarrow> string option \<Rightarrow> string option \<Rightarrow> string option \<Rightarrow> string option" where
  "makehash md5 s1 s2 s3 = (case (s1, s2) of
     (Some s1, Some s2) \<Rightarrow>
       Some (md5 (s1 @ s2 @ (case s3 of Some s3 \<Rightarrow> s3 | None \<Rightarrow> [])))
   | _ \<Rightarrow> None)"

definition do_vacation ::
  "(string \<Rightarrow> string) \<Rightarrow> string option \<Rightarrow> string option \<Rightarrow> string \<Rightarrow> string option \<Rightarrow> cint \<Rightarrow> cint \<Rightarrow>
   string option \<Rightarrow> action list \<Rightarrow> (int \<times> action list) option" where
  "do_vacation md5 addr fromaddr subj msg days mime handle a =
     (let f = (\<lambda>d. if is_reject d \<or> is_vacation d then Some SIEVE_RUN_ERROR else None) in
      case walk_actions f a of
        Some r \<Rightarrow> Some (r, a)
      | None \<Rightarrow>
          (case (case handle of Some h \<Rightarrow> makehash md5 addr (Some h) None
                 | None \<Rightarrow> makehash md5 addr fromaddr msg) of
             None \<Rightarrow> None
           | Some hash \<Rightarrow>
               add_action f
                 (ACTION_VACATION \<lparr>vac_addr = addr, vac_fromaddr = fromaddr, vac_subj = subj,
                    vac_msg = msg, vac_mime = mime, vac_hash = hash, vac_days = days\<rparr>)
                 False a))"

definition do_setflag :: "string option \<Rightarrow> action list \<Rightarrow> (int \<times> action list) option" where
  "do_setflag flag a = add_action not_after_reject (ACTION_SETFLAG flag) False a"

definition do_addflag :: "string option \<Rightarrow> action list \<Rightarrow> (int \<times> action list) option" where
  "do_addflag flag a = add_action not_after_reject (ACTION_ADDFLAG flag) False a"

definition do_removeflag :: "string option \<Rightarrow> action list \<Rightarrow> (int \<times> action list) option" where
  "do_removeflag flag a = add_action not_after_reject (ACTION_REMOVEFLAG flag) False a"

definition do_mark :: "action list \<Rightarrow> (int \<times> action list) option" where
  "do_mark a = add_action not_after_reject ACTION_MARK False a"

definition do_unmark :: "action list \<Rightarrow> (int \<times> action list) option" where
  "do_unmark a = add_action not_after_reject ACTION_UNMARK False a"

section \<open>The list of notifications\<close>

record notify_item =
  ni_isactive :: bool
  ni_id :: "string option"
  ni_method :: "string option"
  ni_options :: "string option list option"
  ni_priority :: "string option"
  ni_message :: "string option"

definition new_notify_list :: "notify_item list" where
  "new_notify_list = [\<lparr>ni_isactive = False, ni_id = None, ni_method = None, ni_options = None,
     ni_priority = None, ni_message = None\<rparr>]"

definition do_notify ::
  "string option \<Rightarrow> string option \<Rightarrow> string option list \<Rightarrow> string option \<Rightarrow> string option \<Rightarrow>
   notify_item list \<Rightarrow> (int \<times> notify_item list) option" where
  "do_notify nid method options priority message n =
     (if n = [] then None
      else Some (0, n @ [\<lparr>ni_isactive = True, ni_id = nid, ni_method = method,
        ni_options = Some options, ni_priority = priority, ni_message = message\<rparr>]))"

text \<open>The condition of \<^verbatim>\<open>do_denotify\<close> on a node, evaluated from left to right.\<close>

definition denotify_hits ::
  "('r \<Rightarrow> string \<Rightarrow> bool) \<Rightarrow> comparator_t option \<Rightarrow> 'r pattern option \<Rightarrow> string option \<Rightarrow>
   notify_item \<Rightarrow> bool option" where
  "denotify_hits rx cmpf pat priority n =
     (if \<not> ni_isactive n then Some False
      else case (case priority of
             None \<Rightarrow> Some True
           | Some p \<Rightarrow> map_option (\<lambda>np. strcase_eq np p) (ni_priority n)) of
        None \<Rightarrow> None
      | Some False \<Rightarrow> Some False
      | Some True \<Rightarrow>
          (case cmpf of
             None \<Rightarrow> Some True
           | Some cmp \<Rightarrow>
               (case ni_id n of
                  None \<Rightarrow> Some False
                | Some nid \<Rightarrow>
                    (case pat of None \<Rightarrow> None | Some p \<Rightarrow> run_comp rx cmp nid (length nid) p))))"

fun do_denotify ::
  "('r \<Rightarrow> string \<Rightarrow> bool) \<Rightarrow> comparator_t option \<Rightarrow> 'r pattern option \<Rightarrow> string option \<Rightarrow>
   notify_item list \<Rightarrow> notify_item list option" where
  "do_denotify rx cmpf pat priority [] = Some []"
| "do_denotify rx cmpf pat priority (n # ns) =
     (case denotify_hits rx cmpf pat priority n of
        None \<Rightarrow> None
      | Some hit \<Rightarrow>
          map_option (\<lambda>ns. (if hit then n\<lparr>ni_isactive := False\<rparr> else n) # ns)
            (do_denotify rx cmpf pat priority ns))"

section \<open>Addresses\<close>

text \<open>The parts of \<^verbatim>\<open>struct address\<close> that are read here.\<close>

record address =
  ad_mailbox :: "string option"
  ad_domain :: "string option"

datatype address_part_t =
  ADDRESS_ALL | ADDRESS_LOCALPART | ADDRESS_DOMAIN | ADDRESS_USER | ADDRESS_DETAIL

definition address_part :: "address_part_t \<Rightarrow> bool \<Rightarrow> address \<Rightarrow> string option" where
  "address_part addrpart canon_domain a =
     (let domain = (if canon_domain then map_option (map tolower) (ad_domain a) else ad_domain a)
      in case addrpart of
        ADDRESS_ALL \<Rightarrow>
          if ad_mailbox a \<noteq> None \<or> domain \<noteq> None
          then Some ((case ad_mailbox a of Some m \<Rightarrow> m | None \<Rightarrow> ''unknown-user'') @ ''@'' @
                     (case domain of Some d \<Rightarrow> d | None \<Rightarrow> ''unspecified-domain''))
          else None
      | ADDRESS_LOCALPART \<Rightarrow> ad_mailbox a
      | ADDRESS_DOMAIN \<Rightarrow> domain
      | ADDRESS_USER \<Rightarrow>
          map_option (\<lambda>m. case strchr m (CHR ''+'') of Some (p, q) \<Rightarrow> p | None \<Rightarrow> m) (ad_mailbox a)
      | ADDRESS_DETAIL \<Rightarrow>
          (case ad_mailbox a of
             Some m \<Rightarrow> map_option snd (strchr m (CHR ''+''))
           | None \<Rightarrow> None))"

text \<open>
  \<^verbatim>\<open>get_address\<close>: the part of the address the marker is at, and the marker moved to the next
  address. \<^verbatim>\<open>parse_address\<close> sets the marker to the list that \<^verbatim>\<open>parseaddr_list\<close> returns.
\<close>

fun get_address ::
  "address_part_t \<Rightarrow> bool \<Rightarrow> address list \<Rightarrow> string option \<times> address list" where
  "get_address addrpart canon_domain [] = (None, [])"
| "get_address addrpart canon_domain (a # am) = (address_part addrpart canon_domain a, am)"

section \<open>Compatible actions\<close>

text \<open>What a script can ask for, and the function that handles it.\<close>

datatype request =
    R_REJECT "string option"
  | R_FILEINTO "string option" bool
  | R_REDIRECT "string option" bool
  | R_KEEP
  | R_DISCARD
  | R_VACATION "string option" "string option" string "string option" cint cint "string option"
  | R_SETFLAG "string option"
  | R_ADDFLAG "string option"
  | R_REMOVEFLAG "string option"
  | R_MARK
  | R_UNMARK

fun do_request :: "(string \<Rightarrow> string) \<Rightarrow> request \<Rightarrow> action list \<Rightarrow> (int \<times> action list) option" where
  "do_request md5 (R_REJECT msg) a = do_reject msg a"
| "do_request md5 (R_FILEINTO mbox cancel) a = do_fileinto mbox cancel a"
| "do_request md5 (R_REDIRECT addr cancel) a = do_redirect addr cancel a"
| "do_request md5 R_KEEP a = do_keep a"
| "do_request md5 R_DISCARD a = do_discard a"
| "do_request md5 (R_VACATION addr fromaddr subj msg days mime handle) a =
     do_vacation md5 addr fromaddr subj msg days mime handle a"
| "do_request md5 (R_SETFLAG flag) a = do_setflag flag a"
| "do_request md5 (R_ADDFLAG flag) a = do_addflag flag a"
| "do_request md5 (R_REMOVEFLAG flag) a = do_removeflag flag a"
| "do_request md5 R_MARK a = do_mark a"
| "do_request md5 R_UNMARK a = do_unmark a"

text \<open>A vacation request needs the two addresses its hash is computed from.\<close>

fun request_ok :: "request \<Rightarrow> bool" where
  "request_ok (R_VACATION addr fromaddr subj msg days mime handle) \<longleftrightarrow>
     addr \<noteq> None \<and> (fromaddr \<noteq> None \<or> handle \<noteq> None)"
| "request_ok _ \<longleftrightarrow> True"

definition active :: "action list \<Rightarrow> action_data list" where
  "active a = filter (\<lambda>d. d \<noteq> ACTION_NONE \<and> d \<noteq> ACTION_DISCARD) (map act a)"

text \<open>
  The invariant: the dummy node is first, a rejection is alone but for \<^verbatim>\<open>discard\<close>, and there
  is at most one \<^verbatim>\<open>keep\<close>, one \<^verbatim>\<open>discard\<close> and one \<^verbatim>\<open>vacation\<close>.
\<close>

definition compatible :: "action list \<Rightarrow> bool" where
  "compatible a \<longleftrightarrow> a \<noteq> [] \<and> act (hd a) = ACTION_NONE \<and>
     (list_ex is_reject (active a) \<longrightarrow> length (active a) = 1) \<and>
     length (filter ((=) ACTION_KEEP) (map act a)) \<le> 1 \<and>
     length (filter ((=) ACTION_DISCARD) (map act a)) \<le> 1 \<and>
     length (filter is_vacation (map act a)) \<le> 1"

fun conflicts :: "request \<Rightarrow> action list \<Rightarrow> bool" where
  "conflicts (R_REJECT msg) a \<longleftrightarrow> active a \<noteq> []"
| "conflicts R_DISCARD a \<longleftrightarrow> False"
| "conflicts (R_VACATION addr fromaddr subj msg days mime handle) a \<longleftrightarrow>
     list_ex is_reject (active a) \<or> list_ex is_vacation (active a)"
| "conflicts _ a \<longleftrightarrow> list_ex is_reject (active a)"

text \<open>A second \<^verbatim>\<open>keep\<close> or \<^verbatim>\<open>discard\<close> is accepted and adds nothing.\<close>

definition repeated :: "request \<Rightarrow> action list \<Rightarrow> bool" where
  "repeated r a \<longleftrightarrow> r = R_KEEP \<and> ACTION_KEEP \<in> act ` set a \<or>
     r = R_DISCARD \<and> ACTION_DISCARD \<in> act ` set a"

lemma walk_actions_None: "walk_actions f a = None \<longleftrightarrow> (\<forall>b \<in> set a. f (act b) = None)"
  by (induction a) (auto split: option.splits)

lemma walk_actions_const:
  "(\<And>d. f d = None \<or> f d = Some r) \<Longrightarrow>
   walk_actions f a = (if \<exists>b \<in> set a. f (act b) \<noteq> None then Some r else None)"
proof (induction a)
  case (Cons b a)
  then show ?case by (cases "f (act b)") (auto, metis option.inject option.distinct(1))
qed simp

lemma active_reject: "list_ex is_reject (active a) \<longleftrightarrow> (\<exists>b \<in> set a. is_reject (act b))"
  by (auto simp: active_def list_ex_iff) (metis is_reject.simps(2,6))

lemma active_vacation: "list_ex is_vacation (active a) \<longleftrightarrow> (\<exists>b \<in> set a. is_vacation (act b))"
  by (auto simp: active_def list_ex_iff) (metis is_vacation.simps(2,7))

lemma walk_not_after_reject:
  "walk_actions not_after_reject a =
     (if list_ex is_reject (active a) then Some SIEVE_RUN_ERROR else None)"
  by (subst walk_actions_const [where r = SIEVE_RUN_ERROR])
    (auto simp: not_after_reject_def active_reject)

lemma walk_reject_conflict:
  "walk_actions reject_conflict a = (if active a \<noteq> [] then Some SIEVE_RUN_ERROR else None)"
proof -
  have "reject_conflict d = None \<or> reject_conflict d = Some SIEVE_RUN_ERROR" for d
    by (cases d) simp_all
  moreover have "reject_conflict d \<noteq> None \<longleftrightarrow> d \<noteq> ACTION_NONE \<and> d \<noteq> ACTION_DISCARD" for d
    by (cases d) simp_all
  ultimately show ?thesis
    by (subst walk_actions_const [where r = SIEVE_RUN_ERROR])
      (auto simp: active_def filter_empty_conv)
qed

lemma active_snoc [simp]:
  "active (a @ [b]) = active a @
     (if act b = ACTION_NONE \<or> act b = ACTION_DISCARD then [] else [act b])"
  by (simp add: active_def)

lemma reject_excludes_keep:
  "compatible a \<Longrightarrow> list_ex is_reject (active a) \<Longrightarrow> ACTION_KEEP \<notin> act ` set a"
proof
  assume c: "compatible a" and r: "list_ex is_reject (active a)" and "ACTION_KEEP \<in> act ` set a"
  then have "ACTION_KEEP \<in> set (active a)" by (auto simp: active_def)
  moreover obtain d where "active a = [d]" "is_reject d"
    using c r by (auto simp: compatible_def length_Suc_conv)
  ultimately show False by simp
qed

lemma walk_keep:
  assumes "compatible a"
  shows "walk_actions (\<lambda>d. if is_reject d then Some SIEVE_RUN_ERROR
           else if d = ACTION_KEEP then Some 0 else None) a =
         (if list_ex is_reject (active a) then Some SIEVE_RUN_ERROR
          else if ACTION_KEEP \<in> act ` set a then Some 0 else None)"
proof (cases "list_ex is_reject (active a)")
  case True
  have "walk_actions (\<lambda>d. if is_reject d then Some SIEVE_RUN_ERROR
      else if d = ACTION_KEEP then Some 0 else None) b = walk_actions not_after_reject b"
    if "ACTION_KEEP \<notin> act ` set b" for b
    using that by (induction b) (auto simp: not_after_reject_def)
  then show ?thesis using True reject_excludes_keep [OF assms True] walk_not_after_reject [of a] by simp
next
  case False
  then have "\<forall>b \<in> set a. \<not> is_reject (act b)" by (simp add: active_reject)
  then have "walk_actions (\<lambda>d. if is_reject d then Some SIEVE_RUN_ERROR
      else if d = ACTION_KEEP then Some 0 else None) a =
      (if ACTION_KEEP \<in> act ` set a then Some 0 else None)"
    by (induction a) auto
  with False show ?thesis by simp
qed

lemma walk_discard:
  "walk_actions (\<lambda>d. if d = ACTION_DISCARD then Some 0 else None) a =
     (if ACTION_DISCARD \<in> act ` set a then Some 0 else None)"
  by (induction a) auto

lemma walk_vacation:
  "walk_actions (\<lambda>d. if is_reject d \<or> is_vacation d then Some SIEVE_RUN_ERROR else None) a =
     (if list_ex is_reject (active a) \<or> list_ex is_vacation (active a)
      then Some SIEVE_RUN_ERROR else None)"
  by (subst walk_actions_const [where r = SIEVE_RUN_ERROR])
    (auto simp: active_reject active_vacation)

lemmas walk_simps = walk_not_after_reject walk_reject_conflict walk_keep walk_discard walk_vacation

lemmas do_defs = do_reject_def do_fileinto_def do_redirect_def do_keep_def do_discard_def
  do_vacation_def do_setflag_def do_addflag_def do_removeflag_def do_mark_def do_unmark_def
  add_action_def Let_def

lemma compatible_new: "compatible new_action_list"
  by (simp add: compatible_def new_action_list_def active_def)

text \<open>The action a request adds.\<close>

fun requested :: "(string \<Rightarrow> string) \<Rightarrow> request \<Rightarrow> action" where
  "requested md5 (R_REJECT msg) = \<lparr>act = ACTION_REJECT msg, cancel_keep = True\<rparr>"
| "requested md5 (R_FILEINTO mbox cancel) = \<lparr>act = ACTION_FILEINTO mbox, cancel_keep = cancel\<rparr>"
| "requested md5 (R_REDIRECT addr cancel) = \<lparr>act = ACTION_REDIRECT addr, cancel_keep = cancel\<rparr>"
| "requested md5 R_KEEP = \<lparr>act = ACTION_KEEP, cancel_keep = True\<rparr>"
| "requested md5 R_DISCARD = \<lparr>act = ACTION_DISCARD, cancel_keep = True\<rparr>"
| "requested md5 (R_VACATION addr fromaddr subj msg days mime handle) =
     \<lparr>act = ACTION_VACATION \<lparr>vac_addr = addr, vac_fromaddr = fromaddr, vac_subj = subj,
        vac_msg = msg, vac_mime = mime,
        vac_hash = md5 (the addr @ (case handle of Some h \<Rightarrow> h
          | None \<Rightarrow> the fromaddr @ (case msg of Some m \<Rightarrow> m | None \<Rightarrow> []))),
        vac_days = days\<rparr>,
      cancel_keep = False\<rparr>"
| "requested md5 (R_SETFLAG flag) = \<lparr>act = ACTION_SETFLAG flag, cancel_keep = False\<rparr>"
| "requested md5 (R_ADDFLAG flag) = \<lparr>act = ACTION_ADDFLAG flag, cancel_keep = False\<rparr>"
| "requested md5 (R_REMOVEFLAG flag) = \<lparr>act = ACTION_REMOVEFLAG flag, cancel_keep = False\<rparr>"
| "requested md5 R_MARK = \<lparr>act = ACTION_MARK, cancel_keep = False\<rparr>"
| "requested md5 R_UNMARK = \<lparr>act = ACTION_UNMARK, cancel_keep = False\<rparr>"

lemma do_request_outcome:
  assumes "compatible a" and "request_ok r"
  shows "do_request md5 r a = Some
    (if conflicts r a then (SIEVE_RUN_ERROR, a)
     else if repeated r a then (0, a)
     else (0, a @ [requested md5 r]))"
  using assms
  by (cases r) (auto simp: do_defs walk_simps repeated_def makehash_def compatible_def
      split: option.splits)

lemma do_request_compatible:
  assumes "compatible a" and "request_ok r" and "do_request md5 r a = Some (ret, a')"
  shows "compatible a'"
proof -
  have *: "compatible (a @ [requested md5 r])" if "\<not> conflicts r a" "\<not> repeated r a"
  proof -
    have none: "filter ((=) d) (map act a) = []" if "d \<notin> act ` set a" for d
      using that by (auto simp: filter_empty_conv)
    have vac: "filter is_vacation (map act a) = []" if "\<not> list_ex is_vacation (active a)"
      using that by (auto simp: filter_empty_conv active_vacation)
    show ?thesis
      using assms(1) that none vac
      by (cases r) (auto simp: compatible_def repeated_def)
  qed
  show ?thesis
    using assms(1,3) * do_request_outcome [OF assms(1,2), of md5] by (auto split: if_splits)
qed

fun do_requests ::
  "(string \<Rightarrow> string) \<Rightarrow> request list \<Rightarrow> action list \<Rightarrow> (int list \<times> action list) option" where
  "do_requests md5 [] a = Some ([], a)"
| "do_requests md5 (r # rs) a = (case do_request md5 r a of
     None \<Rightarrow> None
   | Some (ret, a) \<Rightarrow> map_option (\<lambda>(rets, a). (ret # rets, a)) (do_requests md5 rs a))"

lemma do_requests_compatible:
  "list_all request_ok rs \<Longrightarrow> compatible a \<Longrightarrow>
   \<exists>rets a'. do_requests md5 rs a = Some (rets, a') \<and> compatible a'"
proof (induction rs arbitrary: a)
  case (Cons r rs)
  obtain ret b where b: "do_request md5 r a = Some (ret, b)"
    using do_request_outcome [of a r md5] Cons.prems by (auto split: if_splits)
  with Cons have "compatible b" by (auto intro: do_request_compatible)
  with Cons b show ?case by fastforce
qed simp

text \<open>
  however a script mixes its actions, the list it builds from the empty one is always
  compatible: a rejection stands alone, but for \<^verbatim>\<open>discard\<close>, and the message is kept, discarded
  and answered at most once. No request follows a null pointer.
\<close>

theorem action_list_compatible:
  assumes "list_all request_ok rs"
  shows "\<exists>rets a. do_requests md5 rs new_action_list = Some (rets, a) \<and> compatible a"
  using assms compatible_new by (rule do_requests_compatible)

theorem action_list_compatible_witness:
  "\<exists>rets a. do_requests id [R_DISCARD, R_REJECT (Some ''no''), R_KEEP, R_DISCARD] new_action_list
     = Some (rets, a) \<and> compatible a"
  by (rule action_list_compatible) simp

text \<open>
  C34: what one request does to a compatible list. It is refused with \<^verbatim>\<open>SIEVE_RUN_ERROR\<close>, and
  the list is unchanged, exactly when it conflicts with an action of the list; a second
  \<^verbatim>\<open>keep\<close> or \<^verbatim>\<open>discard\<close> succeeds and adds nothing; any other request succeeds and adds its
  action at the end.
\<close>

theorem action_request_outcome:
  assumes "compatible a" and "request_ok r"
  shows "do_request md5 r a = Some
    (if conflicts r a then (SIEVE_RUN_ERROR, a)
     else if repeated r a then (0, a)
     else (0, a @ [requested md5 r]))"
  using assms by (rule do_request_outcome)

theorem action_request_outcome_witness:
  "do_request id (R_REJECT (Some ''no'')) (new_action_list @ [\<lparr>act = ACTION_MARK, cancel_keep = False\<rparr>])
     = Some (SIEVE_RUN_ERROR, new_action_list @ [\<lparr>act = ACTION_MARK, cancel_keep = False\<rparr>])"
proof -
  let ?a = "new_action_list @ [\<lparr>act = ACTION_MARK, cancel_keep = False\<rparr>]"
  have "compatible ?a" and "conflicts (R_REJECT (Some ''no'')) ?a"
    by (simp_all add: compatible_def new_action_list_def active_def)
  then show ?thesis using action_request_outcome [of ?a "R_REJECT (Some ''no'')" id] by simp
qed

end
