(* ===== verification/Sieve_Generate.thy ===== *)
theory Sieve_Generate
  imports Sieve_Tree
begin

text \<open>
  The first pass of the Sieve compiler, \<^verbatim>\<open>sieve/bc_generate.c\<close>: a parse tree becomes an
  almost flat array of words and string pointers.

  A cell of the array is a word (the members \<^verbatim>\<open>op\<close>, \<^verbatim>\<open>value\<close>, \<^verbatim>\<open>jump\<close>, \<^verbatim>\<open>listlen\<close> and \<^verbatim>\<open>len\<close> of
  the union), a pointer (the member \<^verbatim>\<open>str\<close>), or not written yet. The length of the array is
  the field \<^verbatim>\<open>reallen\<close>. A function of the pass returns the next free cell and the new array
  (\<^verbatim>\<open>Next\<close>), \<^verbatim>\<open>-1\<close> (\<^verbatim>\<open>Fail\<close>), or performs a write outside the array (\<^verbatim>\<open>Undefined\<close>).
  \<^verbatim>\<open>xrealloc\<close> ends the program when memory is short, so \<^verbatim>\<open>atleast\<close> never fails. Cell numbers are
  natural numbers; the words that hold them wrap at 32 bits.

  The theorems show that every write is inside the array and that the array holds, from the
  given cell on, exactly the layout the pure functions \<^verbatim>\<open>test_units\<close> and \<^verbatim>\<open>cmds_units\<close>
  define.
\<close>

section \<open>The array\<close>

datatype bytecode_t = W cint | P "string option" | Unset

record bytecode_info =
  bi_data :: "bytecode_t list"
  bi_scriptend :: nat

datatype gen = Next nat bytecode_info | Fail | Undefined

fun andthen :: "gen \<Rightarrow> (nat \<Rightarrow> bytecode_info \<Rightarrow> gen) \<Rightarrow> gen" where
  "andthen (Next codep s) f = f codep s"
| "andthen Fail f = Fail"
| "andthen Undefined f = Undefined"

definition atleast :: "bytecode_info \<Rightarrow> nat \<Rightarrow> bytecode_info" where
  "atleast arr len =
     (let reallen = length (bi_data arr) in
      if reallen < len
      then arr\<lparr>bi_data := bi_data arr @
             replicate ((if len > reallen * 2 then len else reallen * 2) - reallen) Unset\<rparr>
      else arr)"

text \<open>The assignment \<^verbatim>\<open>retval->data[codep++] = x\<close>, and a sequence of them.\<close>

definition put :: "nat \<Rightarrow> bytecode_t \<Rightarrow> bytecode_info \<Rightarrow> gen" where
  "put codep x s =
     (if codep < length (bi_data s)
      then Next (codep + 1) (s\<lparr>bi_data := (bi_data s)[codep := x]\<rparr>) else Undefined)"

fun put_units :: "nat \<Rightarrow> bytecode_t list \<Rightarrow> bytecode_info \<Rightarrow> gen" where
  "put_units codep [] s = Next codep s"
| "put_units codep (x # xs) s = andthen (put codep x s) (\<lambda>codep s. put_units codep xs s)"

text \<open>The two cells of a string: \<^verbatim>\<open>-1\<close> and \<^verbatim>\<open>NULL\<close> where there is none.\<close>

definition string_units :: "string option \<Rightarrow> bytecode_t list" where
  "string_units s = (case s of
     Some str \<Rightarrow> [W (of_nat (length str)), P (Some str)] | None \<Rightarrow> [W (- 1), P None])"

section \<open>Lists, relations and comparators\<close>

fun stringlist_loop :: "nat \<Rightarrow> bytecode_info \<Rightarrow> stringlist \<Rightarrow> gen" where
  "stringlist_loop codep s [] = Next codep s"
| "stringlist_loop codep s (cur # sl) =
     andthen (put_units codep (string_units (Some cur)) (atleast s (codep + 2)))
       (\<lambda>codep s. stringlist_loop codep s sl)"

definition bc_stringlist_generate :: "nat \<Rightarrow> bytecode_info \<Rightarrow> stringlist \<Rightarrow> gen" where
  "bc_stringlist_generate len_codep s sl =
     (let codep = len_codep + 1;
          s = atleast s (codep + 1)
      in andthen (stringlist_loop codep s sl) (\<lambda>codep s.
           andthen (put len_codep (W (of_nat (length sl))) s) (\<lambda>_ s. Next codep s)))"

definition relation_value :: "token \<Rightarrow> cint" where
  "relation_value relat =
     (if relat = TK_GT then B_GT else if relat = TK_GE then B_GE
      else if relat = TK_LT then B_LT else if relat = TK_LE then B_LE
      else if relat = TK_EQ then B_EQ else if relat = TK_NE then B_NE
      else - 1)"

definition bc_relation_generate :: "nat \<Rightarrow> bytecode_info \<Rightarrow> token \<Rightarrow> gen" where
  "bc_relation_generate codep s relat =
     put_units codep [W (relation_value relat)] (atleast s (codep + 1))"

definition comptag_value :: "token \<Rightarrow> cint option" where
  "comptag_value tag =
     (if tag = TK_IS then Some B_IS else if tag = TK_CONTAINS then Some B_CONTAINS
      else if tag = TK_MATCHES then Some B_MATCHES else if tag = TK_REGEX then Some B_REGEX
      else if tag = TK_COUNT then Some B_COUNT else if tag = TK_VALUE then Some B_VALUE
      else None)"

definition comparator_value :: "string \<Rightarrow> cint option" where
  "comparator_value cmp =
     (if cmp = ''i;octet'' then Some B_OCTET
      else if cmp = ''i;ascii-casemap'' then Some B_ASCIICASEMAP
      else if cmp = ''i;ascii-numeric'' then Some B_ASCIINUMERIC
      else None)"

text \<open>A comparator without a number of its own writes no third word.\<close>

definition bc_comparator_generate ::
  "nat \<Rightarrow> bytecode_info \<Rightarrow> token \<Rightarrow> token \<Rightarrow> string \<Rightarrow> gen" where
  "bc_comparator_generate codep s ctag relat cmp =
     (let s = atleast s (codep + 1) in
      case comptag_value ctag of
        None \<Rightarrow> Fail
      | Some v \<Rightarrow>
          andthen (put_units codep [W v] s) (\<lambda>codep s.
          andthen (bc_relation_generate codep s relat) (\<lambda>codep s.
          let s = atleast s (codep + 1) in
          case comparator_value cmp of
            Some v \<Rightarrow> put_units codep [W v] s | None \<Rightarrow> Next codep s)))"

section \<open>Tests\<close>

definition addrpart_value :: "token \<Rightarrow> cint option" where
  "addrpart_value p =
     (if p = TK_ALL then Some B_ALL else if p = TK_LOCALPART then Some B_LOCALPART
      else if p = TK_DOMAIN then Some B_DOMAIN else if p = TK_USER then Some B_USER
      else if p = TK_DETAIL then Some B_DETAIL else None)"

definition transform_value :: "token \<Rightarrow> cint option" where
  "transform_value p =
     (if p = TK_RAW then Some B_RAW else if p = TK_TEXT then Some B_TEXT
      else if p = TK_CONTENT then Some B_CONTENT else None)"

definition header_generate ::
  "nat \<Rightarrow> bytecode_info \<Rightarrow> match_spec \<Rightarrow> stringlist \<Rightarrow> stringlist \<Rightarrow> gen" where
  "header_generate codep s m sl pl =
     andthen (put_units codep [W BC_HEADER] (atleast s (codep + 1))) (\<lambda>codep s.
     andthen (bc_comparator_generate codep s (comptag m) (relation m) (comparator m)) (\<lambda>codep s.
     andthen (bc_stringlist_generate codep s sl) (\<lambda>codep s.
     bc_stringlist_generate codep s pl)))"

definition address_generate ::
  "cint \<Rightarrow> nat \<Rightarrow> bytecode_info \<Rightarrow> match_spec \<Rightarrow> token \<Rightarrow> stringlist \<Rightarrow> stringlist \<Rightarrow> gen" where
  "address_generate opcode codep s m addrpart sl pl =
     andthen (put_units codep [W opcode] (atleast s (codep + 1))) (\<lambda>codep s.
     andthen (bc_comparator_generate codep s (comptag m) (relation m) (comparator m)) (\<lambda>codep s.
     let s = atleast s (codep + 1) in
     case addrpart_value addrpart of
       None \<Rightarrow> Fail
     | Some v \<Rightarrow>
         andthen (put_units codep [W v] s) (\<lambda>codep s.
         andthen (bc_stringlist_generate codep s sl) (\<lambda>codep s.
         bc_stringlist_generate codep s pl))))"

definition body_generate ::
  "nat \<Rightarrow> bytecode_info \<Rightarrow> match_spec \<Rightarrow> token \<Rightarrow> cint \<Rightarrow> stringlist \<Rightarrow> stringlist \<Rightarrow> gen" where
  "body_generate codep s m transform offset content_types pl =
     andthen (put_units codep [W BC_BODY] (atleast s (codep + 1))) (\<lambda>codep s.
     andthen (bc_comparator_generate codep s (comptag m) (relation m) (comparator m)) (\<lambda>codep s.
     let s = atleast s (codep + 2) in
     case transform_value transform of
       None \<Rightarrow> Fail
     | Some v \<Rightarrow>
         andthen (put_units codep [W v, W offset] s) (\<lambda>codep s.
         andthen (bc_stringlist_generate codep s content_types) (\<lambda>codep s.
         bc_stringlist_generate codep s pl))))"

text \<open>
  A test of a list that fails makes \<^verbatim>\<open>codep\<close> \<^verbatim>\<open>-1\<close>; the loop does not check it, and the
  next test, if there is one, is written over the start of the array and its end to
  \<^verbatim>\<open>data[-1]\<close>.
\<close>

function bc_test_generate :: "nat \<Rightarrow> bytecode_info \<Rightarrow> test \<Rightarrow> gen"
  and bc_testlist_generate :: "nat \<Rightarrow> bytecode_info \<Rightarrow> test list \<Rightarrow> gen"
  and testlist_loop :: "nat \<Rightarrow> bytecode_info \<Rightarrow> test list \<Rightarrow> gen" where
  "bc_test_generate codep s T_STRUE = put_units codep [W BC_TRUE] (atleast s (codep + 1))"
| "bc_test_generate codep s T_SFALSE = put_units codep [W BC_FALSE] (atleast s (codep + 1))"
| "bc_test_generate codep s (T_NOT t) =
     andthen (put_units codep [W BC_NOT] (atleast s (codep + 1))) (\<lambda>codep s.
     bc_test_generate codep s t)"
| "bc_test_generate codep s (T_SIZE t n) =
     put_units codep [W BC_SIZE, W (if t = TK_OVER then B_OVER else B_UNDER), W n]
       (atleast s (codep + 3))"
| "bc_test_generate codep s (T_EXISTS sl) =
     andthen (put_units codep [W BC_EXISTS] (atleast s (codep + 1))) (\<lambda>codep s.
     bc_stringlist_generate codep s sl)"
| "bc_test_generate codep s (T_ANYOF ts) =
     andthen (put_units codep [W BC_ANYOF] (atleast s (codep + 1))) (\<lambda>codep s.
     bc_testlist_generate codep s ts)"
| "bc_test_generate codep s (T_ALLOF ts) =
     andthen (put_units codep [W BC_ALLOF] (atleast s (codep + 1))) (\<lambda>codep s.
     bc_testlist_generate codep s ts)"
| "bc_test_generate codep s (T_HEADER m sl pl) = header_generate codep s m sl pl"
| "bc_test_generate codep s (T_ADDRESS m part sl pl) =
     address_generate BC_ADDRESS codep s m part sl pl"
| "bc_test_generate codep s (T_ENVELOPE m part sl pl) =
     address_generate BC_ENVELOPE codep s m part sl pl"
| "bc_test_generate codep s (T_BODY m transform offset cts pl) =
     body_generate codep s m transform offset cts pl"
| "bc_test_generate codep s T_OTHER = Fail"
| "bc_testlist_generate len_codep s ts =
     (let codep = len_codep + 1;
          s = atleast s (codep + 1)
      in andthen (testlist_loop codep s ts) (\<lambda>codep s.
           andthen (put len_codep (W (of_nat (length ts))) s) (\<lambda>_ s. Next codep s)))"
| "testlist_loop codep s [] = Next codep s"
| "testlist_loop oldcodep s (t # ts) =
     (case bc_test_generate (oldcodep + 1) (atleast s (oldcodep + 1)) t of
        Next codep s \<Rightarrow>
          andthen (put oldcodep (W (of_nat codep)) s) (\<lambda>_ s. testlist_loop codep s ts)
      | Fail \<Rightarrow> (if ts = [] then Fail else Undefined)
      | Undefined \<Rightarrow> Undefined)"
  by pat_completeness auto
termination
  by (relation "measure (\<lambda>x. case x of
        Inl (_, _, t) \<Rightarrow> 2 * size t
      | Inr (Inl (_, _, ts)) \<Rightarrow> 2 * size_list size ts + 1
      | Inr (Inr (_, _, ts)) \<Rightarrow> 2 * size_list size ts)") auto

section \<open>Commands\<close>

definition priority_value :: "token \<Rightarrow> cint option" where
  "priority_value p =
     (if p = TK_LOW then Some B_LOW else if p = TK_NORMAL then Some B_NORMAL
      else if p = TK_HIGH then Some B_HIGH else if p = TK_ANY then Some B_ANY else None)"

definition denotify_comptag_value :: "token \<Rightarrow> cint option" where
  "denotify_comptag_value tag =
     (if tag = TK_IS then Some B_IS else if tag = TK_CONTAINS then Some B_CONTAINS
      else if tag = TK_MATCHES then Some B_MATCHES else if tag = TK_REGEX then Some B_REGEX
      else if tag = TK_ANY then Some B_ANY else None)"

definition location_value :: "token \<Rightarrow> cint option" where
  "location_value l =
     (if l = TK_PERSONAL then Some B_PERSONAL else if l = TK_GLOBAL then Some B_GLOBAL
      else None)"

definition denotify_generate :: "nat \<Rightarrow> bytecode_info \<Rightarrow> denotify_args \<Rightarrow> gen" where
  "denotify_generate codep s d =
     andthen (put_units codep [W B_DENOTIFY] (atleast s (codep + 6))) (\<lambda>codep s.
     case priority_value (d_priority d) of
       None \<Rightarrow> Fail
     | Some p \<Rightarrow>
         andthen (put_units codep [W p] s) (\<lambda>codep s.
         case denotify_comptag_value (d_comptag d) of
           None \<Rightarrow> Fail
         | Some c \<Rightarrow>
             andthen (put_units codep [W c] s) (\<lambda>codep s.
             andthen (bc_relation_generate codep s (d_relation d)) (\<lambda>codep s.
             put_units codep (string_units (d_pattern d)) s))))"

definition notify_generate :: "nat \<Rightarrow> bytecode_info \<Rightarrow> notify_args \<Rightarrow> gen" where
  "notify_generate codep s n =
     andthen (put_units codep ([W B_NOTIFY] @ string_units (Some (n_method n)) @
         string_units (n_id n)) (atleast s (codep + 5))) (\<lambda>codep s.
     andthen (bc_stringlist_generate codep s (n_options n)) (\<lambda>codep s.
     let s = atleast s (codep + 3) in
     case priority_value (n_priority n) of
       None \<Rightarrow> Fail
     | Some p \<Rightarrow> put_units codep ([W p] @ string_units (Some (n_message n))) s))"

definition vacation_generate :: "nat \<Rightarrow> bytecode_info \<Rightarrow> vacation_args \<Rightarrow> gen" where
  "vacation_generate codep s v =
     andthen (put_units codep [W B_VACATION] (atleast s (codep + 1))) (\<lambda>codep s.
     andthen (bc_stringlist_generate codep s (v_addresses v)) (\<lambda>codep s.
     andthen (put_units codep (string_units (v_subject v)) (atleast s (codep + 2))) (\<lambda>codep s.
     andthen (put_units codep (string_units (v_message v)) (atleast s (codep + 2))) (\<lambda>codep s.
     andthen (put_units codep [W (v_days v), W (v_mime v)] (atleast s (codep + 2))) (\<lambda>codep s.
     andthen (put_units codep (string_units (v_from v)) (atleast s (codep + 2))) (\<lambda>codep s.
     put_units codep (string_units (v_handle v)) (atleast s (codep + 2))))))))"

definition include_generate :: "nat \<Rightarrow> bytecode_info \<Rightarrow> token \<Rightarrow> string \<Rightarrow> gen" where
  "include_generate codep s location script =
     andthen (put_units codep [W B_INCLUDE] (atleast s (codep + 4))) (\<lambda>codep s.
     case location_value location of
       None \<Rightarrow> Fail
     | Some l \<Rightarrow> put_units codep ([W l] @ string_units (Some script)) s)"

definition flags_generate :: "cint \<Rightarrow> nat \<Rightarrow> bytecode_info \<Rightarrow> stringlist \<Rightarrow> gen" where
  "flags_generate opcode codep s sl =
     andthen (put_units codep [W opcode] (atleast s (codep + 1))) (\<lambda>codep s.
     bc_stringlist_generate codep s sl)"

text \<open>The body of the loop over the commands, \<^verbatim>\<open>IF\<close> apart.\<close>

fun simple_generate :: "nat \<Rightarrow> bytecode_info \<Rightarrow> command \<Rightarrow> gen" where
  "simple_generate codep s C_STOP = put_units codep [W B_STOP] (atleast s (codep + 1))"
| "simple_generate codep s C_DISCARD = put_units codep [W B_DISCARD] (atleast s (codep + 1))"
| "simple_generate codep s C_KEEP = put_units codep [W B_KEEP] (atleast s (codep + 1))"
| "simple_generate codep s C_MARK = put_units codep [W B_MARK] (atleast s (codep + 1))"
| "simple_generate codep s C_UNMARK = put_units codep [W B_UNMARK] (atleast s (codep + 1))"
| "simple_generate codep s C_RETURN = put_units codep [W B_RETURN] (atleast s (codep + 1))"
| "simple_generate codep s (C_DENOTIFY d) = denotify_generate codep s d"
| "simple_generate codep s (C_REJCT str) =
     put_units codep ([W B_REJECT] @ string_units (Some str)) (atleast s (codep + 3))"
| "simple_generate codep s (C_FILEINTO folder cpy) =
     put_units codep ([W B_FILEINTO, W cpy] @ string_units (Some folder)) (atleast s (codep + 4))"
| "simple_generate codep s (C_REDIRECT address cpy) =
     put_units codep ([W B_REDIRECT, W cpy] @ string_units (Some address)) (atleast s (codep + 4))"
| "simple_generate codep s (C_ADDFLAG sl) = flags_generate B_ADDFLAG codep s sl"
| "simple_generate codep s (C_SETFLAG sl) = flags_generate B_SETFLAG codep s sl"
| "simple_generate codep s (C_REMOVEFLAG sl) = flags_generate B_REMOVEFLAG codep s sl"
| "simple_generate codep s (C_NOTIFY n) = notify_generate codep s n"
| "simple_generate codep s (C_VACATION v) = vacation_generate codep s v"
| "simple_generate codep s (C_INCLUDE location script) = include_generate codep s location script"
| "simple_generate codep s (C_IF t do_then do_else) = Fail"
| "simple_generate codep s C_OTHER = Fail"

text \<open>
  \<^verbatim>\<open>command_generate\<close> is one round of the loop, \<^verbatim>\<open>action_loop\<close> the loop. The three cells after
  \<^verbatim>\<open>B_IF\<close> receive the end of the test, of the then branch and of the else branch.
\<close>

function bc_action_generate :: "nat \<Rightarrow> bytecode_info \<Rightarrow> command list \<Rightarrow> gen"
  and action_loop :: "nat \<Rightarrow> bytecode_info \<Rightarrow> command list \<Rightarrow> gen"
  and command_generate :: "nat \<Rightarrow> bytecode_info \<Rightarrow> command \<Rightarrow> gen" where
  "bc_action_generate codep s c =
     andthen (if c = [] then put_units codep [W B_NULL] (atleast s (codep + 1))
              else action_loop codep s c) (\<lambda>codep s.
     Next codep (s\<lparr>bi_scriptend := codep\<rparr>))"
| "action_loop codep s [] = Next codep s"
| "action_loop codep s (c # cs) =
     andthen (command_generate codep s c) (\<lambda>codep s. action_loop codep s cs)"
| "command_generate codep s c = (case c of
     C_IF t do_then do_else \<Rightarrow>
       (let jumploc = codep + 4 in
        andthen (put codep (W B_IF) (atleast s (codep + 4))) (\<lambda>codep s.
        andthen (bc_test_generate jumploc s t) (\<lambda>jumpVal s.
        andthen (put codep (W (of_nat jumpVal)) s) (\<lambda>codep s.
        andthen (bc_action_generate jumpVal s do_then) (\<lambda>jumpVal s.
        andthen (put codep (W (of_nat jumpVal)) s) (\<lambda>codep s.
        if do_else \<noteq> [] then
          andthen (bc_action_generate jumpVal s do_else) (\<lambda>jumpVal s.
          andthen (put codep (W (of_nat jumpVal)) s) (\<lambda>_ s. Next jumpVal s))
        else
          andthen (put codep (W (- 1)) s) (\<lambda>_ s. Next jumpVal s)))))))
   | _ \<Rightarrow> simple_generate codep s c)"
  by pat_completeness auto
termination
  by (relation "measure (\<lambda>x. case x of
        Inl (_, _, cs) \<Rightarrow> 2 * size_list size cs + 1
      | Inr (Inl (_, _, cs)) \<Rightarrow> 2 * size_list size cs
      | Inr (Inr (_, _, c)) \<Rightarrow> 2 * size c)") auto

definition sieve_generate_bytecode :: "command list \<Rightarrow> gen" where
  "sieve_generate_bytecode cmds =
     bc_action_generate 0 \<lparr>bi_data = [], bi_scriptend = 0\<rparr> cmds"

section \<open>The layout\<close>

definition stringlist_units :: "stringlist \<Rightarrow> bytecode_t list" where
  "stringlist_units sl = W (of_nat (length sl)) # concat (map (\<lambda>x. string_units (Some x)) sl)"

definition match_units :: "match_spec \<Rightarrow> bytecode_t list" where
  "match_units m = [W (the (comptag_value (comptag m))), W (relation_value (relation m)),
     W (the (comparator_value (comparator m)))]"

fun test_units :: "nat \<Rightarrow> test \<Rightarrow> bytecode_t list"
  and tests_units :: "nat \<Rightarrow> test list \<Rightarrow> bytecode_t list" where
  "test_units n T_STRUE = [W BC_TRUE]"
| "test_units n T_SFALSE = [W BC_FALSE]"
| "test_units n (T_NOT t) = W BC_NOT # test_units (n + 1) t"
| "test_units n (T_SIZE t k) = [W BC_SIZE, W (if t = TK_OVER then B_OVER else B_UNDER), W k]"
| "test_units n (T_EXISTS sl) = W BC_EXISTS # stringlist_units sl"
| "test_units n (T_ANYOF ts) = W BC_ANYOF # W (of_nat (length ts)) # tests_units (n + 2) ts"
| "test_units n (T_ALLOF ts) = W BC_ALLOF # W (of_nat (length ts)) # tests_units (n + 2) ts"
| "test_units n (T_HEADER m sl pl) =
     W BC_HEADER # match_units m @ stringlist_units sl @ stringlist_units pl"
| "test_units n (T_ADDRESS m part sl pl) =
     W BC_ADDRESS # match_units m @ W (the (addrpart_value part)) #
       stringlist_units sl @ stringlist_units pl"
| "test_units n (T_ENVELOPE m part sl pl) =
     W BC_ENVELOPE # match_units m @ W (the (addrpart_value part)) #
       stringlist_units sl @ stringlist_units pl"
| "test_units n (T_BODY m tr off cts pl) =
     W BC_BODY # match_units m @ W (the (transform_value tr)) # W off #
       stringlist_units cts @ stringlist_units pl"
| "test_units n T_OTHER = []"
| "tests_units n [] = []"
| "tests_units n (t # ts) =
     (let u = test_units (n + 1) t; e = n + 1 + length u
      in W (of_nat e) # u @ tests_units e ts)"

fun simple_units :: "command \<Rightarrow> bytecode_t list" where
  "simple_units C_STOP = [W B_STOP]"
| "simple_units C_DISCARD = [W B_DISCARD]"
| "simple_units C_KEEP = [W B_KEEP]"
| "simple_units C_MARK = [W B_MARK]"
| "simple_units C_UNMARK = [W B_UNMARK]"
| "simple_units C_RETURN = [W B_RETURN]"
| "simple_units (C_DENOTIFY d) =
     [W B_DENOTIFY, W (the (priority_value (d_priority d))),
      W (the (denotify_comptag_value (d_comptag d))), W (relation_value (d_relation d))] @
     string_units (d_pattern d)"
| "simple_units (C_REJCT str) = W B_REJECT # string_units (Some str)"
| "simple_units (C_FILEINTO folder cpy) = W B_FILEINTO # W cpy # string_units (Some folder)"
| "simple_units (C_REDIRECT address cpy) = W B_REDIRECT # W cpy # string_units (Some address)"
| "simple_units (C_ADDFLAG sl) = W B_ADDFLAG # stringlist_units sl"
| "simple_units (C_SETFLAG sl) = W B_SETFLAG # stringlist_units sl"
| "simple_units (C_REMOVEFLAG sl) = W B_REMOVEFLAG # stringlist_units sl"
| "simple_units (C_NOTIFY n) =
     [W B_NOTIFY] @ string_units (Some (n_method n)) @ string_units (n_id n) @
     stringlist_units (n_options n) @ [W (the (priority_value (n_priority n)))] @
     string_units (Some (n_message n))"
| "simple_units (C_VACATION v) =
     [W B_VACATION] @ stringlist_units (v_addresses v) @ string_units (v_subject v) @
     string_units (v_message v) @ [W (v_days v), W (v_mime v)] @
     string_units (v_from v) @ string_units (v_handle v)"
| "simple_units (C_INCLUDE location script) =
     W B_INCLUDE # W (the (location_value location)) # string_units (Some script)"
| "simple_units (C_IF t do_then do_else) = []"
| "simple_units C_OTHER = []"

text \<open>An empty block is the instruction \<^verbatim>\<open>B_NULL\<close>.\<close>

function block_units :: "nat \<Rightarrow> command list \<Rightarrow> bytecode_t list"
  and cmds_units :: "nat \<Rightarrow> command list \<Rightarrow> bytecode_t list"
  and cmd_units :: "nat \<Rightarrow> command \<Rightarrow> bytecode_t list" where
  "block_units n cs = (if cs = [] then [W B_NULL] else cmds_units n cs)"
| "cmds_units n [] = []"
| "cmds_units n (c # cs) = (let u = cmd_units n c in u @ cmds_units (n + length u) cs)"
| "cmd_units n c = (case c of
     C_IF t do_then do_else \<Rightarrow>
       (let u = test_units (n + 4) t; a = n + 4 + length u;
            v = block_units a do_then; b = a + length v;
            w = (if do_else = [] then [] else block_units b do_else)
        in [W B_IF, W (of_nat a), W (of_nat b),
            W (if do_else = [] then - 1 else of_nat (b + length w))] @ u @ v @ w)
   | _ \<Rightarrow> simple_units c)"
  by pat_completeness auto
termination
  by (relation "measure (\<lambda>x. case x of
        Inl (_, cs) \<Rightarrow> 2 * size_list size cs + 1
      | Inr (Inl (_, cs)) \<Rightarrow> 2 * size_list size cs
      | Inr (Inr (_, c)) \<Rightarrow> 2 * size c)") auto

text \<open>The trees the passes can represent: every tag has a number.\<close>

definition wf_match :: "match_spec \<Rightarrow> bool" where
  "wf_match m \<longleftrightarrow> comptag_value (comptag m) \<noteq> None \<and> comparator_value (comparator m) \<noteq> None"

fun wf_test :: "test \<Rightarrow> bool" where
  "wf_test (T_NOT t) = wf_test t"
| "wf_test (T_ANYOF ts) = list_all wf_test ts"
| "wf_test (T_ALLOF ts) = list_all wf_test ts"
| "wf_test (T_HEADER m sl pl) = wf_match m"
| "wf_test (T_ADDRESS m part sl pl) = (wf_match m \<and> addrpart_value part \<noteq> None)"
| "wf_test (T_ENVELOPE m part sl pl) = (wf_match m \<and> addrpart_value part \<noteq> None)"
| "wf_test (T_BODY m tr off cts pl) = (wf_match m \<and> transform_value tr \<noteq> None)"
| "wf_test T_OTHER = False"
| "wf_test _ = True"

fun wf_cmd :: "command \<Rightarrow> bool" where
  "wf_cmd (C_IF t a b) = (wf_test t \<and> list_all wf_cmd a \<and> list_all wf_cmd b)"
| "wf_cmd (C_DENOTIFY d) = (priority_value (d_priority d) \<noteq> None \<and>
     denotify_comptag_value (d_comptag d) \<noteq> None)"
| "wf_cmd (C_NOTIFY n) = (priority_value (n_priority n) \<noteq> None)"
| "wf_cmd (C_INCLUDE l s) = (location_value l \<noteq> None)"
| "wf_cmd C_OTHER = False"
| "wf_cmd _ = True"

section \<open>Writing a layout\<close>

text \<open>
  \<^verbatim>\<open>gen_ok codep u s g\<close>: the result \<^verbatim>\<open>g\<close> of a pass over array \<^verbatim>\<open>s\<close> is the array that holds
  the cells \<^verbatim>\<open>u\<close> from \<^verbatim>\<open>codep\<close> on, is unchanged before it, and the cell after \<^verbatim>\<open>u\<close>.
\<close>

definition placed :: "nat \<Rightarrow> bytecode_t list \<Rightarrow> bytecode_info \<Rightarrow> bytecode_info \<Rightarrow> bool" where
  "placed codep u s s' \<longleftrightarrow> codep \<le> length (bi_data s) \<and>
     length (bi_data s) \<le> length (bi_data s') \<and>
     (\<exists>r. bi_data s' = take codep (bi_data s) @ u @ r)"

definition gen_ok :: "nat \<Rightarrow> bytecode_t list \<Rightarrow> bytecode_info \<Rightarrow> gen \<Rightarrow> bool" where
  "gen_ok codep u s g \<longleftrightarrow> (\<exists>s'. g = Next (codep + length u) s' \<and> placed codep u s s')"

abbreviation room :: "nat \<Rightarrow> bytecode_info \<Rightarrow> bool" where
  "room codep s \<equiv> codep \<le> length (bi_data s)"

named_theorems gen_rules \<open>rules that place the cells of a layout\<close>

lemma placed_room: "placed n u s s' \<Longrightarrow> room (n + length u) s'"
  by (auto simp: placed_def)

lemma placed_append:
  assumes "placed n u s s'" and "placed (n + length u) v s' s''"
  shows "placed n (u @ v) s s''"
  using assms by (auto simp: placed_def take_append)

lemma atleast_data: "\<exists>r. bi_data (atleast s k) = bi_data s @ r \<and> k \<le> length (bi_data s @ r)"
  by (auto simp: atleast_def Let_def)

lemma atleast_room [simp]: "k \<le> length (bi_data (atleast s k))"
  by (auto simp: atleast_def Let_def)

lemma room_atleast: "room n s \<Longrightarrow> room n (atleast s k)"
  by (auto simp: atleast_def Let_def)

lemma placed_atleast: "placed n u (atleast s k) s' \<Longrightarrow> room n s \<Longrightarrow> placed n u s s'"
  using atleast_data [of s k] by (auto simp: placed_def)

lemma gen_ok_atleast: "gen_ok n u (atleast s k) g \<Longrightarrow> room n s \<Longrightarrow> gen_ok n u s g"
  by (auto simp: gen_ok_def intro: placed_atleast)

lemma placed_put:
  "n < length (bi_data s) \<Longrightarrow> placed n [x] s (s\<lparr>bi_data := (bi_data s)[n := x]\<rparr>)"
  by (auto simp: placed_def upd_conv_take_nth_drop)

lemma gen_ok_put: "n < length (bi_data s) \<Longrightarrow> gen_ok n [x] s (put n x s)"
  by (simp add: gen_ok_def put_def placed_put)

lemma gen_ok_andthen:
  assumes "gen_ok n u s g"
    and "\<And>s'. placed n u s s' \<Longrightarrow> room (n + length u) s' \<Longrightarrow>
           gen_ok (n + length u) v s' (f (n + length u) s')"
  shows "gen_ok n (u @ v) s (andthen g f)"
proof -
  obtain s' where g: "g = Next (n + length u) s'" and p: "placed n u s s'"
    using assms(1) by (auto simp: gen_ok_def)
  with assms(2) [OF p placed_room [OF p]] show ?thesis
    by (auto simp: gen_ok_def add.assoc intro: placed_append)
qed

lemma gen_ok_put_units:
  "n + length u \<le> length (bi_data s) \<Longrightarrow> gen_ok n u s (put_units n u s)"
proof (induction n u s rule: put_units.induct)
  case (1 n s)
  then show ?case by (auto simp: gen_ok_def placed_def intro: exI [of _ "drop n (bi_data s)"])
next
  case (2 n x xs s)
  have "gen_ok n ([x] @ xs) s (andthen (put n x s) (\<lambda>n s. put_units n xs s))"
  proof (rule gen_ok_andthen)
    show "gen_ok n [x] s (put n x s)" using "2.prems" by (intro gen_ok_put) simp
    fix s' assume "placed n [x] s s'"
    then have "n + length [x] + length xs \<le> length (bi_data s')"
      using "2.prems" by (simp add: placed_def)
    then show "gen_ok (n + length [x]) xs s' (put_units (n + length [x]) xs s')"
      by (rule "2.IH")
  qed
  then show ?case by simp
qed

lemma gen_ok_put_atleast [gen_rules]:
  "room n s \<Longrightarrow> n + length u \<le> k \<Longrightarrow> gen_ok n u s (put_units n u (atleast s k))"
  by (rule gen_ok_atleast, rule gen_ok_put_units) (auto intro: order_trans [OF _ atleast_room])

text \<open>A cell of the part already written is set again.\<close>

lemma placed_set:
  assumes "placed n us s s'" and "i < length us"
  shows "\<exists>s''. put (n + i) y s' = Next (n + i + 1) s'' \<and> placed n (us[i := y]) s s''"
proof -
  obtain r where r: "bi_data s' = take n (bi_data s) @ us @ r" and n: "room n s"
    and l: "length (bi_data s) \<le> length (bi_data s')"
    using assms(1) by (auto simp: placed_def)
  have "(bi_data s')[n + i := y] = take n (bi_data s) @ us[i := y] @ r"
    using assms(2) n by (simp add: r list_update_append min_def)
  moreover have "n + i < length (bi_data s')"
    using assms(2) n by (simp add: r)
  ultimately show ?thesis
    using n l by (auto simp: put_def placed_def r)
qed

text \<open>Cells that are skipped, to be written later.\<close>

lemma placed_gap:
  assumes "placed n u s s'" and "room (n + length u + k) s'"
  shows "\<exists>g. length g = k \<and> placed n (u @ g) s s'"
proof -
  obtain r where r: "bi_data s' = take n (bi_data s) @ u @ r" and n: "room n s"
    and l: "length (bi_data s) \<le> length (bi_data s')"
    using assms(1) by (auto simp: placed_def)
  have "k \<le> length r" using assms(2) n by (simp add: r)
  moreover have "placed n (u @ take k r) s s'"
    unfolding placed_def using n l by (auto simp: r intro: exI [of _ "drop k r"])
  ultimately show ?thesis by (intro exI [of _ "take k r"]) simp
qed

lemma gen_ok_frame:
  assumes "gen_ok (n + 1) u s g" and "n < length (bi_data s)"
  shows "gen_ok n (x # u) s (andthen g (\<lambda>c s. andthen (put n x s) (\<lambda>_ s. Next c s)))"
proof -
  obtain s' where g: "g = Next (n + 1 + length u) s'" and p: "placed (n + 1) u s s'"
    using assms(1) by (auto simp: gen_ok_def)
  have "placed n [bi_data s ! n] s s"
    using assms(2) by (auto simp: placed_def id_take_nth_drop [symmetric]
        intro!: exI [of _ "drop (Suc n) (bi_data s)"])
  from placed_append [OF this] p have "placed n (bi_data s ! n # u) s s'" by simp
  from placed_set [OF this, of 0 x] g show ?thesis
    by (auto simp: gen_ok_def)
qed

lemma gen_ok_frame_atleast:
  assumes "gen_ok (n + 1) u (atleast s k) g" and "n < k" and "room n s"
  shows "gen_ok n (x # u) s (andthen g (\<lambda>c s. andthen (put n x s) (\<lambda>_ s. Next c s)))"
  using assms by (intro gen_ok_atleast [OF gen_ok_frame]) (auto intro: less_le_trans [OF _ atleast_room])

section \<open>The passes write the layout\<close>

lemma stringlist_loop_ok:
  "room n s \<Longrightarrow> gen_ok n (concat (map (\<lambda>x. string_units (Some x)) sl)) s (stringlist_loop n s sl)"
proof (induction sl arbitrary: n s)
  case Nil
  then show ?case by (auto simp: gen_ok_def placed_def intro: exI [of _ "drop n (bi_data s)"])
next
  case (Cons x sl)
  have "gen_ok n (string_units (Some x)) s (put_units n (string_units (Some x)) (atleast s (n + 2)))"
    using Cons.prems by (intro gen_rules) (auto simp: string_units_def)
  from gen_ok_andthen [OF this, where f = "\<lambda>n s. stringlist_loop n s sl"] Cons.IH
  show ?case by simp
qed

lemma stringlist_ok [gen_rules]:
  "room n s \<Longrightarrow> gen_ok n (stringlist_units sl) s (bc_stringlist_generate n s sl)"
  unfolding stringlist_units_def bc_stringlist_generate_def Let_def
  by (rule gen_ok_frame_atleast [OF stringlist_loop_ok])
    (auto intro: order_trans [OF _ atleast_room])

lemma relation_ok [gen_rules]:
  "room n s \<Longrightarrow> gen_ok n [W (relation_value r)] s (bc_relation_generate n s r)"
  unfolding bc_relation_generate_def by (rule gen_rules) auto

lemma gen_ok_put1 [gen_rules]:
  "room n s \<Longrightarrow> gen_ok n [x] s (put_units n [x] (atleast s (n + 1)))"
  by (rule gen_rules) auto

lemma match_ok [gen_rules]:
  assumes "wf_match m" and "room n s"
  shows "gen_ok n (match_units m) s
    (bc_comparator_generate n s (comptag m) (relation m) (comparator m))"
proof -
  obtain v w where v: "comptag_value (comptag m) = Some v" "comparator_value (comparator m) = Some w"
    using assms(1) by (auto simp: wf_match_def)
  have "gen_ok n ([W v] @ [W (relation_value (relation m))] @ [W w]) s
    (andthen (put_units n [W v] (atleast s (n + 1))) (\<lambda>n s.
     andthen (bc_relation_generate n s (relation m)) (\<lambda>n s.
     put_units n [W w] (atleast s (n + 1)))))"
    by (intro gen_ok_andthen gen_rules) (use assms(2) in auto)
  with v show ?thesis by (simp add: match_units_def bc_comparator_generate_def Let_def)
qed

lemma gen_ok_op:
  assumes "room n s" and "n + 1 \<le> k"
    and "\<And>s'. room (n + 1) s' \<Longrightarrow> length (bi_data (atleast s k)) \<le> length (bi_data s') \<Longrightarrow>
      gen_ok (n + 1) v s' (f (n + 1) s')"
  shows "gen_ok n (x # v) s (andthen (put_units n [x] (atleast s k)) f)"
proof -
  have "gen_ok n ([x] @ v) (atleast s k) (andthen (put_units n [x] (atleast s k)) f)"
  proof (rule gen_ok_andthen)
    show "gen_ok n [x] (atleast s k) (put_units n [x] (atleast s k))"
      using assms(2) order_trans [OF _ atleast_room [of k s]] by (intro gen_ok_put_units) auto
  qed (use assms(3) in \<open>auto simp: placed_def\<close>)
  from gen_ok_atleast [OF this assms(1)] show ?thesis by simp
qed

lemma gen_ok_append:
  assumes "gen_ok n u s g"
    and "\<And>s'. room (n + length u) s' \<Longrightarrow> gen_ok (n + length u) v s' (f (n + length u) s')"
  shows "gen_ok n (u @ v) s (andthen g f)"
  using assms by (intro gen_ok_andthen) auto

lemma header_ok [gen_rules]:
  "wf_match m \<Longrightarrow> room n s \<Longrightarrow>
   gen_ok n (W BC_HEADER # match_units m @ stringlist_units sl @ stringlist_units pl) s
     (header_generate n s m sl pl)"
  unfolding header_generate_def by (intro gen_ok_op gen_ok_append gen_rules) auto

lemma match_units_length [simp]: "length (match_units m) = 3"
  by (simp add: match_units_def)

lemma address_ok [gen_rules]:
  assumes "wf_match m" and "addrpart_value part \<noteq> None" and "room n s"
  shows "gen_ok n (W opcode # match_units m @ W (the (addrpart_value part)) #
      stringlist_units sl @ stringlist_units pl) s (address_generate opcode n s m part sl pl)"
proof -
  obtain v where v: "addrpart_value part = Some v" using assms(2) by blast
  show ?thesis
    unfolding address_generate_def v Let_def option.case option.sel
    by (intro gen_ok_op gen_ok_append gen_rules) (use assms in auto)
qed

lemma body_ok [gen_rules]:
  assumes "wf_match m" and "transform_value tr \<noteq> None" and "room n s"
  shows "gen_ok n (W BC_BODY # match_units m @ W (the (transform_value tr)) # W off #
      stringlist_units cts @ stringlist_units pl) s (body_generate n s m tr off cts pl)"
proof -
  obtain v where v: "transform_value tr = Some v" using assms(2) by blast
  have "gen_ok n (W BC_BODY # match_units m @ [W v, W off] @
      stringlist_units cts @ stringlist_units pl) s (body_generate n s m tr off cts pl)"
    unfolding body_generate_def v Let_def option.case
    by (intro gen_ok_op gen_ok_append gen_rules) (use assms in auto)
  then show ?thesis by (simp add: v)
qed

lemma testlist_loop_ok:
  assumes "\<And>t n s. t \<in> set ts \<Longrightarrow> room n s \<Longrightarrow> gen_ok n (test_units n t) s (bc_test_generate n s t)"
    and "room n s"
  shows "gen_ok n (tests_units n ts) s (testlist_loop n s ts)"
  using assms
proof (induction ts arbitrary: n s)
  case Nil
  then show ?case by (auto simp: gen_ok_def placed_def intro: exI [of _ "drop n (bi_data s)"])
next
  case (Cons t ts)
  let ?u = "test_units (n + 1) t" and ?s = "atleast s (n + 1)"
  have "gen_ok (n + 1) ?u ?s (bc_test_generate (n + 1) ?s t)"
    by (rule Cons.prems(1)) auto
  then obtain s' where g: "bc_test_generate (n + 1) ?s t = Next (n + 1 + length ?u) s'"
    by (auto simp: gen_ok_def)
  let ?e = "n + 1 + length ?u"
  let ?g = "andthen (Next ?e s') (\<lambda>c s. andthen (put n (W (of_nat ?e)) s) (\<lambda>_ s. Next c s))"
  have "gen_ok n (W (of_nat ?e) # ?u) s ?g"
    unfolding g [symmetric]
    by (rule gen_ok_frame_atleast [OF Cons.prems(1)]) (use Cons.prems in auto)
  then have "gen_ok n ((W (of_nat ?e) # ?u) @ tests_units ?e ts) s
      (andthen ?g (\<lambda>c s. testlist_loop c s ts))"
    by (rule gen_ok_append) (use Cons in auto)
  moreover have "testlist_loop n s (t # ts) = andthen ?g (\<lambda>c s. testlist_loop c s ts)"
    by (cases "put n (W (of_nat ?e)) s'") (use g in simp_all)
  ultimately show ?case by (simp add: Let_def)
qed

lemma testlist_ok:
  assumes "\<And>t n s. t \<in> set ts \<Longrightarrow> room n s \<Longrightarrow> gen_ok n (test_units n t) s (bc_test_generate n s t)"
    and "room n s"
  shows "gen_ok n (W (of_nat (length ts)) # tests_units (n + 1) ts) s (bc_testlist_generate n s ts)"
  unfolding bc_testlist_generate.simps Let_def
  by (rule gen_ok_frame_atleast [OF testlist_loop_ok])
    (use assms in \<open>auto intro: order_trans [OF _ atleast_room]\<close>)

lemma bc_test_generate_ok [gen_rules]:
  "wf_test t \<Longrightarrow> room n s \<Longrightarrow> gen_ok n (test_units n t) s (bc_test_generate n s t)"
proof (induction t arbitrary: n s)
  case (T_NOT t)
  then show ?case unfolding bc_test_generate.simps test_units.simps
    by (intro gen_ok_op T_NOT.IH) auto
next
  case (T_ANYOF ts)
  have "gen_ok (n + 1) (W (of_nat (length ts)) # tests_units (n + 1 + 1) ts) s'
      (bc_testlist_generate (n + 1) s' ts)" if "room (n + 1) s'" for s'
    using T_ANYOF that by (intro testlist_ok) (auto simp: list_all_iff)
  with T_ANYOF.prems show ?case unfolding bc_test_generate.simps test_units.simps
    by (intro gen_ok_op) (auto simp: numeral_2_eq_2)
next
  case (T_ALLOF ts)
  have "gen_ok (n + 1) (W (of_nat (length ts)) # tests_units (n + 1 + 1) ts) s'
      (bc_testlist_generate (n + 1) s' ts)" if "room (n + 1) s'" for s'
    using T_ALLOF that by (intro testlist_ok) (auto simp: list_all_iff)
  with T_ALLOF.prems show ?case unfolding bc_test_generate.simps test_units.simps
    by (intro gen_ok_op) (auto simp: numeral_2_eq_2)
qed (auto simp del: put_units.simps BC_HEADER_def BC_BODY_def intro!: gen_ok_op gen_rules)

lemma string_units_length [simp]: "length (string_units x) = 2"
  by (cases x) (simp_all add: string_units_def)

lemma denotify_ok [gen_rules]:
  assumes "wf_cmd (C_DENOTIFY d)" and "room n s"
  shows "gen_ok n (simple_units (C_DENOTIFY d)) s (denotify_generate n s d)"
proof -
  obtain p c where p: "priority_value (d_priority d) = Some p"
    and c: "denotify_comptag_value (d_comptag d) = Some c"
    using assms(1) by auto
  let ?r = "W (relation_value (d_relation d))"
  have units: "simple_units (C_DENOTIFY d) =
      W B_DENOTIFY # [W p] @ [W c] @ [?r] @ string_units (d_pattern d)"
    by (simp add: p c)
  have room: "n + 6 \<le> length (bi_data s')"
    if "length (bi_data (atleast s (n + 6))) \<le> length (bi_data s')" for s' :: bytecode_info
    by (rule order_trans [OF atleast_room that])
  show ?thesis
    unfolding denotify_generate_def units p c option.case
  proof (rule gen_ok_op)
    fix s1 :: bytecode_info assume s1: "length (bi_data (atleast s (n + 6))) \<le> length (bi_data s1)"
    show "gen_ok (n + 1) ([W p] @ [W c] @ [?r] @ string_units (d_pattern d)) s1
      (andthen (put_units (n + 1) [W p] s1) (\<lambda>n s.
       andthen (put_units n [W c] s) (\<lambda>n s.
       andthen (bc_relation_generate n s (d_relation d)) (\<lambda>n s.
       put_units n (string_units (d_pattern d)) s))))"
      using room [OF s1]
      by (intro gen_ok_andthen gen_ok_put_units relation_ok) (auto simp: placed_def)
  qed (use assms(2) in auto)
qed

lemma notify_ok [gen_rules]:
  assumes "wf_cmd (C_NOTIFY c)" and "room n s"
  shows "gen_ok n (simple_units (C_NOTIFY c)) s (notify_generate n s c)"
proof -
  obtain p where p: "priority_value (n_priority c) = Some p" using assms(1) by auto
  have "gen_ok n (([W B_NOTIFY] @ string_units (Some (n_method c)) @ string_units (n_id c)) @
      stringlist_units (n_options c) @ ([W p] @ string_units (Some (n_message c)))) s
      (notify_generate n s c)"
    unfolding notify_generate_def p Let_def option.case
    by (intro gen_ok_append gen_rules) (use assms(2) in auto)
  then show ?thesis by (simp add: p)
qed

lemma vacation_ok [gen_rules]:
  assumes "room n s"
  shows "gen_ok n (simple_units (C_VACATION v)) s (vacation_generate n s v)"
  unfolding vacation_generate_def simple_units.simps
  by (intro gen_ok_append gen_rules) (use assms in auto)

lemma include_ok [gen_rules]:
  assumes "wf_cmd (C_INCLUDE l script)" and "room n s"
  shows "gen_ok n (simple_units (C_INCLUDE l script)) s (include_generate n s l script)"
proof -
  obtain v where v: "location_value l = Some v" using assms(1) by auto
  have room: "n + 4 \<le> length (bi_data s')"
    if "length (bi_data (atleast s (n + 4))) \<le> length (bi_data s')" for s' :: bytecode_info
    by (rule order_trans [OF atleast_room that])
  have "gen_ok n (W B_INCLUDE # ([W v] @ string_units (Some script))) s (include_generate n s l script)"
    unfolding include_generate_def v option.case
    by (intro gen_ok_op gen_ok_put_units) (use assms(2) room in \<open>auto simp: add.commute [of 4]\<close>)
  then show ?thesis by (simp add: v)
qed

lemma flags_ok [gen_rules]:
  "room n s \<Longrightarrow> gen_ok n (W opcode # stringlist_units sl) s (flags_generate opcode n s sl)"
  unfolding flags_generate_def by (intro gen_ok_op gen_rules) auto

lemma simple_ok:
  assumes "wf_cmd c" and "room n s" and "\<nexists>t a b. c = C_IF t a b"
  shows "gen_ok n (simple_units c) s (simple_generate n s c)"
proof (cases c)
  case (C_REJCT x)
  have "gen_ok n ([W B_REJECT] @ string_units (Some x)) s (simple_generate n s c)"
    unfolding C_REJCT simple_generate.simps by (rule gen_rules) (use assms in auto)
  with C_REJCT show ?thesis by simp
next
  case (C_FILEINTO x y)
  have "gen_ok n ([W B_FILEINTO, W y] @ string_units (Some x)) s (simple_generate n s c)"
    unfolding C_FILEINTO simple_generate.simps by (rule gen_rules) (use assms in auto)
  with C_FILEINTO show ?thesis by simp
next
  case (C_REDIRECT x y)
  have "gen_ok n ([W B_REDIRECT, W y] @ string_units (Some x)) s (simple_generate n s c)"
    unfolding C_REDIRECT simple_generate.simps by (rule gen_rules) (use assms in auto)
  with C_REDIRECT show ?thesis by simp
next
  case (C_NOTIFY x)
  with assms notify_ok show ?thesis by (metis simple_generate.simps(14))
next
  case (C_DENOTIFY x)
  with assms denotify_ok show ?thesis by (metis simple_generate.simps(7))
next
  case (C_VACATION x)
  with assms vacation_ok show ?thesis by (metis simple_generate.simps(15))
next
  case (C_INCLUDE x y)
  with assms include_ok show ?thesis by (metis simple_generate.simps(16))
next
  case (C_ADDFLAG x)
  with assms show ?thesis unfolding C_ADDFLAG simple_generate.simps simple_units.simps
    by (intro gen_rules)
next
  case (C_SETFLAG x)
  with assms show ?thesis unfolding C_SETFLAG simple_generate.simps simple_units.simps
    by (intro gen_rules)
next
  case (C_REMOVEFLAG x)
  with assms show ?thesis unfolding C_REMOVEFLAG simple_generate.simps simple_units.simps
    by (intro gen_rules)
qed (use assms in \<open>auto simp del: put_units.simps intro!: gen_rules\<close>)

declare cmd_units.simps [simp del] command_generate.simps [simp del]
  block_units.simps [simp del] bc_action_generate.simps [simp del]

abbreviation cmd_ok :: "command \<Rightarrow> bool" where
  "cmd_ok c \<equiv> \<forall>n s. room n s \<longrightarrow> gen_ok n (cmd_units n c) s (command_generate n s c)"

lemma action_loop_ok:
  assumes "list_all cmd_ok cs" and "room n s"
  shows "gen_ok n (cmds_units n cs) s (action_loop n s cs)"
  using assms
proof (induction cs arbitrary: n s)
  case Nil
  then show ?case by (auto simp: gen_ok_def placed_def intro: exI [of _ "drop n (bi_data s)"])
next
  case (Cons c cs)
  have "gen_ok n (cmd_units n c @ cmds_units (n + length (cmd_units n c)) cs) s
      (andthen (command_generate n s c) (\<lambda>n s. action_loop n s cs))"
    by (rule gen_ok_append) (use Cons in auto)
  then show ?case by (simp add: Let_def)
qed

lemma block_ok:
  assumes "list_all cmd_ok cs" and "room n s"
  shows "\<exists>s'. bc_action_generate n s cs = Next (n + length (block_units n cs)) s' \<and>
    placed n (block_units n cs) s s' \<and> bi_scriptend s' = n + length (block_units n cs)"
proof -
  have "gen_ok n (block_units n cs) s
      (if cs = [] then put_units n [W B_NULL] (atleast s (n + 1)) else action_loop n s cs)"
    by (cases "cs = []") (auto simp: block_units.simps simp del: put_units.simps
        intro!: gen_rules action_loop_ok assms)
  then obtain s' where g: "(if cs = [] then put_units n [W B_NULL] (atleast s (n + 1))
        else action_loop n s cs) = Next (n + length (block_units n cs)) s'"
    and p: "placed n (block_units n cs) s s'"
    unfolding gen_ok_def by blast
  show ?thesis
    unfolding bc_action_generate.simps [of n s cs] g using p by (simp add: placed_def)
qed

lemma placed_extend:
  "placed n us s s' \<Longrightarrow> m = n + length us \<Longrightarrow> placed m vs s' s'' \<Longrightarrow> placed n (us @ vs) s s''"
  by (auto intro: placed_append)

lemma if_ok:
  assumes t: "wf_test t" and a: "list_all cmd_ok do_then" and b: "list_all cmd_ok do_else"
    and n: "room n s"
  shows "gen_ok n (cmd_units n (C_IF t do_then do_else)) s
    (command_generate n s (C_IF t do_then do_else))"
proof -
  define u where "u = test_units (n + 4) t"
  define p where "p = n + 4 + length u"
  define v where "v = block_units p do_then"
  define q where "q = p + length v"
  define w where "w = (if do_else = [] then [] else block_units q do_else)"
  define e where "e = q + length w"
  have "gen_ok n [W B_IF] (atleast s (n + 4)) (put n (W B_IF) (atleast s (n + 4)))"
    by (rule gen_ok_put) (auto intro: less_le_trans [OF _ atleast_room])
  then obtain s1 where g1: "put n (W B_IF) (atleast s (n + 4)) = Next (n + 1) s1"
    and p1: "placed n [W B_IF] (atleast s (n + 4)) s1"
    by (auto simp: gen_ok_def)
  have r1: "room (n + 4) s1"
    using p1 by (auto simp: placed_def intro: order_trans [OF atleast_room])
  obtain x y z where p1': "placed n [W B_IF, x, y, z] s s1"
    using placed_gap [OF p1, of 3] r1 placed_atleast [OF _ n, of _ "n + 4" s1]
    by (force simp: length_Suc_conv numeral_3_eq_3 eval_nat_numeral)
  obtain s2 where g2: "bc_test_generate (n + 4) s1 t = Next p s2" and p2: "placed (n + 4) u s1 s2"
    using bc_test_generate_ok [OF t r1] by (auto simp: gen_ok_def u_def p_def)
  have p2': "placed n ([W B_IF, x, y, z] @ u) s s2"
    by (rule placed_extend [OF p1' _ p2]) simp
  obtain s3 where g3: "put (Suc n) (W (of_nat p)) s2 = Next (Suc (Suc n)) s3"
    and p3: "placed n ([W B_IF, W (of_nat p), y, z] @ u) s s3"
    using placed_set [OF p2', of 1 "W (of_nat p)"] by auto
  have r3: "room p s3"
    using placed_room [OF p3] by (simp add: p_def)
  obtain s4 where g4: "bc_action_generate p s3 do_then = Next q s4" and p4: "placed p v s3 s4"
    using block_ok [OF a r3] by (auto simp: v_def q_def)
  have p4': "placed n (([W B_IF, W (of_nat p), y, z] @ u) @ v) s s4"
    by (rule placed_extend [OF p3 _ p4]) (simp add: p_def)
  obtain s5 where g5: "put (Suc (Suc n)) (W (of_nat q)) s4 = Next (Suc (Suc (Suc n))) s5"
    and p5: "placed n ([W B_IF, W (of_nat p), W (of_nat q), z] @ u @ v) s s5"
    using placed_set [OF p4', of 2 "W (of_nat q)"] by (auto simp: eval_nat_numeral)
  have r5: "room q s5"
    using placed_room [OF p5] by (simp add: p_def q_def)
  note code = command_generate.simps [of n s "C_IF t do_then do_else"]
  show ?thesis
  proof (cases "do_else = []")
    case True
    obtain s6 where g6: "put (Suc (Suc (Suc n))) (W (- 1)) s5 = Next (n + 4) s6"
      and p6: "placed n ([W B_IF, W (of_nat p), W (of_nat q), W (- 1)] @ u @ v) s s6"
      using placed_set [OF p5, of 3 "W (- 1)"] by (auto simp: eval_nat_numeral)
    have "command_generate n s (C_IF t do_then do_else) = Next q s6"
      unfolding code using True by (simp add: Let_def g1 g2 g3 g4 g5 g6 del: B_IF_def)
    with p6 True show ?thesis
      by (simp add: gen_ok_def cmd_units.simps Let_def u_def [symmetric] p_def [symmetric]
          v_def [symmetric] q_def [symmetric]) (simp add: p_def q_def)
  next
    case False
    obtain s6 where g6: "bc_action_generate q s5 do_else = Next e s6" and p6: "placed q w s5 s6"
      using block_ok [OF b r5] False by (auto simp: w_def e_def)
    have p6': "placed n (([W B_IF, W (of_nat p), W (of_nat q), z] @ u @ v) @ w) s s6"
      by (rule placed_extend [OF p5 _ p6]) (simp add: p_def q_def)
    obtain s7 where g7: "put (Suc (Suc (Suc n))) (W (of_nat e)) s6 = Next (n + 4) s7"
      and p7: "placed n ([W B_IF, W (of_nat p), W (of_nat q), W (of_nat e)] @ u @ v @ w) s s7"
      using placed_set [OF p6', of 3 "W (of_nat e)"] by (auto simp: eval_nat_numeral)
    have "command_generate n s (C_IF t do_then do_else) = Next e s7"
      unfolding code using False by (simp add: Let_def g1 g2 g3 g4 g5 g6 g7 del: B_IF_def)
    moreover have "cmd_units n (C_IF t do_then do_else) =
        [W B_IF, W (of_nat p), W (of_nat q), W (of_nat e)] @ u @ v @ w"
      using False by (simp add: cmd_units.simps Let_def u_def p_def v_def q_def w_def e_def)
    ultimately show ?thesis
      using p7 by (simp add: gen_ok_def) (simp add: p_def q_def e_def)
  qed
qed

lemma command_generate_ok: "wf_cmd c \<Longrightarrow> cmd_ok c"
proof (induction c)
  case (C_IF t a b)
  then show ?case by (intro allI impI if_ok) (auto simp: list_all_iff)
qed (auto simp: command_generate.simps cmd_units.simps
      simp del: simple_generate.simps simple_units.simps wf_cmd.simps intro!: simple_ok)

lemma script_ok:
  assumes "list_all wf_cmd cmds"
  shows "\<exists>s. sieve_generate_bytecode cmds = Next (length (block_units 0 cmds)) s \<and>
    (\<exists>r. bi_data s = block_units 0 cmds @ r) \<and> bi_scriptend s = length (block_units 0 cmds)"
proof -
  have "list_all cmd_ok cmds"
    using assms by (rule list.pred_mono_strong) (rule command_generate_ok)
  from block_ok [OF this, of 0 "\<lparr>bi_data = [], bi_scriptend = 0\<rparr>"] show ?thesis
    by (auto simp: sieve_generate_bytecode_def placed_def)
qed

text \<open>
  the first pass. For every tree whose tags all have a number the pass succeeds: no
  write is outside the array, however the array had to grow, the cells from the first on are
  exactly the layout of the script with all its jumps, and \<^verbatim>\<open>scriptend\<close> is the cell behind it.
\<close>

theorem sieve_generate_layout:
  assumes "list_all wf_cmd cmds"
  shows "\<exists>s. sieve_generate_bytecode cmds = Next (length (block_units 0 cmds)) s \<and>
    take (length (block_units 0 cmds)) (bi_data s) = block_units 0 cmds \<and>
    bi_scriptend s = length (block_units 0 cmds)"
  using script_ok [OF assms] by auto

theorem sieve_generate_layout_witness:
  "\<exists>s. sieve_generate_bytecode [C_IF (T_NOT T_STRUE) [C_DISCARD] [], C_KEEP] = Next 8 s \<and>
    take 8 (bi_data s) = [W B_IF, W 6, W 7, W (- 1), W BC_NOT, W BC_TRUE, W B_DISCARD, W B_KEEP]"
proof -
  let ?cs = "[C_IF (T_NOT T_STRUE) [C_DISCARD] [], C_KEEP]"
  have w: "list_all wf_cmd ?cs" by simp
  have b: "block_units 0 ?cs =
      [W B_IF, W 6, W 7, W (- 1), W BC_NOT, W BC_TRUE, W B_DISCARD, W B_KEEP]"
    by code_simp
  have l: "length (block_units 0 ?cs) = 8" by (simp only: b) simp
  show ?thesis using sieve_generate_layout [OF w] unfolding l unfolding b by blast
qed

text \<open>
  A failing test in a list is noticed only when it is the last one: here the pass goes on
  and writes in front of the array.
\<close>

theorem testlist_failure_unchecked:
  "sieve_generate_bytecode [C_IF (T_ANYOF [T_STRUE, T_OTHER]) [] []] = Fail \<and>
   sieve_generate_bytecode [C_IF (T_ANYOF [T_OTHER, T_STRUE]) [] []] = Undefined"
  by code_simp

end
