(* ===== verification/Sieve_Emit.thy ===== *)
theory Sieve_Emit
  imports Sieve_Generate
begin

text \<open>
  The second pass of the Sieve compiler, \<^verbatim>\<open>sieve/bc_emit.c\<close>: the almost flat array is
  written to a file, strings in line and padded to words, jumps as word positions in the
  file.

  A file descriptor is the bytes of the file, the offset and the size the file may grow to
  (a full disk or a quota). A write past that size fails as a whole; a write behind the end
  fills the gap with NULs. A function returns its C result and the file (\<^verbatim>\<open>Ret\<close>), \<^verbatim>\<open>-1\<close> and
  the file (\<^verbatim>\<open>Failed\<close>), or has no defined result (\<^verbatim>\<open>Stuck\<close>): it read a cell that is outside
  the array or of another kind, or a jump of the array made the recursion exceed the fuel.
  Sizes and positions are natural numbers; the words written for them wrap at 32 bits.
\<close>

section \<open>Files\<close>

record fdesc =
  f_bytes :: string
  f_pos :: nat
  f_limit :: nat

datatype 'a eres = Ret 'a fdesc | Failed fdesc | Stuck

fun ebind :: "'a eres \<Rightarrow> ('a \<Rightarrow> fdesc \<Rightarrow> 'b eres) \<Rightarrow> 'b eres" where
  "ebind (Ret a f) k = k a f"
| "ebind (Failed f) k = Failed f"
| "ebind Stuck k = Stuck"

definition pad_to :: "nat \<Rightarrow> string \<Rightarrow> string" where
  "pad_to n bs = bs @ replicate (n - length bs) NUL"

definition fd_write :: "string \<Rightarrow> fdesc \<Rightarrow> unit eres" where
  "fd_write bs f =
     (if bs = [] then Ret () f
      else if f_limit f < f_pos f + length bs then Failed f
      else Ret () (f\<lparr>f_bytes := take (f_pos f) (pad_to (f_pos f) (f_bytes f)) @ bs @
                       drop (f_pos f + length bs) (f_bytes f),
                     f_pos := f_pos f + length bs\<rparr>))"

definition lseek_cur :: "nat \<Rightarrow> fdesc \<Rightarrow> fdesc" where
  "lseek_cur k f = f\<lparr>f_pos := f_pos f + k\<rparr>"

definition lseek_set :: "nat \<Rightarrow> fdesc \<Rightarrow> fdesc" where
  "lseek_set k f = f\<lparr>f_pos := k\<rparr>"

definition write_int :: "cint \<Rightarrow> fdesc \<Rightarrow> unit eres" where
  "write_int x f = fd_write (htonl x) f"

definition align_needed :: "nat \<Rightarrow> nat" where
  "align_needed string_len = 4 - string_len mod 4"

definition align_string :: "nat \<Rightarrow> fdesc \<Rightarrow> nat eres" where
  "align_string string_len f =
     (let needed = align_needed string_len in
      ebind (fd_write (replicate needed NUL) f) (\<lambda>_ f. Ret needed f))"

text \<open>
  \<^verbatim>\<open>lseek(fd, loc, SEEK_SET)\<close>, the write of a word, and \<^verbatim>\<open>lseek(fd, back, SEEK_SET)\<close>.
\<close>

definition patch_int :: "nat \<Rightarrow> cint \<Rightarrow> nat \<Rightarrow> fdesc \<Rightarrow> unit eres" where
  "patch_int loc x back f =
     ebind (write_int x (lseek_set loc f)) (\<lambda>_ f. Ret () (lseek_set back f))"

section \<open>Reading the array\<close>

definition word_at :: "bytecode_info \<Rightarrow> nat \<Rightarrow> cint option" where
  "word_at bc codep =
     (if codep < length (bi_data bc) then
        (case bi_data bc ! codep of W x \<Rightarrow> Some x | _ \<Rightarrow> None) else None)"

definition str_at :: "bytecode_info \<Rightarrow> nat \<Rightarrow> string option" where
  "str_at bc codep =
     (if codep < length (bi_data bc) then
        (case bi_data bc ! codep of P s \<Rightarrow> s | _ \<Rightarrow> None) else None)"

text \<open>A word used as a length, a position or a count; a negative one has no meaning here.\<close>

definition nat_of :: "cint \<Rightarrow> nat option" where
  "nat_of x = (if 0 \<le> sint x then Some (nat (sint x)) else None)"

definition with_nat :: "cint option \<Rightarrow> (nat \<Rightarrow> 'a eres) \<Rightarrow> 'a eres" where
  "with_nat x k = (case Option.bind x nat_of of Some n \<Rightarrow> k n | None \<Rightarrow> Stuck)"

section \<open>Words, strings and string lists\<close>

text \<open>\<^verbatim>\<open>n\<close> words in a row: the bytes written and the next cell.\<close>

fun words_emit :: "nat \<Rightarrow> nat \<Rightarrow> bytecode_info \<Rightarrow> fdesc \<Rightarrow> (nat \<times> nat) eres" where
  "words_emit 0 codep bc f = Ret (0, codep) f"
| "words_emit (Suc n) codep bc f = (case word_at bc codep of
     None \<Rightarrow> Stuck
   | Some x \<Rightarrow>
       ebind (write_int x f) (\<lambda>_ f.
       ebind (words_emit n (codep + 1) bc f) (\<lambda>(wrote, codep) f. Ret (4 + wrote, codep) f)))"

text \<open>
  A string: its length, its bytes, the padding. Where the code tests for it, the length
  \<^verbatim>\<open>-1\<close> stands for a nil string that has no bytes.
\<close>

definition string_emit :: "bool \<Rightarrow> nat \<Rightarrow> bytecode_info \<Rightarrow> fdesc \<Rightarrow> (nat \<times> nat) eres" where
  "string_emit nil_ok codep bc f = (case word_at bc codep of
     None \<Rightarrow> Stuck
   | Some len \<Rightarrow>
       ebind (write_int len f) (\<lambda>_ f.
       if nil_ok \<and> len = - 1 then Ret (4, codep + 2) f
       else (case str_at bc (codep + 1) of
          None \<Rightarrow> Stuck
        | Some str \<Rightarrow> with_nat (Some len) (\<lambda>n.
            if n > length str then Stuck
            else ebind (fd_write (take n str) f) (\<lambda>_ f.
                 ebind (align_string n f) (\<lambda>ret f. Ret (4 + n + ret, codep + 2) f))))))"

fun strings_emit :: "nat \<Rightarrow> nat \<Rightarrow> bytecode_info \<Rightarrow> fdesc \<Rightarrow> (nat \<times> nat) eres" where
  "strings_emit 0 codep bc f = Ret (0, codep) f"
| "strings_emit (Suc n) codep bc f =
     ebind (string_emit False codep bc f) (\<lambda>(w, codep) f.
     ebind (strings_emit n codep bc f) (\<lambda>(w', codep) f. Ret (w + w', codep) f))"

text \<open>
  The frame of a list: the number of items, a word for the position of its end, the items,
  and, when they are written, that position.
\<close>

definition list_emit ::
  "nat \<Rightarrow> bytecode_info \<Rightarrow> fdesc \<Rightarrow> (nat \<Rightarrow> nat \<Rightarrow> fdesc \<Rightarrow> (nat \<times> nat) eres) \<Rightarrow> (nat \<times> nat) eres"
where
  "list_emit codep bc f items = (case word_at bc codep of
     None \<Rightarrow> Stuck
   | Some len \<Rightarrow>
       ebind (write_int len f) (\<lambda>_ f.
       let begin = f_pos f; f = lseek_cur 4 f in
       ebind (items (nat (sint len)) (codep + 1) f) (\<lambda>(wrote, codep) f.
       let fend = f_pos f in
       ebind (patch_int begin (of_nat fend) fend f) (\<lambda>_ f. Ret (8 + wrote, codep) f))))"

definition bc_stringlist_emit :: "nat \<Rightarrow> bytecode_info \<Rightarrow> fdesc \<Rightarrow> (nat \<times> nat) eres" where
  "bc_stringlist_emit codep bc f = list_emit codep bc f (\<lambda>n codep f. strings_emit n codep bc f)"

section \<open>Tests\<close>

text \<open>Words and then two string lists, the arguments of a matching test.\<close>

definition match_emit :: "nat \<Rightarrow> nat \<Rightarrow> bytecode_info \<Rightarrow> fdesc \<Rightarrow> (nat \<times> nat) eres" where
  "match_emit n codep bc f =
     ebind (words_emit n codep bc f) (\<lambda>(w1, codep) f.
     ebind (bc_stringlist_emit codep bc f) (\<lambda>(w2, codep) f.
     ebind (bc_stringlist_emit codep bc f) (\<lambda>(w3, codep) f.
     Ret (w1 + w2 + w3, codep) f)))"

text \<open>The arguments of every test but \<^verbatim>\<open>NOT\<close>, \<^verbatim>\<open>ANYOF\<close> and \<^verbatim>\<open>ALLOF\<close>.\<close>

definition leaf_emit :: "cint \<Rightarrow> nat \<Rightarrow> bytecode_info \<Rightarrow> fdesc \<Rightarrow> (nat \<times> nat) eres" where
  "leaf_emit opcode codep bc f =
     (if opcode = BC_TRUE \<or> opcode = BC_FALSE then Ret (0, codep) f
      else if opcode = BC_SIZE then words_emit 2 codep bc f
      else if opcode = BC_EXISTS then bc_stringlist_emit codep bc f
      else if opcode = BC_HEADER then match_emit 3 codep bc f
      else if opcode = BC_ADDRESS \<or> opcode = BC_ENVELOPE then match_emit 4 codep bc f
      else if opcode = BC_BODY then match_emit 5 codep bc f
      else Failed f)"

function bc_test_emit :: "nat \<Rightarrow> nat \<Rightarrow> bytecode_info \<Rightarrow> fdesc \<Rightarrow> (nat \<times> nat) eres"
  and tests_emit :: "nat \<Rightarrow> nat \<Rightarrow> nat \<Rightarrow> bytecode_info \<Rightarrow> fdesc \<Rightarrow> (nat \<times> nat) eres" where
  "bc_test_emit 0 codep bc f = Stuck"
| "bc_test_emit (Suc fuel) codep bc f = (case word_at bc codep of
     None \<Rightarrow> Stuck
   | Some opcode \<Rightarrow>
       ebind (write_int opcode f) (\<lambda>_ f.
       ebind (if opcode = BC_NOT then bc_test_emit fuel (codep + 1) bc f
              else if opcode = BC_ALLOF \<or> opcode = BC_ANYOF
              then list_emit (codep + 1) bc f (\<lambda>n codep f. tests_emit fuel n codep bc f)
              else leaf_emit opcode (codep + 1) bc f) (\<lambda>(ret, codep) f.
       Ret (4 + ret, codep) f)))"
| "tests_emit fuel 0 codep bc f = Ret (0, codep) f"
| "tests_emit fuel (Suc n) codep bc f =
     with_nat (word_at bc codep) (\<lambda>nextcodep.
     ebind (bc_test_emit fuel (codep + 1) bc f) (\<lambda>(ret, _) f.
     ebind (tests_emit fuel n nextcodep bc f) (\<lambda>(wrote, codep) f. Ret (ret + wrote, codep) f)))"
  by pat_completeness auto
termination
  by (relation "measures [\<lambda>x. case x of Inl (fuel, _) \<Rightarrow> fuel | Inr (fuel, _) \<Rightarrow> fuel,
      \<lambda>x. case x of Inl _ \<Rightarrow> 0 | Inr (_, n, _) \<Rightarrow> Suc n]") auto

text \<open>The list of tests of an \<^verbatim>\<open>ANYOF\<close> or \<^verbatim>\<open>ALLOF\<close>.\<close>

definition bc_testlist_emit :: "nat \<Rightarrow> nat \<Rightarrow> bytecode_info \<Rightarrow> fdesc \<Rightarrow> (nat \<times> nat) eres" where
  "bc_testlist_emit fuel codep bc f =
     list_emit codep bc f (\<lambda>n codep f. tests_emit fuel n codep bc f)"

section \<open>Actions\<close>

definition notify_emit :: "nat \<Rightarrow> bytecode_info \<Rightarrow> fdesc \<Rightarrow> (nat \<times> nat) eres" where
  "notify_emit codep bc f =
     ebind (string_emit True codep bc f) (\<lambda>(w1, codep) f.
     ebind (string_emit True codep bc f) (\<lambda>(w2, codep) f.
     ebind (bc_stringlist_emit codep bc f) (\<lambda>(w3, codep) f.
     ebind (words_emit 1 codep bc f) (\<lambda>(w4, codep) f.
     ebind (string_emit False codep bc f) (\<lambda>(w5, codep) f.
     Ret (w1 + w2 + w3 + w4 + w5, codep) f)))))"

definition denotify_emit :: "nat \<Rightarrow> bytecode_info \<Rightarrow> fdesc \<Rightarrow> (nat \<times> nat) eres" where
  "denotify_emit codep bc f =
     ebind (words_emit 3 codep bc f) (\<lambda>(w1, codep) f.
     ebind (string_emit True codep bc f) (\<lambda>(w2, codep) f.
     Ret (w1 + w2, codep) f))"

definition vacation_emit :: "nat \<Rightarrow> bytecode_info \<Rightarrow> fdesc \<Rightarrow> (nat \<times> nat) eres" where
  "vacation_emit codep bc f =
     ebind (bc_stringlist_emit codep bc f) (\<lambda>(w1, codep) f.
     ebind (string_emit True codep bc f) (\<lambda>(w2, codep) f.
     ebind (string_emit True codep bc f) (\<lambda>(w3, codep) f.
     ebind (words_emit 2 codep bc f) (\<lambda>(w4, codep) f.
     ebind (string_emit True codep bc f) (\<lambda>(w5, codep) f.
     ebind (string_emit True codep bc f) (\<lambda>(w6, codep) f.
     Ret (w1 + w2 + w3 + w4 + w5 + w6, codep) f))))))"

definition word_string_emit :: "nat \<Rightarrow> bytecode_info \<Rightarrow> fdesc \<Rightarrow> (nat \<times> nat) eres" where
  "word_string_emit codep bc f =
     ebind (words_emit 1 codep bc f) (\<lambda>(w1, codep) f.
     ebind (string_emit False codep bc f) (\<lambda>(w2, codep) f.
     Ret (w1 + w2, codep) f))"

definition simple_emit :: "cint \<Rightarrow> nat \<Rightarrow> bytecode_info \<Rightarrow> fdesc \<Rightarrow> (nat \<times> nat) eres" where
  "simple_emit opcode codep bc f =
     (if opcode = B_FILEINTO \<or> opcode = B_REDIRECT then word_string_emit codep bc f
      else if opcode = B_REJECT then string_emit False codep bc f
      else if opcode = B_SETFLAG \<or> opcode = B_ADDFLAG \<or> opcode = B_REMOVEFLAG
      then bc_stringlist_emit codep bc f
      else if opcode = B_NOTIFY then notify_emit codep bc f
      else if opcode = B_DENOTIFY then denotify_emit codep bc f
      else if opcode = B_VACATION then vacation_emit codep bc f
      else if opcode = B_INCLUDE then word_string_emit codep bc f
      else if opcode = B_NULL \<or> opcode = B_STOP \<or> opcode = B_DISCARD \<or> opcode = B_KEEP \<or>
              opcode = B_MARK \<or> opcode = B_UNMARK \<or> opcode = B_RETURN
      then Ret (0, codep) f
      else Failed f)"

text \<open>
  The length \<^verbatim>\<open>bc_action_emit\<close> returns for a branch is added to \<^verbatim>\<open>filelen\<close> without a test
  for \<^verbatim>\<open>-1\<close>.
\<close>

fun add_unchecked :: "nat \<Rightarrow> nat eres \<Rightarrow> (nat \<Rightarrow> fdesc \<Rightarrow> 'b eres) \<Rightarrow> 'b eres" where
  "add_unchecked filelen (Ret dist f) k = k (filelen + dist) f"
| "add_unchecked filelen (Failed f) k = k (filelen - 1) f"
| "add_unchecked filelen Stuck k = Stuck"

text \<open>
  The \<^verbatim>\<open>IF\<close> instruction, with the emission of a test and of a branch as parameters: the new
  \<^verbatim>\<open>filelen\<close> and \<^verbatim>\<open>codep\<close>. The opcode is already written and counted.
\<close>

definition if_emit ::
  "(nat \<Rightarrow> fdesc \<Rightarrow> (nat \<times> nat) eres) \<Rightarrow> (nat \<Rightarrow> nat \<Rightarrow> nat \<Rightarrow> fdesc \<Rightarrow> nat eres) \<Rightarrow>
   nat \<Rightarrow> bytecode_info \<Rightarrow> nat \<Rightarrow> fdesc \<Rightarrow> (nat \<times> nat) eres" where
  "if_emit test_emit action_emit codep bc filelen f =
     (let testEndLoc = filelen; f = lseek_cur 4 f; filelen = filelen + 4 in
      ebind (test_emit (codep + 3) f) (\<lambda>(testdist, _) f.
      let filelen = filelen + testdist in
      ebind (patch_int testEndLoc (of_nat (filelen div 4)) filelen f) (\<lambda>_ f.
      ebind (write_int B_JUMP f) (\<lambda>_ f.
      let f = lseek_cur 4 f; jumpFalseLoc = filelen + 4; filelen = filelen + 8 in
      with_nat (word_at bc codep) (\<lambda>thenloc.
      with_nat (word_at bc (codep + 1)) (\<lambda>thenend.
      add_unchecked filelen (action_emit thenloc thenend filelen f) (\<lambda>filelen f.
      case word_at bc (codep + 2) of
        None \<Rightarrow> Stuck
      | Some elseval \<Rightarrow>
          if elseval = - 1 then
            ebind (patch_int jumpFalseLoc (of_nat (filelen div 4)) filelen f) (\<lambda>_ f.
            Ret (filelen, thenend) f)
          else
            ebind (write_int B_JUMP f) (\<lambda>_ f.
            let f = lseek_cur 4 f; jumpEndLoc = filelen + 4; filelen = filelen + 8 in
            ebind (patch_int jumpFalseLoc (of_nat (filelen div 4)) filelen f) (\<lambda>_ f.
            with_nat (Some elseval) (\<lambda>elseend.
            add_unchecked filelen (action_emit thenend elseend filelen f) (\<lambda>filelen f.
            ebind (patch_int jumpEndLoc (of_nat (filelen div 4)) filelen f) (\<lambda>_ f.
            Ret (filelen, elseend) f))))))))))))"

text \<open>The loop of \<^verbatim>\<open>bc_action_emit\<close>: the final \<^verbatim>\<open>filelen\<close>.\<close>

fun action_emit_loop :: "nat \<Rightarrow> nat \<Rightarrow> nat \<Rightarrow> bytecode_info \<Rightarrow> nat \<Rightarrow> fdesc \<Rightarrow> nat eres" where
  "action_emit_loop 0 codep stopcodep bc filelen f = Stuck"
| "action_emit_loop (Suc fuel) codep stopcodep bc filelen f =
     (if stopcodep \<le> codep then Ret filelen f
      else case word_at bc codep of
        None \<Rightarrow> Stuck
      | Some opcode \<Rightarrow>
          ebind (write_int opcode f) (\<lambda>_ f.
          let filelen = filelen + 4 in
          ebind (if opcode = B_IF then
                   if_emit (\<lambda>c f. bc_test_emit fuel c bc f)
                     (\<lambda>c stop flen f. ebind (action_emit_loop fuel c stop bc flen f)
                        (\<lambda>r f. Ret (r - flen) f))
                     (codep + 1) bc filelen f
                 else
                   ebind (simple_emit opcode (codep + 1) bc f) (\<lambda>(w, codep) f.
                   Ret (filelen + w, codep) f)) (\<lambda>(filelen, codep) f.
          action_emit_loop fuel codep stopcodep bc filelen f)))"

definition bc_action_emit ::
  "nat \<Rightarrow> nat \<Rightarrow> nat \<Rightarrow> bytecode_info \<Rightarrow> nat \<Rightarrow> fdesc \<Rightarrow> nat eres" where
  "bc_action_emit fuel codep stopcodep bc filelen f =
     ebind (action_emit_loop fuel codep stopcodep bc filelen f) (\<lambda>r f. Ret (r - filelen) f)"

definition sieve_emit_bytecode :: "nat \<Rightarrow> bytecode_info \<Rightarrow> fdesc \<Rightarrow> nat eres" where
  "sieve_emit_bytecode fuel bc f =
     ebind (fd_write BYTECODE_MAGIC f) (\<lambda>_ f.
     ebind (write_int BYTECODE_VERSION f) (\<lambda>_ f.
     bc_action_emit fuel 0 (bi_scriptend bc) bc (4 + length BYTECODE_MAGIC) f))"

end
