(* ===== verification/Sieve_Encoding.thy ===== *)
theory Sieve_Encoding
  imports Sieve_Emit
begin

text \<open>
  The bytes of a compiled Sieve script as a pure function of the parse tree and of the
  position in the file, and the proof that the second pass writes them.
\<close>

section \<open>The encoding\<close>

definition pad_string :: "string \<Rightarrow> string" where
  "pad_string s = s @ replicate (4 - length s mod 4) NUL"

lemma pad_string_align: "pad_string s = s @ replicate (align_needed (length s)) NUL"
  by (simp add: pad_string_def align_needed_def)

definition enc_string :: "string option \<Rightarrow> string" where
  "enc_string s = (case s of
     Some str \<Rightarrow> htonl (of_nat (length str)) @ pad_string str | None \<Rightarrow> htonl (- 1))"

definition enc_strings :: "stringlist \<Rightarrow> string" where
  "enc_strings sl = concat (map (\<lambda>s. enc_string (Some s)) sl)"

definition enc_words :: "cint list \<Rightarrow> string" where
  "enc_words ws = concat (map htonl ws)"

definition enc_list :: "nat \<Rightarrow> nat \<Rightarrow> string \<Rightarrow> string" where
  "enc_list p n body = htonl (of_nat n) @ htonl (of_nat (p + 8 + length body)) @ body"

definition enc_stringlist :: "nat \<Rightarrow> stringlist \<Rightarrow> string" where
  "enc_stringlist p sl = enc_list p (length sl) (enc_strings sl)"

text \<open>The arguments of a matching test: words and two string lists.\<close>

definition enc_match :: "nat \<Rightarrow> cint list \<Rightarrow> stringlist \<Rightarrow> stringlist \<Rightarrow> string" where
  "enc_match p ws sl pl =
     (let a = enc_words ws; b = enc_stringlist (p + length a) sl
      in a @ b @ enc_stringlist (p + length a + length b) pl)"

definition match_words :: "match_spec \<Rightarrow> cint list" where
  "match_words m = [the (comptag_value (comptag m)), relation_value (relation m),
     the (comparator_value (comparator m))]"

fun enc_test :: "nat \<Rightarrow> test \<Rightarrow> string" and enc_tests :: "nat \<Rightarrow> test list \<Rightarrow> string" where
  "enc_test p T_STRUE = htonl BC_TRUE"
| "enc_test p T_SFALSE = htonl BC_FALSE"
| "enc_test p (T_NOT t) = htonl BC_NOT @ enc_test (p + 4) t"
| "enc_test p (T_SIZE t k) =
     htonl BC_SIZE @ enc_words [if t = TK_OVER then B_OVER else B_UNDER, k]"
| "enc_test p (T_EXISTS sl) = htonl BC_EXISTS @ enc_stringlist (p + 4) sl"
| "enc_test p (T_ANYOF ts) =
     htonl BC_ANYOF @ enc_list (p + 4) (length ts) (enc_tests (p + 12) ts)"
| "enc_test p (T_ALLOF ts) =
     htonl BC_ALLOF @ enc_list (p + 4) (length ts) (enc_tests (p + 12) ts)"
| "enc_test p (T_HEADER m sl pl) = htonl BC_HEADER @ enc_match (p + 4) (match_words m) sl pl"
| "enc_test p (T_ADDRESS m part sl pl) =
     htonl BC_ADDRESS @ enc_match (p + 4) (match_words m @ [the (addrpart_value part)]) sl pl"
| "enc_test p (T_ENVELOPE m part sl pl) =
     htonl BC_ENVELOPE @ enc_match (p + 4) (match_words m @ [the (addrpart_value part)]) sl pl"
| "enc_test p (T_BODY m tr off cts pl) =
     htonl BC_BODY @ enc_match (p + 4) (match_words m @ [the (transform_value tr), off]) cts pl"
| "enc_test p T_OTHER = []"
| "enc_tests p [] = []"
| "enc_tests p (t # ts) = (let u = enc_test p t in u @ enc_tests (p + length u) ts)"

text \<open>The arguments of a command, after its opcode.\<close>

fun enc_args :: "nat \<Rightarrow> command \<Rightarrow> string" where
  "enc_args p (C_DENOTIFY d) =
     enc_words [the (priority_value (d_priority d)), the (denotify_comptag_value (d_comptag d)),
       relation_value (d_relation d)] @ enc_string (d_pattern d)"
| "enc_args p (C_REJCT str) = enc_string (Some str)"
| "enc_args p (C_FILEINTO folder cpy) = enc_words [cpy] @ enc_string (Some folder)"
| "enc_args p (C_REDIRECT address cpy) = enc_words [cpy] @ enc_string (Some address)"
| "enc_args p (C_ADDFLAG sl) = enc_stringlist p sl"
| "enc_args p (C_SETFLAG sl) = enc_stringlist p sl"
| "enc_args p (C_REMOVEFLAG sl) = enc_stringlist p sl"
| "enc_args p (C_NOTIFY n) =
     (let a = enc_string (Some (n_method n)); b = enc_string (n_id n)
      in a @ b @ enc_stringlist (p + length a + length b) (n_options n) @
         enc_words [the (priority_value (n_priority n))] @ enc_string (Some (n_message n)))"
| "enc_args p (C_VACATION v) =
     enc_stringlist p (v_addresses v) @ enc_string (v_subject v) @ enc_string (v_message v) @
     enc_words [v_days v, v_mime v] @ enc_string (v_from v) @ enc_string (v_handle v)"
| "enc_args p (C_INCLUDE location script) =
     enc_words [the (location_value location)] @ enc_string (Some script)"
| "enc_args p _ = []"

fun opcode_of :: "command \<Rightarrow> cint" where
  "opcode_of C_STOP = B_STOP"
| "opcode_of C_DISCARD = B_DISCARD"
| "opcode_of C_KEEP = B_KEEP"
| "opcode_of C_MARK = B_MARK"
| "opcode_of C_UNMARK = B_UNMARK"
| "opcode_of C_RETURN = B_RETURN"
| "opcode_of (C_DENOTIFY d) = B_DENOTIFY"
| "opcode_of (C_REJCT str) = B_REJECT"
| "opcode_of (C_FILEINTO folder cpy) = B_FILEINTO"
| "opcode_of (C_REDIRECT address cpy) = B_REDIRECT"
| "opcode_of (C_ADDFLAG sl) = B_ADDFLAG"
| "opcode_of (C_SETFLAG sl) = B_SETFLAG"
| "opcode_of (C_REMOVEFLAG sl) = B_REMOVEFLAG"
| "opcode_of (C_NOTIFY n) = B_NOTIFY"
| "opcode_of (C_VACATION v) = B_VACATION"
| "opcode_of (C_INCLUDE location script) = B_INCLUDE"
| "opcode_of (C_IF t do_then do_else) = B_IF"
| "opcode_of C_OTHER = B_NULL"

text \<open>
  The words after \<^verbatim>\<open>B_IF\<close> and \<^verbatim>\<open>B_JUMP\<close> are positions counted in words.
\<close>

function enc_block :: "nat \<Rightarrow> command list \<Rightarrow> string"
  and enc_cmds :: "nat \<Rightarrow> command list \<Rightarrow> string"
  and enc_cmd :: "nat \<Rightarrow> command \<Rightarrow> string" where
  "enc_block p cs = (if cs = [] then htonl B_NULL else enc_cmds p cs)"
| "enc_cmds p [] = []"
| "enc_cmds p (c # cs) = (let u = enc_cmd p c in u @ enc_cmds (p + length u) cs)"
| "enc_cmd p c = (case c of
     C_IF t do_then do_else \<Rightarrow>
       (let u = enc_test (p + 8) t; a = p + 8 + length u;
            v = enc_block (a + 8) do_then; b = a + 8 + length v
        in if do_else = []
           then htonl B_IF @ htonl (of_nat (a div 4)) @ u @
                htonl B_JUMP @ htonl (of_nat (b div 4)) @ v
           else (let w = enc_block (b + 8) do_else; e = b + 8 + length w
                 in htonl B_IF @ htonl (of_nat (a div 4)) @ u @
                    htonl B_JUMP @ htonl (of_nat ((b + 8) div 4)) @ v @
                    htonl B_JUMP @ htonl (of_nat (e div 4)) @ w))
   | _ \<Rightarrow> htonl (opcode_of c) @ enc_args (p + 4) c)"
  by pat_completeness auto
termination
  by (relation "measure (\<lambda>x. case x of
        Inl (_, cs) \<Rightarrow> 2 * size_list size cs + 1
      | Inr (Inl (_, cs)) \<Rightarrow> 2 * size_list size cs
      | Inr (Inr (_, c)) \<Rightarrow> 2 * size c)") auto

declare enc_block.simps [simp del] enc_cmd.simps [simp del]

definition enc_script :: "command list \<Rightarrow> string" where
  "enc_script cmds = BYTECODE_MAGIC @ htonl BYTECODE_VERSION @ enc_block 16 cmds"

section \<open>Writing at the end of a file\<close>

text \<open>
  \<^verbatim>\<open>at_end f c\<close>: the offset is at the end of the contents \<^verbatim>\<open>c\<close>, of which a tail of NULs may
  still be a gap behind the end of the file.
\<close>

definition at_end :: "fdesc \<Rightarrow> string \<Rightarrow> bool" where
  "at_end f c \<longleftrightarrow> f_pos f = length c \<and> (\<exists>k. c = f_bytes f @ replicate k NUL)"

definition appended :: "string \<Rightarrow> string \<Rightarrow> fdesc \<Rightarrow> fdesc \<Rightarrow> bool" where
  "appended c d f f' \<longleftrightarrow> f_limit f' = f_limit f \<and> at_end f' (c @ d) \<and>
     (f_bytes f = c \<or> d \<noteq> [] \<longrightarrow> f_bytes f' = c @ d)"

definition emits :: "nat \<Rightarrow> string \<Rightarrow> 'a \<Rightarrow> (fdesc \<Rightarrow> 'a eres) \<Rightarrow> bool" where
  "emits p d r act \<longleftrightarrow> (\<forall>f c. at_end f c \<longrightarrow> length c = p \<longrightarrow> p + length d \<le> f_limit f \<longrightarrow>
     (\<exists>f'. act f = Ret r f' \<and> appended c d f f'))"

named_theorems emit_rules \<open>what the functions of the second pass write\<close>

lemma emitsI:
  "(\<And>f c. at_end f c \<Longrightarrow> length c = p \<Longrightarrow> p + length d \<le> f_limit f \<Longrightarrow>
     \<exists>f'. act f = Ret r f' \<and> appended c d f f') \<Longrightarrow> emits p d r act"
  by (simp add: emits_def)

lemma emitsE:
  assumes "emits p d r act" and "at_end f c" and "length c = p" and "p + length d \<le> f_limit f"
  obtains f' where "act f = Ret r f'" and "appended c d f f'"
  using assms by (auto simp: emits_def)

lemma appended_trans:
  "appended c d f f' \<Longrightarrow> appended (c @ d) e f' f'' \<Longrightarrow> appended c (d @ e) f f''"
  by (auto simp: appended_def)

lemma emits_ret [emit_rules]: "emits p [] r (Ret r)"
  by (auto simp: emits_def appended_def)

lemma emits_bind:
  assumes "emits p d r act" and "emits (p + length d) e r' (\<lambda>f. k r f)"
  shows "emits p (d @ e) r' (\<lambda>f. ebind (act f) k)"
proof (rule emitsI)
  fix f c assume f: "at_end f c" "length c = p" "p + length (d @ e) \<le> f_limit f"
  then obtain f1 where 1: "act f = Ret r f1" and a1: "appended c d f f1"
    using assms(1) by (auto elim: emitsE)
  then have "at_end f1 (c @ d)" "f_limit f1 = f_limit f"
    by (auto simp: appended_def)
  with f obtain f2 where 2: "k r f1 = Ret r' f2" and a2: "appended (c @ d) e f1 f2"
    using assms(2) by (auto elim!: emitsE [where c = "c @ d" and f = f1])
  show "\<exists>f'. ebind (act f) k = Ret r' f' \<and> appended c (d @ e) f f'"
    using 1 2 appended_trans [OF a1 a2] by auto
qed

lemma emits_bind_ret:
  assumes "emits p d r act" and "k r = Ret r'"
  shows "emits p d r' (\<lambda>f. ebind (act f) k)"
  using emits_bind [OF assms(1), of "[]" r' k, unfolded assms(2), OF emits_ret] by simp

lemma fd_write_emits [emit_rules]: "emits p bs () (fd_write bs)"
proof (rule emitsI)
  fix f c assume f: "at_end f c" "length c = p" "p + length bs \<le> f_limit f"
  then obtain k where k: "c = f_bytes f @ replicate k NUL" and p: "f_pos f = p"
    by (auto simp: at_end_def)
  have "take p (pad_to p (f_bytes f)) = c"
    using f(2) by (simp add: k pad_to_def)
  moreover have "length (f_bytes f) \<le> p" using f(2) by (simp add: k)
  ultimately show "\<exists>f'. fd_write bs f = Ret () f' \<and> appended c bs f f'"
    using f p by (auto simp: fd_write_def appended_def at_end_def)
qed

lemma write_int_emits [emit_rules]: "emits p (htonl x) () (write_int x)"
  using fd_write_emits by (simp add: write_int_def [abs_def])

lemma emits_write:
  "emits (p + length bs) e r (k ()) \<Longrightarrow> emits p (bs @ e) r (\<lambda>f. ebind (fd_write bs f) k)"
  using emits_bind [OF fd_write_emits, of p bs e r k] by simp

lemma emits_int:
  "emits (p + 4) e r (k ()) \<Longrightarrow> emits p (htonl x @ e) r (\<lambda>f. ebind (write_int x f) k)"
  using emits_bind [OF write_int_emits, of p x e r k] by simp

lemma lseek_cur_at_end: "at_end f c \<Longrightarrow> at_end (lseek_cur k f) (c @ replicate k NUL)"
  by (auto simp: at_end_def lseek_cur_def replicate_add [symmetric])

text \<open>Setting a word that was left out earlier.\<close>

lemma patch_at_end:
  assumes f: "at_end f (c @ x @ d)" and x: "length x = 4" and lim: "length c + 4 \<le> f_limit f"
    and dense: "d = [] \<or> f_bytes f = c @ x @ d" and b: "back = length c + 4 + length d"
  shows "\<exists>f'. patch_int (length c) w back f = Ret () f' \<and> at_end f' (c @ htonl w @ d) \<and>
    f_limit f' = f_limit f \<and> f_bytes f' = c @ htonl w @ d"
proof -
  obtain k where k: "c @ x @ d = f_bytes f @ replicate k NUL"
    using f by (auto simp: at_end_def)
  have len: "length c + 4 + length d = length (f_bytes f) + k"
    using arg_cong [OF k, of length] x by simp
  have "take (length c) (pad_to (length c) (f_bytes f)) = c"
  proof -
    have "take (length c) (pad_to (length c) (f_bytes f)) =
        take (length c) (f_bytes f @ replicate k NUL)"
      using len by (auto simp: pad_to_def take_replicate min_def)
    then show ?thesis by (simp flip: k)
  qed
  moreover have "drop (length c + 4) (f_bytes f) = d"
    using dense len x by (auto simp: drop_append)
  ultimately show ?thesis
    using lim b by (auto simp: patch_int_def write_int_def fd_write_def lseek_set_def at_end_def)
qed

section \<open>Reading a layout\<close>

definition seg :: "bytecode_info \<Rightarrow> nat \<Rightarrow> bytecode_t list \<Rightarrow> bool" where
  "seg bc n u \<longleftrightarrow> (\<exists>a b. bi_data bc = a @ u @ b \<and> length a = n)"

lemma seg_append: "seg bc n (u @ v) \<Longrightarrow> seg bc n u \<and> seg bc (n + length u) v"
  unfolding seg_def by (metis append.assoc length_append)

lemma seg_Cons: "seg bc n (x # v) \<Longrightarrow> seg bc n [x] \<and> seg bc (n + 1) v"
  using seg_append [of bc n "[x]" v] by simp

lemma seg_word: "seg bc n [W x] \<Longrightarrow> word_at bc n = Some x"
  by (auto simp: seg_def word_at_def nth_append)

lemma seg_str: "seg bc n [P s] \<Longrightarrow> str_at bc n = s"
  by (auto simp: seg_def str_at_def nth_append)

lemma seg_four:
  assumes "seg bc n ([W a, W b, W c, W d] @ v)"
  shows "word_at bc n = Some a" "word_at bc (n + 1) = Some b" "word_at bc (n + 2) = Some c"
    "word_at bc (n + 3) = Some d" "seg bc (n + 4) v"
proof -
  obtain l r where l: "bi_data bc = l @ [W a, W b, W c, W d] @ v @ r" "length l = n"
    using assms by (auto simp: seg_def)
  then show "word_at bc n = Some a" "word_at bc (n + 1) = Some b" "word_at bc (n + 2) = Some c"
      "word_at bc (n + 3) = Some d"
    by (simp_all add: word_at_def nth_append)
  show "seg bc (n + 4) v"
    unfolding seg_def using l by (intro exI [of _ "l @ [W a, W b, W c, W d]"] exI [of _ r]) simp
qed

lemma nat_of_small: "n < 2 ^ 31 \<Longrightarrow> nat_of (of_nat n) = Some n"
  by (simp add: nat_of_def sint_of_nat_small)

lemma with_nat_small: "n < 2 ^ 31 \<Longrightarrow> with_nat (Some (of_nat n)) k = k n"
  by (simp add: with_nat_def nat_of_small)

section \<open>Words, strings and lists\<close>

lemma words_emits [emit_rules]:
  "seg bc n (map W ws) \<Longrightarrow>
   emits p (enc_words ws) (4 * length ws, n + length ws) (words_emit (length ws) n bc)"
proof (induction ws arbitrary: n p)
  case Nil
  then show ?case by (auto simp: enc_words_def intro: emit_rules)
next
  case (Cons w ws)
  then have w: "word_at bc n = Some w" and seg: "seg bc (n + 1) (map W ws)"
    using seg_Cons [of bc n "W w"] by (auto intro: seg_word)
  have "emits p (htonl w @ enc_words ws) (4 * length (w # ws), n + length (w # ws))
    (\<lambda>f. ebind (write_int w f) (\<lambda>_ f.
       ebind (words_emit (length ws) (n + 1) bc f) (\<lambda>(wrote, codep) f. Ret (4 + wrote, codep) f)))"
    by (rule emits_int, rule emits_bind_ret [OF Cons.IH [OF seg]]) simp
  then show ?case by (simp add: w enc_words_def)
qed

lemma align_emits [emit_rules]:
  "emits p (replicate (align_needed n) NUL) (align_needed n) (align_string n)"
  unfolding align_string_def [abs_def] Let_def by (rule emits_bind_ret [OF fd_write_emits]) simp

lemma pad_string_length: "length (pad_string s) = length s + align_needed (length s)"
  by (simp add: pad_string_align)

lemma string_emits [emit_rules]:
  assumes "seg bc n (string_units (Some s))" and "length s < 2 ^ 31"
  shows "emits p (enc_string (Some s)) (length (enc_string (Some s)), n + 2) (string_emit b n bc)"
proof -
  have w: "word_at bc n = Some (of_nat (length s))" and s: "str_at bc (n + 1) = Some s"
    using assms(1) seg_Cons [of bc n "W (of_nat (length s))" "[P (Some s)]"]
    by (auto simp: string_units_def intro: seg_word seg_str)
  have ne: "(of_nat (length s) :: cint) \<noteq> - 1"
    using sint_of_nat_small [OF assms(2)] by (metis int_zle_neg le_numeral_extra(4) sint_n1 of_nat_0_le_iff
        neg_0_le_iff_le not_one_le_zero)
  have "emits p (htonl (of_nat (length s)) @ s @ replicate (align_needed (length s)) NUL)
      (length (enc_string (Some s)), n + 2) (\<lambda>f.
      ebind (write_int (of_nat (length s)) f) (\<lambda>_ f.
      ebind (fd_write s f) (\<lambda>_ f.
      ebind (align_string (length s) f) (\<lambda>ret f. Ret (4 + length s + ret, n + 2) f))))"
    by (rule emits_int, rule emits_write, rule emits_bind_ret [OF align_emits])
      (simp add: enc_string_def pad_string_align ac_simps)
  then show ?thesis
    using w s ne assms(2)
    by (simp add: string_emit_def [abs_def] with_nat_small enc_string_def pad_string_align)
qed

lemma string_emits_option [emit_rules]:
  assumes "seg bc n (string_units s)" and "length (enc_string s) < 2 ^ 31"
  shows "emits p (enc_string s) (length (enc_string s), n + 2) (string_emit True n bc)"
proof (cases s)
  case None
  then have w: "word_at bc n = Some (- 1)"
    using assms seg_Cons [of bc n "W (- 1)" "[P None]"]
    by (auto simp: string_units_def intro: seg_word)
  have "emits p (htonl (- 1)) (4, n + 2)
      (\<lambda>f. ebind (write_int (- 1) f) (\<lambda>_ f. Ret (4, n + 2) f))"
    by (rule emits_bind_ret [OF write_int_emits]) simp
  then show ?thesis
    by (simp add: None string_emit_def [abs_def] w enc_string_def)
next
  case (Some str)
  then have "length str < 2 ^ 31"
    using assms(2) by (simp add: enc_string_def pad_string_align)
  with assms(1) show ?thesis unfolding Some by (rule string_emits)
qed

lemma enc_strings_Cons [simp]: "enc_strings (s # sl) = enc_string (Some s) @ enc_strings sl"
  by (simp add: enc_strings_def)

lemma strings_emits:
  "seg bc n (concat (map (\<lambda>x. string_units (Some x)) sl)) \<Longrightarrow> length (enc_strings sl) < 2 ^ 31 \<Longrightarrow>
   emits p (enc_strings sl) (length (enc_strings sl), n + 2 * length sl) (strings_emit (length sl) n bc)"
proof (induction sl arbitrary: n p)
  case Nil
  then show ?case by (auto simp: enc_strings_def intro: emit_rules)
next
  case (Cons x sl)
  have x: "length x < 2 ^ 31" and "length (enc_strings sl) < 2 ^ 31"
    using Cons.prems(2) by (auto simp: enc_string_def pad_string_align)
  moreover have seg: "seg bc n (string_units (Some x))"
      "seg bc (n + 2) (concat (map (\<lambda>x. string_units (Some x)) sl))"
    using Cons.prems(1) seg_append [of bc n "string_units (Some x)"] by auto
  ultimately have IH: "emits p (enc_strings sl) (length (enc_strings sl), n + 2 + 2 * length sl)
      (strings_emit (length sl) (n + 2) bc)" for p
    by (intro Cons.IH)
  have "emits p (enc_string (Some x) @ enc_strings sl)
      (length (enc_strings (x # sl)), n + 2 * length (x # sl))
      (\<lambda>f. ebind (string_emit False n bc f) (\<lambda>(w, codep) f.
         ebind (strings_emit (length sl) codep bc f) (\<lambda>(w', codep) f. Ret (w + w', codep) f)))"
    by (rule emits_bind [OF string_emits [OF seg(1) x]], unfold prod.case,
        rule emits_bind_ret [OF IH]) simp
  then show ?case by simp
qed

lemma list_emits:
  assumes w: "word_at bc n = Some (of_nat len)" and len: "len < 2 ^ 31"
    and items: "emits (p + 8) body (length body, m) (items len (n + 1))"
  shows "emits p (enc_list p len body) (8 + length body, m) (\<lambda>f. list_emit n bc f items)"
proof (rule emitsI)
  fix f c assume f: "at_end f c" "length c = p" "p + length (enc_list p len body) \<le> f_limit f"
  then have lim: "length c + 8 + length body \<le> f_limit f"
    by (simp add: enc_list_def)
  obtain f1 where 1: "write_int (of_nat len) f = Ret () f1"
    and a1: "appended c (htonl (of_nat len)) f f1"
    by (rule emitsE [OF write_int_emits f(1) f(2)]) (use lim f(2) in auto)
  define c1 where "c1 = c @ htonl (of_nat len)"
  have f1: "at_end f1 c1" "f_bytes f1 = c1" "f_limit f1 = f_limit f" "f_pos f1 = length c1"
    using a1 by (auto simp: appended_def c1_def at_end_def)
  define f2 where "f2 = lseek_cur 4 f1"
  have f2: "at_end f2 (c1 @ replicate 4 NUL)" "f_limit f2 = f_limit f"
    using lseek_cur_at_end [OF f1(1), of 4] f1(3) by (auto simp: f2_def lseek_cur_def)
  obtain f3 where 3: "items len (n + 1) f2 = Ret (length body, m) f3"
    and a3: "appended (c1 @ replicate 4 NUL) body f2 f3"
    by (rule emitsE [OF items f2(1)]) (use lim f(2) f2(2) in \<open>auto simp: c1_def\<close>)
  have f3: "at_end f3 (c1 @ replicate 4 NUL @ body)" "f_limit f3 = f_limit f"
      "body = [] \<or> f_bytes f3 = c1 @ replicate 4 NUL @ body" "f_pos f3 = length c1 + 4 + length body"
    using a3 f2 by (auto simp: appended_def at_end_def)
  obtain f4 where 4: "patch_int (length c1) (of_nat (f_pos f3)) (f_pos f3) f3 = Ret () f4"
    and f4: "at_end f4 (c1 @ htonl (of_nat (f_pos f3)) @ body)" "f_limit f4 = f_limit f"
      "f_bytes f4 = c1 @ htonl (of_nat (f_pos f3)) @ body"
    using patch_at_end [OF f3(1) _ _ f3(3,4), of "of_nat (f_pos f3)"] lim f3(2)
    by (auto simp: c1_def)
  have "list_emit n bc f items = Ret (8 + length body, m) f4"
    using len 4 by (simp add: list_emit_def w 1 Let_def f1(4) f2_def [symmetric] 3 [simplified] sint_of_nat_small)
  moreover have "appended c (enc_list p len body) f f4"
    using f4 f3(4) f(2) by (simp add: appended_def enc_list_def c1_def ac_simps)
  ultimately show "\<exists>f'. list_emit n bc f items = Ret (8 + length body, m) f' \<and>
      appended c (enc_list p len body) f f'"
    by blast
qed

lemma enc_list_length [simp]: "length (enc_list p n body) = 8 + length body"
  by (simp add: enc_list_def)

lemma enc_string_length_pos: "4 \<le> length (enc_string s)"
  by (cases s) (simp_all add: enc_string_def)

lemma length_enc_strings: "length sl \<le> length (enc_strings sl)"
proof (induction sl)
  case (Cons s sl)
  then show ?case using enc_string_length_pos [of "Some s"] by simp
qed simp

lemma enc_stringlist_length [simp]: "length (enc_stringlist p sl) = 8 + length (enc_strings sl)"
  by (simp add: enc_stringlist_def)

lemma stringlist_units_length [simp]: "length (stringlist_units sl) = 1 + 2 * length sl"
  by (simp add: stringlist_units_def length_concat sum_list_triv comp_def)

lemma stringlist_emits [emit_rules]:
  assumes "seg bc n (stringlist_units sl)" and "length (enc_stringlist p sl) < 2 ^ 31"
  shows "emits p (enc_stringlist p sl)
    (length (enc_stringlist p sl), n + length (stringlist_units sl)) (bc_stringlist_emit n bc)"
proof -
  have w: "word_at bc n = Some (of_nat (length sl))"
    and seg: "seg bc (n + 1) (concat (map (\<lambda>x. string_units (Some x)) sl))"
    using assms(1) seg_Cons [of bc n "W (of_nat (length sl))"]
    by (auto simp: stringlist_units_def intro: seg_word)
  have "length sl < 2 ^ 31"
    using assms(2) length_enc_strings [of sl] by simp
  from list_emits [where items = "\<lambda>n codep f. strings_emit n codep bc f",
      OF w this strings_emits [OF seg]] assms(2) show ?thesis
    by (simp add: bc_stringlist_emit_def [abs_def] enc_stringlist_def)
qed

section \<open>Tests\<close>

lemma enc_words_length [simp]: "length (enc_words ws) = 4 * length ws"
  by (induction ws) (simp_all add: enc_words_def)

lemma match_emits [emit_rules]:
  assumes "seg bc n (map W ws @ stringlist_units sl @ stringlist_units pl)"
    and "length (enc_match p ws sl pl) < 2 ^ 31"
  shows "emits p (enc_match p ws sl pl) (length (enc_match p ws sl pl),
      n + length (map W ws @ stringlist_units sl @ stringlist_units pl)) (match_emit (length ws) n bc)"
proof -
  have seg: "seg bc n (map W ws)" "seg bc (n + length ws) (stringlist_units sl)"
      "seg bc (n + length ws + length (stringlist_units sl)) (stringlist_units pl)"
    using assms(1) seg_append [of bc n "map W ws"] seg_append [of bc "n + length ws" "stringlist_units sl"]
    by auto
  have len: "length (enc_stringlist q sl) < 2 ^ 31" "length (enc_stringlist q pl) < 2 ^ 31" for q
    using assms(2) by (auto simp: enc_match_def Let_def)
  show ?thesis
    unfolding match_emit_def [abs_def] enc_match_def Let_def
    by (rule emits_bind [OF words_emits [OF seg(1)]], unfold prod.case,
        rule emits_bind [OF stringlist_emits [OF seg(2) len(1)]], unfold prod.case,
        rule emits_bind_ret, rule stringlist_emits) (use seg(3) len in \<open>simp_all add: ac_simps\<close>)
qed

lemma match_units_words: "match_units m = map W (match_words m)"
  by (simp add: match_units_def match_words_def)

lemma match_words_length [simp]: "length (match_words m) = 3"
  by (simp add: match_words_def)

text \<open>The argument of a test and of its opcode.\<close>

lemma test_step:
  assumes "word_at bc n = Some opcode"
    and "emits (p + 4) d (length d, m)
      (\<lambda>f. if opcode = BC_NOT then bc_test_emit fuel (n + 1) bc f
              else if opcode = BC_ALLOF \<or> opcode = BC_ANYOF
              then list_emit (n + 1) bc f (\<lambda>n codep f. tests_emit fuel n codep bc f)
              else leaf_emit opcode (n + 1) bc f)"
  shows "emits p (htonl opcode @ d) (4 + length d, m) (bc_test_emit (Suc fuel) n bc)"
proof -
  have "emits p (htonl opcode @ d) (4 + length d, m) (\<lambda>f.
       ebind (write_int opcode f) (\<lambda>_ f.
       ebind (if opcode = BC_NOT then bc_test_emit fuel (n + 1) bc f
              else if opcode = BC_ALLOF \<or> opcode = BC_ANYOF
              then list_emit (n + 1) bc f (\<lambda>n codep f. tests_emit fuel n codep bc f)
              else leaf_emit opcode (n + 1) bc f) (\<lambda>(ret, codep) f.
       Ret (4 + ret, codep) f)))"
    by (rule emits_int, rule emits_bind_ret [OF assms(2)]) simp
  then show ?thesis
    unfolding emits_def by (simp add: assms(1))
qed

definition test_emits :: "bytecode_info \<Rightarrow> test \<Rightarrow> bool" where
  "test_emits bc t \<longleftrightarrow> (\<forall>n p fuel. seg bc n (test_units n t) \<longrightarrow>
     n + length (test_units n t) < 2 ^ 31 \<longrightarrow> length (enc_test p t) < 2 ^ 31 \<longrightarrow> size t < fuel \<longrightarrow>
     emits p (enc_test p t) (length (enc_test p t), n + length (test_units n t))
       (bc_test_emit fuel n bc))"

lemma test_emitsD:
  "test_emits bc t \<Longrightarrow> seg bc n (test_units n t) \<Longrightarrow> n + length (test_units n t) < 2 ^ 31 \<Longrightarrow>
   length (enc_test p t) < 2 ^ 31 \<Longrightarrow> size t < fuel \<Longrightarrow>
   emits p (enc_test p t) (length (enc_test p t), n + length (test_units n t)) (bc_test_emit fuel n bc)"
  by (simp add: test_emits_def)

lemma tests_emits:
  assumes "\<And>t. t \<in> set ts \<Longrightarrow> test_emits bc t" and "seg bc n (tests_units n ts)"
    and "n + length (tests_units n ts) < 2 ^ 31" and "length (enc_tests p ts) < 2 ^ 31"
    and "size_list size ts \<le> fuel"
  shows "emits p (enc_tests p ts) (length (enc_tests p ts), n + length (tests_units n ts))
    (tests_emit fuel (length ts) n bc)"
  using assms
proof (induction ts arbitrary: n p)
  case Nil
  then show ?case by (auto intro: emit_rules)
next
  case (Cons t ts)
  define u where "u = test_units (n + 1) t"
  define e where "e = n + 1 + length u"
  define v where "v = enc_test p t"
  have units: "tests_units n (t # ts) = W (of_nat e) # u @ tests_units e ts"
    by (simp add: Let_def u_def e_def)
  have e: "e < 2 ^ 31" using Cons.prems(3) by (simp add: units e_def del: tests_units.simps)
  have w: "word_at bc n = Some (of_nat e)" and segs: "seg bc (n + 1) u" "seg bc e (tests_units e ts)"
    using Cons.prems(2) seg_Cons [of bc n "W (of_nat e)"] seg_append [of bc "n + 1" u]
    unfolding units by (auto simp: e_def intro: seg_word)
  have enc: "enc_tests p (t # ts) = v @ enc_tests (p + length v) ts"
    by (simp add: v_def Let_def)
  have 1: "emits p v (length v, e) (bc_test_emit fuel (n + 1) bc)"
    unfolding v_def e_def u_def
    by (rule test_emitsD) (use segs(1) Cons.prems(1,3-5) in
      \<open>simp_all add: u_def v_def e_def units enc del: tests_units.simps enc_tests.simps\<close>)
  have 2: "emits (p + length v) (enc_tests (p + length v) ts)
      (length (enc_tests (p + length v) ts), e + length (tests_units e ts)) (tests_emit fuel (length ts) e bc)"
    using Cons.prems segs(2) by (intro Cons.IH)
      (auto simp: units enc e_def simp del: tests_units.simps enc_tests.simps)
  have "emits p (v @ enc_tests (p + length v) ts)
      (length v + length (enc_tests (p + length v) ts), e + length (tests_units e ts))
      (\<lambda>f. ebind (bc_test_emit fuel (n + 1) bc f) (\<lambda>(ret, _) f.
       ebind (tests_emit fuel (length ts) e bc f) (\<lambda>(wrote, codep) f. Ret (ret + wrote, codep) f)))"
    by (rule emits_bind [OF 1], unfold prod.case, rule emits_bind_ret [OF 2]) simp
  then show ?case
    unfolding enc units emits_def by (simp add: w with_nat_small [OF e])
      (simp add: e_def add.assoc)
qed

lemma test_emits_leaf:
  assumes units: "\<And>n. test_units n t = W opcode # u"
    and enc: "\<And>p. enc_test p t = htonl opcode @ d (p + 4)"
    and "opcode \<noteq> BC_NOT" "opcode \<noteq> BC_ALLOF" "opcode \<noteq> BC_ANYOF"
    and leaf: "\<And>n p. seg bc n u \<Longrightarrow> length (d p) < 2 ^ 31 \<Longrightarrow>
      emits p (d p) (length (d p), n + length u) (leaf_emit opcode n bc)"
  shows "test_emits bc t"
  unfolding test_emits_def
proof (intro allI impI)
  fix n p fuel
  assume "seg bc n (test_units n t)" and len: "length (enc_test p t) < 2 ^ 31" and "size t < fuel"
  then obtain k where fuel: "fuel = Suc k" and seg: "seg bc n [W opcode]" "seg bc (n + 1) u"
    using seg_Cons [of bc n "W opcode" u] by (cases fuel) (auto simp: units)
  have "emits (p + 4) (d (p + 4)) (length (d (p + 4)), n + 1 + length u) (leaf_emit opcode (n + 1) bc)"
    by (rule leaf) (use seg len in \<open>auto simp: enc\<close>)
  then have "emits p (htonl opcode @ d (p + 4)) (4 + length (d (p + 4)), n + 1 + length u)
      (bc_test_emit (Suc k) n bc)"
    by (intro test_step seg_word [OF seg(1)]) (use assms(3-5) in simp)
  then show "emits p (enc_test p t) (length (enc_test p t), n + length (test_units n t))
      (bc_test_emit fuel n bc)"
    by (simp add: enc units fuel)
qed

lemma test_emits_list:
  assumes op: "opcode = BC_ALLOF \<or> opcode = BC_ANYOF"
    and units: "\<And>n. test_units n t = W opcode # W (of_nat (length ts)) # tests_units (n + 2) ts"
    and enc: "\<And>p. enc_test p t = htonl opcode @ enc_list (p + 4) (length ts) (enc_tests (p + 12) ts)"
    and size: "size t = size_list size ts + 1"
    and ts: "\<And>t. t \<in> set ts \<Longrightarrow> test_emits bc t"
  shows "test_emits bc t"
  unfolding test_emits_def
proof (intro allI impI)
  fix n p fuel
  assume *: "seg bc n (test_units n t)" "n + length (test_units n t) < 2 ^ 31"
    "length (enc_test p t) < 2 ^ 31" "size t < fuel"
  then obtain k where fuel: "fuel = Suc k"
    by (cases fuel) auto
  let ?ws = "[W opcode, W (of_nat (length ts))]"
  have seg: "seg bc n [W opcode]" "seg bc (n + 1) [W (of_nat (length ts))]"
      "seg bc (n + 2) (tests_units (n + 2) ts)"
    using *(1) seg_append [of bc n ?ws "tests_units (n + 2) ts"]
      seg_Cons [of bc n "W opcode" "[W (of_nat (length ts))]"]
    by (auto simp: units numeral_2_eq_2)
  have len: "length ts \<le> size_list size ts" by (induction ts) auto
  have ts31: "length ts < 2 ^ 31"
  proof -
    have "length ts \<le> length (tests_units m ts)" for m
      by (induction ts arbitrary: m) (auto simp: Let_def intro: trans_le_add2)
    from this [of "n + 2"] *(2) show ?thesis by (simp add: units)
  qed
  have "emits (p + 12) (enc_tests (p + 12) ts)
      (length (enc_tests (p + 12) ts), n + 2 + length (tests_units (n + 2) ts))
      (tests_emit k (length ts) (n + 2) bc)"
    using * fuel by (intro tests_emits ts seg) (auto simp: units enc size)
  then have "emits (p + 4) (enc_list (p + 4) (length ts) (enc_tests (p + 12) ts))
      (8 + length (enc_tests (p + 12) ts), n + 2 + length (tests_units (n + 2) ts))
      (\<lambda>f. list_emit (n + 1) bc f (\<lambda>n codep f. tests_emit k n codep bc f))"
    by (intro list_emits seg_word [OF seg(2)] ts31) (simp add: numeral_2_eq_2 ac_simps)
  then have "emits p (htonl opcode @ enc_list (p + 4) (length ts) (enc_tests (p + 12) ts))
      (4 + length (enc_list (p + 4) (length ts) (enc_tests (p + 12) ts)),
       n + 2 + length (tests_units (n + 2) ts)) (bc_test_emit (Suc k) n bc)"
    by (intro test_step seg_word [OF seg(1)]) (use op in auto)
  then show "emits p (enc_test p t) (length (enc_test p t), n + length (test_units n t))
      (bc_test_emit fuel n bc)"
    by (simp add: units enc fuel)
qed

lemma bc_test_emits: "wf_test t \<Longrightarrow> test_emits bc t"
proof (induction t)
  case T_STRUE
  show ?case
    by (rule test_emits_leaf [where u = "[]" and d = "\<lambda>_. []" and opcode = BC_TRUE])
      (auto simp: leaf_emit_def [abs_def] intro: emit_rules)
next
  case T_SFALSE
  show ?case
    by (rule test_emits_leaf [where u = "[]" and d = "\<lambda>_. []" and opcode = BC_FALSE])
      (auto simp: leaf_emit_def [abs_def] intro: emit_rules)
next
  case (T_NOT t)
  show ?case unfolding test_emits_def
  proof (intro allI impI)
    fix n p fuel
    assume *: "seg bc n (test_units n (T_NOT t))" "n + length (test_units n (T_NOT t)) < 2 ^ 31"
      "length (enc_test p (T_NOT t)) < 2 ^ 31" "size (T_NOT t) < fuel"
    then obtain k where fuel: "fuel = Suc k" by (cases fuel) auto
    have seg: "seg bc n [W BC_NOT]" "seg bc (n + 1) (test_units (n + 1) t)"
      using *(1) seg_Cons [of bc n "W BC_NOT"] by auto
    have "emits (p + 4) (enc_test (p + 4) t) (length (enc_test (p + 4) t),
        n + 1 + length (test_units (n + 1) t)) (bc_test_emit k (n + 1) bc)"
      using * fuel T_NOT by (intro test_emitsD seg) auto
    then have "emits p (htonl BC_NOT @ enc_test (p + 4) t) (4 + length (enc_test (p + 4) t),
        n + 1 + length (test_units (n + 1) t)) (bc_test_emit (Suc k) n bc)"
      by (intro test_step seg_word [OF seg(1)]) simp
    then show "emits p (enc_test p (T_NOT t)) (length (enc_test p (T_NOT t)),
        n + length (test_units n (T_NOT t))) (bc_test_emit fuel n bc)"
      by (simp add: fuel)
  qed
next
  case (T_SIZE tag k)
  let ?ws = "[if tag = TK_OVER then B_OVER else B_UNDER, k]"
  show ?case
    by (rule test_emits_leaf [where u = "map W ?ws" and d = "\<lambda>_. enc_words ?ws" and opcode = BC_SIZE])
      (use words_emits [of bc _ ?ws] in \<open>auto simp: leaf_emit_def [abs_def] simp flip: numeral_2_eq_2\<close>)
next
  case (T_EXISTS sl)
  show ?case
    by (rule test_emits_leaf [where u = "stringlist_units sl" and d = "\<lambda>p. enc_stringlist p sl"
          and opcode = BC_EXISTS])
      (use stringlist_emits [of bc _ sl] in \<open>auto simp: leaf_emit_def [abs_def]\<close>)
next
  case (T_ANYOF ts)
  show ?case
    by (rule test_emits_list [where opcode = BC_ANYOF and ts = ts])
      (use T_ANYOF in \<open>auto simp: list_all_iff\<close>)
next
  case (T_ALLOF ts)
  show ?case
    by (rule test_emits_list [where opcode = BC_ALLOF and ts = ts])
      (use T_ALLOF in \<open>auto simp: list_all_iff\<close>)
next
  case (T_HEADER m sl pl)
  show ?case
    by (rule test_emits_leaf [where opcode = BC_HEADER
          and u = "map W (match_words m) @ stringlist_units sl @ stringlist_units pl"
          and d = "\<lambda>p. enc_match p (match_words m) sl pl"])
      (use match_emits [of bc _ "match_words m" sl pl] in
        \<open>auto simp: leaf_emit_def [abs_def] match_units_words\<close>)
next
  case (T_ADDRESS m part sl pl)
  let ?ws = "match_words m @ [the (addrpart_value part)]"
  show ?case
    by (rule test_emits_leaf [where opcode = BC_ADDRESS
          and u = "map W ?ws @ stringlist_units sl @ stringlist_units pl"
          and d = "\<lambda>p. enc_match p ?ws sl pl"])
      (use match_emits [of bc _ ?ws sl pl] in
        \<open>auto simp: leaf_emit_def [abs_def] match_units_words\<close>)
next
  case (T_ENVELOPE m part sl pl)
  let ?ws = "match_words m @ [the (addrpart_value part)]"
  show ?case
    by (rule test_emits_leaf [where opcode = BC_ENVELOPE
          and u = "map W ?ws @ stringlist_units sl @ stringlist_units pl"
          and d = "\<lambda>p. enc_match p ?ws sl pl"])
      (use match_emits [of bc _ ?ws sl pl] in
        \<open>auto simp: leaf_emit_def [abs_def] match_units_words\<close>)
next
  case (T_BODY m tr off sl pl)
  let ?ws = "match_words m @ [the (transform_value tr), off]"
  show ?case
    by (rule test_emits_leaf [where opcode = BC_BODY
          and u = "map W ?ws @ stringlist_units sl @ stringlist_units pl"
          and d = "\<lambda>p. enc_match p ?ws sl pl"])
      (use match_emits [of bc _ ?ws sl pl] in
        \<open>auto simp: leaf_emit_def [abs_def] match_units_words\<close>)
qed simp

section \<open>Commands\<close>

text \<open>A number that bounds the recursion the emission of a command needs.\<close>

fun cmd_size :: "command \<Rightarrow> nat" where
  "cmd_size (C_IF t a b) = size t + sum_list (map (\<lambda>c. cmd_size c + 1) a) +
     sum_list (map (\<lambda>c. cmd_size c + 1) b) + 1"
| "cmd_size _ = 0"

abbreviation cmds_size :: "command list \<Rightarrow> nat" where
  "cmds_size cs \<equiv> sum_list (map (\<lambda>c. cmd_size c + 1) cs)"

definition args_units :: "command \<Rightarrow> bytecode_t list" where
  "args_units c = tl (simple_units c)"

lemma simple_units_split:
  "wf_cmd c \<Longrightarrow> \<nexists>t a b. c = C_IF t a b \<Longrightarrow> simple_units c = W (opcode_of c) # args_units c"
  by (cases c) (simp_all add: args_units_def)

text \<open>A piece of the arguments and what follows it.\<close>

lemma emits_piece:
  assumes "seg bc n (u @ v)" and "seg bc n u \<Longrightarrow> emits p d (length d, n + length u) (act n)"
    and "seg bc (n + length u) v \<Longrightarrow> emits (p + length d) e r (k (length d) (n + length u))"
  shows "emits p (d @ e) r (\<lambda>f. ebind (act n f) (\<lambda>(w, c) f. k w c f))"
  using assms seg_append [of bc n u v] by (intro emits_bind [where r = "(length d, n + length u)"]) auto

lemma emits_last:
  assumes "seg bc n u" and "seg bc n u \<Longrightarrow> emits p d (length d, n + length u) (act n)"
    and "r = (g (length d), n + length u)"
  shows "emits p d r (\<lambda>f. ebind (act n f) (\<lambda>(w, c) f. Ret (g w, c) f))"
  using assms by (intro emits_bind_ret [where r = "(length d, n + length u)"]) auto

lemma words_piece:
  "length ws = k \<Longrightarrow> seg bc n (map W ws) \<Longrightarrow>
   emits p (enc_words ws) (length (enc_words ws), n + length (map W ws)) (words_emit k n bc)"
  using words_emits by auto

lemma string_piece:
  "length (enc_string (Some s)) < 2 ^ 31 \<Longrightarrow> seg bc n (string_units (Some s)) \<Longrightarrow>
   emits p (enc_string (Some s)) (length (enc_string (Some s)), n + length (string_units (Some s)))
     (string_emit False n bc)"
  using string_emits [of bc n s p False] by (simp add: enc_string_def pad_string_align)

lemma string_option_piece:
  "length (enc_string s) < 2 ^ 31 \<Longrightarrow> seg bc n (string_units s) \<Longrightarrow>
   emits p (enc_string s) (length (enc_string s), n + length (string_units s)) (string_emit True n bc)"
  using string_emits_option [of bc n s p] by simp

lemma stringlist_piece:
  "length (enc_stringlist p sl) < 2 ^ 31 \<Longrightarrow> seg bc n (stringlist_units sl) \<Longrightarrow>
   emits p (enc_stringlist p sl) (length (enc_stringlist p sl), n + length (stringlist_units sl))
     (bc_stringlist_emit n bc)"
  using stringlist_emits by blast

lemma word_string_emits:
  assumes "seg bc n (map W [w] @ string_units (Some s))" and "length (enc_string (Some s)) < 2 ^ 31"
  shows "emits p (enc_words [w] @ enc_string (Some s))
    (length (enc_words [w] @ enc_string (Some s)), n + 3) (word_string_emit n bc)"
  unfolding word_string_emit_def [abs_def]
  by (rule emits_piece [OF assms(1)], rule words_piece, simp, assumption,
      rule emits_last, assumption, rule string_piece) (use assms(2) in simp_all)

lemma denotify_emits:
  assumes "seg bc n (map W ws @ string_units s)" and "length ws = 3"
    and "length (enc_string s) < 2 ^ 31"
  shows "emits p (enc_words ws @ enc_string s) (12 + length (enc_string s), n + 5) (denotify_emit n bc)"
  unfolding denotify_emit_def [abs_def]
  by (rule emits_piece [OF assms(1)], rule words_piece, rule assms, assumption,
      rule emits_last, assumption, rule string_option_piece) (use assms(2,3) in simp_all)

lemma notify_emits:
  assumes "seg bc n (string_units (Some a) @ string_units b @ stringlist_units sl @ map W [w] @
      string_units (Some m))"
    and "length (enc_string (Some a)) < 2 ^ 31" "length (enc_string b) < 2 ^ 31"
      "\<And>p. length (enc_stringlist p sl) < 2 ^ 31" "length (enc_string (Some m)) < 2 ^ 31"
  shows "emits p (enc_string (Some a) @ enc_string b @
      enc_stringlist (p + length (enc_string (Some a)) + length (enc_string b)) sl @
      enc_words [w] @ enc_string (Some m))
    (length (enc_string (Some a)) + length (enc_string b) + (8 + length (enc_strings sl)) + 4 +
      length (enc_string (Some m)), n + 8 + 2 * length sl) (notify_emit n bc)"
  unfolding notify_emit_def [abs_def]
  by (rule emits_piece [OF assms(1)], rule string_option_piece, rule assms, assumption,
      rule emits_piece, assumption, rule string_option_piece, rule assms, assumption,
      rule emits_piece, assumption, rule stringlist_piece, rule assms, assumption,
      rule emits_piece, assumption, rule words_piece, simp, assumption,
      rule emits_last, assumption, rule string_piece) (use assms(5) in simp_all)

lemma vacation_emits:
  assumes "seg bc n (stringlist_units sl @ string_units a @ string_units b @ map W ws @
      string_units d @ string_units e)" and "length ws = 2"
    and "\<And>p. length (enc_stringlist p sl) < 2 ^ 31"
      "length (enc_string a) < 2 ^ 31" "length (enc_string b) < 2 ^ 31"
      "length (enc_string d) < 2 ^ 31" "length (enc_string e) < 2 ^ 31"
  shows "emits p (enc_stringlist p sl @ enc_string a @ enc_string b @ enc_words ws @
      enc_string d @ enc_string e)
    (8 + length (enc_strings sl) + length (enc_string a) + length (enc_string b) + 8 +
      length (enc_string d) + length (enc_string e), n + 11 + 2 * length sl) (vacation_emit n bc)"
  unfolding vacation_emit_def [abs_def]
  by (rule emits_piece [OF assms(1)], rule stringlist_piece, rule assms, assumption,
      rule emits_piece, assumption, rule string_option_piece, rule assms, assumption,
      rule emits_piece, assumption, rule string_option_piece, rule assms, assumption,
      rule emits_piece, assumption, rule words_piece, rule assms, assumption,
      rule emits_piece, assumption, rule string_option_piece, rule assms, assumption,
      rule emits_last, assumption, rule string_option_piece) (use assms(2,7) in simp_all)

lemma simple_emits:
  assumes "wf_cmd c" and "\<nexists>t a b. c = C_IF t a b" and "seg bc n (args_units c)"
    and "length (enc_args p c) < 2 ^ 31"
  shows "emits p (enc_args p c) (length (enc_args p c), n + length (args_units c))
    (simple_emit (opcode_of c) n bc)"
proof (cases c)
  case (C_FILEINTO s w)
  then show ?thesis
    using word_string_emits [of bc n w s p] assms(3,4)
    by (simp add: simple_emit_def [abs_def] args_units_def)
next
  case (C_REDIRECT s w)
  then show ?thesis
    using word_string_emits [of bc n w s p] assms(3,4)
    by (simp add: simple_emit_def [abs_def] args_units_def)
next
  case (C_INCLUDE l s)
  then show ?thesis
    using word_string_emits [of bc n "the (location_value l)" s p] assms(3,4)
    by (simp add: simple_emit_def [abs_def] args_units_def)
next
  case (C_REJCT s)
  then show ?thesis
    using string_piece [of s bc n p] assms(3,4)
    by (simp add: simple_emit_def [abs_def] args_units_def)
next
  case (C_ADDFLAG sl)
  then show ?thesis
    using stringlist_piece [of p sl bc n] assms(3,4)
    by (simp add: simple_emit_def [abs_def] args_units_def)
next
  case (C_SETFLAG sl)
  then show ?thesis
    using stringlist_piece [of p sl bc n] assms(3,4)
    by (simp add: simple_emit_def [abs_def] args_units_def)
next
  case (C_REMOVEFLAG sl)
  then show ?thesis
    using stringlist_piece [of p sl bc n] assms(3,4)
    by (simp add: simple_emit_def [abs_def] args_units_def)
next
  case (C_DENOTIFY d)
  then show ?thesis
    using denotify_emits [of bc n "[the (priority_value (d_priority d)),
        the (denotify_comptag_value (d_comptag d)), relation_value (d_relation d)]" "d_pattern d" p]
      assms(3,4)
    by (simp add: simple_emit_def [abs_def] args_units_def)
next
  case (C_NOTIFY a)
  have op: "simple_emit (opcode_of c) n bc = notify_emit n bc"
    by (simp add: C_NOTIFY simple_emit_def [abs_def])
  have r: "(length (enc_args p c), n + length (args_units c)) =
      (length (enc_string (Some (n_method a))) + length (enc_string (n_id a)) +
       (8 + length (enc_strings (n_options a))) + 4 + length (enc_string (Some (n_message a))),
       n + 8 + 2 * length (n_options a))"
    by (simp add: C_NOTIFY args_units_def Let_def)
  have e: "enc_args p c = enc_string (Some (n_method a)) @ enc_string (n_id a) @
      enc_stringlist (p + length (enc_string (Some (n_method a))) + length (enc_string (n_id a)))
        (n_options a) @
      enc_words [the (priority_value (n_priority a))] @ enc_string (Some (n_message a))"
    by (simp add: C_NOTIFY Let_def)
  show ?thesis
    unfolding op r unfolding e
    by (rule notify_emits) (use assms(3,4) in \<open>simp_all add: C_NOTIFY args_units_def Let_def\<close>)
next
  case (C_VACATION v)
  have op: "simple_emit (opcode_of c) n bc = vacation_emit n bc"
    by (simp add: C_VACATION simple_emit_def [abs_def])
  have r: "(length (enc_args p c), n + length (args_units c)) =
      (8 + length (enc_strings (v_addresses v)) + length (enc_string (v_subject v)) +
       length (enc_string (v_message v)) + 8 + length (enc_string (v_from v)) +
       length (enc_string (v_handle v)), n + 11 + 2 * length (v_addresses v))"
    by (simp add: C_VACATION args_units_def)
  have e: "enc_args p c = enc_stringlist p (v_addresses v) @ enc_string (v_subject v) @
      enc_string (v_message v) @ enc_words [v_days v, v_mime v] @ enc_string (v_from v) @
      enc_string (v_handle v)"
    by (simp add: C_VACATION)
  show ?thesis
    unfolding op r unfolding e
    by (rule vacation_emits) (use assms(3,4) in \<open>simp_all add: C_VACATION args_units_def\<close>)
qed (use assms in \<open>auto simp: simple_emit_def [abs_def] args_units_def intro: emit_rules\<close>)

lemma patch_inside:
  assumes "f_bytes f = c @ x @ d" and "length x = 4" and "length c + 4 \<le> f_limit f"
  shows "\<exists>f'. patch_int (length c) w back f = Ret () f' \<and> f_bytes f' = c @ htonl w @ d \<and>
    f_pos f' = back \<and> f_limit f' = f_limit f"
  using assms by (auto simp: patch_int_def write_int_def fd_write_def lseek_set_def pad_to_def)

lemma emits_dense:
  assumes "emits p d r act" and "f_bytes f = c" and "f_pos f = p" and "length c = p"
    and "p + length d \<le> f_limit f"
  obtains f' where "act f = Ret r f'" and "f_bytes f' = c @ d" and "f_pos f' = p + length d"
    and "f_limit f' = f_limit f"
proof -
  have "at_end f c" using assms by (auto simp: at_end_def intro: exI [of _ 0])
  from emitsE [OF assms(1) this assms(4,5)] obtain f' where "act f = Ret r f'" "appended c d f f'"
    by blast
  with that assms show thesis by (auto simp: appended_def at_end_def)
qed

text \<open>A part behind a skipped word that is set when the part is written.\<close>

lemma emits_skipped:
  assumes "emits (length c + 4) d r act" and "f_bytes f = c" and "f_pos f = length c"
    and "length c + 4 + length d \<le> f_limit f"
  obtains f' where "act (lseek_cur 4 f) = Ret r f'" and "f_pos f' = length c + 4 + length d"
    and "f_limit f' = f_limit f" and "at_end f' (c @ replicate 4 NUL @ d)"
    and "d = [] \<or> f_bytes f' = c @ replicate 4 NUL @ d"
proof -
  have "at_end f c" using assms(2,3) by (auto simp: at_end_def intro: exI [of _ 0])
  from lseek_cur_at_end [OF this, of 4]
  have "at_end (lseek_cur 4 f) (c @ replicate 4 NUL)" .
  from emitsE [OF assms(1) this] assms(4) obtain f' where
    "act (lseek_cur 4 f) = Ret r f'" "appended (c @ replicate 4 NUL) d (lseek_cur 4 f) f'"
    by (auto simp: lseek_cur_def)
  with that show thesis by (auto simp: appended_def at_end_def lseek_cur_def)
qed

lemma emits_then_patch:
  assumes "emits (length c + 4) d r act" and "f_bytes f = c" and "f_pos f = length c"
    and "length c + 4 + length d \<le> f_limit f"
  obtains f1 f2 where "act (lseek_cur 4 f) = Ret r f1"
    and "patch_int (length c) w (length c + 4 + length d) f1 = Ret () f2"
    and "f_bytes f2 = c @ htonl w @ d" and "f_pos f2 = length c + 4 + length d"
    and "f_limit f2 = f_limit f"
proof -
  obtain f1 where 1: "act (lseek_cur 4 f) = Ret r f1" "f_limit f1 = f_limit f"
    and e: "at_end f1 (c @ replicate 4 NUL @ d)" "d = [] \<or> f_bytes f1 = c @ replicate 4 NUL @ d"
    by (rule emits_skipped [OF assms]) blast
  from patch_at_end [OF e(1) _ _ e(2) refl, of w] assms(4) 1(2)
  obtain f2 where "patch_int (length c) w (length c + 4 + length d) f1 = Ret () f2"
    "at_end f2 (c @ htonl w @ d)" "f_limit f2 = f_limit f1" "f_bytes f2 = c @ htonl w @ d"
    by auto
  with 1 that show thesis by (auto simp: at_end_def)
qed

lemma if_emits_then:
  assumes f: "f_bytes f = c" "f_pos f = q" "length c = q"
    and test: "emits (q + 4) u (length u, m) (te (n + 3))" and a: "a = q + 4 + length u"
    and w: "word_at bc n = Some (of_nat x)" "word_at bc (n + 1) = Some (of_nat y)"
      "word_at bc (n + 2) = Some (- 1)" "x < 2 ^ 31" "y < 2 ^ 31"
    and thn: "emits (a + 8) v (length v) (ae x y (a + 8))" and b: "b = a + 8 + length v"
    and lim: "b \<le> f_limit f"
  shows "\<exists>f'. if_emit te ae n bc q f = Ret (b, y) f' \<and>
    f_bytes f' = c @ htonl (of_nat (a div 4)) @ u @ htonl B_JUMP @ htonl (of_nat (b div 4)) @ v \<and>
    f_pos f' = b \<and> f_limit f' = f_limit f"
proof -
  obtain f1 f2 where 1: "te (n + 3) (lseek_cur 4 f) = Ret (length u, m) f1"
    and 2: "patch_int q (of_nat (a div 4)) a f1 = Ret () f2"
    and f2: "f_bytes f2 = c @ htonl (of_nat (a div 4)) @ u" "f_pos f2 = a" "f_limit f2 = f_limit f"
    by (rule emits_then_patch [of c u "(length u, m)" "te (n + 3)" f "of_nat (a div 4)"])
      (use f test lim in \<open>auto simp: a b\<close>)
  define c3 where "c3 = c @ htonl (of_nat (a div 4)) @ u @ htonl B_JUMP"
  have c3: "length c3 = a + 4" using f(3) by (simp add: c3_def a)
  obtain f3 where 3: "write_int B_JUMP f2 = Ret () f3"
    and f3: "f_bytes f3 = c3" "f_pos f3 = a + 4" "f_limit f3 = f_limit f"
    by (rule emits_dense [OF write_int_emits, of f2 "c @ htonl (of_nat (a div 4)) @ u" a B_JUMP])
      (use f2 f lim in \<open>auto simp: a b c3_def\<close>)
  obtain f4 f5 where 4: "ae x y (a + 8) (lseek_cur 4 f3) = Ret (length v) f4"
    and 5: "patch_int (a + 4) (of_nat (b div 4)) b f4 = Ret () f5"
    and f5: "f_bytes f5 = c3 @ htonl (of_nat (b div 4)) @ v" "f_pos f5 = b" "f_limit f5 = f_limit f"
    by (rule emits_then_patch [of c3 v "length v" "ae x y (a + 8)" f3 "of_nat (b div 4)"])
      (use f3 thn lim c3 in \<open>auto simp: b add.assoc\<close>)
  have "if_emit te ae n bc q f = Ret (b, y) f5"
    unfolding if_emit_def
    by (simp only: Let_def ebind.simps prod.case 1 2 3 4 5 w with_nat_small add_unchecked.simps
        option.case a [symmetric] b [symmetric] if_True simp_thms)
  with f5 show ?thesis by (auto simp: c3_def)
qed

lemma if_emits_else:
  assumes f: "f_bytes f = c" "f_pos f = q" "length c = q"
    and test: "emits (q + 4) u (length u, m) (te (n + 3))" and a: "a = q + 4 + length u"
    and w: "word_at bc n = Some (of_nat x)" "word_at bc (n + 1) = Some (of_nat y)"
      "word_at bc (n + 2) = Some (of_nat z)" "x < 2 ^ 31" "y < 2 ^ 31" "z < 2 ^ 31"
    and thn: "emits (a + 8) v (length v) (ae x y (a + 8))" and b: "b = a + 8 + length v"
    and els: "emits (b + 8) t (length t) (ae y z (b + 8))" and e: "e = b + 8 + length t"
    and ne: "v \<noteq> []" and lim: "e \<le> f_limit f"
  shows "\<exists>f'. if_emit te ae n bc q f = Ret (e, z) f' \<and>
    f_bytes f' = c @ htonl (of_nat (a div 4)) @ u @ htonl B_JUMP @ htonl (of_nat ((b + 8) div 4)) @
      v @ htonl B_JUMP @ htonl (of_nat (e div 4)) @ t \<and>
    f_pos f' = e \<and> f_limit f' = f_limit f"
proof -
  obtain f1 f2 where 1: "te (n + 3) (lseek_cur 4 f) = Ret (length u, m) f1"
    and 2: "patch_int q (of_nat (a div 4)) a f1 = Ret () f2"
    and f2: "f_bytes f2 = c @ htonl (of_nat (a div 4)) @ u" "f_pos f2 = a" "f_limit f2 = f_limit f"
    by (rule emits_then_patch [of c u "(length u, m)" "te (n + 3)" f "of_nat (a div 4)"])
      (use f test lim in \<open>auto simp: a b e\<close>)
  define c3 where "c3 = c @ htonl (of_nat (a div 4)) @ u @ htonl B_JUMP"
  have c3: "length c3 = a + 4" using f(3) by (simp add: c3_def a)
  obtain f3 where 3: "write_int B_JUMP f2 = Ret () f3"
    and f3: "f_bytes f3 = c3" "f_pos f3 = a + 4" "f_limit f3 = f_limit f"
    by (rule emits_dense [OF write_int_emits, of f2 "c @ htonl (of_nat (a div 4)) @ u" a B_JUMP])
      (use f2 f lim in \<open>auto simp: a b e c3_def\<close>)
  obtain f4 where 4: "ae x y (a + 8) (lseek_cur 4 f3) = Ret (length v) f4"
    and f4: "f_bytes f4 = c3 @ replicate 4 NUL @ v" "f_pos f4 = b" "f_limit f4 = f_limit f"
    by (rule emits_skipped [of c3 v "length v" "ae x y (a + 8)" f3])
      (use f3 thn lim c3 ne in \<open>auto simp: b e add.assoc\<close>)
  obtain f5 where 5: "write_int B_JUMP f4 = Ret () f5"
    and f5: "f_bytes f5 = c3 @ replicate 4 NUL @ v @ htonl B_JUMP" "f_pos f5 = b + 4"
      "f_limit f5 = f_limit f"
    by (rule emits_dense [OF write_int_emits, of f4 "c3 @ replicate 4 NUL @ v" b B_JUMP])
      (use f4 f lim c3 in \<open>auto simp: b e\<close>)
  obtain f6 where 6: "patch_int (a + 4) (of_nat ((b + 8) div 4)) (b + 8) (lseek_cur 4 f5) = Ret () f6"
    and f6: "f_bytes f6 = c3 @ htonl (of_nat ((b + 8) div 4)) @ v @ htonl B_JUMP" "f_pos f6 = b + 8"
      "f_limit f6 = f_limit f"
    using patch_inside [of "lseek_cur 4 f5" c3 "replicate 4 NUL" "v @ htonl B_JUMP"
        "of_nat ((b + 8) div 4)" "b + 8"] f5 lim c3
    by (auto simp: lseek_cur_def b e)
  define c6 where "c6 = c3 @ htonl (of_nat ((b + 8) div 4)) @ v @ htonl B_JUMP"
  have c6: "length c6 = b + 4" using c3 by (simp add: c6_def b)
  have c6': "length c6 + 4 = b + 8" using c6 by simp
  have f6': "f6 = lseek_cur 4 (f6\<lparr>f_pos := b + 4\<rparr>)"
    using f6(2) by (simp add: lseek_cur_def)
  obtain f7 f8 where 7: "ae y z (b + 8) (lseek_cur 4 (f6\<lparr>f_pos := b + 4\<rparr>)) = Ret (length t) f7"
    and 8: "patch_int (b + 4) (of_nat (e div 4)) e f7 = Ret () f8"
    and f8: "f_bytes f8 = c6 @ htonl (of_nat (e div 4)) @ t" "f_pos f8 = e" "f_limit f8 = f_limit f"
    by (rule emits_then_patch [of c6 t "length t" "ae y z (b + 8)" "f6\<lparr>f_pos := b + 4\<rparr>"
          "of_nat (e div 4)", unfolded c6' e [symmetric], unfolded c6])
      (use f6 els lim in \<open>auto simp: c6_def\<close>)
  have "(of_nat z :: cint) \<noteq> - 1"
    using sint_of_nat_small [OF w(6)] by (metis int_zle_neg le_numeral_extra(4) sint_n1
        of_nat_0_le_iff neg_0_le_iff_le not_one_le_zero)
  then have "if_emit te ae n bc q f = Ret (e, z) f8"
    unfolding if_emit_def
    by (simp only: Let_def ebind.simps prod.case 1 2 3 4 5 6 7 [folded f6'] 8 w with_nat_small
        add_unchecked.simps option.case a [symmetric] b [symmetric] e [symmetric] if_False simp_thms)
  with f8 show ?thesis by (auto simp: c3_def c6_def)
qed

text \<open>One round of the loop of \<^verbatim>\<open>bc_action_emit\<close>.\<close>

definition cmd_step :: "nat \<Rightarrow> bytecode_info \<Rightarrow> nat \<Rightarrow> nat \<Rightarrow> fdesc \<Rightarrow> (nat \<times> nat) eres" where
  "cmd_step fuel bc codep filelen f = (case word_at bc codep of
     None \<Rightarrow> Stuck
   | Some opcode \<Rightarrow>
       ebind (write_int opcode f) (\<lambda>_ f.
       if opcode = B_IF then
         if_emit (\<lambda>c f. bc_test_emit fuel c bc f)
           (\<lambda>c stop flen f. ebind (action_emit_loop fuel c stop bc flen f) (\<lambda>r f. Ret (r - flen) f))
           (codep + 1) bc (filelen + 4) f
       else
         ebind (simple_emit opcode (codep + 1) bc f) (\<lambda>(w, codep) f. Ret (filelen + 4 + w, codep) f)))"

lemma ebind_assoc: "ebind (ebind m k) l = ebind m (\<lambda>a f. ebind (k a f) l)"
  by (cases m) simp_all

lemma loop_step:
  "codep < stop \<Longrightarrow> action_emit_loop (Suc fuel) codep stop bc filelen f =
     ebind (cmd_step fuel bc codep filelen f)
       (\<lambda>(filelen, codep) f. action_emit_loop fuel codep stop bc filelen f)"
  by (cases "word_at bc codep") (simp_all add: cmd_step_def Let_def ebind_assoc)

lemma loop_done: "action_emit_loop (Suc fuel) codep codep bc filelen f = Ret filelen f"
  by simp

declare action_emit_loop.simps(2) [simp del]

definition cmd_emits :: "bytecode_info \<Rightarrow> command \<Rightarrow> bool" where
  "cmd_emits bc c \<longleftrightarrow> (\<forall>n p fuel. seg bc n (cmd_units n c) \<longrightarrow>
     n + length (cmd_units n c) < 2 ^ 31 \<longrightarrow> length (enc_cmd p c) < 2 ^ 31 \<longrightarrow> cmd_size c < fuel \<longrightarrow>
     emits p (enc_cmd p c) (p + length (enc_cmd p c), n + length (cmd_units n c))
       (cmd_step fuel bc n p))"

lemma cmd_emitsD:
  "cmd_emits bc c \<Longrightarrow> seg bc n (cmd_units n c) \<Longrightarrow> n + length (cmd_units n c) < 2 ^ 31 \<Longrightarrow>
   length (enc_cmd p c) < 2 ^ 31 \<Longrightarrow> cmd_size c < fuel \<Longrightarrow>
   emits p (enc_cmd p c) (p + length (enc_cmd p c), n + length (cmd_units n c)) (cmd_step fuel bc n p)"
  by (simp add: cmd_emits_def)

lemma cmd_units_not_Nil: "wf_cmd c \<Longrightarrow> cmd_units n c \<noteq> []"
  by (cases c) (simp_all add: cmd_units.simps Let_def)

lemma cmds_emits:
  assumes "\<And>c. c \<in> set cs \<Longrightarrow> cmd_emits bc c \<and> wf_cmd c" and "seg bc n (cmds_units n cs)"
    and "n + length (cmds_units n cs) < 2 ^ 31" and "length (enc_cmds p cs) < 2 ^ 31"
    and "cmds_size cs < fuel"
  shows "emits p (enc_cmds p cs) (p + length (enc_cmds p cs))
    (action_emit_loop fuel n (n + length (cmds_units n cs)) bc p)"
  using assms
proof (induction cs arbitrary: n p fuel)
  case Nil
  then obtain k where "fuel = Suc k" by (cases fuel) auto
  then show ?case
    by (simp add: loop_done emits_def) (auto simp: appended_def loop_done)
next
  case (Cons c cs)
  then obtain k where fuel: "fuel = Suc k" by (cases fuel) auto
  define u where "u = cmd_units n c"
  define d where "d = enc_cmd p c"
  let ?n = "n + length u" and ?p = "p + length d"
  have units: "cmds_units n (c # cs) = u @ cmds_units ?n cs"
    and enc: "enc_cmds p (c # cs) = d @ enc_cmds ?p cs"
    by (simp_all add: Let_def u_def d_def)
  have seg: "seg bc n u" "seg bc ?n (cmds_units ?n cs)"
    using Cons.prems(2) seg_append unfolding units by blast+
  have 1: "emits p d (?p, ?n) (cmd_step k bc n p)"
    using Cons.prems seg(1) unfolding u_def d_def
    by (intro cmd_emitsD) (auto simp: fuel units enc u_def d_def Let_def)
  let ?stop = "n + length (cmds_units n (c # cs))"
  have "?stop = ?n + length (cmds_units ?n cs)" by (simp add: units del: cmds_units.simps)
  then have 2: "emits ?p (enc_cmds ?p cs) (?p + length (enc_cmds ?p cs))
      (action_emit_loop k ?n ?stop bc ?p)"
    using Cons.prems seg(2)
    by (simp only:) (rule Cons.IH, auto simp: fuel units enc simp del: cmds_units.simps enc_cmds.simps)
  have "emits p (d @ enc_cmds ?p cs) (?p + length (enc_cmds ?p cs)) (\<lambda>f.
      ebind (cmd_step k bc n p f) (\<lambda>(filelen, codep) f. action_emit_loop k codep ?stop bc filelen f))"
    by (rule emits_bind [OF 1], unfold prod.case) (rule 2)
  moreover have "u \<noteq> []"
    using Cons.prems(1) by (simp add: u_def cmd_units_not_Nil)
  ultimately show ?case
    unfolding enc emits_def fuel by (simp add: loop_step units add.assoc
        del: cmds_units.simps enc_cmds.simps)
qed

lemma enc_block_not_Nil:
  assumes "list_all wf_cmd cs"
  shows "enc_block p cs \<noteq> []"
proof (cases cs)
  case (Cons c cs')
  then have "enc_cmd p c \<noteq> []"
    by (cases c) (auto simp: enc_cmd.simps Let_def)
  with Cons show ?thesis by (simp add: enc_block.simps Let_def)
qed (simp add: enc_block.simps)

lemma block_emits:
  assumes "\<And>c. c \<in> set cs \<Longrightarrow> cmd_emits bc c \<and> wf_cmd c" and "seg bc n (block_units n cs)"
    and "n + length (block_units n cs) < 2 ^ 31" and "length (enc_block p cs) < 2 ^ 31"
    and "cmds_size cs + 1 < fuel"
  shows "emits p (enc_block p cs) (p + length (enc_block p cs))
    (action_emit_loop fuel n (n + length (block_units n cs)) bc p)"
proof (cases "cs = []")
  case True
  then obtain k where fuel: "fuel = Suc (Suc k)"
    using assms(5) by (cases fuel; cases "fuel - 1") auto
  have w: "word_at bc n = Some B_NULL"
    using assms(2) True by (auto simp: block_units.simps intro: seg_word)
  have 1: "emits p (htonl B_NULL @ []) (p + 4, n + 1) (\<lambda>f. ebind (write_int B_NULL f) (\<lambda>_ f.
      ebind (Ret (0, n + 1) f) (\<lambda>(w, codep) f. Ret (p + 4 + w, codep) f)))"
    by (rule emits_int) (auto simp: intro: emit_rules)
  have 2: "emits p (htonl B_NULL) (p + 4, n + 1) (cmd_step (Suc k) bc n p)"
    using 1 unfolding emits_def by (simp add: cmd_step_def w simple_emit_def)
  have "emits p (htonl B_NULL) (p + 4) (\<lambda>f.
      ebind (cmd_step (Suc k) bc n p f) (\<lambda>(filelen, codep) f.
      action_emit_loop (Suc k) codep (n + 1) bc filelen f))"
    by (rule emits_bind_ret [OF 2]) (auto simp: loop_done)
  then show ?thesis
    unfolding emits_def by (simp add: True fuel block_units.simps enc_block.simps loop_step)
next
  case False
  with cmds_emits [of cs bc n p fuel] assms show ?thesis
    by (simp add: block_units.simps enc_block.simps)
qed

lemma if_cmd_emits:
  assumes t: "wf_test t" and a: "list_all (\<lambda>c. cmd_emits bc c \<and> wf_cmd c) do_then"
    and b: "list_all (\<lambda>c. cmd_emits bc c \<and> wf_cmd c) do_else"
  shows "cmd_emits bc (C_IF t do_then do_else)"
  unfolding cmd_emits_def
proof (intro allI impI)
  fix n p fuel
  let ?c = "C_IF t do_then do_else"
  assume *: "seg bc n (cmd_units n ?c)" "n + length (cmd_units n ?c) < 2 ^ 31"
    "length (enc_cmd p ?c) < 2 ^ 31" "cmd_size ?c < fuel"
  define u where "u = test_units (n + 4) t"
  define x where "x = n + 4 + length u"
  define v where "v = block_units x do_then"
  define y where "y = x + length v"
  define w where "w = (if do_else = [] then [] else block_units y do_else)"
  define z where "z = y + length w"
  have units: "cmd_units n ?c = [W B_IF, W (of_nat x), W (of_nat y),
      W (if do_else = [] then - 1 else of_nat z)] @ u @ v @ w"
    by (simp add: cmd_units.simps Let_def u_def x_def v_def y_def w_def z_def)
  have len: "length (cmd_units n ?c) = z - n" "n \<le> z" "y \<le> z" "x \<le> y"
    by (simp_all add: units x_def y_def z_def)
  define eu where "eu = enc_test (p + 8) t"
  define ea where "ea = p + 8 + length eu"
  define ev where "ev = enc_block (ea + 8) do_then"
  define eb where "eb = ea + 8 + length ev"
  define ew where "ew = enc_block (eb + 8) do_else"
  define ee where "ee = eb + 8 + length ew"
  let ?ae = "\<lambda>c stop flen f. ebind (action_emit_loop fuel c stop bc flen f) (\<lambda>r f. Ret (r - flen) f)"
  have enc: "enc_cmd p ?c = htonl B_IF @ (if do_else = []
      then htonl (of_nat (ea div 4)) @ eu @ htonl B_JUMP @ htonl (of_nat (eb div 4)) @ ev
      else htonl (of_nat (ea div 4)) @ eu @ htonl B_JUMP @ htonl (of_nat ((eb + 8) div 4)) @ ev @
        htonl B_JUMP @ htonl (of_nat (ee div 4)) @ ew)"
    by (simp add: enc_cmd.simps Let_def eu_def ea_def ev_def eb_def ew_def ee_def)
  have seg: "word_at bc n = Some B_IF" "word_at bc (n + 1) = Some (of_nat x)"
      "word_at bc (n + 2) = Some (of_nat y)"
      "word_at bc (n + 3) = Some (if do_else = [] then - 1 else of_nat z)"
      "seg bc (n + 4) u" "seg bc x v" "seg bc y w"
    using seg_four [OF *(1) [unfolded units]] seg_append [of bc "n + 4" u "v @ w"]
      seg_append [of bc x v w]
    by (simp_all only: x_def [symmetric] y_def [symmetric])
  have cells: "word_at bc (n + 1 + 1) = Some (of_nat y)"
      "word_at bc (n + 1 + 2) = Some (if do_else = [] then - 1 else of_nat z)"
    using seg(3,4) by (simp_all add: eval_nat_numeral)
  have x31: "x < 2 ^ 31" "y < 2 ^ 31" "z < 2 ^ 31"
    using *(2) len by auto
  have size: "size t < fuel" "cmds_size do_then + 1 < fuel" "cmds_size do_else + 1 < fuel"
    using *(4) by auto
  have "emits (p + 8) eu (length eu, x) (bc_test_emit fuel (n + 4) bc)"
    using test_emitsD [OF bc_test_emits [OF t], of bc "n + 4" "p + 8" fuel] seg(5) *(3) x31 size
    by (auto simp: eu_def u_def x_def enc split: if_splits)
  moreover have "n + 1 + 3 = n + 4" "p + 4 + 4 = p + 8" by simp_all
  ultimately have test: "emits (p + 4 + 4) eu (length eu, x) (bc_test_emit fuel (n + 1 + 3) bc)"
    by (simp only:)
  have branch: "emits q (enc_block q cs) (length (enc_block q cs)) (?ae m (m + length (block_units m cs)) q)"
    if "list_all (\<lambda>c. cmd_emits bc c \<and> wf_cmd c) cs" "seg bc m (block_units m cs)"
      "m + length (block_units m cs) < 2 ^ 31" "length (enc_block q cs) < 2 ^ 31"
      "cmds_size cs + 1 < fuel" for q cs m
    by (rule emits_bind_ret [OF block_emits]) (use that in \<open>auto simp: list_all_iff\<close>)
  have thn: "emits (ea + 8) ev (length ev) (?ae x y (ea + 8))"
    using branch [OF a, of x "ea + 8"] seg(6) x31 *(3) size
    by (auto simp: ev_def v_def y_def enc split: if_splits)
  have ne: "ev \<noteq> []"
    using a unfolding ev_def by (intro enc_block_not_Nil) (auto simp: list_all_iff)
  show "emits p (enc_cmd p ?c) (p + length (enc_cmd p ?c), n + length (cmd_units n ?c))
      (cmd_step fuel bc n p)"
  proof (rule emitsI)
    fix f c assume f: "at_end f c" "length c = p" "p + length (enc_cmd p ?c) \<le> f_limit f"
    obtain f1 where 1: "write_int B_IF f = Ret () f1" and a1: "appended c (htonl B_IF) f f1"
      by (rule emitsE [OF write_int_emits f(1,2)]) (use f(3) in \<open>auto simp: enc\<close>)
    let ?c1 = "c @ htonl B_IF"
    have f1: "f_bytes f1 = ?c1" "f_pos f1 = p + 4" "length ?c1 = p + 4" "f_limit f1 = f_limit f"
      using a1 f(2) by (auto simp: appended_def at_end_def)
    have step: "cmd_step fuel bc n p f =
        if_emit (\<lambda>c f. bc_test_emit fuel c bc f) ?ae (n + 1) bc (p + 4) f1"
      by (simp add: cmd_step_def seg(1) 1 [simplified])
    have "\<exists>f'. cmd_step fuel bc n p f = Ret (p + length (enc_cmd p ?c), z) f' \<and>
        f_bytes f' = c @ enc_cmd p ?c \<and> f_pos f' = p + length (enc_cmd p ?c) \<and> f_limit f' = f_limit f"
    proof (cases "do_else = []")
      case True
      then have "z = y" by (simp add: z_def w_def)
      have e: "p + length (enc_cmd p ?c) = eb" unfolding enc using True by (simp add: ea_def eb_def)
      have "\<exists>f'. if_emit (\<lambda>c f. bc_test_emit fuel c bc f) ?ae (n + 1) bc (p + 4) f1 = Ret (eb, y) f' \<and>
          f_bytes f' = ?c1 @ htonl (of_nat (ea div 4)) @ eu @ htonl B_JUMP @
            htonl (of_nat (eb div 4)) @ ev \<and> f_pos f' = eb \<and> f_limit f' = f_limit f1"
        by (rule if_emits_then [where te = "\<lambda>c f. bc_test_emit fuel c bc f" and ae = ?ae,
            OF f1(1-3) test _ seg(2) cells(1) _ x31(1,2) thn eb_def])
          (use True cells(2) e f(3) f1(4) in \<open>simp_all add: ea_def\<close>)
      with True \<open>z = y\<close> f1(4) show ?thesis unfolding step e unfolding enc by auto
    next
      case False
      have els: "emits (eb + 8) ew (length ew) (?ae y z (eb + 8))"
        using branch [OF b, of y "eb + 8"] seg(7) x31 *(3) size False
        by (auto simp: ew_def w_def z_def enc)
      have e: "p + length (enc_cmd p ?c) = ee" unfolding enc using False by (simp add: ea_def eb_def ee_def)
      have "\<exists>f'. if_emit (\<lambda>c f. bc_test_emit fuel c bc f) ?ae (n + 1) bc (p + 4) f1 = Ret (ee, z) f' \<and>
          f_bytes f' = ?c1 @ htonl (of_nat (ea div 4)) @ eu @ htonl B_JUMP @
            htonl (of_nat ((eb + 8) div 4)) @ ev @ htonl B_JUMP @ htonl (of_nat (ee div 4)) @ ew \<and>
          f_pos f' = ee \<and> f_limit f' = f_limit f1"
        by (rule if_emits_else [where te = "\<lambda>c f. bc_test_emit fuel c bc f" and ae = ?ae,
            OF f1(1-3) test _ seg(2) cells(1) _ x31 thn eb_def els ee_def ne])
          (use False cells(2) e f(3) f1(4) in \<open>simp_all add: ea_def\<close>)
      with False f1(4) show ?thesis unfolding step e unfolding enc by auto
    qed
    then show "\<exists>f'. cmd_step fuel bc n p f =
        Ret (p + length (enc_cmd p ?c), n + length (cmd_units n ?c)) f' \<and>
        appended c (enc_cmd p ?c) f f'"
      using f(2) len by (auto simp: appended_def at_end_def)
  qed
qed

lemma simple_cmd_emits:
  assumes "wf_cmd c" and "\<nexists>t a b. c = C_IF t a b"
  shows "cmd_emits bc c"
  unfolding cmd_emits_def
proof (intro allI impI)
  fix n p fuel
  have units: "cmd_units n c = W (opcode_of c) # args_units c"
    using assms simple_units_split [OF assms] by (cases c) (simp_all add: cmd_units.simps)
  have enc: "enc_cmd p c = htonl (opcode_of c) @ enc_args (p + 4) c"
    using assms by (cases c) (simp_all add: enc_cmd.simps)
  have op: "opcode_of c \<noteq> B_IF" using assms by (cases c) simp_all
  assume "seg bc n (cmd_units n c)" and len: "length (enc_cmd p c) < 2 ^ 31"
  then have seg: "word_at bc n = Some (opcode_of c)" "seg bc (n + 1) (args_units c)"
    using seg_Cons [of bc n "W (opcode_of c)" "args_units c"] by (auto simp: units intro: seg_word)
  have "emits (p + 4) (enc_args (p + 4) c) (length (enc_args (p + 4) c), n + 1 + length (args_units c))
      (simple_emit (opcode_of c) (n + 1) bc)"
    using assms seg(2) len by (intro simple_emits) (auto simp: enc)
  then have "emits p (htonl (opcode_of c) @ enc_args (p + 4) c)
      (p + length (enc_cmd p c), n + length (cmd_units n c)) (\<lambda>f.
      ebind (write_int (opcode_of c) f) (\<lambda>_ f. ebind (simple_emit (opcode_of c) (n + 1) bc f)
        (\<lambda>(w, codep) f. Ret (p + 4 + w, codep) f)))"
    by (rule emits_int [OF emits_bind_ret]) (simp add: enc units add.assoc)
  then show "emits p (enc_cmd p c) (p + length (enc_cmd p c), n + length (cmd_units n c))
      (cmd_step fuel bc n p)"
    using op unfolding emits_def by (simp add: cmd_step_def seg(1) enc)
qed

lemma command_emits: "wf_cmd c \<Longrightarrow> cmd_emits bc c"
proof (induction c)
  case (C_IF t a b)
  then show ?case by (intro if_cmd_emits) (auto simp: list_all_iff)
qed (rule simple_cmd_emits; simp)+

text \<open>The cells of a layout are no more than the bytes of the encoding.\<close>

lemma string_units_bytes: "length (string_units s) \<le> length (enc_string s)"
  using enc_string_length_pos [of s] by simp

lemma strings_units_bytes: "2 * length sl \<le> length (enc_strings sl)"
proof (induction sl)
  case (Cons s sl)
  then show ?case using enc_string_length_pos [of "Some s"] by simp
qed simp

lemma match_units_bytes:
  "length ws + 2 + 2 * length sl + 2 * length pl \<le> length (enc_match p ws sl pl)"
  using strings_units_bytes [of sl] strings_units_bytes [of pl] by (simp add: enc_match_def Let_def)

lemma test_units_bytes: "wf_test t \<Longrightarrow> length (test_units n t) < length (enc_test p t)"
proof (induction t arbitrary: n p)
  case (T_ANYOF ts)
  have "length (tests_units n ts) \<le> length (enc_tests p ts)" for n p
    using T_ANYOF by (induction ts arbitrary: n p) (auto simp: Let_def Suc_le_eq intro!: add_less_le_mono)
  from this [of "n + 2" "p + 12"] show ?case by (simp add: enc_list_def)
next
  case (T_ALLOF ts)
  have "length (tests_units n ts) \<le> length (enc_tests p ts)" for n p
    using T_ALLOF by (induction ts arbitrary: n p) (auto simp: Let_def Suc_le_eq intro!: add_less_le_mono)
  from this [of "n + 2" "p + 12"] show ?case by (simp add: enc_list_def)
next
  case (T_EXISTS sl)
  then show ?case using strings_units_bytes [of sl] by simp
next
  case (T_HEADER m sl pl)
  then show ?case using match_units_bytes [of "match_words m" sl pl "p + 4"] by simp
next
  case (T_ADDRESS m part sl pl)
  then show ?case
    using match_units_bytes [of "match_words m @ [the (addrpart_value part)]" sl pl "p + 4"] by simp
next
  case (T_ENVELOPE m part sl pl)
  then show ?case
    using match_units_bytes [of "match_words m @ [the (addrpart_value part)]" sl pl "p + 4"] by simp
next
  case (T_BODY m tr off sl pl)
  then show ?case
    using match_units_bytes [of "match_words m @ [the (transform_value tr), off]" sl pl "p + 4"]
    by simp
next
  case (T_NOT t)
  then have "length (test_units (n + 1) t) < length (enc_test (p + 4) t)" by simp
  then show ?case by simp
qed auto

lemma simple_units_bytes:
  assumes "wf_cmd c" and "\<nexists>t a b. c = C_IF t a b"
  shows "length (simple_units c) \<le> 4 + length (enc_args p c)"
proof (cases c)
  case (C_ADDFLAG sl)
  then show ?thesis using strings_units_bytes [of sl] by simp
next
  case (C_SETFLAG sl)
  then show ?thesis using strings_units_bytes [of sl] by simp
next
  case (C_REMOVEFLAG sl)
  then show ?thesis using strings_units_bytes [of sl] by simp
next
  case (C_NOTIFY n)
  then show ?thesis
    using strings_units_bytes [of "n_options n"] string_units_bytes [of "Some (n_method n)"]
      string_units_bytes [of "n_id n"] string_units_bytes [of "Some (n_message n)"]
    by (simp add: Let_def)
next
  case (C_VACATION v)
  then show ?thesis
    using strings_units_bytes [of "v_addresses v"] string_units_bytes [of "v_subject v"]
      string_units_bytes [of "v_message v"] string_units_bytes [of "v_from v"]
      string_units_bytes [of "v_handle v"]
    by simp
qed (use assms in simp_all)

lemma cmds_units_bytes:
  assumes "\<And>c n p. c \<in> set cs \<Longrightarrow> length (cmd_units n c) \<le> length (enc_cmd p c)"
  shows "length (block_units n cs) \<le> length (enc_block p cs)"
proof -
  have "length (cmds_units n cs) \<le> length (enc_cmds p cs)" for n p
    using assms by (induction cs arbitrary: n p) (auto simp: Let_def intro!: add_mono)
  then show ?thesis by (simp add: block_units.simps enc_block.simps)
qed

lemma cmd_units_bytes: "wf_cmd c \<Longrightarrow> length (cmd_units n c) \<le> length (enc_cmd p c)"
proof (induction c arbitrary: n p)
  case (C_IF t a b)
  have t: "length (test_units n t) \<le> length (enc_test p t)" for n p
    using test_units_bytes [of t n p] C_IF.prems by simp
  have a: "length (block_units n a) \<le> length (enc_block p a)" for n p
    using C_IF by (intro cmds_units_bytes) (auto simp: list_all_iff)
  have b: "length (block_units n b) \<le> length (enc_block p b)" for n p
    using C_IF by (intro cmds_units_bytes) (auto simp: list_all_iff)
  define x where "x = n + 4 + length (test_units (n + 4) t)"
  define q where "q = p + 8 + length (enc_test (p + 8) t)"
  show ?case
    using t [of "n + 4" "p + 8"] a [of x "q + 8"]
      b [of "x + length (block_units x a)" "q + 8 + length (enc_block (q + 8) a) + 8"]
    unfolding cmd_units.simps enc_cmd.simps command.case Let_def x_def [symmetric] q_def [symmetric]
    by auto
qed (auto simp: cmd_units.simps enc_cmd.simps simp del: simple_units.simps enc_args.simps wf_cmd.simps
      intro!: simple_units_bytes)

section \<open>Scripts\<close>

lemma sieve_emit_ok:
  assumes wf: "list_all wf_cmd cmds" and len: "length (enc_script cmds) < 2 ^ 31"
    and gen: "sieve_generate_bytecode cmds = Next n bc"
    and fuel: "cmds_size cmds + 1 < fuel" and lim: "length (enc_script cmds) \<le> limit"
  shows "sieve_emit_bytecode fuel bc \<lparr>f_bytes = [], f_pos = 0, f_limit = limit\<rparr> =
    Ret (length (enc_block 16 cmds))
      \<lparr>f_bytes = enc_script cmds, f_pos = length (enc_script cmds), f_limit = limit\<rparr>"
proof -
  let ?u = "block_units 0 cmds" and ?d = "enc_block 16 cmds"
  have bc: "\<exists>r. bi_data bc = ?u @ r" "bi_scriptend bc = length ?u"
    using script_ok [OF wf] gen by auto
  have seg: "seg bc 0 ?u" using bc(1) by (auto simp: seg_def)
  have el: "length (enc_script cmds) = 16 + length ?d"
    by (simp add: enc_script_def BYTECODE_MAGIC_def)
  have ul: "length ?u \<le> length ?d"
    using wf by (intro cmds_units_bytes cmd_units_bytes) (auto simp: list_all_iff)
  have "emits 16 ?d (16 + length ?d) (action_emit_loop fuel 0 (0 + length ?u) bc 16)"
    by (rule block_emits) (use wf seg len el ul fuel in \<open>auto simp: list_all_iff command_emits\<close>)
  then have 1: "emits (0 + length BYTECODE_MAGIC + 4) ?d (length ?d)
      (\<lambda>f. bc_action_emit fuel 0 (bi_scriptend bc) bc (4 + length BYTECODE_MAGIC) f)"
    unfolding bc_action_emit_def
    by (intro emits_bind_ret [where r = "16 + length ?d"]) (auto simp: bc BYTECODE_MAGIC_def)
  have e: "emits 0 (BYTECODE_MAGIC @ htonl BYTECODE_VERSION @ ?d) (length ?d)
      (sieve_emit_bytecode fuel bc)"
    unfolding sieve_emit_bytecode_def [abs_def]
    by (rule emits_write, rule emits_int, rule 1)
  let ?f = "\<lparr>f_bytes = [], f_pos = 0, f_limit = limit\<rparr>"
  obtain f' where "sieve_emit_bytecode fuel bc ?f = Ret (length ?d) f'"
    "f_bytes f' = [] @ BYTECODE_MAGIC @ htonl BYTECODE_VERSION @ ?d"
    "f_pos f' = 0 + length (BYTECODE_MAGIC @ htonl BYTECODE_VERSION @ ?d)" "f_limit f' = f_limit ?f"
    by (rule emits_dense [OF e, of ?f "[]"]) (use lim el in \<open>auto simp: BYTECODE_MAGIC_def\<close>)
  then show ?thesis by (cases f') (simp add: enc_script_def)
qed

text \<open>
  C5: the compiler. Both passes together turn every tree whose tags have a number into the
  bytes of its encoding: the header, the instructions, every string padded to words, every
  list with the position of its end and every jump with its target. The bytes end below
  \<^verbatim>\<open>2^31\<close> and fit the size the file may have; fuel above the size of the tree is enough.
\<close>

theorem sieve_compile_writes_encoding:
  assumes "list_all wf_cmd cmds" and "length (enc_script cmds) < 2 ^ 31"
    and "length (enc_script cmds) \<le> limit" and "cmds_size cmds + 1 < fuel"
  shows "\<exists>n bc. sieve_generate_bytecode cmds = Next n bc \<and>
    sieve_emit_bytecode fuel bc \<lparr>f_bytes = [], f_pos = 0, f_limit = limit\<rparr> =
      Ret (length (enc_block 16 cmds))
        \<lparr>f_bytes = enc_script cmds, f_pos = length (enc_script cmds), f_limit = limit\<rparr>"
  using script_ok [OF assms(1)] sieve_emit_ok [OF assms(1,2) _ assms(4,3)] by blast

theorem sieve_compile_writes_encoding_witness:
  "\<exists>n bc. sieve_generate_bytecode [C_REJCT ''no''] = Next n bc \<and>
    sieve_emit_bytecode 3 bc \<lparr>f_bytes = [], f_pos = 0, f_limit = 28\<rparr> =
      Ret 12 \<lparr>f_bytes = BYTECODE_MAGIC @ htonl 5 @ htonl 3 @ htonl 2 @ ''no'' @ [NUL, NUL],
              f_pos = 28, f_limit = 28\<rparr>"
proof -
  let ?cs = "[C_REJCT ''no'']"
  have e: "enc_block 16 ?cs = htonl 3 @ htonl 2 @ ''no'' @ [NUL, NUL]"
    by (simp add: enc_block.simps enc_cmd.simps enc_string_def pad_string_align align_needed_def)
      (simp add: numeral_2_eq_2)
  then have s: "enc_script ?cs = BYTECODE_MAGIC @ htonl 5 @ htonl 3 @ htonl 2 @ ''no'' @ [NUL, NUL]"
    by (simp add: enc_script_def)
  have "length (enc_script ?cs) = 28" unfolding s by (simp add: BYTECODE_MAGIC_def)
  with sieve_compile_writes_encoding [of ?cs 28 3] show ?thesis
    unfolding s e by simp
qed

end
