(* ===== verification/Sieve_Eval.thy ===== *)
theory Sieve_Eval
  imports Sieve_Message Sieve_Encoding Hash "HOL-Library.Monad_Syntax"
begin

text \<open>
  The interpreter of compiled Sieve scripts, \<^verbatim>\<open>sieve/bc_eval.c\<close>, with the loading of included
  scripts from \<^verbatim>\<open>sieve/script.c\<close>.

  The script is the string of the bytes of its file; the interpreter reads words and
  strings at word positions. \<^verbatim>\<open>None\<close> is a result the code does not define: it read behind
  the end of the file, followed a \<^verbatim>\<open>NULL\<close> pointer, overran a buffer, or did not stop
  within the fuel. Results are the \<^verbatim>\<open>int\<close> values of the code.

  The callbacks of \<^verbatim>\<open>sieve_interp_t\<close>, the regular expressions of the C library, the parser of
  address lists, the decoder of MIME bodies and MD5 are the fields of \<^verbatim>\<open>sieve_env\<close>. A callback
  that hands out a \<^verbatim>\<open>NULL\<close>-terminated array returns its code and the list of its strings,
  \<^verbatim>\<open>None\<close> for a \<^verbatim>\<open>NULL\<close> array.
\<close>

section \<open>Reading words and strings\<close>

definition bc_word :: "string \<Rightarrow> nat \<Rightarrow> cint option" where
  "bc_word bc i = (if 4 * i + 4 \<le> length bc then Some (ntohl (take 4 (drop (4 * i) bc))) else None)"

definition cstring_at :: "string \<Rightarrow> nat \<Rightarrow> string option" where
  "cstring_at bc i = (let s = drop (4 * i) bc in
     if NUL \<in> set s then Some (takeWhile (\<lambda>c. c \<noteq> NUL) s) else None)"

definition ROUNDUP :: "cint \<Rightarrow> cint" where
  "ROUNDUP num = (num + 3) AND 0xFFFFFFFC"

definition unwrap_string :: "string \<Rightarrow> nat \<Rightarrow> (string option \<times> nat) option" where
  "unwrap_string bc pos = do {
     local_len \<leftarrow> bc_word bc pos;
     if local_len = - 1 then Some (None, pos + 1)
     else do {
       str \<leftarrow> cstring_at bc (pos + 1);
       Some (Some str, pos + 1 + unat (ROUNDUP (local_len + 1)) div 4)
     }
   }"

text \<open>
  A loop over \<^verbatim>\<open>n\<close> strings from \<^verbatim>\<open>pos\<close> that goes on while \<^verbatim>\<open>go\<close> holds: the final state and
  position.
\<close>

fun for_strings ::
  "string \<Rightarrow> nat \<Rightarrow> nat \<Rightarrow> ('s \<Rightarrow> bool) \<Rightarrow> (string option \<Rightarrow> 's \<Rightarrow> 's option) \<Rightarrow> 's \<Rightarrow> ('s \<times> nat) option"
where
  "for_strings bc 0 pos go body s = Some (s, pos)"
| "for_strings bc (Suc n) pos go body s =
     (if \<not> go s then Some (s, pos)
      else do {
        (str, pos) \<leftarrow> unwrap_string bc pos;
        s \<leftarrow> body str s;
        for_strings bc n pos go body s
      })"

text \<open>The number of rounds of a loop \<^verbatim>\<open>for (x = 0; x < len; x++)\<close>.\<close>

definition rounds :: "cint \<Rightarrow> nat" where
  "rounds len = nat (sint len)"

definition bc_makeArray :: "string \<Rightarrow> nat \<Rightarrow> (string option list \<times> nat) option" where
  "bc_makeArray bc pos = do {
     len \<leftarrow> bc_word bc pos;
     for_strings bc (rounds len) (pos + 2) (\<lambda>_. True) (\<lambda>str array. Some (array @ [str])) []
   }"

section \<open>The environment\<close>

datatype encoding_t = ENCODING_NONE | ENCODING_QP | ENCODING_BASE64

text \<open>
  \<^verbatim>\<open>bp_content\<close> is the text that starts at the part and may go on behind its end, \<^verbatim>\<open>bp_size\<close>
  the size of the part.
\<close>

record bodypart =
  bp_section :: string
  bp_content :: string
  bp_encoding :: "string option"
  bp_size :: nat

type_synonym body_cache = "string hash_table"

record 'r sieve_env =
  getheader :: "string \<Rightarrow> int \<times> string list option"
  getenvelope :: "string \<Rightarrow> int \<times> string list option"
  getsize :: "int \<times> cint"
  getbody :: "string option list \<Rightarrow> int \<times> bodypart list option"
  getinclude :: "string \<Rightarrow> bool \<Rightarrow> int \<times> string"
  regcomp :: "string \<Rightarrow> bool \<Rightarrow> 'r option"
  regexec :: "'r \<Rightarrow> string \<Rightarrow> bool"
  parseaddr_list :: "string \<Rightarrow> address list"
  decode_mimebody :: "string \<Rightarrow> nat \<Rightarrow> encoding_t \<Rightarrow> string"
  md5 :: "string \<Rightarrow> string"

section \<open>Vacation\<close>

definition sysaddr :: "string \<Rightarrow> bool" where
  "sysaddr addr \<longleftrightarrow>
     strncase_eq addr ''MAILER-DAEMON'' 13 \<or> strncase_eq addr ''LISTSERV'' 8 \<or>
     strncase_eq addr ''majordomo'' 9 \<or>
     (\<exists>k \<in> {0..length addr}. strn_eq (drop k addr) ''-request@'' 9) \<or>
     strn_eq addr ''owner-'' 6"

text \<open>
  The two loops over the \<^verbatim>\<open>:addresses\<close> of the script read them from the bytecode. The loop is
  a parameter here: it calls the body on one address after the other, while the state,
  the address found so far, allows it.
\<close>

type_synonym address_loop =
  "(string option \<Rightarrow> bool) \<Rightarrow> (string option \<Rightarrow> string option \<Rightarrow> string option option) \<Rightarrow>
   string option \<Rightarrow> string option option"

definition first_address :: "'r sieve_env \<Rightarrow> string \<Rightarrow> string option" where
  "first_address env s = fst (get_address ADDRESS_ALL True (parseaddr_list env s))"

fun look_for_me_header ::
  "'r sieve_env \<Rightarrow> address_loop \<Rightarrow> string option \<Rightarrow> address list \<Rightarrow> string option option" where
  "look_for_me_header env addresses myaddr [] = Some None"
| "look_for_me_header env addresses myaddr (a # am) =
     (case fst (get_address ADDRESS_ALL True (a # am)) of
        None \<Rightarrow> Some None
      | Some addr \<Rightarrow> do {
          my \<leftarrow> myaddr;
          if strcase_eq addr my then Some (Some my)
          else do {
            found \<leftarrow> addresses (\<lambda>found. found = None) (\<lambda>str _. do {
              s \<leftarrow> str;
              altaddr \<leftarrow> first_address env s;
              Some (if strcase_eq addr altaddr then Some s else None)
            }) None;
            if found \<noteq> None then Some found else look_for_me_header env addresses myaddr am
          }
        })"

fun look_for_me ::
  "'r sieve_env \<Rightarrow> address_loop \<Rightarrow> string option \<Rightarrow> string list \<Rightarrow> string option option" where
  "look_for_me env addresses myaddr [] = Some None"
| "look_for_me env addresses myaddr (h # body) = do {
     found \<leftarrow> look_for_me_header env addresses myaddr (parseaddr_list env h);
     if found \<noteq> None then Some found else look_for_me env addresses myaddr body
   }"

definition list_fields :: "string list" where
  "list_fields = [''list-id'', ''list-help'', ''list-subscribe'', ''list-unsubscribe'',
     ''list-post'', ''list-owner'', ''list-archive'']"

text \<open>The value of a header that must be there, without leading white space.\<close>

definition stripped_head :: "string list option \<Rightarrow> string option" where
  "stripped_head body = (case body of
     Some (h # _) \<Rightarrow> Some (dropWhile isspace h) | _ \<Rightarrow> None)"

text \<open>The checks on the header fields, in the order of the code: the value of \<^verbatim>\<open>l\<close>.\<close>

definition respond_headers :: "'r sieve_env \<Rightarrow> int option" where
  "respond_headers env = do {
     let l = (if \<exists>f \<in> set list_fields. fst (getheader env f) = SIEVE_OK then SIEVE_DONE else SIEVE_OK);
     l \<leftarrow> (case getheader env ''auto-submitted'' of (r, body) \<Rightarrow>
       if r = SIEVE_OK then do {
         h \<leftarrow> stripped_head body;
         Some (if strcase_eq h ''no'' then l else SIEVE_DONE)
       } else Some l);
     (case getheader env ''precedence'' of (r, body) \<Rightarrow>
       if r = SIEVE_OK then do {
         h \<leftarrow> stripped_head body;
         Some (if strcase_eq h ''junk'' \<or> strcase_eq h ''bulk'' \<or> strcase_eq h ''list''
               then SIEVE_DONE else l)
       } else Some l)
   }"

text \<open>The checks on the sender: \<^verbatim>\<open>l\<close> and the address to reply to.\<close>

definition respond_sender ::
  "'r sieve_env \<Rightarrow> address_loop \<Rightarrow> string option \<Rightarrow> string \<Rightarrow> (int \<times> string option) option" where
  "respond_sender env addresses myaddr sender =
     (case first_address env sender of
        None \<Rightarrow> Some (SIEVE_DONE, None)
      | Some reply_to \<Rightarrow> do {
          my \<leftarrow> myaddr;
          if my = reply_to then Some (SIEVE_DONE, Some reply_to)
          else do {
            mine \<leftarrow> addresses (\<lambda>_. True) (\<lambda>str mine. do {
              s \<leftarrow> str;
              Some (if s = reply_to then Some s else mine)
            }) None;
            Some (if mine \<noteq> None \<or> sysaddr reply_to then SIEVE_DONE else SIEVE_OK, Some reply_to)
          }
        })"

text \<open>
  One of the searches for my address: the name last copied to \<^verbatim>\<open>buf\<close> and the address
  found. The condition of the fourth search, for \<^verbatim>\<open>resent-to\<close>, does not depend on \<^verbatim>\<open>found\<close>:
  when an address was found, the header in \<^verbatim>\<open>buf\<close> is searched again.
\<close>

definition search_header ::
  "'r sieve_env \<Rightarrow> address_loop \<Rightarrow> string option \<Rightarrow> bool \<Rightarrow> string \<Rightarrow> string \<times> string option \<Rightarrow>
   (string \<times> string option) option" where
  "search_header env addresses myaddr again name st =
     (case st of (buf, found) \<Rightarrow>
        let buf = (if found = None then name else buf) in
        if found = None \<or> again then
          (case getheader env buf of (r, body) \<Rightarrow>
             if r = SIEVE_OK then do {
               vs \<leftarrow> body;
               found \<leftarrow> look_for_me env addresses myaddr vs;
               Some (buf, found)
             } else Some (buf, found))
        else Some (buf, found))"

definition respond_recipient ::
  "'r sieve_env \<Rightarrow> address_loop \<Rightarrow> string option \<Rightarrow> string option option" where
  "respond_recipient env addresses myaddr = do {
     st \<leftarrow> search_header env addresses myaddr False ''to'' ('''', None);
     st \<leftarrow> search_header env addresses myaddr False ''cc'' st;
     st \<leftarrow> search_header env addresses myaddr False ''bcc'' st;
     st \<leftarrow> search_header env addresses myaddr True ''resent-to'' st;
     st \<leftarrow> search_header env addresses myaddr False ''resent-cc'' st;
     st \<leftarrow> search_header env addresses myaddr False ''resent-bcc'' st;
     Some (snd st)
   }"

text \<open>The result \<^verbatim>\<open>l\<close>, and the addresses stored through \<^verbatim>\<open>from\<close> and \<^verbatim>\<open>to\<close>.\<close>

definition respond_to ::
  "'r sieve_env \<Rightarrow> address_loop \<Rightarrow> (int \<times> string option \<times> string option) option" where
  "respond_to env addresses = do {
     l \<leftarrow> respond_headers env;
     if l \<noteq> SIEVE_OK then Some (l, None, None)
     else (case getenvelope env ''to'' of (l, body) \<Rightarrow> do {
       vs \<leftarrow> body;
       let myaddr = (case vs of [] \<Rightarrow> None | v # _ \<Rightarrow> first_address env v);
       if l \<noteq> SIEVE_OK then Some (l, None, None)
       else (case getenvelope env ''from'' of (l, body) \<Rightarrow>
         if l \<noteq> SIEVE_OK then Some (l, None, None)
         else do {
           vs \<leftarrow> body;
           (l, reply_to) \<leftarrow> (case vs of
               [] \<Rightarrow> Some (SIEVE_OK, None)
             | v # _ \<Rightarrow> respond_sender env addresses myaddr v);
           if l \<noteq> SIEVE_OK then Some (l, None, reply_to)
           else do {
             found \<leftarrow> respond_recipient env addresses myaddr;
             Some (if found = None then SIEVE_DONE else SIEVE_OK, found, reply_to)
           }
         })
     })
   }"

definition shouldRespond ::
  "'r sieve_env \<Rightarrow> cint \<Rightarrow> string \<Rightarrow> nat \<Rightarrow> (int \<times> string option \<times> string option) option" where
  "shouldRespond env numaddresses bc i =
     respond_to env (\<lambda>go body s.
       map_option fst (for_strings bc (rounds numaddresses) i go body s))"

section \<open>Tests\<close>

text \<open>
  The comparison with one string of the script. A regular expression that does not compile
  gives \<^verbatim>\<open>-1\<close> and leaves the test by \<^verbatim>\<open>goto alldone\<close>.
\<close>

definition data_step ::
  "'r sieve_env \<Rightarrow> comparator_t \<Rightarrow> bool \<Rightarrow> bool \<Rightarrow> string \<Rightarrow> nat \<Rightarrow> string option \<Rightarrow> int option" where
  "data_step env cmp isReg icase text tlen data_val = do {
     pat \<leftarrow> data_val;
     if isReg then
       (case regcomp env pat icase of
          None \<Rightarrow> Some (- 1)
        | Some reg \<Rightarrow> map_option of_bool (run_comp (regexec env) cmp text tlen (PReg reg)))
     else map_option of_bool (run_comp (regexec env) cmp text tlen (PStr pat))
   }"

text \<open>The words a matching test starts with, and where its strings to compare with are.\<close>

record match_args =
  ma_match :: cint
  ma_comparator :: cint
  ma_comp :: comparator_t
  ma_datai :: nat
  ma_numdata :: cint

definition isReg :: "match_args \<Rightarrow> bool" where
  "isReg ma \<longleftrightarrow> ma_match ma = B_REGEX"

definition data_loop ::
  "'r sieve_env \<Rightarrow> string \<Rightarrow> match_args \<Rightarrow> string \<Rightarrow> nat \<Rightarrow> int \<Rightarrow> int option" where
  "data_loop env bc ma text tlen res =
     map_option fst (for_strings bc (rounds (ma_numdata ma)) (ma_datai ma + 2) (\<lambda>res. res = 0)
       (\<lambda>data_val _. data_step env (ma_comp ma) (isReg ma) (ma_comparator ma = B_ASCIICASEMAP)
          text tlen data_val) res)"

text \<open>
  The end of a matching test: with \<^verbatim>\<open>:count\<close> the number of items is printed, into a buffer of
  three bytes, and compared; then the position behind the test is read.
\<close>

definition scount :: "nat \<Rightarrow> string option" where
  "scount count = (if length (decimal count) < 3 then Some (decimal count) else None)"

definition finish_match ::
  "'r sieve_env \<Rightarrow> string \<Rightarrow> match_args \<Rightarrow> nat \<Rightarrow> int \<Rightarrow> nat \<Rightarrow> (int \<times> nat) option" where
  "finish_match env bc ma i res count = do {
     res \<leftarrow> (if ma_match ma = B_COUNT then do {
         str \<leftarrow> scount count;
         data_loop env bc ma str (length str) res
       } else Some res);
     if res = - 1 then Some (res, i)
     else do {
       listend \<leftarrow> bc_word bc (ma_datai ma + 1);
       Some (res, unat listend div 4)
     }
   }"

text \<open>
  The words of a matching test at \<^verbatim>\<open>i\<close> whose first list is at \<^verbatim>\<open>listi\<close>; \<^verbatim>\<open>Inl\<close> when the
  comparator does not exist.
\<close>

definition match_header :: "string \<Rightarrow> nat \<Rightarrow> nat \<Rightarrow> (int + match_args) option" where
  "match_header bc i listi = do {
     datai \<leftarrow> map_option (\<lambda>w. unat w div 4) (bc_word bc (listi + 1));
     numdata \<leftarrow> bc_word bc datai;
     match \<leftarrow> bc_word bc (i + 1);
     rel \<leftarrow> bc_word bc (i + 2);
     cmp \<leftarrow> bc_word bc (i + 3);
     Some (case lookup_comp cmp match rel of
        None \<Rightarrow> Inl SIEVE_RUN_ERROR
      | Some c \<Rightarrow> Inr \<lparr>ma_match = match, ma_comparator = cmp, ma_comp = c, ma_datai = datai,
          ma_numdata = numdata\<rparr>)
   }"

subsection \<open>The header test\<close>

fun header_values ::
  "'r sieve_env \<Rightarrow> string \<Rightarrow> match_args \<Rightarrow> string list \<Rightarrow> int \<times> nat \<Rightarrow> (int \<times> nat) option" where
  "header_values env bc ma [] (res, count) = Some (res, count)"
| "header_values env bc ma (v # val) (res, count) =
     (if res \<noteq> 0 then Some (res, count)
      else if ma_match ma = B_COUNT then header_values env bc ma val (res, count + 1)
      else do {
        res \<leftarrow> data_loop env bc ma v (length v) res;
        header_values env bc ma val (res, count)
      })"

definition eval_header :: "'r sieve_env \<Rightarrow> string \<Rightarrow> nat \<Rightarrow> (int \<times> nat) option" where
  "eval_header env bc i = do {
     let headersi = i + 4;
     m \<leftarrow> match_header bc i headersi;
     numheaders \<leftarrow> bc_word bc headersi;
     (case m of
        Inl err \<Rightarrow> Some (err, i)
      | Inr ma \<Rightarrow> do {
          ((res, count), _) \<leftarrow> for_strings bc (rounds numheaders) (headersi + 2)
            (\<lambda>(res, count). res = 0)
            (\<lambda>this_header s. do {
               h \<leftarrow> this_header;
               (case getheader env h of (r, val) \<Rightarrow>
                  if r \<noteq> SIEVE_OK then Some s
                  else do {
                    vs \<leftarrow> val;
                    header_values env bc ma vs s
                  })
             }) (0, 0);
          finish_match env bc ma i res count
        })
   }"

subsection \<open>The address and envelope tests\<close>

definition addrpart_of :: "cint \<Rightarrow> address_part_t option" where
  "addrpart_of apart =
     (if apart = B_ALL then Some ADDRESS_ALL
      else if apart = B_LOCALPART then Some ADDRESS_LOCALPART
      else if apart = B_DOMAIN then Some ADDRESS_DOMAIN
      else if apart = B_USER then Some ADDRESS_USER
      else if apart = B_DETAIL then Some ADDRESS_DETAIL
      else None)"

text \<open>
  The loop over the addresses of one header ends at the first address without the part. A
  regular expression is matched with the whole header \<^verbatim>\<open>v\<close>, not with the address.
\<close>

fun address_values ::
  "'r sieve_env \<Rightarrow> string \<Rightarrow> match_args \<Rightarrow> address_part_t \<Rightarrow> string \<Rightarrow> address list \<Rightarrow> int \<times> nat \<Rightarrow>
   (int \<times> nat) option" where
  "address_values env bc ma part v [] (res, count) = Some (res, count)"
| "address_values env bc ma part v (a # am) (res, count) =
     (if res \<noteq> 0 then Some (res, count)
      else case fst (get_address part False (a # am)) of
        None \<Rightarrow> Some (res, count)
      | Some addr \<Rightarrow>
          if ma_match ma = B_COUNT then address_values env bc ma part v am (res, count + 1)
          else do {
            res \<leftarrow> (if isReg ma then data_loop env bc ma v (length v) res
                   else data_loop env bc ma addr (length addr) res);
            address_values env bc ma part v am (res, count)
          })"

fun address_headers ::
  "'r sieve_env \<Rightarrow> string \<Rightarrow> match_args \<Rightarrow> address_part_t \<Rightarrow> string list \<Rightarrow> int \<times> nat \<Rightarrow>
   (int \<times> nat) option" where
  "address_headers env bc ma part [] s = Some s"
| "address_headers env bc ma part (v # val) s =
     (if fst s \<noteq> 0 then Some s
      else do {
        s \<leftarrow> address_values env bc ma part v (parseaddr_list env v) s;
        address_headers env bc ma part val s
      })"

definition eval_address :: "'r sieve_env \<Rightarrow> bool \<Rightarrow> string \<Rightarrow> nat \<Rightarrow> (int \<times> nat) option" where
  "eval_address env address bc i = do {
     let headersi = i + 5;
     m \<leftarrow> match_header bc i headersi;
     numheaders \<leftarrow> bc_word bc headersi;
     apart \<leftarrow> bc_word bc (i + 4);
     (case m of
        Inl err \<Rightarrow> Some (err, i)
      | Inr ma \<Rightarrow>
          (case addrpart_of apart of
             None \<Rightarrow> Some (SIEVE_RUN_ERROR, i)
           | Some part \<Rightarrow> do {
               ((res, count), _) \<leftarrow> for_strings bc (rounds numheaders) (headersi + 2)
                 (\<lambda>(res, count). res = 0)
                 (\<lambda>this_header s. do {
                    h \<leftarrow> this_header;
                    (case (if address then getheader env h else getenvelope env h) of (r, val) \<Rightarrow>
                       if r \<noteq> SIEVE_OK then Some s
                       else do {
                         vs \<leftarrow> val;
                         address_headers env bc ma part vs s
                       })
                  }) (0, 0);
               finish_match env bc ma i res count
             }))
   }"

subsection \<open>The body test\<close>

definition encoding_of :: "string option \<Rightarrow> encoding_t" where
  "encoding_of e = (case e of
     None \<Rightarrow> ENCODING_NONE
   | Some s \<Rightarrow> if s = ''BASE64'' then ENCODING_BASE64
               else if s = ''QUOTED-PRINTABLE'' then ENCODING_QP
               else ENCODING_NONE)"

text \<open>
  The text of a part, its size and the new cache. The size of a text from the cache is its
  \<^verbatim>\<open>strlen\<close>.
\<close>

definition part_content ::
  "'r sieve_env \<Rightarrow> cint \<Rightarrow> bodypart \<Rightarrow> body_cache \<Rightarrow> string \<times> nat \<times> body_cache" where
  "part_content env transform p cache =
     (let encoding = encoding_of (bp_encoding p) in
      if transform = B_RAW \<or> encoding = ENCODING_NONE then (bp_content p, bp_size p, cache)
      else case hash_lookup (bp_section p) cache of
        Some content \<Rightarrow> (content, length (takeWhile (\<lambda>c. c \<noteq> NUL) content), cache)
      | None \<Rightarrow>
          (let content = decode_mimebody env (bp_content p) (bp_size p) encoding
           in (content, length content, snd (hash_insert (bp_section p) (Some content) cache))))"

fun body_values ::
  "'r sieve_env \<Rightarrow> string \<Rightarrow> match_args \<Rightarrow> cint \<Rightarrow> bodypart list \<Rightarrow> int \<times> nat \<times> body_cache \<Rightarrow>
   (int \<times> nat \<times> body_cache) option" where
  "body_values env bc ma transform [] (res, count, cache) = Some (res, count, cache)"
| "body_values env bc ma transform (p # val) (res, count, cache) =
     (if res \<noteq> 0 then Some (res, count, cache)
      else if ma_match ma = B_COUNT then body_values env bc ma transform val (res, count + 1, cache)
      else (case part_content env transform p cache of (content, sz, cache) \<Rightarrow> do {
        res \<leftarrow> data_loop env bc ma content sz res;
        body_values env bc ma transform val (res, count, cache)
      }))"

definition eval_body ::
  "'r sieve_env \<Rightarrow> string \<Rightarrow> nat \<Rightarrow> body_cache \<Rightarrow> (int \<times> nat \<times> body_cache) option" where
  "eval_body env bc i cache = do {
     let typesi = i + 6;
     m \<leftarrow> match_header bc i typesi;
     transform \<leftarrow> bc_word bc (i + 4);
     _ \<leftarrow> bc_word bc (i + 5);
     (case m of
        Inl err \<Rightarrow> Some (err, i, cache)
      | Inr ma \<Rightarrow> do {
          (content_types, _) \<leftarrow> bc_makeArray bc typesi;
          (case getbody env content_types of (r, val) \<Rightarrow>
             if r \<noteq> SIEVE_OK then Some (SIEVE_RUN_ERROR, i, cache)
             else do {
               (res, count, cache) \<leftarrow>
                 body_values env bc ma transform (case val of None \<Rightarrow> [] | Some ps \<Rightarrow> ps) (0, 0, cache);
               (res, i) \<leftarrow> finish_match env bc ma i res count;
               Some (res, i, cache)
             })
        })
   }"

subsection \<open>Evaluating a test\<close>

definition eval_exists :: "'r sieve_env \<Rightarrow> string \<Rightarrow> nat \<Rightarrow> (int \<times> nat) option" where
  "eval_exists env bc i = do {
     let headersi = i + 1;
     list_len \<leftarrow> bc_word bc headersi;
     list_end \<leftarrow> bc_word bc (headersi + 1);
     (res, _) \<leftarrow> for_strings bc (rounds list_len) (headersi + 2) (\<lambda>res. res \<noteq> 0)
       (\<lambda>str res. do {
          h \<leftarrow> str;
          Some (if fst (getheader env h) \<noteq> SIEVE_OK then 0 else res)
        }) (1 :: int);
     Some (res, unat list_end div 4)
   }"

text \<open>When the size is not known the position is not moved.\<close>

definition eval_size :: "'r sieve_env \<Rightarrow> string \<Rightarrow> nat \<Rightarrow> (int \<times> nat) option" where
  "eval_size env bc i = do {
     sizevar \<leftarrow> bc_word bc (i + 1);
     x \<leftarrow> bc_word bc (i + 2);
     (case getsize env of (r, s) \<Rightarrow>
        if r \<noteq> SIEVE_OK then Some (0, i)
        else Some (of_bool (if sizevar = B_OVER then sint s > sint x else sint s < sint x), i + 3))
   }"

text \<open>The tests without subtests, but for \<^verbatim>\<open>BC_BODY\<close>.\<close>

definition eval_leaf :: "'r sieve_env \<Rightarrow> cint \<Rightarrow> string \<Rightarrow> nat \<Rightarrow> (int \<times> nat) option" where
  "eval_leaf env opcode bc i =
     (if opcode = BC_FALSE then Some (0, i + 1)
      else if opcode = BC_TRUE then Some (1, i + 1)
      else if opcode = BC_EXISTS then eval_exists env bc i
      else if opcode = BC_SIZE then eval_size env bc i
      else if opcode = BC_ADDRESS then eval_address env True bc i
      else if opcode = BC_ENVELOPE then eval_address env False bc i
      else if opcode = BC_HEADER then eval_header env bc i
      else Some (SIEVE_RUN_ERROR, i))"

text \<open>
  \<^verbatim>\<open>eval_bc_list\<close> is the loop of \<^verbatim>\<open>ANYOF\<close> and \<^verbatim>\<open>ALLOF\<close>, which ends when the result is \<^verbatim>\<open>stop\<close>
  or an error.
\<close>

function eval_bc_test ::
    "nat \<Rightarrow> 'r sieve_env \<Rightarrow> string \<Rightarrow> nat \<Rightarrow> body_cache \<Rightarrow> (int \<times> nat \<times> body_cache) option"
  and eval_bc_list ::
    "nat \<Rightarrow> int \<Rightarrow> nat \<Rightarrow> 'r sieve_env \<Rightarrow> string \<Rightarrow> nat \<Rightarrow> body_cache \<Rightarrow> (int \<times> body_cache) option" where
  "eval_bc_test 0 env bc i cache = None"
| "eval_bc_test (Suc fuel) env bc i cache = do {
     opcode \<leftarrow> bc_word bc i;
     if opcode = BC_NOT then do {
       (res, i, cache) \<leftarrow> eval_bc_test fuel env bc (i + 1) cache;
       Some (if res \<ge> 0 then of_bool (res = 0) else res, i, cache)
     }
     else if opcode = BC_ANYOF \<or> opcode = BC_ALLOF then do {
       list_len \<leftarrow> bc_word bc (i + 1);
       list_end \<leftarrow> bc_word bc (i + 2);
       (res, cache) \<leftarrow> eval_bc_list fuel (of_bool (opcode = BC_ANYOF)) (rounds list_len) env bc (i + 3) cache;
       Some (res, unat list_end div 4, cache)
     }
     else if opcode = BC_BODY then eval_body env bc i cache
     else do {
       (res, i) \<leftarrow> eval_leaf env opcode bc i;
       Some (res, i, cache)
     }
   }"
| "eval_bc_list fuel stop 0 env bc i cache = Some (1 - stop, cache)"
| "eval_bc_list fuel stop (Suc n) env bc i cache = do {
     (tmp, i, cache) \<leftarrow> eval_bc_test fuel env bc i cache;
     if tmp < 0 then Some (tmp, cache)
     else if of_bool (tmp \<noteq> 0) = stop then Some (stop, cache)
     else eval_bc_list fuel stop n env bc i cache
   }"
  by pat_completeness auto
termination
  by (relation "measures [\<lambda>x. case x of Inl (fuel, _) \<Rightarrow> fuel | Inr (fuel, _) \<Rightarrow> fuel,
      \<lambda>x. case x of Inl _ \<Rightarrow> 0 | Inr (_, _, n, _) \<Rightarrow> Suc n]") auto

section \<open>Instructions\<close>

record run_state =
  rs_actions :: "action list"
  rs_notify :: "notify_item list"
  rs_cache :: body_cache
  rs_errmsg :: "string option"

text \<open>
  What an instruction does: go on with \<^verbatim>\<open>res\<close> at a position, return a code at once,
  \<^verbatim>\<open>goto done\<close>, or run an included script first.
\<close>

datatype step =
    Go int nat run_state
  | Bail int run_state
  | Done run_state
  | Include string nat run_state

definition set_errmsg :: "int \<Rightarrow> string \<Rightarrow> run_state \<Rightarrow> run_state" where
  "set_errmsg res msg st = (if res = SIEVE_RUN_ERROR then st\<lparr>rs_errmsg := Some msg\<rparr> else st)"

text \<open>The call of a function of \<^verbatim>\<open>message.c\<close>, and the error message of the instruction.\<close>

definition take_action ::
  "(action list \<Rightarrow> (int \<times> action list) option) \<Rightarrow> string option \<Rightarrow> run_state \<Rightarrow> (int \<times> run_state) option"
where
  "take_action f msg st = do {
     (res, a) \<leftarrow> f (rs_actions st);
     let st = st\<lparr>rs_actions := a\<rparr>;
     Some (res, case msg of None \<Rightarrow> st | Some m \<Rightarrow> set_errmsg res m st)
   }"

definition op_keep :: "nat \<Rightarrow> run_state \<Rightarrow> step option" where
  "op_keep ip st = do {
     (res, st) \<leftarrow> take_action do_keep (Some ''Keep can not be used with Reject'') st;
     Some (Go res (ip + 1) st)
   }"

definition op_discard :: "nat \<Rightarrow> run_state \<Rightarrow> step option" where
  "op_discard ip st = do {
     (res, st) \<leftarrow> take_action do_discard None st;
     Some (Go res (ip + 1) st)
   }"

definition op_reject :: "string \<Rightarrow> nat \<Rightarrow> run_state \<Rightarrow> step option" where
  "op_reject bc ip st = do {
     (data, ip) \<leftarrow> unwrap_string bc (ip + 1);
     (res, st) \<leftarrow>
       take_action (do_reject data) (Some ''Reject can not be used with any other action'') st;
     Some (Go res ip st)
   }"

definition op_fileinto :: "cint \<Rightarrow> string \<Rightarrow> nat \<Rightarrow> run_state \<Rightarrow> step option" where
  "op_fileinto copy bc ip st = do {
     (data, ip) \<leftarrow> unwrap_string bc (ip + 1);
     (res, st) \<leftarrow>
       take_action (do_fileinto data (copy = 0)) (Some ''Fileinto can not be used with Reject'') st;
     Some (Go res ip st)
   }"

definition op_redirect :: "cint \<Rightarrow> string \<Rightarrow> nat \<Rightarrow> run_state \<Rightarrow> step option" where
  "op_redirect copy bc ip st = do {
     (data, ip) \<leftarrow> unwrap_string bc (ip + 1);
     (res, st) \<leftarrow>
       take_action (do_redirect data (copy = 0)) (Some ''Redirect can not be used with Reject'') st;
     Some (Go res ip st)
   }"

definition op_if :: "nat \<Rightarrow> 'r sieve_env \<Rightarrow> string \<Rightarrow> nat \<Rightarrow> run_state \<Rightarrow> step option" where
  "op_if fuel env bc ip st = do {
     testend \<leftarrow> bc_word bc (ip + 1);
     (result, _, cache) \<leftarrow> eval_bc_test fuel env bc (ip + 2) (rs_cache st);
     let st = st\<lparr>rs_cache := cache\<rparr>;
     if result < 0 then Some (Bail SIEVE_FAIL (st\<lparr>rs_errmsg := Some ''Invalid test''\<rparr>))
     else do {
       ip \<leftarrow> nat_of (if result \<noteq> 0 then testend + 2 else testend);
       Some (Go 0 ip st)
     }
   }"

definition op_mark :: "nat \<Rightarrow> run_state \<Rightarrow> step option" where
  "op_mark ip st = do {
     (res, st) \<leftarrow> take_action do_mark None st;
     Some (Go res (ip + 1) st)
   }"

definition op_unmark :: "nat \<Rightarrow> run_state \<Rightarrow> step option" where
  "op_unmark ip st = do {
     (res, st) \<leftarrow> take_action do_unmark None st;
     Some (Go res (ip + 1) st)
   }"

text \<open>The loop that calls \<^verbatim>\<open>f\<close> for every flag; \<^verbatim>\<open>res\<close> is the result of the last call.\<close>

definition flag_loop ::
  "(string option \<Rightarrow> action list \<Rightarrow> (int \<times> action list) option) \<Rightarrow> string \<Rightarrow> string \<Rightarrow> nat \<Rightarrow> nat \<Rightarrow>
   int \<times> run_state \<Rightarrow> ((int \<times> run_state) \<times> nat) option" where
  "flag_loop f msg bc n ip s =
     for_strings bc n ip (\<lambda>_. True) (\<lambda>data (_, st). take_action (f data) (Some msg) st) s"

definition op_addflag :: "string \<Rightarrow> nat \<Rightarrow> run_state \<Rightarrow> step option" where
  "op_addflag bc ip st = do {
     list_len \<leftarrow> bc_word bc (ip + 1);
     ((res, st), ip) \<leftarrow>
       flag_loop do_addflag ''addflag can not be used with Reject'' bc (rounds list_len) (ip + 3) (0, st);
     Some (Go res ip st)
   }"

definition op_setflag :: "string \<Rightarrow> nat \<Rightarrow> run_state \<Rightarrow> step option" where
  "op_setflag bc ip st = do {
     list_len \<leftarrow> bc_word bc (ip + 1);
     (data, ip) \<leftarrow> unwrap_string bc (ip + 3);
     (res, st) \<leftarrow> take_action (do_setflag data) (Some ''setflag can not be used with Reject'') st;
     if res = SIEVE_RUN_ERROR then Some (Go res ip st)
     else do {
       ((res, st), ip) \<leftarrow> flag_loop do_addflag ''setflag can not be used with Reject'' bc
         (rounds list_len - 1) ip (res, st);
       Some (Go res ip st)
     }
   }"

definition op_removeflag :: "string \<Rightarrow> nat \<Rightarrow> run_state \<Rightarrow> step option" where
  "op_removeflag bc ip st = do {
     list_len \<leftarrow> bc_word bc (ip + 1);
     ((res, st), ip) \<leftarrow> flag_loop do_removeflag ''removeflag can not be used with Reject'' bc
       (rounds list_len) (ip + 3) (0, st);
     Some (Go res ip st)
   }"

text \<open>
  The name of a priority: \<^verbatim>\<open>case B_LOW\<close> has no \<^verbatim>\<open>break\<close> and falls into \<^verbatim>\<open>case B_NORMAL\<close>.
\<close>

definition priority_of :: "cint \<Rightarrow> string option" where
  "priority_of pri =
     (if pri = B_LOW \<or> pri = B_NORMAL then Some ''normal''
      else if pri = B_HIGH then Some ''high''
      else if pri = B_ANY then Some ''any''
      else None)"

text \<open>The error of an unknown priority is overwritten by the result of \<^verbatim>\<open>do_notify\<close>.\<close>

definition op_notify :: "string \<Rightarrow> nat \<Rightarrow> run_state \<Rightarrow> step option" where
  "op_notify bc ip st = do {
     (method, ip) \<leftarrow> unwrap_string bc (ip + 1);
     (nid, ip) \<leftarrow> unwrap_string bc ip;
     (options, ip) \<leftarrow> bc_makeArray bc ip;
     pri \<leftarrow> bc_word bc ip;
     (message, ip) \<leftarrow> unwrap_string bc (ip + 1);
     (res, ns) \<leftarrow> do_notify nid method options (priority_of pri) message (rs_notify st);
     Some (Go res ip (st\<lparr>rs_notify := ns\<rparr>))
   }"

definition op_denotify :: "'r sieve_env \<Rightarrow> string \<Rightarrow> nat \<Rightarrow> run_state \<Rightarrow> step option" where
  "op_denotify env bc ip st = do {
     pri \<leftarrow> bc_word bc (ip + 1);
     (case priority_of pri of
        None \<Rightarrow> Some (Go SIEVE_RUN_ERROR (ip + 2) st)
      | Some priority \<Rightarrow> do {
          cmp \<leftarrow> bc_word bc (ip + 2);
          x \<leftarrow> bc_word bc (ip + 3);
          let cmpf = (if cmp = B_ANY then None else lookup_comp B_ASCIICASEMAP cmp x);
          (pattern, ip) \<leftarrow> unwrap_string bc (ip + 4);
          if cmp = B_REGEX then do {
            pat \<leftarrow> pattern;
            (case regcomp env pat True of
               None \<Rightarrow> Some (Go SIEVE_RUN_ERROR ip st)
             | Some reg \<Rightarrow> do {
                 ns \<leftarrow> do_denotify (regexec env) cmpf (Some (PReg reg)) (Some priority) (rs_notify st);
                 Some (Go 0 ip (st\<lparr>rs_notify := ns\<rparr>))
               })
          }
          else do {
            ns \<leftarrow> do_denotify (regexec env) cmpf (map_option PStr pattern) (Some priority) (rs_notify st);
            Some (Go 0 ip (st\<lparr>rs_notify := ns\<rparr>))
          }
        })
   }"

text \<open>The subject of a reply, in a buffer of 1024 bytes.\<close>

definition reply_subject :: "'r sieve_env \<Rightarrow> string option \<Rightarrow> string option" where
  "reply_subject env data = (case data of
     Some subject \<Rightarrow> Some (take 1023 subject)
   | None \<Rightarrow>
       (case getheader env ''subject'' of (r, body) \<Rightarrow>
          if r \<noteq> SIEVE_OK then Some ''Automated reply''
          else do {
            s \<leftarrow> body;
            Some (case s of [] \<Rightarrow> ''Automated reply''
              | origsubj # _ \<Rightarrow> take 1023 (''Auto: '' @ origsubj))
          }))"

definition op_vacation :: "cint \<Rightarrow> 'r sieve_env \<Rightarrow> string \<Rightarrow> nat \<Rightarrow> run_state \<Rightarrow> step option" where
  "op_vacation version env bc ip st = do {
     x \<leftarrow> bc_word bc (ip + 1);
     (respond, fromaddr, toaddr) \<leftarrow> shouldRespond env x bc (ip + 3);
     listend \<leftarrow> bc_word bc (ip + 2);
     let ip = unat listend div 4;
     if respond = SIEVE_OK then do {
       (data, ip) \<leftarrow> unwrap_string bc ip;
       subject \<leftarrow> reply_subject env data;
       (message, ip) \<leftarrow> unwrap_string bc ip;
       days \<leftarrow> bc_word bc ip;
       mime \<leftarrow> bc_word bc (ip + 1);
       (fromaddr, handle, ip) \<leftarrow> (if sint version \<ge> 5 then do {
           (data, ip) \<leftarrow> unwrap_string bc (ip + 2);
           (handle, ip) \<leftarrow> unwrap_string bc ip;
           Some (if data \<noteq> None then data else fromaddr, handle, ip)
         } else Some (fromaddr, None, ip + 2));
       (res, st) \<leftarrow> take_action
         (do_vacation (md5 env) toaddr fromaddr subject message days mime handle)
         (Some ''Vacation can not be used with Reject or Vacation'') st;
       Some (Go res ip st)
     }
     else if respond = SIEVE_DONE then do {
       (_, ip) \<leftarrow> unwrap_string bc ip;
       (_, ip) \<leftarrow> unwrap_string bc ip;
       (if sint version \<ge> 5 then do {
           (_, ip) \<leftarrow> unwrap_string bc (ip + 2);
           (_, ip) \<leftarrow> unwrap_string bc ip;
           Some (Go 0 ip st)
         } else Some (Go 0 (ip + 2) st))
     }
     else Some (Go SIEVE_RUN_ERROR ip st)
   }"

definition op_include :: "'r sieve_env \<Rightarrow> string \<Rightarrow> nat \<Rightarrow> run_state \<Rightarrow> step option" where
  "op_include env bc ip st = do {
     location \<leftarrow> bc_word bc (ip + 1);
     (data, ip) \<leftarrow> unwrap_string bc (ip + 2);
     script \<leftarrow> data;
     (case getinclude env script (location = B_GLOBAL) of (res, fpath) \<Rightarrow>
        Some (if res \<noteq> SIEVE_OK
              then Go res ip (st\<lparr>rs_errmsg := Some ''Include can not find script''\<rparr>)
              else Include fpath ip st))
   }"

text \<open>The \<^verbatim>\<open>switch\<close> of \<^verbatim>\<open>sieve_eval_bc\<close>.\<close>

definition eval_op ::
  "nat \<Rightarrow> 'r sieve_env \<Rightarrow> bool \<Rightarrow> cint \<Rightarrow> string \<Rightarrow> nat \<Rightarrow> run_state \<Rightarrow> step option" where
  "eval_op fuel env is_incl version bc ip st = do {
     opcode \<leftarrow> bc_word bc ip;
     if opcode = B_STOP then Some (Go 1 ip st)
     else if opcode = B_KEEP then op_keep ip st
     else if opcode = B_DISCARD then op_discard ip st
     else if opcode = B_REJECT then op_reject bc ip st
     else if opcode = B_FILEINTO then do {
       copy \<leftarrow> bc_word bc (ip + 1);
       op_fileinto copy bc (ip + 1) st
     }
     else if opcode = B_FILEINTO_ORIG then op_fileinto 0 bc ip st
     else if opcode = B_REDIRECT then do {
       copy \<leftarrow> bc_word bc (ip + 1);
       op_redirect copy bc (ip + 1) st
     }
     else if opcode = B_REDIRECT_ORIG then op_redirect 0 bc ip st
     else if opcode = B_IF then op_if fuel env bc ip st
     else if opcode = B_MARK then op_mark ip st
     else if opcode = B_UNMARK then op_unmark ip st
     else if opcode = B_ADDFLAG then op_addflag bc ip st
     else if opcode = B_SETFLAG then op_setflag bc ip st
     else if opcode = B_REMOVEFLAG then op_removeflag bc ip st
     else if opcode = B_NOTIFY then op_notify bc ip st
     else if opcode = B_DENOTIFY then op_denotify env bc ip st
     else if opcode = B_VACATION then op_vacation version env bc ip st
     else if opcode = B_NULL then Some (Go 0 (ip + 1) st)
     else if opcode = B_JUMP then do {
       jump \<leftarrow> bc_word bc (ip + 1);
       ip \<leftarrow> nat_of jump;
       Some (Go 0 ip st)
     }
     else if opcode = B_INCLUDE then op_include env bc ip st
     else if opcode = B_RETURN then Some (if is_incl then Done st else Go 1 ip st)
     else Some (Bail SIEVE_FAIL (st\<lparr>rs_errmsg := Some ''Invalid sieve bytecode''\<rparr>))
   }"

section \<open>Scripts\<close>

record loaded =
  ld_inode :: nat
  ld_data :: string
  ld_executing :: bool

record execute =
  bc_list :: "loaded list"
  bc_cur :: loaded

text \<open>
  The file system: the inode of a path and the contents of the file, if it can be opened.
\<close>

type_synonym scripts = "string \<Rightarrow> (nat \<times> string option) option"

definition sieve_script_load :: "scripts \<Rightarrow> string \<Rightarrow> execute \<Rightarrow> (int \<times> execute)" where
  "sieve_script_load fs fname exe = (case fs fname of
     None \<Rightarrow> (SIEVE_FAIL, exe)
   | Some (inode, contents) \<Rightarrow>
       (case find (\<lambda>b. ld_inode b = inode) (bc_list exe) of
          Some b \<Rightarrow> (SIEVE_OK, exe\<lparr>bc_cur := b\<rparr>)
        | None \<Rightarrow>
            (case contents of
               None \<Rightarrow> (SIEVE_FAIL, exe)
             | Some data \<Rightarrow>
                 (let b = \<lparr>ld_inode = inode, ld_data = data, ld_executing = False\<rparr>
                  in (SIEVE_OK, exe\<lparr>bc_list := b # bc_list exe, bc_cur := b\<rparr>)))))"

definition set_executing :: "nat \<Rightarrow> bool \<Rightarrow> execute \<Rightarrow> execute" where
  "set_executing inode b exe =
     exe\<lparr>bc_list := map (\<lambda>l. if ld_inode l = inode then l\<lparr>ld_executing := b\<rparr> else l) (bc_list exe)\<rparr>"

text \<open>The checks before the first instruction: an error, or the version.\<close>

definition check_script :: "string \<Rightarrow> run_state \<Rightarrow> (int \<times> run_state) + cint" where
  "check_script bc st =
     (if length bc < length BYTECODE_MAGIC + 8 then Inl (SIEVE_FAIL, st)
      else if take (length BYTECODE_MAGIC) bc \<noteq> BYTECODE_MAGIC
      then Inl (SIEVE_FAIL, st\<lparr>rs_errmsg := Some ''Not a bytecode file''\<rparr>)
      else let version = ntohl (take 4 (drop (length BYTECODE_MAGIC) bc)) in
        if version = 0x01000000 \<or> sint version < sint BYTECODE_MIN_VERSION \<or>
           sint version > sint BYTECODE_VERSION
        then Inl (SIEVE_FAIL, st\<lparr>rs_errmsg :=
               Some ''Incorrect Bytecode Version, please recompile (use sievec)''\<rparr>)
        else Inr version)"

text \<open>
  \<^verbatim>\<open>eval_loop\<close> returns the result, the scripts and the state, and whether the end of the
  function, where \<^verbatim>\<open>is_executing\<close> is reset, was reached.
\<close>

function sieve_eval_bc ::
    "nat \<Rightarrow> scripts \<Rightarrow> 'r sieve_env \<Rightarrow> bool \<Rightarrow> execute \<Rightarrow> run_state \<Rightarrow> (int \<times> execute \<times> run_state) option"
  and eval_loop ::
    "nat \<Rightarrow> scripts \<Rightarrow> 'r sieve_env \<Rightarrow> bool \<Rightarrow> cint \<Rightarrow> string \<Rightarrow> nat \<Rightarrow> execute \<Rightarrow> run_state \<Rightarrow>
     (int \<times> execute \<times> run_state \<times> bool) option" where
  "sieve_eval_bc fuel fs env is_incl exe st =
     (let cur = bc_cur exe; bc = ld_data cur in
      if list_ex (\<lambda>l. ld_inode l = ld_inode cur \<and> ld_executing l) (bc_list exe)
      then Some (SIEVE_RUN_ERROR, exe, st\<lparr>rs_errmsg := Some ''Recursive Include''\<rparr>)
      else let exe = set_executing (ld_inode cur) True exe in
        case check_script bc st of
          Inl (res, st) \<Rightarrow> Some (res, exe, st)
        | Inr version \<Rightarrow> do {
            (res, exe, st, finished) \<leftarrow> eval_loop fuel fs env is_incl version bc 4 exe st;
            Some (res, if finished then set_executing (ld_inode cur) False exe else exe, st)
          })"
| "eval_loop 0 fs env is_incl version bc ip exe st = None"
| "eval_loop (Suc fuel) fs env is_incl version bc ip exe st =
     (if length bc div 4 \<le> ip then Some (0, exe, st, True)
      else do {
        step \<leftarrow> eval_op fuel env is_incl version bc ip st;
        (case step of
           Bail res st \<Rightarrow> Some (res, exe, st, False)
         | Done st \<Rightarrow> Some (0, exe, st, True)
         | Go res ip st \<Rightarrow>
             if res \<noteq> 0 then Some (res, exe, st, True)
             else eval_loop fuel fs env is_incl version bc ip exe st
         | Include fpath ip st \<Rightarrow>
             (case sieve_script_load fs fpath exe of (res, exe) \<Rightarrow>
                if res \<noteq> SIEVE_OK
                then Some (res, exe, st\<lparr>rs_errmsg := Some ''Include can not load script''\<rparr>, True)
                else do {
                  (res, exe, st) \<leftarrow> sieve_eval_bc fuel fs env True exe st;
                  if res \<noteq> 0 then Some (res, exe, st, True)
                  else eval_loop fuel fs env is_incl version bc ip exe st
                }))
      })"
  by pat_completeness auto
termination
  by (relation "measures [\<lambda>x. case x of Inl (fuel, _) \<Rightarrow> fuel | Inr (fuel, _) \<Rightarrow> fuel,
      \<lambda>x. case x of Inl _ \<Rightarrow> 1 | Inr _ \<Rightarrow> 0]") auto

end
