(* ===== verification/Sieve_Interp.thy ===== *)
theory Sieve_Interp
  imports Sieve_Tree
begin

text \<open>
  The interpreter object of the Sieve library, \<^verbatim>\<open>sieve/interp.c\<close>: which callbacks are
  registered, and the extensions a script may require, from \<^verbatim>\<open>sieve/script.c\<close>.

  A function pointer is the fact that it is set. The option \<^verbatim>\<open>sieve_extensions\<close> of the
  configuration is the set of the bits that are on.
\<close>

section \<open>The object\<close>

record interp_callbacks =
  has_redirect :: bool
  has_discard :: bool
  has_reject :: bool
  has_fileinto :: bool
  has_keep :: bool
  has_notify :: bool
  has_vacation :: bool
  has_getsize :: bool
  has_getheader :: bool
  has_getenvelope :: bool
  has_getbody :: bool
  has_getinclude :: bool
  has_err :: bool
  markflags :: "string list option"
  has_execute_err :: bool

text \<open>
  \<^verbatim>\<open>sieve_interp_alloc\<close> does not set \<^verbatim>\<open>execute_err\<close>: what the memory held is a parameter.
\<close>

definition sieve_interp_alloc :: "bool \<Rightarrow> interp_callbacks" where
  "sieve_interp_alloc garbage = \<lparr>has_redirect = False, has_discard = False, has_reject = False, has_fileinto = False,
     has_keep = False, has_notify = False, has_vacation = False, has_getsize = False, has_getheader = False,
     has_getenvelope = False, has_getbody = False, has_getinclude = False, has_err = False,
     markflags = None, has_execute_err = garbage\<rparr>"

text \<open>The registration functions; \<^verbatim>\<open>f\<close> says whether the pointer is not \<^verbatim>\<open>NULL\<close>.\<close>

definition sieve_register_redirect :: "bool \<Rightarrow> interp_callbacks \<Rightarrow> int \<times> interp_callbacks" where
  "sieve_register_redirect f i = (SIEVE_OK, i\<lparr>has_redirect := f\<rparr>)"

definition sieve_register_discard :: "bool \<Rightarrow> interp_callbacks \<Rightarrow> int \<times> interp_callbacks" where
  "sieve_register_discard f i = (SIEVE_OK, i\<lparr>has_discard := f\<rparr>)"

definition sieve_register_reject :: "bool \<Rightarrow> interp_callbacks \<Rightarrow> int \<times> interp_callbacks" where
  "sieve_register_reject f i = (SIEVE_OK, i\<lparr>has_reject := f\<rparr>)"

definition sieve_register_fileinto :: "bool \<Rightarrow> interp_callbacks \<Rightarrow> int \<times> interp_callbacks" where
  "sieve_register_fileinto f i = (SIEVE_OK, i\<lparr>has_fileinto := f\<rparr>)"

definition sieve_register_keep :: "bool \<Rightarrow> interp_callbacks \<Rightarrow> int \<times> interp_callbacks" where
  "sieve_register_keep f i = (SIEVE_OK, i\<lparr>has_keep := f\<rparr>)"

definition sieve_register_imapflags :: "string list option \<Rightarrow> interp_callbacks \<Rightarrow> int \<times> interp_callbacks" where
  "sieve_register_imapflags mark i =
     (SIEVE_OK, i\<lparr>markflags := (case mark of Some (f # fs) \<Rightarrow> mark | _ \<Rightarrow> Some [CHR 0x5C # ''flagged''])\<rparr>)"

definition sieve_register_notify :: "bool \<Rightarrow> interp_callbacks \<Rightarrow> int \<times> interp_callbacks" where
  "sieve_register_notify f i = (SIEVE_OK, i\<lparr>has_notify := f\<rparr>)"

definition sieve_register_size :: "bool \<Rightarrow> interp_callbacks \<Rightarrow> int \<times> interp_callbacks" where
  "sieve_register_size f i = (SIEVE_OK, i\<lparr>has_getsize := f\<rparr>)"

definition sieve_register_header :: "bool \<Rightarrow> interp_callbacks \<Rightarrow> int \<times> interp_callbacks" where
  "sieve_register_header f i = (SIEVE_OK, i\<lparr>has_getheader := f\<rparr>)"

definition sieve_register_envelope :: "bool \<Rightarrow> interp_callbacks \<Rightarrow> int \<times> interp_callbacks" where
  "sieve_register_envelope f i = (SIEVE_OK, i\<lparr>has_getenvelope := f\<rparr>)"

definition sieve_register_include :: "bool \<Rightarrow> interp_callbacks \<Rightarrow> int \<times> interp_callbacks" where
  "sieve_register_include f i = (SIEVE_OK, i\<lparr>has_getinclude := f\<rparr>)"

definition sieve_register_body :: "bool \<Rightarrow> interp_callbacks \<Rightarrow> int \<times> interp_callbacks" where
  "sieve_register_body f i = (SIEVE_OK, i\<lparr>has_getbody := f\<rparr>)"

definition sieve_register_parse_error :: "bool \<Rightarrow> interp_callbacks \<Rightarrow> int \<times> interp_callbacks" where
  "sieve_register_parse_error f i = (SIEVE_OK, i\<lparr>has_err := f\<rparr>)"

definition sieve_register_execute_error :: "bool \<Rightarrow> interp_callbacks \<Rightarrow> int \<times> interp_callbacks" where
  "sieve_register_execute_error f i = (SIEVE_OK, i\<lparr>has_execute_err := f\<rparr>)"

record sieve_vacation =
  min_response :: cint
  max_response :: cint
  has_autorespond :: bool
  has_send_response :: bool

definition sieve_register_vacation ::
  "sieve_vacation \<Rightarrow> interp_callbacks \<Rightarrow> int \<times> sieve_vacation \<times> interp_callbacks" where
  "sieve_register_vacation v i =
     (if \<not> has_getenvelope i then (SIEVE_NOT_FINALIZED, v, i)
      else let v = (if min_response v = 0 then v\<lparr>min_response := 3\<rparr> else v);
               v = (if max_response v = 0 then v\<lparr>max_response := 90\<rparr> else v)
           in if sint (min_response v) < 0 \<or> sint (max_response v) < 7 \<or> \<not> has_autorespond v \<or>
                 \<not> has_send_response v
              then (SIEVE_FAIL, v, i) else (SIEVE_OK, v, i\<lparr>has_vacation := True\<rparr>))"

definition interp_verify :: "interp_callbacks \<Rightarrow> int" where
  "interp_verify i = (if has_redirect i \<and> has_keep i \<and> has_getsize i \<and> has_getheader i
     then SIEVE_OK else SIEVE_NOT_FINALIZED)"

section \<open>Extensions\<close>

datatype sieve_ext = EXT_FILEINTO | EXT_REJECT | EXT_VACATION | EXT_IMAPFLAGS | EXT_NOTIFY | EXT_INCLUDE
  | EXT_ENVELOPE | EXT_BODY | EXT_RELATIONAL | EXT_REGEX | EXT_SUBADDRESS | EXT_COPY

text \<open>
  \<^verbatim>\<open>strlcat\<close> into a buffer of \<^verbatim>\<open>n\<close> bytes. The list of extensions is built once, in a static
  buffer; \<^verbatim>\<open>regex\<close> says whether the library was built with \<^verbatim>\<open>ENABLE_REGEX\<close>.
\<close>

definition strlcat :: "nat \<Rightarrow> string \<Rightarrow> string \<Rightarrow> string" where
  "strlcat n dst src = dst @ take (n - 1 - length dst) src"

definition cat_if :: "bool \<Rightarrow> string \<Rightarrow> string \<Rightarrow> string" where
  "cat_if b src dst = (if b then strlcat 4096 dst src else dst)"

definition list_extensions :: "bool \<Rightarrow> sieve_ext set \<Rightarrow> interp_callbacks \<Rightarrow> string" where
  "list_extensions regex conf i =
     (let s = strlcat 4096 [] ''comparator-i;ascii-numeric'';
          s = cat_if (has_fileinto i \<and> EXT_FILEINTO \<in> conf) '' fileinto'' s;
          s = cat_if (has_reject i \<and> EXT_REJECT \<in> conf) '' reject'' s;
          s = cat_if (has_vacation i \<and> EXT_VACATION \<in> conf) '' vacation'' s;
          s = cat_if (markflags i \<noteq> None \<and> EXT_IMAPFLAGS \<in> conf) '' imapflags'' s;
          s = cat_if (has_notify i \<and> EXT_NOTIFY \<in> conf) '' notify'' s;
          s = cat_if (has_getinclude i \<and> EXT_INCLUDE \<in> conf) '' include'' s;
          s = cat_if (has_getenvelope i \<and> EXT_ENVELOPE \<in> conf) '' envelope'' s;
          s = cat_if (has_getbody i \<and> EXT_BODY \<in> conf) '' body'' s;
          s = cat_if (EXT_RELATIONAL \<in> conf) '' relational'' s;
          s = cat_if (regex \<and> EXT_REGEX \<in> conf) '' regex'' s;
          s = cat_if (EXT_SUBADDRESS \<in> conf) '' subaddress'' s
      in cat_if (EXT_COPY \<in> conf) '' copy'' s)"

definition sieve_listextensions ::
  "bool \<Rightarrow> sieve_ext set \<Rightarrow> interp_callbacks \<Rightarrow> string option \<Rightarrow> string \<times> string option" where
  "sieve_listextensions regex conf i built = (case built of
     Some s \<Rightarrow> (s, built)
   | None \<Rightarrow> let s = list_extensions regex conf i in (s, Some s))"

record sieve_support =
  su_fileinto :: bool
  su_reject :: bool
  su_envelope :: bool
  su_body :: bool
  su_vacation :: bool
  su_imapflags :: bool
  su_notify :: bool
  su_regex :: bool
  su_subaddress :: bool
  su_relational :: bool
  su_i_ascii_numeric :: bool
  su_include :: bool
  su_copy :: bool

definition no_support :: sieve_support where
  "no_support = \<lparr>su_fileinto = False, su_reject = False, su_envelope = False, su_body = False,
     su_vacation = False, su_imapflags = False, su_notify = False, su_regex = False, su_subaddress = False,
     su_relational = False, su_i_ascii_numeric = False, su_include = False, su_copy = False\<rparr>"

text \<open>
  \<^verbatim>\<open>script_require\<close>: 1 and the mark set, or 0. \<^verbatim>\<open>None\<close>: the test of \<^verbatim>\<open>imapflags\<close> follows
  \<^verbatim>\<open>markflags\<close>, which may be \<^verbatim>\<open>NULL\<close>.
\<close>

definition require_if :: "bool \<Rightarrow> sieve_support \<Rightarrow> sieve_support \<Rightarrow> (bool \<times> sieve_support) option" where
  "require_if b marked s = Some (if b then (True, marked) else (False, s))"

definition script_require ::
  "bool \<Rightarrow> sieve_ext set \<Rightarrow> interp_callbacks \<Rightarrow> string \<Rightarrow> sieve_support \<Rightarrow> (bool \<times> sieve_support) option" where
  "script_require regex conf i req s =
     (if req = ''fileinto'' then require_if (has_fileinto i \<and> EXT_FILEINTO \<in> conf) (s\<lparr>su_fileinto := True\<rparr>) s
      else if req = ''reject'' then require_if (has_reject i \<and> EXT_REJECT \<in> conf) (s\<lparr>su_reject := True\<rparr>) s
      else if req = ''envelope'' then require_if (has_getenvelope i \<and> EXT_ENVELOPE \<in> conf) (s\<lparr>su_envelope := True\<rparr>) s
      else if req = ''body'' then require_if (has_getbody i \<and> EXT_BODY \<in> conf) (s\<lparr>su_body := True\<rparr>) s
      else if req = ''vacation'' then require_if (has_vacation i \<and> EXT_VACATION \<in> conf) (s\<lparr>su_vacation := True\<rparr>) s
      else if req = ''imapflags'' then
        (case markflags i of
           None \<Rightarrow> None
         | Some _ \<Rightarrow> require_if (EXT_IMAPFLAGS \<in> conf) (s\<lparr>su_imapflags := True\<rparr>) s)
      else if req = ''notify'' then require_if (has_notify i \<and> EXT_NOTIFY \<in> conf) (s\<lparr>su_notify := True\<rparr>) s
      else if req = ''include'' then require_if (has_getinclude i \<and> EXT_INCLUDE \<in> conf) (s\<lparr>su_include := True\<rparr>) s
      else if regex \<and> req = ''regex'' \<and> EXT_REGEX \<in> conf then Some (True, s\<lparr>su_regex := True\<rparr>)
      else if req = ''subaddress'' \<and> EXT_SUBADDRESS \<in> conf then Some (True, s\<lparr>su_subaddress := True\<rparr>)
      else if req = ''relational'' \<and> EXT_RELATIONAL \<in> conf then Some (True, s\<lparr>su_relational := True\<rparr>)
      else if req = ''comparator-i;octet'' then Some (True, s)
      else if req = ''comparator-i;ascii-casemap'' then Some (True, s)
      else if req = ''comparator-i;ascii-numeric'' then Some (True, s\<lparr>su_i_ascii_numeric := True\<rparr>)
      else if req = ''copy'' \<and> EXT_COPY \<in> conf then Some (True, s\<lparr>su_copy := True\<rparr>)
      else Some (False, s))"

section \<open>Advertised and accepted\<close>

text \<open>The names in a list of extensions, which are separated by single blanks.\<close>

fun split_blank :: "string \<Rightarrow> string \<Rightarrow> string list" where
  "split_blank w [] = [rev w]"
| "split_blank w (c # s) = (if c = CHR '' '' then rev w # split_blank [] s else split_blank (c # w) s)"

definition extension_names :: "string \<Rightarrow> string list" where
  "extension_names s = split_blank [] s"

lemma split_blank_append:
  assumes "CHR '' '' \<notin> set n"
  shows "split_blank w (s @ CHR '' '' # n) = split_blank w s @ [n]"
proof -
  have "split_blank v n = [rev v @ n]" for v
    using assms by (induction n arbitrary: v) auto
  then show ?thesis by (induction s arbitrary: w) auto
qed

text \<open>Adding a name, while the buffer has room.\<close>

lemma cat_if_names:
  assumes "length s + length n < 4095" and "CHR '' '' \<notin> set n"
  shows "extension_names (cat_if b (CHR '' '' # n) s) = extension_names s @ (if b then [n] else [])"
    and "length (cat_if b (CHR '' '' # n) s) \<le> length s + length n + 1"
  using assms by (auto simp: cat_if_def strlcat_def extension_names_def split_blank_append)


lemma cat_all_names:
  assumes "length s + sum_list (map (\<lambda>(b, n). length n + 1) ns) < 4095" and "\<forall>(b, n) \<in> set ns. CHR '' '' \<notin> set n"
  shows "extension_names (fold (\<lambda>(b, n). cat_if b (CHR '' '' # n)) ns s) = extension_names s @ map snd (filter fst ns)"
  using assms
proof (induction ns arbitrary: s)
  case (Cons x ns)
  obtain b n where x: "x = (b, n)" by (cases x)
  show ?case
    using Cons.prems cat_if_names [of s n b] Cons.IH [of "cat_if b (CHR '' '' # n) s"] by (simp add: x)
qed simp

definition offered :: "bool \<Rightarrow> sieve_ext set \<Rightarrow> interp_callbacks \<Rightarrow> (bool \<times> string) list" where
  "offered regex conf i =
     [(has_fileinto i \<and> EXT_FILEINTO \<in> conf, ''fileinto''), (has_reject i \<and> EXT_REJECT \<in> conf, ''reject''),
      (has_vacation i \<and> EXT_VACATION \<in> conf, ''vacation''), (markflags i \<noteq> None \<and> EXT_IMAPFLAGS \<in> conf, ''imapflags''),
      (has_notify i \<and> EXT_NOTIFY \<in> conf, ''notify''), (has_getinclude i \<and> EXT_INCLUDE \<in> conf, ''include''),
      (has_getenvelope i \<and> EXT_ENVELOPE \<in> conf, ''envelope''), (has_getbody i \<and> EXT_BODY \<in> conf, ''body''),
      (EXT_RELATIONAL \<in> conf, ''relational''), (regex \<and> EXT_REGEX \<in> conf, ''regex''),
      (EXT_SUBADDRESS \<in> conf, ''subaddress''), (EXT_COPY \<in> conf, ''copy'')]"

lemma list_extensions_names:
  "extension_names (list_extensions regex conf i) =
     ''comparator-i;ascii-numeric'' # map snd (filter fst (offered regex conf i))"
proof -
  let ?start = "strlcat 4096 [] ''comparator-i;ascii-numeric''"
  have fold: "list_extensions regex conf i = fold (\<lambda>(b, n). cat_if b (CHR '' '' # n)) (offered regex conf i) ?start"
    by (simp only: list_extensions_def Let_def offered_def fold_simps prod.case)
  have start: "extension_names ?start = [''comparator-i;ascii-numeric'']"
    by (simp add: strlcat_def extension_names_def)
  have "extension_names (list_extensions regex conf i) = extension_names ?start @ map snd (filter fst (offered regex conf i))"
    unfolding fold by (rule cat_all_names) (simp_all add: offered_def strlcat_def)
  then show ?thesis unfolding start by simp
qed

lemma set_offered: "n \<in> snd ` {x \<in> set (offered regex conf i). fst x} \<longleftrightarrow> (True, n) \<in> set (offered regex conf i)"
  by force

lemma script_require_offered:
  assumes "markflags i \<noteq> None"
  shows "(\<exists>s'. script_require regex conf i req s = Some (True, s')) \<longleftrightarrow>
    req = ''comparator-i;ascii-numeric'' \<or> (True, req) \<in> set (offered regex conf i) \<or>
    req = ''comparator-i;octet'' \<or> req = ''comparator-i;ascii-casemap''"
proof (cases "req \<in> {''fileinto'', ''reject'', ''envelope'', ''body'', ''vacation'', ''imapflags'', ''notify'',
    ''include'', ''regex'', ''subaddress'', ''relational'', ''copy'', ''comparator-i;octet'',
    ''comparator-i;ascii-casemap'', ''comparator-i;ascii-numeric''}")
  case True
  then show ?thesis
    using assms by (elim insertE emptyE) (auto simp: script_require_def require_if_def offered_def split: if_splits)
next
  case False
  then have "req \<noteq> snd x" if "x \<in> set (offered regex conf i)" for x
    using that by (auto simp: offered_def)
  then have "(True, req) \<notin> set (offered regex conf i)" by force
  moreover have "script_require regex conf i req s = Some (False, s)"
    using False unfolding script_require_def by (simp only: insert_iff de_Morgan_disj if_False simp_thms)
  ultimately show ?thesis using False by simp
qed

text \<open>
  the extensions a server announces are the ones a script may require. Besides the two
  comparators every implementation has, \<^verbatim>\<open>require\<close> accepts exactly the names in the list,
  whatever callbacks are registered and whatever the configuration enables; the buffer is
  large enough for all of them.
\<close>

theorem require_accepts_listed:
  assumes "markflags i \<noteq> None"
  shows "(\<exists>s'. script_require regex conf i req s = Some (True, s')) \<longleftrightarrow>
    req \<in> set (extension_names (fst (sieve_listextensions regex conf i None))) \<or>
    req \<in> {''comparator-i;octet'', ''comparator-i;ascii-casemap''}"
proof -
  have "req \<in> set (extension_names (fst (sieve_listextensions regex conf i None))) \<longleftrightarrow>
      req = ''comparator-i;ascii-numeric'' \<or> (True, req) \<in> set (offered regex conf i)"
    by (simp add: sieve_listextensions_def Let_def list_extensions_names set_offered)
  moreover have "(\<exists>s'. script_require regex conf i req s = Some (True, s')) \<longleftrightarrow>
      req = ''comparator-i;ascii-numeric'' \<or> (True, req) \<in> set (offered regex conf i) \<or>
      req = ''comparator-i;octet'' \<or> req = ''comparator-i;ascii-casemap''"
    using assms by (rule script_require_offered)
  ultimately show ?thesis by blast
qed

theorem require_accepts_listed_witness:
  "(\<exists>s'. script_require False {EXT_COPY} (snd (sieve_register_imapflags None (sieve_interp_alloc False))) ''copy'' no_support
     = Some (True, s')) \<longleftrightarrow>
   ''copy'' \<in> set (extension_names (fst (sieve_listextensions False {EXT_COPY}
     (snd (sieve_register_imapflags None (sieve_interp_alloc False))) None))) \<or>
   ''copy'' \<in> {''comparator-i;octet'', ''comparator-i;ascii-casemap''}"
  by (rule require_accepts_listed) (simp add: sieve_register_imapflags_def)

end
