(* ===== verification/Sieve_Script.thy ===== *)
theory Sieve_Script
  imports Sieve_Eval Sieve_Interp
begin

text \<open>
  Running a script on a message, \<^verbatim>\<open>sieve/script.c\<close>: the interpreter collects the actions, then
  the callbacks of the site perform them, notifications are sent, and the message is kept when
  nothing else became of it.

  The callbacks are a parameter \<^verbatim>\<open>site\<close>: what a callback returns for an event may depend on
  everything that happened before. The state records the events with their answers. \<^verbatim>\<open>None\<close> is
  a result the code does not define: a \<^verbatim>\<open>NULL\<close> pointer is followed or a buffer overrun.
  Lengths of texts are below \<^verbatim>\<open>2^31\<close>.
\<close>

section \<open>Events\<close>

datatype site_event =
    EV_REJECT "string option"
  | EV_FILEINTO "string option" "string list"
  | EV_KEEP "string list"
  | EV_REDIRECT "string option"
  | EV_DISCARD
  | EV_AUTORESPOND string cint
  | EV_SEND_RESPONSE vacation_ctx
  | EV_NOTIFY string "string option list" string string
  | EV_EXECUTE_ERR string

type_synonym trace = "(site_event \<times> int) list"

text \<open>The code a callback returns, and what it writes to \<^verbatim>\<open>errmsg\<close>, if anything.\<close>

type_synonym site = "trace \<Rightarrow> site_event \<Rightarrow> int \<times> string option option"

record script_state =
  sc_flags :: "string list"
  sc_actions_string :: string
  sc_cache :: body_cache
  sc_errmsg :: "string option"
  sc_trace :: trace

definition callback :: "site \<Rightarrow> site_event \<Rightarrow> script_state \<Rightarrow> int \<times> script_state" where
  "callback site e s = (case site (sc_trace s) e of (ret, msg) \<Rightarrow>
     (ret, s\<lparr>sc_errmsg := (case msg of Some m \<Rightarrow> m | None \<Rightarrow> sc_errmsg s), sc_trace := sc_trace s @ [(e, ret)]\<rparr>))"

section \<open>Flags\<close>

definition flag_index :: "string \<Rightarrow> string list \<Rightarrow> nat" where
  "flag_index flag fs = length (takeWhile (\<lambda>f. f \<noteq> flag) fs)"

definition sieve_addflag :: "string option \<Rightarrow> string list \<Rightarrow> string list option" where
  "sieve_addflag flag fs = (case flag of
     None \<Rightarrow> None
   | Some flag \<Rightarrow> Some (if flag_index flag fs = length fs then fs @ [flag] else fs))"

definition sieve_removeflag :: "string option \<Rightarrow> string list \<Rightarrow> string list option" where
  "sieve_removeflag flag fs = (case flag of
     None \<Rightarrow> (if fs = [] then Some [] else None)
   | Some flag \<Rightarrow> (let n = flag_index flag fs in
       Some (if n < length fs then take n fs @ drop (n + 1) fs else fs)))"

definition free_imapflags :: "string list \<Rightarrow> string list" where
  "free_imapflags fs = []"

text \<open>The loops of \<^verbatim>\<open>mark\<close> and \<^verbatim>\<open>unmark\<close>, from the last flag to the first.\<close>

fun mark_loop :: "(string option \<Rightarrow> string list \<Rightarrow> string list option) \<Rightarrow> string list \<Rightarrow> string list \<Rightarrow> string list option" where
  "mark_loop f [] fs = Some fs"
| "mark_loop f (m # ms) fs = do { fs \<leftarrow> f (Some m) fs; mark_loop f ms fs }"

section \<open>The text of a notification\<close>

text \<open>
  A buffer that grows: its C string, the length the code keeps for it, and its size. Writing
  behind its size is undefined.
\<close>

record notify_buf =
  nb_out :: string
  nb_outlen :: nat
  nb_alloc :: nat

definition GROW_AMOUNT :: nat where
  "GROW_AMOUNT = 100"

definition buf_room :: "nat \<Rightarrow> notify_buf \<Rightarrow> notify_buf" where
  "buf_room n b = (if nb_outlen b + n \<ge> nb_alloc b then b\<lparr>nb_alloc := nb_outlen b + n + GROW_AMOUNT\<rparr> else b)"

definition buf_strcat :: "string \<Rightarrow> notify_buf \<Rightarrow> notify_buf option" where
  "buf_strcat t b = (if length (nb_out b) + length t < nb_alloc b then Some (b\<lparr>nb_out := nb_out b @ t\<rparr>) else None)"

text \<open>Writing a NUL at an index: it ends the C string when it is inside.\<close>

definition buf_terminate :: "nat \<Rightarrow> notify_buf \<Rightarrow> notify_buf option" where
  "buf_terminate k b = (if k < nb_alloc b then Some (b\<lparr>nb_out := take k (nb_out b)\<rparr>) else None)"

definition add_header :: "'r sieve_env \<Rightarrow> bool \<Rightarrow> string \<Rightarrow> notify_buf \<Rightarrow> notify_buf option" where
  "add_header env isenv header b =
     (case snd (if isenv then getenvelope env header else getheader env header) of
        Some (h # _) \<Rightarrow> do {
          let addlen = length h + 1;
          b \<leftarrow> buf_strcat h (buf_room addlen b);
          Some (b\<lparr>nb_outlen := nb_outlen b + addlen\<rparr>)
        }
      | _ \<Rightarrow> Some b)"

text \<open>
  Appending \<^verbatim>\<open>n\<close> bytes of \<^verbatim>\<open>t\<close>, up to a NUL; \<^verbatim>\<open>t\<close> is the memory from its start.
\<close>

definition add_text :: "nat \<Rightarrow> string \<Rightarrow> notify_buf \<Rightarrow> notify_buf option" where
  "add_text n t b = do {
     let b = buf_room (n + 1) b;
     b \<leftarrow> buf_strcat (takeWhile (\<lambda>c. c \<noteq> NUL) (take n t)) b;
     b \<leftarrow> buf_terminate (nb_outlen b + n) b;
     Some (b\<lparr>nb_outlen := nb_outlen b + n\<rparr>)
   }"

text \<open>
  The number in \<^verbatim>\<open>$text[n]$\<close>, of type \<^verbatim>\<open>size_t\<close>, and the text behind the two characters that end
  it; \<^verbatim>\<open>None\<close> when the string ends first.
\<close>

fun text_number :: "64 word \<Rightarrow> string \<Rightarrow> (64 word \<times> string) option" where
  "text_number n [] = None"
| "text_number n (c # s) =
     (if c = CHR '']'' then (if s = [] then None else Some (n, tl s))
      else text_number (n * 10 + (of_int (schar c) - 48)) s)"

lemma text_number_shorter: "text_number n s = Some (k, r) \<Longrightarrow> length r < length s"
  by (induction n s rule: text_number.induct) (auto split: if_splits)

definition first_text :: "'r sieve_env \<Rightarrow> bodypart option" where
  "first_text env = (case snd (getbody env [Some ''text'']) of Some (p # _) \<Rightarrow> Some p | _ \<Rightarrow> None)"

definition text_size :: "'r sieve_env \<Rightarrow> bodypart \<Rightarrow> body_cache \<Rightarrow> nat \<times> body_cache" where
  "text_size env p cache = (case part_content env B_TEXT p cache of (_, sz, cache) \<Rightarrow> (sz, cache))"

definition add_body :: "'r sieve_env \<Rightarrow> 64 word \<Rightarrow> body_cache \<times> notify_buf \<Rightarrow> (body_cache \<times> notify_buf) option" where
  "add_body env n s = (case s of (cache, b) \<Rightarrow>
     (case first_text env of
        None \<Rightarrow> Some s
      | Some p \<Rightarrow> do {
          let (sz, cache) = text_size env p cache;
          let k = (if n = 0 \<or> n > of_nat sz then sz else unat n);
          b \<leftarrow> (if k \<le> length (bp_content p) \<or> NUL \<in> set (bp_content p) then add_text k (bp_content p) b else None);
          Some (cache, b)
        }))"

function build_loop ::
  "'r sieve_env \<Rightarrow> bool \<Rightarrow> string \<Rightarrow> body_cache \<times> notify_buf \<Rightarrow> (body_cache \<times> notify_buf) option" where
  "build_loop env body c s =
     (if c = [] then Some s
      else if strncase_eq c ''$from$'' 6 then do {
        b \<leftarrow> add_header env False ''From'' (snd s);
        build_loop env body (drop 6 c) (fst s, b)
      }
      else if strncase_eq c ''$env-from$'' 10 then do {
        b \<leftarrow> add_header env True ''From'' (snd s);
        build_loop env body (drop 10 c) (fst s, b)
      }
      else if strncase_eq c ''$subject$'' 9 then do {
        b \<leftarrow> add_header env False ''Subject'' (snd s);
        build_loop env body (drop 9 c) (fst s, b)
      }
      else if body \<and> strncase_eq c ''$text'' 5 \<and> char_at c 5 = CHR ''['' then
        (case text_number 0 (drop 6 c) of
           None \<Rightarrow> None
         | Some (n, r) \<Rightarrow> do { s \<leftarrow> add_body env n s; build_loop env body r s })
      else if body \<and> strncase_eq c ''$text'' 5 \<and> char_at c 5 = CHR ''$'' then do {
        s \<leftarrow> add_body env 0 s;
        build_loop env body (drop 6 c) s
      }
      else do {
        let n = length (takeWhile (\<lambda>x. x \<noteq> CHR ''$'') (tl c)) + 1;
        b \<leftarrow> add_text n c (snd s);
        build_loop env body (drop n c) (fst s, b)
      })"
  by pat_completeness auto
termination
  by (relation "measure (\<lambda>(env, body, c, s). length c)") (auto dest: text_number_shorter)

declare build_loop.simps [simp del]

definition build_notify_message ::
  "'r sieve_env \<Rightarrow> bool \<Rightarrow> string option \<Rightarrow> body_cache \<Rightarrow> (body_cache \<times> notify_buf) option" where
  "build_notify_message env body msg cache =
     (let b = \<lparr>nb_out = [], nb_outlen = 0, nb_alloc = GROW_AMOUNT\<rparr> in
      case msg of None \<Rightarrow> Some (cache, b) | Some msg \<Rightarrow> build_loop env body msg (cache, b))"

text \<open>
  \<^verbatim>\<open>send_notify_callback\<close>: the assertion that the notification is active is the test of its
  caller.
\<close>

definition send_notify_callback ::
  "'r sieve_env \<Rightarrow> bool \<Rightarrow> site \<Rightarrow> notify_item \<Rightarrow> script_state \<Rightarrow> (int \<times> script_state) option" where
  "send_notify_callback env body site n s =
     (case (ni_method n, ni_options n, ni_priority n, ni_message n) of
        (Some method, Some options, Some priority, Some message) \<Rightarrow> do {
          (cache, b) \<leftarrow> build_notify_message env body (Some message) (sc_cache s);
          let msg = nb_out b @ [LF, LF] @ sc_actions_string s;
          if length msg < nb_outlen b + length (sc_actions_string s) + 30
          then Some (callback site (EV_NOTIFY method options priority msg) (s\<lparr>sc_cache := cache\<rparr>))
          else None
        }
      | _ \<Rightarrow> Some (SIEVE_RUN_ERROR, s))"

section \<open>Errors\<close>

datatype lastaction = NoAction | Last action_data | LastNotify

fun action_to_string :: "action_data \<Rightarrow> string" where
  "action_to_string (ACTION_REJECT _) = ''Reject''"
| "action_to_string (ACTION_FILEINTO _) = ''Fileinto''"
| "action_to_string ACTION_KEEP = ''Keep''"
| "action_to_string (ACTION_REDIRECT _) = ''Redirect''"
| "action_to_string ACTION_DISCARD = ''Discard''"
| "action_to_string (ACTION_VACATION _) = ''Vacation''"
| "action_to_string (ACTION_SETFLAG _) = ''Setflag''"
| "action_to_string (ACTION_ADDFLAG _) = ''Addflag''"
| "action_to_string (ACTION_REMOVEFLAG _) = ''Removeflag''"
| "action_to_string ACTION_MARK = ''Mark''"
| "action_to_string ACTION_UNMARK = ''Unmark''"
| "action_to_string ACTION_NONE = ''Unknown''"

definition sieve_errstr :: "int \<Rightarrow> string" where
  "sieve_errstr code =
     (if code = SIEVE_FAIL then ''Generic Error''
      else if code = SIEVE_NOT_FINALIZED then ''Sieve not finalized''
      else if code = SIEVE_PARSE_ERROR then ''Parse error''
      else if code = SIEVE_RUN_ERROR then ''Run error''
      else if code = SIEVE_INTERNAL_ERROR then ''Internal Error''
      else if code = SIEVE_NOMEM then ''No memory''
      else ''Unknown error'')"

definition ACTIONS_STRING_LEN :: nat where
  "ACTIONS_STRING_LEN = 4096"

definition append_bounded :: "string \<Rightarrow> script_state \<Rightarrow> script_state" where
  "append_bounded t s = (let a = sc_actions_string s in
     s\<lparr>sc_actions_string := a @ take (ACTIONS_STRING_LEN - 1 - length a) t\<rparr>)"

text \<open>
  \<^verbatim>\<open>snprintf\<close> with the bound \<^verbatim>\<open>sizeof(actions_string)-strlen(actions_string)\<close>, where
  \<^verbatim>\<open>actions_string\<close> is a pointer of eight bytes: the difference of the two \<^verbatim>\<open>size_t\<close> values wraps
  around when the string is longer than that, and nothing is bounded.
\<close>

definition append_sizeof :: "string \<Rightarrow> script_state \<Rightarrow> script_state option" where
  "append_sizeof t s = (let a = sc_actions_string s; n = length a in
     if n < 8 then Some (s\<lparr>sc_actions_string := a @ take (7 - n) t\<rparr>)
     else if n = 8 then Some s
     else if n + length t < ACTIONS_STRING_LEN then Some (s\<lparr>sc_actions_string := a @ t\<rparr>)
     else None)"

definition error_text :: "int \<Rightarrow> script_state \<Rightarrow> string" where
  "error_text ret s = (case sc_errmsg s of Some m \<Rightarrow> m | None \<Rightarrow> sieve_errstr ret)"

definition last_name :: "lastaction \<Rightarrow> string option" where
  "last_name la = (case la of NoAction \<Rightarrow> None | Last d \<Rightarrow> Some (action_to_string d) | LastNotify \<Rightarrow> Some ''Notify'')"

definition note_failure :: "int \<Rightarrow> lastaction \<Rightarrow> script_state \<Rightarrow> script_state" where
  "note_failure ret la s =
     (if ret = SIEVE_OK then s
      else append_bounded (case last_name la of
          None \<Rightarrow> ''script execution failed: '' @ error_text ret s @ [LF]
        | Some a \<Rightarrow> a @ '' action failed: '' @ error_text ret s @ [LF]) s)"

text \<open>The loop over the notifications: the codes collected in \<^verbatim>\<open>ret\<close>, and the last code.\<close>

fun notify_loop ::
  "'r sieve_env \<Rightarrow> bool \<Rightarrow> site \<Rightarrow> notify_item list \<Rightarrow> int \<times> int \<times> lastaction \<times> script_state \<Rightarrow>
   (int \<times> int \<times> lastaction \<times> script_state) option" where
  "notify_loop env body site [] x = Some x"
| "notify_loop env body site (n # ns) (ret, notify_ret, la, s) =
     (if ni_isactive n
      then do {
        (notify_ret, s) \<leftarrow> send_notify_callback env body site n s;
        notify_loop env body site ns (ret OR notify_ret, notify_ret, LastNotify, s)
      }
      else notify_loop env body site ns (ret, notify_ret, la, s))"

definition report_error ::
  "interp_callbacks \<Rightarrow> site \<Rightarrow> int \<Rightarrow> lastaction \<Rightarrow> script_state \<Rightarrow> (int \<times> script_state) option" where
  "report_error i site ret la s =
     (if ret \<noteq> SIEVE_OK \<and> has_err i
      then let buf = (case last_name la of None \<Rightarrow> [] | Some a \<Rightarrow> a @ '': '') @ error_text ret s in
        if length buf < 1024 \<and> has_execute_err i
        then (case callback site (EV_EXECUTE_ERR buf) s of (r, s') \<Rightarrow>
                Some (ret OR r, s'\<lparr>sc_errmsg := sc_errmsg s\<rparr>))
        else None
      else Some (ret, s))"

text \<open>
  \<^verbatim>\<open>do_sieve_error\<close>, with the part behind the notifications as \<^verbatim>\<open>error_tail\<close>; each calls the
  function again, without notifications or without the implicit keep.
\<close>

function do_sieve_error ::
    "'r sieve_env \<Rightarrow> interp_callbacks \<Rightarrow> site \<Rightarrow> int \<Rightarrow> notify_item list \<Rightarrow> lastaction \<Rightarrow> bool \<Rightarrow> script_state \<Rightarrow>
     (int \<times> script_state) option"
  and error_tail ::
    "'r sieve_env \<Rightarrow> interp_callbacks \<Rightarrow> site \<Rightarrow> int \<Rightarrow> notify_item list \<Rightarrow> lastaction \<Rightarrow> bool \<Rightarrow> script_state \<Rightarrow>
     (int \<times> script_state) option" where
  "do_sieve_error env i site ret ns la implicit_keep s =
     (let s = note_failure ret la s in
      if has_notify i \<and> ns \<noteq> []
      then do {
        (ret, notify_ret, la, s) \<leftarrow> notify_loop env (has_getbody i) site ns (ret, SIEVE_OK, la, s);
        if notify_ret \<noteq> SIEVE_OK
        then do_sieve_error env i site ret [] la implicit_keep s
        else error_tail env i site ret [] la implicit_keep s
      }
      else error_tail env i site ret ns la implicit_keep s)"
| "error_tail env i site ret ns la implicit_keep s = do {
     (ret, s) \<leftarrow> report_error i site ret la s;
     if implicit_keep
     then if \<not> has_keep i then None
       else (case callback site (EV_KEEP (sc_flags s)) s of (keep_ret, s) \<Rightarrow>
         if keep_ret = SIEVE_OK
         then do { s \<leftarrow> append_sizeof (''Kept'' @ [LF]) s; Some (ret OR keep_ret, s) }
         else do_sieve_error env i site (ret OR keep_ret) ns (Last ACTION_KEEP) False s)
     else Some (ret, s)
   }"
  by pat_completeness auto
termination
  by (relation "measure (\<lambda>x. case x of
      Inl (_, _, _, _, ns, _, k, _) \<Rightarrow> 2 * (of_bool (ns \<noteq> []) + of_bool k) + 1
    | Inr (_, _, _, _, ns, _, k, _) \<Rightarrow> 2 * (of_bool (ns \<noteq> []) + of_bool k))") auto

declare do_sieve_error.simps [simp del] error_tail.simps [simp del]

section \<open>Actions\<close>

text \<open>An action that returns from \<^verbatim>\<open>do_action_list\<close> at once, or its code.\<close>

datatype performed = Return_now int | Performed int script_state

definition perform_callback ::
  "bool \<Rightarrow> site \<Rightarrow> site_event \<Rightarrow> string option \<Rightarrow> script_state \<Rightarrow> performed option" where
  "perform_callback registered site e note s =
     (if \<not> registered then Some (Return_now SIEVE_INTERNAL_ERROR)
      else case callback site e s of (ret, s) \<Rightarrow>
        if ret = SIEVE_OK
        then do { t \<leftarrow> note; s \<leftarrow> append_sizeof t s; Some (Performed ret s) }
        else Some (Performed ret s))"

definition perform_discard :: "interp_callbacks \<Rightarrow> site \<Rightarrow> script_state \<Rightarrow> performed option" where
  "perform_discard i site s =
     (case (if has_discard i then callback site EV_DISCARD s else (SIEVE_OK, s)) of (ret, s) \<Rightarrow>
        if ret = SIEVE_OK
        then do { s \<leftarrow> append_sizeof (''Discarded'' @ [LF]) s; Some (Performed ret s) }
        else Some (Performed ret s))"

definition perform_vacation :: "interp_callbacks \<Rightarrow> site \<Rightarrow> vacation_ctx \<Rightarrow> script_state \<Rightarrow> performed option" where
  "perform_vacation i site v s =
     (if \<not> has_vacation i then Some (Return_now SIEVE_INTERNAL_ERROR)
      else case callback site (EV_AUTORESPOND (vac_hash v) (vac_days v)) s of (ret, s) \<Rightarrow>
        if ret = SIEVE_OK
        then (case callback site (EV_SEND_RESPONSE v) s of (ret, s) \<Rightarrow>
          if ret = SIEVE_OK
          then do { s \<leftarrow> append_sizeof (''Sent vacation reply'' @ [LF]) s; Some (Performed ret s) }
          else Some (Performed ret s))
        else if ret = SIEVE_DONE
        then do { s \<leftarrow> append_sizeof (''Vacation reply suppressed'' @ [LF]) s; Some (Performed SIEVE_OK s) }
        else Some (Performed ret s))"

definition perform_flags :: "(string list \<Rightarrow> string list option) \<Rightarrow> script_state \<Rightarrow> performed option" where
  "perform_flags f s = do { fs \<leftarrow> f (sc_flags s); Some (Performed SIEVE_OK (s\<lparr>sc_flags := fs\<rparr>)) }"

fun perform :: "interp_callbacks \<Rightarrow> site \<Rightarrow> action_data \<Rightarrow> script_state \<Rightarrow> performed option" where
  "perform i site (ACTION_REJECT msg) s = perform_callback (has_reject i) site (EV_REJECT msg)
     (map_option (\<lambda>m. ''Rejected with: '' @ m @ [LF]) msg) s"
| "perform i site (ACTION_FILEINTO mbox) s = perform_callback (has_fileinto i) site (EV_FILEINTO mbox (sc_flags s))
     (map_option (\<lambda>m. ''Filed into: '' @ m @ [LF]) mbox) s"
| "perform i site ACTION_KEEP s = perform_callback (has_keep i) site (EV_KEEP (sc_flags s))
     (Some (''Kept'' @ [LF])) s"
| "perform i site (ACTION_REDIRECT addr) s = perform_callback (has_redirect i) site (EV_REDIRECT addr)
     (map_option (\<lambda>m. ''Redirected to '' @ m @ [LF]) addr) s"
| "perform i site ACTION_DISCARD s = perform_discard i site s"
| "perform i site (ACTION_VACATION v) s = perform_vacation i site v s"
| "perform i site (ACTION_SETFLAG flag) s = perform_flags (\<lambda>fs. sieve_addflag flag (free_imapflags fs)) s"
| "perform i site (ACTION_ADDFLAG flag) s = perform_flags (sieve_addflag flag) s"
| "perform i site (ACTION_REMOVEFLAG flag) s = perform_flags (sieve_removeflag flag) s"
| "perform i site ACTION_MARK s = perform_flags (\<lambda>fs. do { ms \<leftarrow> markflags i; mark_loop sieve_addflag (rev ms) fs }) s"
| "perform i site ACTION_UNMARK s = perform_flags (\<lambda>fs. do { ms \<leftarrow> markflags i; mark_loop sieve_removeflag (rev ms) fs }) s"
| "perform i site ACTION_NONE s = Some (Performed SIEVE_OK s)"

text \<open>
  The loop of \<^verbatim>\<open>do_action_list\<close>: a code to return at once, or the code, the last action, whether
  to keep the message and the state.
\<close>

fun perform_loop ::
  "interp_callbacks \<Rightarrow> site \<Rightarrow> action list \<Rightarrow> lastaction \<Rightarrow> bool \<Rightarrow> script_state \<Rightarrow>
   ((int \<times> script_state) + (int \<times> lastaction \<times> bool \<times> script_state)) option" where
  "perform_loop i site [] la implicit_keep s = Some (Inr (SIEVE_OK, la, implicit_keep, s))"
| "perform_loop i site (a # as) la implicit_keep s = do {
     let la = Last (act a);
     let s = s\<lparr>sc_errmsg := None\<rparr>;
     let implicit_keep = (implicit_keep \<and> \<not> cancel_keep a);
     p \<leftarrow> perform i site (act a) s;
     (case p of
        Return_now ret \<Rightarrow> Some (Inl (ret, s))
      | Performed ret s \<Rightarrow>
          if ret \<noteq> SIEVE_OK then Some (Inr (ret, la, implicit_keep, s))
          else perform_loop i site as la implicit_keep s)
   }"

definition do_action_list ::
  "'r sieve_env \<Rightarrow> interp_callbacks \<Rightarrow> site \<Rightarrow> action list \<Rightarrow> notify_item list \<Rightarrow> script_state \<Rightarrow>
   (int \<times> script_state) option" where
  "do_action_list env i site as ns s = do {
     r \<leftarrow> perform_loop i site as NoAction True (s\<lparr>sc_actions_string := ''Action(s) taken:'' @ [LF]\<rparr>);
     (case r of
        Inl x \<Rightarrow> Some x
      | Inr (ret, la, implicit_keep, s) \<Rightarrow> do_sieve_error env i site ret ns la implicit_keep s)
   }"

section \<open>A run\<close>

definition body_cache0 :: body_cache where
  "body_cache0 = \<lparr>ht_size = 10, ht_table = replicate 10 [], ht_pool = True\<rparr>"

definition start_state :: "interp_callbacks \<Rightarrow> run_state" where
  "start_state i = \<lparr>rs_actions = new_action_list, rs_notify = (if has_notify i then new_notify_list else []),
     rs_cache = body_cache0, rs_errmsg = None\<rparr>"

definition script_start :: "run_state \<Rightarrow> script_state" where
  "script_start st = \<lparr>sc_flags = [], sc_actions_string = [], sc_cache = rs_cache st,
     sc_errmsg = rs_errmsg st, sc_trace = []\<rparr>"

definition sieve_execute_bytecode ::
  "nat \<Rightarrow> scripts \<Rightarrow> 'r sieve_env \<Rightarrow> interp_callbacks \<Rightarrow> site \<Rightarrow> execute \<Rightarrow> (int \<times> execute \<times> script_state) option" where
  "sieve_execute_bytecode fuel fs env i site exe = do {
     (ret, exe, st) \<leftarrow> sieve_eval_bc fuel fs env False exe (start_state i);
     (ret, s) \<leftarrow>
       (if ret < 0
        then do_sieve_error env i site SIEVE_RUN_ERROR (rs_notify st) NoAction False (script_start st)
        else do_action_list env i site (rs_actions st) (rs_notify st) (script_start st));
     Some (ret, exe, s)
   }"

end
