(* ===== verification/Sieve_Decode.thy ===== *)
theory Sieve_Decode
  imports Sieve_Eval
begin

text \<open>
  Reading back what the compiler wrote: words, strings and string lists of the encoding as the
  interpreter finds them at a word position of the file, and the loops of the matching
  tests over such lists.
\<close>

section \<open>Bytes at a position\<close>

definition bytes_at :: "string \<Rightarrow> nat \<Rightarrow> string \<Rightarrow> bool" where
  "bytes_at bc p s \<longleftrightarrow> (\<exists>r. drop p bc = s @ r)"

lemma bytes_at_append:
  "bytes_at bc p (a @ b) \<longleftrightarrow> bytes_at bc p a \<and> bytes_at bc (p + length a) b"
proof
  assume "bytes_at bc p (a @ b)"
  then obtain r where r: "drop p bc = a @ b @ r" by (auto simp: bytes_at_def)
  then have "drop (length a) (drop p bc) = b @ r" by simp
  then have "drop (p + length a) bc = b @ r" by (simp add: add.commute)
  with r show "bytes_at bc p a \<and> bytes_at bc (p + length a) b"
    by (auto simp: bytes_at_def)
next
  assume *: "bytes_at bc p a \<and> bytes_at bc (p + length a) b"
  then obtain r q where r: "drop p bc = a @ r" and q: "drop (p + length a) bc = b @ q"
    by (auto simp: bytes_at_def)
  from r have "drop (length a) (drop p bc) = r" by simp
  then have "r = b @ q" using q by (simp add: add.commute)
  with r show "bytes_at bc p (a @ b)" by (auto simp: bytes_at_def)
qed

lemma bytes_at_Nil [simp]: "bytes_at bc p []"
  by (simp add: bytes_at_def)

lemma bc_word_at: "bytes_at bc (4 * i) (htonl x) \<Longrightarrow> bc_word bc i = Some x"
proof -
  assume "bytes_at bc (4 * i) (htonl x)"
  then obtain r where r: "drop (4 * i) bc = htonl x @ r" by (auto simp: bytes_at_def)
  then have "length (drop (4 * i) bc) = 4 + length r" by simp
  then have "4 * i + 4 \<le> length bc" by simp
  with r show ?thesis by (simp add: bc_word_def)
qed

lemma ROUNDUP_nat:
  assumes "n + 3 < 2 ^ 32"
  shows "unat (ROUNDUP (of_nat n)) = 4 * ((n + 3) div 4)"
proof -
  have eq: "(0xFFFFFFFC :: cint) = NOT (mask 2)" by (simp add: mask_eq_exp_minus_1 not_eq_complement)
  have "(of_nat n + 3 :: cint) = of_nat (n + 3)" by simp
  moreover have "x AND NOT (mask 2) = push_bit 2 (drop_bit 2 x)" for x :: cint
    by (rule bit_eqI) (auto simp: bit_simps not_less le_Suc_ex dest!: le_Suc_ex)
  ultimately have *: "ROUNDUP (of_nat n) = push_bit 2 (drop_bit 2 (of_nat (n + 3) :: cint))"
    unfolding ROUNDUP_def eq by metis
  have k: "unat (of_nat (n + 3) :: cint) = n + 3"
    using assms by (simp only: unsigned_of_nat) (simp add: take_bit_nat_eq_self)
  have "4 * ((n + 3) div 4) < 2 ^ 32" using assms by linarith
  then show ?thesis
    unfolding * by (simp only: unsigned_push_bit_eq unsigned_drop_bit_eq k)
      (simp add: take_bit_nat_eq_self push_bit_eq_mult drop_bit_eq_div assms mult.commute)
qed

section \<open>Strings and string lists\<close>

text \<open>Strings as the compiler gets them: without a NUL and shorter than \<^verbatim>\<open>2^31\<close>.\<close>

definition cstr :: "string \<Rightarrow> bool" where
  "cstr s \<longleftrightarrow> NUL \<notin> set s \<and> length s < 2 ^ 31"

lemma word4 [simp]: "length (htonl x) div 4 = 1" by simp

lemma enc_string_words: "length (enc_string s) = 4 * (length (enc_string s) div 4)"
proof -
  have "4 dvd length (enc_string s)"
    by (cases s) (simp_all add: enc_string_def pad_string_align align_needed_def dvd_eq_mod_eq_0, presburger)
  then show ?thesis by simp
qed

lemma unwrap_enc:
  assumes "bytes_at bc (4 * i) (enc_string s)" and "\<And>str. s = Some str \<Longrightarrow> cstr str"
  shows "unwrap_string bc i = Some (s, i + length (enc_string s) div 4)"
proof (cases s)
  case None
  with assms bc_word_at [of bc i "- 1"] show ?thesis
    by (simp add: unwrap_string_def enc_string_def)
next
  case (Some str)
  let ?n = "length str"
  have at: "bytes_at bc (4 * i) (htonl (of_nat ?n))" "bytes_at bc (4 * (i + 1)) (pad_string str)"
    using assms(1) by (simp_all add: Some enc_string_def bytes_at_append add.commute)
  have n: "?n < 2 ^ 31" and nul: "NUL \<notin> set str" using assms(2) Some by (auto simp: cstr_def)
  have ne: "(of_nat ?n :: cint) \<noteq> - 1"
  proof
    assume "(of_nat ?n :: cint) = - 1"
    then have "sint (of_nat ?n :: cint) = - 1" by simp
    then show False using sint_of_nat_small [OF n] by simp
  qed
  obtain r where r: "drop (4 * (i + 1)) bc = str @ replicate (align_needed ?n) NUL @ r"
    using at(2) by (auto simp: bytes_at_def pad_string_align)
  obtain k where k: "align_needed ?n = Suc k"
    by (cases "align_needed ?n") (auto simp: align_needed_def)
  have c: "cstring_at bc (i + 1) = Some str"
    using nul unfolding cstring_at_def Let_def r k by (auto simp: takeWhile_tail)
  have "(of_nat ?n + 1 :: cint) = of_nat (?n + 1)" by simp
  then have u: "unat (ROUNDUP (of_nat ?n + 1)) = 4 * ((?n + 4) div 4)"
    using ROUNDUP_nat [of "?n + 1"] n by (simp add: algebra_simps)
  have "length (enc_string s) div 4 = 1 + (?n + 4) div 4"
    by (simp add: Some enc_string_def pad_string_align align_needed_def) presburger
  then show ?thesis
    using bc_word_at [OF at(1)] ne c u by (simp add: unwrap_string_def Some)
qed

text \<open>The loop over the strings of a list, on the list itself.\<close>

fun for_list :: "('s \<Rightarrow> bool) \<Rightarrow> (string option \<Rightarrow> 's \<Rightarrow> 's option) \<Rightarrow> string list \<Rightarrow> 's \<Rightarrow> 's option" where
  "for_list go body [] s = Some s"
| "for_list go body (x # xs) s =
     (if \<not> go s then Some s else Option.bind (body (Some x) s) (for_list go body xs))"

lemma bytes_at_words:
  "4 * (length a div 4) = length a \<Longrightarrow> bytes_at bc (4 * i) (a @ b) \<Longrightarrow>
   bytes_at bc (4 * (i + length a div 4)) b"
  by (simp add: bytes_at_append algebra_simps)

lemma for_strings_enc:
  "bytes_at bc (4 * i) (enc_strings sl) \<Longrightarrow> list_all cstr sl \<Longrightarrow>
   map_option fst (for_strings bc (length sl) i go body s) = for_list go body sl s"
proof (induction sl arbitrary: i s)
  case (Cons x sl)
  have x: "unwrap_string bc i = Some (Some x, i + length (enc_string (Some x)) div 4)"
    using Cons.prems by (intro unwrap_enc) (auto simp: enc_strings_Cons bytes_at_append)
  have "bytes_at bc (4 * (i + length (enc_string (Some x)) div 4)) (enc_strings sl)"
    using Cons.prems(1) enc_string_words [of "Some x"]
    by (intro bytes_at_words) (auto simp: enc_strings_Cons)
  with Cons x show ?case by (cases "body (Some x) s") auto
qed simp

lemma for_strings_all:
  "bytes_at bc (4 * i) (enc_strings sl) \<Longrightarrow> list_all cstr sl \<Longrightarrow>
   for_strings bc (length sl) i (\<lambda>_. True) body s =
     map_option (\<lambda>s. (s, i + length (enc_strings sl) div 4)) (for_list (\<lambda>_. True) body sl s)"
proof (induction sl arbitrary: i s)
  case Nil
  then show ?case by (simp add: enc_strings_def)
next
  case (Cons x sl)
  let ?l = "length (enc_string (Some x)) div 4"
  have x: "unwrap_string bc i = Some (Some x, i + ?l)"
    using Cons.prems by (intro unwrap_enc) (auto simp: enc_strings_Cons bytes_at_append)
  have "bytes_at bc (4 * (i + ?l)) (enc_strings sl)"
    using Cons.prems(1) enc_string_words [of "Some x"]
    by (intro bytes_at_words) (auto simp: enc_strings_Cons)
  moreover have "length (enc_strings (x # sl)) div 4 = ?l + length (enc_strings sl) div 4"
    using enc_string_words [of "Some x"] by (simp add: enc_strings_Cons)
  ultimately show ?case using Cons x by (cases "body (Some x) s") (auto simp: add.assoc)
qed

lemma bytes_at_bound: "bytes_at bc p s \<Longrightarrow> s \<noteq> [] \<Longrightarrow> p + length s \<le> length bc"
proof -
  assume "bytes_at bc p s" and ne: "s \<noteq> []"
  then obtain r where "drop p bc = s @ r" by (auto simp: bytes_at_def)
  then have "length bc - p = length s + length r" by (metis length_append length_drop)
  with ne show ?thesis by (cases s) auto
qed

lemma rounds_of_nat [simp]: "n < 2 ^ 31 \<Longrightarrow> rounds (of_nat n) = n"
  by (simp add: rounds_def sint_of_nat_small)

lemma unat_of_nat_small: "n < 2 ^ 31 \<Longrightarrow> unat (of_nat n :: cint) = n"
  by (simp add: unsigned_of_nat take_bit_nat_eq_self)

lemma enc_strings_words: "4 * (length (enc_strings sl) div 4) = length (enc_strings sl)"
proof (induction sl)
  case (Cons x sl)
  with enc_string_words [of "Some x"] show ?case by simp presburger
qed (simp add: enc_strings_def)

lemma enc_strings_count: "length sl \<le> length (enc_strings sl)"
  by (induction sl) (auto simp: enc_string_def)

text \<open>A string list in the file: its number of strings, its end and its strings.\<close>

lemma stringlist_at:
  assumes at: "bytes_at bc (4 * i) (enc_stringlist (4 * i) sl)" and bc: "length bc < 2 ^ 31"
  shows "bc_word bc i = Some (of_nat (length sl))" and "length sl < 2 ^ 31"
    and "map_option (\<lambda>w. unat w div 4) (bc_word bc (i + 1)) =
           Some (i + length (enc_stringlist (4 * i) sl) div 4)"
    and "bytes_at bc (4 * (i + 2)) (enc_strings sl)"
    and "length (enc_stringlist (4 * i) sl) div 4 = 2 + length (enc_strings sl) div 4"
proof -
  let ?b = "enc_strings sl"
  have *: "bytes_at bc (4 * i) (htonl (of_nat (length sl)))"
    "bytes_at bc (4 * (i + 1)) (htonl (of_nat (4 * i + 8 + length ?b)))"
    "bytes_at bc (4 * (i + 2)) ?b"
    using at by (simp_all add: enc_stringlist_def enc_list_def bytes_at_append algebra_simps)
  show "bc_word bc i = Some (of_nat (length sl))" by (rule bc_word_at) (rule *)
  have le: "4 * i + 8 + length ?b \<le> length bc"
    using bytes_at_bound [OF at] by (auto simp: enc_stringlist_def enc_list_def)
  then show "length sl < 2 ^ 31" using bc enc_strings_count [of sl] by linarith
  show l: "length (enc_stringlist (4 * i) sl) div 4 = 2 + length ?b div 4"
    by (simp add: enc_stringlist_def enc_list_def)
  have "unat (of_nat (4 * i + 8 + length ?b) :: cint) = 4 * i + 8 + length ?b"
    using le bc by (intro unat_of_nat_small) linarith
  then show "map_option (\<lambda>w. unat w div 4) (bc_word bc (i + 1)) =
      Some (i + length (enc_stringlist (4 * i) sl) div 4)"
    using bc_word_at [OF *(2)] l by simp
  show "bytes_at bc (4 * (i + 2)) ?b" by (rule *)
qed

lemma enc_words_at: "bytes_at bc (4 * i) (enc_words ws) \<Longrightarrow> k < length ws \<Longrightarrow> bc_word bc (i + k) = Some (ws ! k)"
proof (induction ws arbitrary: i k)
  case (Cons w ws)
  have w: "bytes_at bc (4 * i) (htonl w)" "bytes_at bc (4 * (i + 1)) (enc_words ws)"
    using Cons.prems(1) by (simp_all add: enc_words_def bytes_at_append add.commute)
  show ?case
  proof (cases k)
    case 0
    then show ?thesis using bc_word_at [OF w(1)] by simp
  next
    case (Suc j)
    then show ?thesis using Cons.IH [OF w(2), of j] Cons.prems(2) by simp
  qed
qed simp

text \<open>A matching test in the file.\<close>

lemma match_at:
  fixes i :: nat and ws :: "cint list" and sl pl :: stringlist
  defines "listi \<equiv> i + 1 + length ws"
  defines "datai \<equiv> listi + length (enc_stringlist (4 * listi) sl) div 4"
  assumes at: "bytes_at bc (4 * i) (htonl opcode @ enc_match (4 * i + 4) ws sl pl)"
  shows "\<And>k. k < length ws \<Longrightarrow> bc_word bc (i + 1 + k) = Some (ws ! k)"
    and "bytes_at bc (4 * listi) (enc_stringlist (4 * listi) sl)"
    and "bytes_at bc (4 * datai) (enc_stringlist (4 * datai) pl)"
    and "i + length (htonl opcode @ enc_match (4 * i + 4) ws sl pl) div 4 =
           datai + length (enc_stringlist (4 * datai) pl) div 4"
proof -
  let ?sl = "enc_stringlist (4 * listi) sl"
  have l: "length (enc_words ws) = 4 * length ws" by (simp add: enc_words_length)
  have li: "4 * i + 4 + 4 * length ws = 4 * listi" by (simp add: listi_def)
  have s4: "length ?sl = 4 * (length ?sl div 4)"
    using enc_strings_words [of sl] by (simp add: enc_stringlist_def enc_list_def) presburger
  have di: "4 * listi + length ?sl = 4 * datai" using s4 by (simp add: datai_def)
  have e: "enc_match (4 * i + 4) ws sl pl = enc_words ws @ ?sl @ enc_stringlist (4 * datai) pl"
    by (simp only: enc_match_def Let_def l li di)
  have *: "bytes_at bc (4 * (i + 1)) (enc_words ws)" "bytes_at bc (4 * listi) ?sl"
    "bytes_at bc (4 * datai) (enc_stringlist (4 * datai) pl)"
  proof -
    have "bytes_at bc (4 * i + 4) (enc_words ws)" "bytes_at bc (4 * i + 4 + 4 * length ws) ?sl"
      "bytes_at bc (4 * i + 4 + 4 * length ws + length ?sl) (enc_stringlist (4 * datai) pl)"
      using at unfolding e by (simp_all only: bytes_at_append htonl_length l simp_thms)
    then show "bytes_at bc (4 * (i + 1)) (enc_words ws)" "bytes_at bc (4 * listi) ?sl"
      "bytes_at bc (4 * datai) (enc_stringlist (4 * datai) pl)"
      unfolding li di by (simp_all add: add.commute)
  qed
  show "bc_word bc (i + 1 + k) = Some (ws ! k)" if "k < length ws" for k
    using enc_words_at [OF *(1) that] .
  show "bytes_at bc (4 * listi) ?sl" "bytes_at bc (4 * datai) (enc_stringlist (4 * datai) pl)"
    by (rule *)+
  show "i + length (htonl opcode @ enc_match (4 * i + 4) ws sl pl) div 4 =
      datai + length (enc_stringlist (4 * datai) pl) div 4"
    unfolding e using s4 by (simp add: l datai_def listi_def)
qed

section \<open>What a test means\<close>

text \<open>
  A comparison of a text with a string of the script: \<^verbatim>\<open>None\<close> when the comparator does not
  exist, the regular expression does not compile or the comparison reads off its strings.
\<close>

definition comp_of :: "match_spec \<Rightarrow> comparator_t option" where
  "comp_of m = lookup_comp (the (comparator_value (comparator m)))
     (the (comptag_value (comptag m))) (relation_value (relation m))"

definition sat :: "'r sieve_env \<Rightarrow> match_spec \<Rightarrow> string \<Rightarrow> nat \<Rightarrow> string \<Rightarrow> bool option" where
  "sat env m text tlen pat = do {
     c \<leftarrow> comp_of m;
     if comptag m = TK_REGEX then do {
       reg \<leftarrow> regcomp env pat (the (comparator_value (comparator m)) = B_ASCIICASEMAP);
       run_comp (regexec env) c text tlen (PReg reg)
     }
     else run_comp (regexec env) c text tlen (PStr pat)
   }"

definition hit :: "'r sieve_env \<Rightarrow> match_spec \<Rightarrow> stringlist \<Rightarrow> string \<times> nat \<Rightarrow> bool" where
  "hit env m pl it \<longleftrightarrow> (\<exists>pat \<in> set pl. sat env m (fst it) (snd it) pat = Some True)"

text \<open>
  A matching test on the items the message gives: with \<^verbatim>\<open>:count\<close> the number of items is
  compared, otherwise every item.
\<close>

definition count_item :: "'a list \<Rightarrow> string \<times> nat" where
  "count_item items = (let n = decimal (length items) in (n, length n))"

definition any_match :: "'r sieve_env \<Rightarrow> match_spec \<Rightarrow> (string \<times> nat) list \<Rightarrow> stringlist \<Rightarrow> bool" where
  "any_match env m items pl =
     (if comptag m = TK_COUNT then hit env m pl (count_item items)
      else (\<exists>it \<in> set items. hit env m pl it))"

definition item_ok :: "'r sieve_env \<Rightarrow> match_spec \<Rightarrow> stringlist \<Rightarrow> string \<times> nat \<Rightarrow> bool" where
  "item_ok env m pl it \<longleftrightarrow> (\<forall>pat \<in> set pl. sat env m (fst it) (snd it) pat \<noteq> None)"

definition items_ok :: "'r sieve_env \<Rightarrow> match_spec \<Rightarrow> (string \<times> nat) list \<Rightarrow> stringlist \<Rightarrow> bool" where
  "items_ok env m items pl \<longleftrightarrow> comp_of m \<noteq> None \<and>
     (if comptag m = TK_COUNT then length items < 100 \<and> item_ok env m pl (count_item items)
      else list_all (item_ok env m pl) items)"

text \<open>The arguments the interpreter finds for a specification.\<close>

definition args_of :: "match_spec \<Rightarrow> nat \<Rightarrow> stringlist \<Rightarrow> match_args \<Rightarrow> bool" where
  "args_of m datai pl ma \<longleftrightarrow> ma_match ma = the (comptag_value (comptag m)) \<and>
     ma_comparator ma = the (comparator_value (comparator m)) \<and> comp_of m = Some (ma_comp ma) \<and>
     ma_datai ma = datai \<and> ma_numdata ma = of_nat (length pl)"

lemma comptag_match:
  assumes "args_of m datai pl ma" and "wf_match m"
  shows "isReg ma \<longleftrightarrow> comptag m = TK_REGEX" and "ma_match ma = B_COUNT \<longleftrightarrow> comptag m = TK_COUNT"
  using assms by (auto simp: args_of_def isReg_def wf_match_def comptag_value_def split: if_splits)

lemma data_step_sat:
  assumes ma: "args_of m datai pl ma" and wf: "wf_match m" and "sat env m text tlen pat = Some b"
  shows "data_step env (ma_comp ma) (isReg ma) (ma_comparator ma = B_ASCIICASEMAP) text tlen (Some pat)
    = Some (of_bool b)"
  using assms(3) ma comptag_match(1) [OF ma wf]
  by (cases "comptag m = TK_REGEX")
    (auto simp: data_step_def sat_def args_of_def simp del: B_ASCIICASEMAP_def split: Option.bind_splits)

lemma data_loop_sat:
  assumes ma: "args_of m datai pl ma" and wf: "wf_match m"
    and at: "bytes_at bc (4 * datai) (enc_stringlist (4 * datai) pl)" and bc: "length bc < 2 ^ 31"
    and pl: "list_all cstr pl" and ok: "\<forall>pat \<in> set pl. sat env m text tlen pat \<noteq> None"
  shows "data_loop env bc ma text tlen 0 = Some (of_bool (\<exists>pat \<in> set pl. sat env m text tlen pat = Some True))"
proof -
  let ?body = "\<lambda>data_val _. data_step env (ma_comp ma) (isReg ma) (ma_comparator ma = B_ASCIICASEMAP) text tlen data_val"
  have step: "?body (Some pat) s = Some (of_bool (sat env m text tlen pat = Some True))"
    if "pat \<in> set pl" for pat and s :: int
    using ok that by (cases "sat env m text tlen pat")
      (auto simp: data_step_sat [OF ma wf] simp del: B_ASCIICASEMAP_def)
  have loop: "for_list (\<lambda>res. res = 0) ?body ps s = Some (if s = 0 then of_bool (\<exists>pat \<in> set ps. sat env m text tlen pat = Some True) else s)"
    if "set ps \<subseteq> set pl" for ps and s :: int
    using that
  proof (induction ps arbitrary: s)
    case (Cons p ps)
    then show ?case using step [of p] by (cases "sat env m text tlen p = Some True") auto
  qed simp
  from loop [of pl 0] show ?thesis
    using stringlist_at [OF at bc] ma pl
    by (simp add: data_loop_def args_of_def for_strings_enc)
qed

text \<open>The result and the count after a loop over some items.\<close>

definition accum ::
  "'r sieve_env \<Rightarrow> match_spec \<Rightarrow> stringlist \<Rightarrow> (string \<times> nat) list \<Rightarrow> nat \<Rightarrow> int \<times> nat" where
  "accum env m pl items c =
     (if comptag m = TK_COUNT then (0, c + length items)
      else (of_bool (\<exists>it \<in> set items. hit env m pl it), c))"

lemma accum_Nil [simp]: "accum env m pl [] c = (0, c)"
  by (simp add: accum_def)

lemma accum_append:
  "accum env m pl (xs @ ys) c =
     (case accum env m pl xs c of (res, c) \<Rightarrow> if res \<noteq> 0 then (res, c) else accum env m pl ys c)"
  by (auto simp: accum_def)

lemma for_list_accum:
  assumes "\<And>h c. h \<in> set sl \<Longrightarrow> body (Some h) (0, c) = Some (accum env m pl (its h) c)"
  shows "for_list (\<lambda>(res, count). res = 0) body sl (0, c) = Some (accum env m pl (concat (map its sl)) c)"
  using assms
proof (induction sl arbitrary: c)
  case (Cons h sl)
  obtain r d where rd: "accum env m pl (its h) c = (r, d)" by fastforce
  have stop: "for_list (\<lambda>(res, count). res = 0) body xs (r, d) = Some (r, d)" if "r \<noteq> 0" for xs
    using that by (cases xs) auto
  show ?case using Cons.prems(1) [of h c] Cons.IH [of d] Cons.prems rd stop
    by (cases "r = 0") (auto simp: accum_append)
qed simp

lemma decimal_short: "n < 100 \<Longrightarrow> length (decimal n) < 3"
proof -
  assume "n < 100"
  then have "n div 10 < 10" by linarith
  then show ?thesis by (simp add: decimal.simps [of n] decimal.simps [of "n div 10"])
qed

text \<open>The file has the strings \<^verbatim>\<open>pl\<close> to compare with at \<^verbatim>\<open>datai\<close>.\<close>

definition matching ::
  "string \<Rightarrow> match_spec \<Rightarrow> nat \<Rightarrow> stringlist \<Rightarrow> match_args \<Rightarrow> bool" where
  "matching bc m datai pl ma \<longleftrightarrow> args_of m datai pl ma \<and> wf_match m \<and> length bc < 2 ^ 31 \<and>
     bytes_at bc (4 * datai) (enc_stringlist (4 * datai) pl) \<and> list_all cstr pl"

lemma data_loop_hit:
  assumes "matching bc m datai pl ma" and "item_ok env m pl it"
  shows "data_loop env bc ma (fst it) (snd it) 0 = Some (of_bool (hit env m pl it))"
  using assms data_loop_sat [of m datai pl ma bc env "fst it" "snd it"]
  by (simp add: matching_def hit_def item_ok_def)

lemma finish_match_accum:
  assumes ma: "matching bc m datai pl ma" and ok: "items_ok env m items pl"
    and acc: "accum env m pl items 0 = (res, count)"
  shows "finish_match env bc ma i res count =
    Some (of_bool (any_match env m items pl), datai + length (enc_stringlist (4 * datai) pl) div 4)"
proof -
  have m: "ma_match ma = B_COUNT \<longleftrightarrow> comptag m = TK_COUNT"
    using comptag_match(2) ma by (auto simp: matching_def)
  have d: "ma_datai ma = datai" using ma by (simp add: matching_def args_of_def)
  let ?n = "decimal (length items)"
  have "(if ma_match ma = B_COUNT then do {
         str \<leftarrow> scount count; data_loop env bc ma str (length str) res } else Some res) =
      Some (of_bool (any_match env m items pl))"
  proof (cases "comptag m = TK_COUNT")
    case True
    then have "res = 0" "count = length items" using acc by (auto simp: accum_def)
    moreover have "scount (length items) = Some ?n"
      using ok True decimal_short by (simp add: items_ok_def scount_def)
    moreover have "data_loop env bc ma ?n (length ?n) 0 = Some (of_bool (hit env m pl (?n, length ?n)))"
      using data_loop_hit [OF ma, of env "(?n, length ?n)"] ok True by (simp add: items_ok_def count_item_def Let_def)
    ultimately show ?thesis using True m by (simp add: any_match_def count_item_def Let_def)
  next
    case False
    then show ?thesis using acc m by (auto simp: accum_def any_match_def)
  qed
  moreover have "\<exists>w. bc_word bc (datai + 1) = Some w \<and>
      unat w div 4 = datai + length (enc_stringlist (4 * datai) pl) div 4"
    using stringlist_at(3) [of bc datai pl] ma by (auto simp: matching_def)
  ultimately show ?thesis unfolding finish_match_def d by auto
qed

lemma header_values_accum:
  assumes ma: "matching bc m datai pl ma"
    and ok: "comptag m \<noteq> TK_COUNT \<Longrightarrow> list_all (\<lambda>v. item_ok env m pl (v, length v)) vs"
  shows "header_values env bc ma vs (0, c) = Some (accum env m pl (map (\<lambda>v. (v, length v)) vs) c)"
  using ok
proof (induction vs arbitrary: c)
  case (Cons v vs)
  have m: "ma_match ma = B_COUNT \<longleftrightarrow> comptag m = TK_COUNT"
    using comptag_match(2) ma by (auto simp: matching_def)
  have stop: "header_values env bc ma xs (1, d) = Some (1, d)" for xs d
    by (cases xs) auto
  show ?case
  proof (cases "comptag m = TK_COUNT")
    case True
    then show ?thesis using Cons m by (simp add: accum_def)
  next
    case False
    have "data_loop env bc ma v (length v) 0 = Some (of_bool (hit env m pl (v, length v)))"
      using data_loop_hit [OF ma, of env "(v, length v)"] Cons.prems False by simp
    then show ?thesis using False m Cons stop by (auto simp: accum_def)
  qed
qed simp

text \<open>The texts an address test compares with: the loop ends at an address without the part.\<close>

fun address_texts :: "address_part_t \<Rightarrow> address list \<Rightarrow> string list" where
  "address_texts part [] = []"
| "address_texts part (a # am) = (case address_part part False a of
     None \<Rightarrow> [] | Some t \<Rightarrow> t # address_texts part am)"

definition address_items ::
  "'r sieve_env \<Rightarrow> match_spec \<Rightarrow> address_part_t \<Rightarrow> string \<Rightarrow> (string \<times> nat) list" where
  "address_items env m part v =
     map (\<lambda>t. if comptag m = TK_REGEX then (v, length v) else (t, length t))
       (address_texts part (parseaddr_list env v))"

lemma address_values_accum:
  assumes ma: "matching bc m datai pl ma"
    and ok: "comptag m \<noteq> TK_COUNT \<Longrightarrow>
      list_all (item_ok env m pl)
        (map (\<lambda>t. if comptag m = TK_REGEX then (v, length v) else (t, length t)) (address_texts part am))"
  shows "address_values env bc ma part v am (0, c) = Some (accum env m pl
    (map (\<lambda>t. if comptag m = TK_REGEX then (v, length v) else (t, length t)) (address_texts part am)) c)"
  using ok
proof (induction am arbitrary: c)
  case (Cons a am)
  have m: "ma_match ma = B_COUNT \<longleftrightarrow> comptag m = TK_COUNT" "isReg ma \<longleftrightarrow> comptag m = TK_REGEX"
    using comptag_match ma by (auto simp: matching_def)
  have stop: "address_values env bc ma part v xs (1, d) = Some (1, d)" for xs d
    by (cases xs) auto
  show ?case
  proof (cases "address_part part False a")
    case None
    then show ?thesis by simp
  next
    case (Some t)
    let ?it = "if comptag m = TK_REGEX then (v, length v) else (t, length t)"
    show ?thesis
    proof (cases "comptag m = TK_COUNT")
      case True
      then show ?thesis using Cons m Some by (simp add: accum_def)
    next
      case False
      have "data_loop env bc ma (fst ?it) (snd ?it) 0 = Some (of_bool (hit env m pl ?it))"
        using data_loop_hit [OF ma, of env ?it] Cons.prems False Some by simp
      then have "(if isReg ma then data_loop env bc ma v (length v) 0
          else data_loop env bc ma t (length t) 0) = Some (of_bool (hit env m pl ?it))"
        using m by auto
      then show ?thesis using False m(1) Cons Some stop by (auto simp: accum_def)
    qed
  qed
qed simp

lemma address_headers_accum:
  assumes ma: "matching bc m datai pl ma"
    and ok: "comptag m \<noteq> TK_COUNT \<Longrightarrow> list_all (item_ok env m pl) (concat (map (address_items env m part) vs))"
  shows "address_headers env bc ma part vs (0, c) =
    Some (accum env m pl (concat (map (address_items env m part) vs)) c)"
  using ok
proof (induction vs arbitrary: c)
  case (Cons v vs)
  have stop: "address_headers env bc ma part xs (1, d) = Some (1, d)" for xs d
    by (cases xs) auto
  have v: "address_values env bc ma part v (parseaddr_list env v) (0, c) =
      Some (accum env m pl (address_items env m part v) c)"
    unfolding address_items_def
    by (rule address_values_accum [OF ma]) (use Cons.prems in \<open>auto simp: address_items_def\<close>)
  obtain r d where rd: "accum env m pl (address_items env m part v) c = (r, d)" by fastforce
  then have "r = 0 \<or> r = 1" by (auto simp: accum_def split: if_splits)
  then show ?case using v rd Cons stop by (auto simp: accum_append)
qed simp

text \<open>
  The parts of a body are decoded to \<^verbatim>\<open>dec\<close>, a text without NUL for every section.
\<close>

definition decodes_to :: "'r sieve_env \<Rightarrow> (string \<Rightarrow> string) \<Rightarrow> bodypart \<Rightarrow> bool" where
  "decodes_to env dec p \<longleftrightarrow> (encoding_of (bp_encoding p) \<noteq> ENCODING_NONE \<longrightarrow>
     decode_mimebody env (bp_content p) (bp_size p) (encoding_of (bp_encoding p)) = dec (bp_section p) \<and>
     NUL \<notin> set (dec (bp_section p)))"

definition body_item :: "(string \<Rightarrow> string) \<Rightarrow> cint \<Rightarrow> bodypart \<Rightarrow> string \<times> nat" where
  "body_item dec transform p =
     (if transform = B_RAW \<or> encoding_of (bp_encoding p) = ENCODING_NONE then (bp_content p, bp_size p)
      else (dec (bp_section p), length (dec (bp_section p))))"

definition cache_ok :: "(string \<Rightarrow> string) \<Rightarrow> body_cache \<Rightarrow> bool" where
  "cache_ok dec cache \<longleftrightarrow> hash_wf cache \<and>
     (\<forall>s c. hash_lookup s cache = Some c \<longrightarrow> c = dec s \<and> NUL \<notin> set c)"

lemma part_content_item:
  assumes "decodes_to env dec p" and "cache_ok dec cache"
  shows "\<exists>cache'. part_content env transform p cache =
    (fst (body_item dec transform p), snd (body_item dec transform p), cache') \<and> cache_ok dec cache'"
proof (cases "transform = B_RAW \<or> encoding_of (bp_encoding p) = ENCODING_NONE")
  case True
  then show ?thesis using assms(2) by (auto simp: part_content_def body_item_def)
next
  case False
  then have d: "decode_mimebody env (bp_content p) (bp_size p) (encoding_of (bp_encoding p)) = dec (bp_section p)"
    "NUL \<notin> set (dec (bp_section p))"
    using assms(1) by (auto simp: decodes_to_def)
  show ?thesis
  proof (cases "hash_lookup (bp_section p) cache")
    case None
    let ?c = "snd (hash_insert (bp_section p) (Some (dec (bp_section p))) cache)"
    have "cache_ok dec ?c"
      using assms(2) d(2) hashtab.lookup_insert [of cache] hashtab.invar_insert [of cache]
      by (auto simp: cache_ok_def split: if_splits)
    moreover have "part_content env transform p cache =
        (fst (body_item dec transform p), snd (body_item dec transform p), ?c)"
      using False None d(1) by (simp add: part_content_def body_item_def Let_def)
    ultimately show ?thesis by blast
  next
    case (Some c)
    then have "c = dec (bp_section p)" using assms(2) by (auto simp: cache_ok_def)
    moreover have "length (takeWhile (\<lambda>c. c \<noteq> NUL) (dec (bp_section p))) = length (dec (bp_section p))"
      using d(2) by (intro arg_cong [where f = length]) (auto simp: takeWhile_eq_all_conv)
    ultimately have "part_content env transform p cache =
        (fst (body_item dec transform p), snd (body_item dec transform p), cache)"
      using False Some by (simp add: part_content_def body_item_def Let_def)
    with assms(2) show ?thesis by blast
  qed
qed

lemma body_values_accum:
  assumes ma: "matching bc m datai pl ma" and "cache_ok dec cache"
    and "list_all (decodes_to env dec) ps"
    and ok: "comptag m \<noteq> TK_COUNT \<Longrightarrow> list_all (item_ok env m pl) (map (body_item dec transform) ps)"
  shows "\<exists>cache'. body_values env bc ma transform ps (0, c, cache) =
      (case accum env m pl (map (body_item dec transform) ps) c of (res, c) \<Rightarrow> Some (res, c, cache')) \<and>
    cache_ok dec cache'"
  using assms(2-)
proof (induction ps arbitrary: c cache)
  case (Cons p ps)
  have m: "ma_match ma = B_COUNT \<longleftrightarrow> comptag m = TK_COUNT"
    using comptag_match(2) ma by (auto simp: matching_def)
  have stop: "body_values env bc ma transform xs (1, d, cache) = Some (1, d, cache)" for xs d cache
    by (cases xs) auto
  show ?case
  proof (cases "comptag m = TK_COUNT")
    case True
    then show ?thesis using Cons.IH [of cache "c + 1"] Cons.prems m by (simp add: accum_def)
  next
    case False
    let ?it = "body_item dec transform p"
    obtain cache' where pc: "part_content env transform p cache = (fst ?it, snd ?it, cache')"
      and co: "cache_ok dec cache'"
      using part_content_item [of env dec p cache transform] Cons.prems by auto
    have d: "data_loop env bc ma (fst ?it) (snd ?it) 0 = Some (of_bool (hit env m pl ?it))"
      using data_loop_hit [OF ma, of env ?it] Cons.prems False by simp
    show ?thesis
    proof (cases "hit env m pl ?it")
      case True
      then show ?thesis using False m d co
        by (intro exI [of _ cache']) (simp add: accum_def pc stop)
    next
      case nohit: False
      then show ?thesis using False m d Cons.IH [OF co, of c] Cons.prems(2,3)
        by (simp add: accum_def pc)
    qed
  qed
qed (auto)
end
