(* ===== verification/Sieve_Tests.thy ===== *)
theory Sieve_Tests
  imports Sieve_Decode
begin

text \<open>
  What the tests of a Sieve script mean, on the parse tree, and the proof that the interpreter
  decides it on the bytes of the compiled test.
\<close>

section \<open>The meaning of a test\<close>

text \<open>The values a callback hands out, and the items a test compares.\<close>

definition vals :: "int \<times> string list option \<Rightarrow> string list" where
  "vals r = (if fst r = SIEVE_OK then (case snd r of Some vs \<Rightarrow> vs | None \<Rightarrow> []) else [])"

definition part_of :: "token \<Rightarrow> address_part_t" where
  "part_of t = the (addrpart_of (the (addrpart_value t)))"

definition header_items :: "'r sieve_env \<Rightarrow> stringlist \<Rightarrow> (string \<times> nat) list" where
  "header_items env sl = concat (map (\<lambda>h. map (\<lambda>v. (v, length v)) (vals (getheader env h))) sl)"

definition addr_items ::
  "'r sieve_env \<Rightarrow> (string \<Rightarrow> int \<times> string list option) \<Rightarrow> match_spec \<Rightarrow> token \<Rightarrow> stringlist \<Rightarrow>
   (string \<times> nat) list" where
  "addr_items env get m part sl =
     concat (map (\<lambda>h. concat (map (address_items env m (part_of part)) (vals (get h)))) sl)"

definition body_parts :: "'r sieve_env \<Rightarrow> stringlist \<Rightarrow> bodypart list" where
  "body_parts env cts = (case snd (getbody env (map Some cts)) of Some ps \<Rightarrow> ps | None \<Rightarrow> [])"

fun test_holds :: "'r sieve_env \<Rightarrow> (string \<Rightarrow> string) \<Rightarrow> test \<Rightarrow> bool" where
  "test_holds env dec T_STRUE = True"
| "test_holds env dec T_SFALSE = False"
| "test_holds env dec (T_NOT t) = (\<not> test_holds env dec t)"
| "test_holds env dec (T_SIZE t k) =
     (if t = TK_OVER then sint (snd (getsize env)) > sint k else sint (snd (getsize env)) < sint k)"
| "test_holds env dec (T_EXISTS sl) = (\<forall>h \<in> set sl. fst (getheader env h) = SIEVE_OK)"
| "test_holds env dec (T_ANYOF ts) = list_ex (test_holds env dec) ts"
| "test_holds env dec (T_ALLOF ts) = list_all (test_holds env dec) ts"
| "test_holds env dec (T_HEADER m sl pl) = any_match env m (header_items env sl) pl"
| "test_holds env dec (T_ADDRESS m part sl pl) =
     any_match env m (addr_items env (getheader env) m part sl) pl"
| "test_holds env dec (T_ENVELOPE m part sl pl) =
     any_match env m (addr_items env (getenvelope env) m part sl) pl"
| "test_holds env dec (T_BODY m tr off cts pl) =
     any_match env m (map (body_item dec (the (transform_value tr))) (body_parts env cts)) pl"
| "test_holds env dec T_OTHER = False"

text \<open>
  What the interpreter relies on: the callbacks give the values of what they find and the
  size of the message, comparators exist, regular expressions compile, comparisons stay inside
  their strings, a count is below 100, and a part of the body decodes to one text.
\<close>

definition answers :: "(string \<Rightarrow> int \<times> string list option) \<Rightarrow> stringlist \<Rightarrow> bool" where
  "answers get sl \<longleftrightarrow> list_all (\<lambda>h. fst (get h) = SIEVE_OK \<longrightarrow> snd (get h) \<noteq> None) sl"

definition match_ok :: "'r sieve_env \<Rightarrow> match_spec \<Rightarrow> (string \<times> nat) list \<Rightarrow> stringlist \<Rightarrow> stringlist \<Rightarrow> bool" where
  "match_ok env m items sl pl \<longleftrightarrow> wf_match m \<and> list_all cstr sl \<and> list_all cstr pl \<and> items_ok env m items pl"

fun test_ok :: "'r sieve_env \<Rightarrow> (string \<Rightarrow> string) \<Rightarrow> test \<Rightarrow> bool" where
  "test_ok env dec (T_NOT t) = test_ok env dec t"
| "test_ok env dec (T_SIZE t k) = (fst (getsize env) = SIEVE_OK)"
| "test_ok env dec (T_EXISTS sl) = list_all cstr sl"
| "test_ok env dec (T_ANYOF ts) = list_all (test_ok env dec) ts"
| "test_ok env dec (T_ALLOF ts) = list_all (test_ok env dec) ts"
| "test_ok env dec (T_HEADER m sl pl) =
     (match_ok env m (header_items env sl) sl pl \<and> answers (getheader env) sl)"
| "test_ok env dec (T_ADDRESS m part sl pl) =
     (match_ok env m (addr_items env (getheader env) m part sl) sl pl \<and> answers (getheader env) sl \<and>
      addrpart_value part \<noteq> None)"
| "test_ok env dec (T_ENVELOPE m part sl pl) =
     (match_ok env m (addr_items env (getenvelope env) m part sl) sl pl \<and> answers (getenvelope env) sl \<and>
      addrpart_value part \<noteq> None)"
| "test_ok env dec (T_BODY m tr off cts pl) =
     (match_ok env m (map (body_item dec (the (transform_value tr))) (body_parts env cts)) cts pl \<and>
      transform_value tr \<noteq> None \<and> fst (getbody env (map Some cts)) = SIEVE_OK \<and>
      list_all (decodes_to env dec) (body_parts env cts))"
| "test_ok env dec T_OTHER = False"
| "test_ok env dec _ = True"

section \<open>Sizes of the encoding\<close>

lemma enc_strings_dvd [simp]: "4 dvd length (enc_strings sl)"
  using enc_strings_words [of sl] by (metis dvd_triv_left)

lemma enc_string_dvd [simp]: "4 dvd length (enc_string s)"
  using enc_string_words [of s] by (metis dvd_triv_left)

lemma enc_list_dvd: "4 dvd length body \<Longrightarrow> 4 dvd length (enc_list p n body)"
  by (simp add: enc_list_def)

lemma enc_stringlist_dvd [simp]: "4 dvd length (enc_stringlist p sl)"
  unfolding enc_stringlist_def by (rule enc_list_dvd) simp

lemma enc_match_dvd [simp]: "4 dvd length (enc_match p ws sl pl)"
  unfolding enc_match_def Let_def length_append by (intro dvd_add) (simp_all del: enc_stringlist_length)

lemma enc_test_dvd [simp]: "4 dvd length (enc_test p t)" "4 dvd length (enc_tests p ts)"
  by (induction p t and p ts rule: enc_test_enc_tests.induct)
    (simp_all add: Let_def enc_list_dvd del: enc_stringlist_length enc_list_length)

section \<open>The tests without subtests\<close>

text \<open>The head of a matching test in the file gives its arguments.\<close>

lemma match_header_at:
  fixes i :: nat and ext :: "cint list" and sl pl :: stringlist
  defines "listi \<equiv> i + 4 + length ext"
  defines "datai \<equiv> listi + length (enc_stringlist (4 * listi) sl) div 4"
  assumes at: "bytes_at bc (4 * i) (htonl opcode @ enc_match (4 * i + 4) (match_words m @ ext) sl pl)"
    and bc: "length bc < 2 ^ 31" and wf: "wf_match m" and comp: "comp_of m \<noteq> None" and pl: "list_all cstr pl"
  shows "\<exists>ma. match_header bc i listi = Some (Inr ma) \<and> matching bc m datai pl ma"
    and "i + length (htonl opcode @ enc_match (4 * i + 4) (match_words m @ ext) sl pl) div 4 =
           datai + length (enc_stringlist (4 * datai) pl) div 4"
    and "\<And>k. k < length ext \<Longrightarrow> bc_word bc (i + 4 + k) = Some (ext ! k)"
    and "bytes_at bc (4 * listi) (enc_stringlist (4 * listi) sl)"
proof -
  let ?ws = "match_words m @ ext"
  have l: "i + 1 + length ?ws = listi" by (simp add: listi_def match_words_def)
  note ma = match_at [OF at, unfolded l, folded datai_def]
  have w: "bc_word bc (i + 1) = Some (the (comptag_value (comptag m)))"
    "bc_word bc (i + 2) = Some (relation_value (relation m))"
    "bc_word bc (i + 3) = Some (the (comparator_value (comparator m)))"
    using ma(1) [of 0] ma(1) [of 1] ma(1) [of 2]
    by (simp_all add: match_words_def nth_append numeral_2_eq_2 numeral_3_eq_3)
  obtain c where c: "comp_of m = Some c" using comp by auto
  have d: "map_option (\<lambda>w. unat w div 4) (bc_word bc (listi + 1)) = Some datai"
    using stringlist_at(3) [OF ma(2) bc] by (simp add: datai_def)
  have n: "bc_word bc datai = Some (of_nat (length pl))"
    using stringlist_at(1) [OF ma(3) bc] .
  show "\<exists>x. match_header bc i listi = Some (Inr x) \<and> matching bc m datai pl x"
    using c pl wf bc ma(3) unfolding match_header_def d w Option.bind.simps n
    by (simp add: comp_of_def matching_def args_of_def)
  show "i + length (htonl opcode @ enc_match (4 * i + 4) ?ws sl pl) div 4 =
      datai + length (enc_stringlist (4 * datai) pl) div 4"
    by (rule ma(4))
  show "bc_word bc (i + 4 + k) = Some (ext ! k)" if "k < length ext" for k
    using ma(1) [of "3 + k"] that by (simp add: match_words_def nth_append algebra_simps)
  show "bytes_at bc (4 * listi) (enc_stringlist (4 * listi) sl)" by (rule ma(2))
qed

lemma for_strings_state:
  assumes "bytes_at bc (4 * i) (enc_strings sl)" and "list_all cstr sl"
    and "for_list go body sl s = Some r"
  shows "\<exists>pos. for_strings bc (length sl) i go body s = Some (r, pos)"
  using for_strings_enc [OF assms(1,2), of go body s] assms(3) by (cases "for_strings bc (length sl) i go body s") auto

lemma items_okD:
  assumes "items_ok env m items pl" and "comptag m \<noteq> TK_COUNT"
  shows "list_all (item_ok env m pl) items"
  using assms by (simp add: items_ok_def)

lemma eval_header_at:
  assumes at: "bytes_at bc (4 * i) (enc_test (4 * i) (T_HEADER m sl pl))"
    and bc: "length bc < 2 ^ 31" and ok: "test_ok env dec (T_HEADER m sl pl)"
  shows "eval_header env bc i = Some (of_bool (test_holds env dec (T_HEADER m sl pl)),
    i + length (enc_test (4 * i) (T_HEADER m sl pl)) div 4)"
proof -
  let ?items = "header_items env sl"
  have mo: "wf_match m" "list_all cstr sl" "list_all cstr pl" "items_ok env m ?items pl" "comp_of m \<noteq> None"
    using ok by (auto simp: match_ok_def items_ok_def)
  have at': "bytes_at bc (4 * i) (htonl BC_HEADER @ enc_match (4 * i + 4) (match_words m @ []) sl pl)"
    using at by simp
  note h = match_header_at [OF at' bc mo(1,5,3)]
  let ?datai = "i + 4 + length (enc_stringlist (4 * (i + 4)) sl) div 4"
  obtain ma where ma: "match_header bc i (i + 4) = Some (Inr ma)" "matching bc m ?datai pl ma"
    using h(1) by auto
  have sl: "bytes_at bc (4 * (i + 4)) (enc_stringlist (4 * (i + 4)) sl)" using h(4) by simp
  note sw = stringlist_at [OF sl bc]
  let ?body = "\<lambda>this_header s. do {
     h \<leftarrow> this_header;
     (case getheader env h of (r, val) \<Rightarrow>
        if r \<noteq> SIEVE_OK then Some s else do { vs \<leftarrow> val; header_values env bc ma vs s }) }"
  let ?its = "\<lambda>h. map (\<lambda>v. (v, length v)) (vals (getheader env h))"
  have step: "?body (Some h) (0, c) = Some (accum env m pl (?its h) c)" if hs: "h \<in> set sl" for h c
  proof -
    obtain r val where g: "getheader env h = (r, val)" by fastforce
    show ?thesis
    proof (cases "r = SIEVE_OK")
      case True
      then obtain vs where vs: "val = Some vs" using ok hs g by (fastforce simp: answers_def list_all_iff)
      have vs': "vals (getheader env h) = vs" using g vs True by (simp add: vals_def)
      have "list_all (\<lambda>v. item_ok env m pl (v, length v)) vs" if "comptag m \<noteq> TK_COUNT"
        using items_okD [OF mo(4) that] hs vs' by (auto simp: header_items_def list_all_iff)
      then have "header_values env bc ma vs (0, c) = Some (accum env m pl (map (\<lambda>v. (v, length v)) vs) c)"
        by (rule header_values_accum [OF ma(2)])
      then show ?thesis using g vs True by (simp add: vals_def)
    qed (simp add: g vals_def)
  qed
  obtain res count where acc: "accum env m pl ?items 0 = (res, count)" by fastforce
  have "for_list (\<lambda>(res, count). res = 0) ?body sl (0, 0) = Some (res, count)"
    using for_list_accum [of sl ?body env m pl ?its 0, OF step] acc by (simp add: header_items_def)
  from for_strings_state [OF sw(4) mo(2) this]
  obtain pos where f: "for_strings bc (rounds (of_nat (length sl))) (i + 4 + 2) (\<lambda>(res, count). res = 0) ?body (0, 0) =
      Some ((res, count), pos)"
    using sw(2) by auto
  show ?thesis
    unfolding eval_header_def Let_def ma(1) sw(1) Option.bind.simps sum.case f prod.case
      finish_match_accum [OF ma(2) mo(4) acc]
    using h(2) by simp
qed

lemma eval_address_at:
  assumes at: "bytes_at bc (4 * i) (htonl opcode @ enc_match (4 * i + 4) (match_words m @ [the (addrpart_value part)]) sl pl)"
    and bc: "length bc < 2 ^ 31"
    and get: "get = (if address then getheader env else getenvelope env)"
    and ok: "match_ok env m (addr_items env get m part sl) sl pl" "answers get sl" "addrpart_value part \<noteq> None"
  shows "eval_address env address bc i = Some (of_bool (any_match env m (addr_items env get m part sl) pl),
    i + length (htonl opcode @ enc_match (4 * i + 4) (match_words m @ [the (addrpart_value part)]) sl pl) div 4)"
proof -
  let ?items = "addr_items env get m part sl"
  have mo: "wf_match m" "list_all cstr sl" "list_all cstr pl" "items_ok env m ?items pl" "comp_of m \<noteq> None"
    using ok by (auto simp: match_ok_def items_ok_def)
  note h = match_header_at [OF at bc mo(1,5,3)]
  let ?datai = "i + 5 + length (enc_stringlist (4 * (i + 5)) sl) div 4"
  have l5: "i + 4 + length [the (addrpart_value part)] = i + 5" by simp
  note h' = h [unfolded l5]
  obtain ma where ma: "match_header bc i (i + 5) = Some (Inr ma)" "matching bc m ?datai pl ma"
    using h'(1) by blast
  have part: "addrpart_of (the (addrpart_value part)) = Some (part_of part)"
    using ok(3) by (cases part) (auto simp: part_of_def addrpart_value_def addrpart_of_def)
  have apart: "bc_word bc (i + 4) = Some (the (addrpart_value part))" using h(3) [of 0] by simp
  note sw = stringlist_at [OF h'(4) bc]
  let ?body = "\<lambda>this_header s. do {
     h \<leftarrow> this_header;
     (case (if address then getheader env h else getenvelope env h) of (r, val) \<Rightarrow>
        if r \<noteq> SIEVE_OK then Some s else do { vs \<leftarrow> val; address_headers env bc ma (part_of part) vs s }) }"
  let ?its = "\<lambda>h. concat (map (address_items env m (part_of part)) (vals (get h)))"
  have step: "?body (Some h) (0, c) = Some (accum env m pl (?its h) c)" if hs: "h \<in> set sl" for h c
  proof -
    obtain r val where g: "get h = (r, val)" by fastforce
    then have g': "(if address then getheader env h else getenvelope env h) = (r, val)" using get by auto
    show ?thesis
    proof (cases "r = SIEVE_OK")
      case True
      then obtain vs where vs: "val = Some vs" using ok(2) hs g by (fastforce simp: answers_def list_all_iff)
      have vs': "vals (get h) = vs" using g vs True by (simp add: vals_def)
      have "list_all (item_ok env m pl) (concat (map (address_items env m (part_of part)) vs))"
        if "comptag m \<noteq> TK_COUNT"
        using items_okD [OF mo(4) that] hs vs' by (auto simp: addr_items_def list_all_iff)
      then have "address_headers env bc ma (part_of part) vs (0, c) =
          Some (accum env m pl (concat (map (address_items env m (part_of part)) vs)) c)"
        by (rule address_headers_accum [OF ma(2)])
      then show ?thesis using g g' vs True by (simp add: vals_def)
    qed (use g g' in \<open>simp add: vals_def\<close>)
  qed
  obtain res count where acc: "accum env m pl ?items 0 = (res, count)" by fastforce
  have "for_list (\<lambda>(res, count). res = 0) ?body sl (0, 0) = Some (res, count)"
    using for_list_accum [of sl ?body env m pl ?its 0, OF step] acc by (simp add: addr_items_def)
  from for_strings_state [OF sw(4) mo(2) this]
  obtain pos where f: "for_strings bc (rounds (of_nat (length sl))) (i + 5 + 2) (\<lambda>(res, count). res = 0) ?body (0, 0) =
      Some ((res, count), pos)"
    using sw(2) by auto
  show ?thesis
    unfolding eval_address_def Let_def ma(1) sw(1) apart Option.bind.simps sum.case part option.case f prod.case
      finish_match_accum [OF ma(2) mo(4) acc]
    using h'(2) by simp
qed

lemma makeArray_at:
  assumes at: "bytes_at bc (4 * i) (enc_stringlist (4 * i) sl)" and bc: "length bc < 2 ^ 31"
    and sl: "list_all cstr sl"
  shows "bc_makeArray bc i = Some (map Some sl, i + length (enc_stringlist (4 * i) sl) div 4)"
proof -
  note sw = stringlist_at [OF at bc]
  have "for_list (\<lambda>_. True) (\<lambda>str array. Some (array @ [str])) xs acc = Some (acc @ map Some xs)" for xs acc
    by (induction xs arbitrary: acc) auto
  from this [of sl "[]"] show ?thesis
    using for_strings_all [OF sw(4) sl, of "\<lambda>str array. Some (array @ [str])" "[]"] sw(1,2,5)
    by (simp add: bc_makeArray_def add.assoc del: enc_stringlist_length)
qed

lemma eval_body_at:
  assumes at: "bytes_at bc (4 * i) (enc_test (4 * i) (T_BODY m tr off cts pl))"
    and bc: "length bc < 2 ^ 31" and ok: "test_ok env dec (T_BODY m tr off cts pl)" and co: "cache_ok dec cache"
  shows "\<exists>cache'. eval_body env bc i cache = Some (of_bool (test_holds env dec (T_BODY m tr off cts pl)),
    i + length (enc_test (4 * i) (T_BODY m tr off cts pl)) div 4, cache') \<and> cache_ok dec cache'"
proof -
  let ?tr = "the (transform_value tr)" and ?ps = "body_parts env cts"
  let ?items = "map (body_item dec ?tr) ?ps"
  have mo: "wf_match m" "list_all cstr cts" "list_all cstr pl" "items_ok env m ?items pl" "comp_of m \<noteq> None"
    using ok by (auto simp: match_ok_def items_ok_def)
  have at': "bytes_at bc (4 * i) (htonl BC_BODY @ enc_match (4 * i + 4) (match_words m @ [?tr, off]) cts pl)"
    using at by simp
  note h = match_header_at [OF at' bc mo(1,5,3)]
  have l6: "i + 4 + length [?tr, off] = i + 6" by simp
  note h' = h [unfolded l6]
  let ?datai = "i + 6 + length (enc_stringlist (4 * (i + 6)) cts) div 4"
  obtain ma where ma: "match_header bc i (i + 6) = Some (Inr ma)" "matching bc m ?datai pl ma"
    using h'(1) by blast
  have w: "bc_word bc (i + 4) = Some ?tr" "bc_word bc (i + 5) = Some off"
    using h(3) [of 0] h(3) [of 1] by (simp_all add: add.commute)
  obtain val where val: "getbody env (map Some cts) = (SIEVE_OK, val)"
    and ps: "(case val of None \<Rightarrow> [] | Some ps \<Rightarrow> ps) = ?ps"
    using ok by (cases "getbody env (map Some cts)") (auto simp: body_parts_def split: option.splits)
  obtain res count where acc: "accum env m pl ?items 0 = (res, count)" by fastforce
  obtain cache' where b: "body_values env bc ma ?tr ?ps (0, 0, cache) = Some (res, count, cache')"
    and co': "cache_ok dec cache'"
    using body_values_accum [OF ma(2) co, of env ?ps ?tr 0] ok items_okD [OF mo(4)] acc by auto
  have "eval_body env bc i cache = Some (of_bool (any_match env m ?items pl),
      ?datai + length (enc_stringlist (4 * ?datai) pl) div 4, cache')"
    unfolding eval_body_def Let_def ma(1) w Option.bind.simps sum.case makeArray_at [OF h'(4) bc mo(2)]
      prod.case val ps b finish_match_accum [OF ma(2) mo(4) acc] by simp
  with h'(2) co' show ?thesis by simp
qed

lemma eval_exists_at:
  assumes at: "bytes_at bc (4 * i) (enc_test (4 * i) (T_EXISTS sl))"
    and bc: "length bc < 2 ^ 31" and sl: "list_all cstr sl"
  shows "eval_exists env bc i = Some (of_bool (test_holds env dec (T_EXISTS sl)),
    i + length (enc_test (4 * i) (T_EXISTS sl)) div 4)"
proof -
  have e: "4 * i + 4 = 4 * (i + 1)" by simp
  have at': "bytes_at bc (4 * (i + 1)) (enc_stringlist (4 * (i + 1)) sl)"
    using at unfolding enc_test.simps bytes_at_append htonl_length e by simp
  note sw = stringlist_at [OF at' bc]
  let ?body = "\<lambda>str res. do { h \<leftarrow> str; Some (if fst (getheader env h) \<noteq> SIEVE_OK then 0 else res) }"
  have loop: "for_list (\<lambda>res. res \<noteq> 0) ?body xs r =
      Some (if r = 0 \<or> (\<forall>h \<in> set xs. fst (getheader env h) = SIEVE_OK) then r else (0 :: int))" for xs r
    by (induction xs arbitrary: r) auto
  obtain w where w: "bc_word bc (i + 1 + 1) = Some w"
    "unat w div 4 = i + 1 + length (enc_stringlist (4 * (i + 1)) sl) div 4"
    using sw(3) by auto
  from for_strings_state [OF sw(4) sl loop [of sl 1]]
  obtain pos where f: "for_strings bc (rounds (of_nat (length sl))) (i + 1 + 2) (\<lambda>res. res \<noteq> 0) ?body (1 :: int) =
      Some (if (1 :: int) = 0 \<or> (\<forall>h \<in> set sl. fst (getheader env h) = SIEVE_OK) then 1 else 0, pos)"
    using sw(2) by auto
  show ?thesis
    unfolding eval_exists_def Let_def sw(1) w Option.bind.simps f prod.case
    by (auto simp: algebra_simps)
qed

section \<open>All tests\<close>

definition test_evals :: "'r sieve_env \<Rightarrow> (string \<Rightarrow> string) \<Rightarrow> string \<Rightarrow> test \<Rightarrow> bool" where
  "test_evals env dec bc t \<longleftrightarrow> (\<forall>i fuel cache.
     bytes_at bc (4 * i) (enc_test (4 * i) t) \<longrightarrow> test_ok env dec t \<longrightarrow> cache_ok dec cache \<longrightarrow> size t < fuel \<longrightarrow>
     (\<exists>cache'. eval_bc_test fuel env bc i cache = Some (of_bool (test_holds env dec t),
        i + length (enc_test (4 * i) t) div 4, cache') \<and> cache_ok dec cache'))"

lemma enc_test_pos: "4 * i + length (enc_test (4 * i) t) = 4 * (i + length (enc_test (4 * i) t) div 4)"
  by simp

lemma eval_bc_list_at:
  assumes "\<forall>t \<in> set ts. test_evals env dec bc t" and "stop = (0 :: int) \<or> stop = 1"
    and "bytes_at bc (4 * i) (enc_tests (4 * i) ts)" and "list_all (test_ok env dec) ts"
    and "cache_ok dec cache" and "size_list size ts < fuel"
  shows "\<exists>cache'. eval_bc_list fuel stop (length ts) env bc i cache =
    Some (if \<exists>t \<in> set ts. of_bool (test_holds env dec t) = stop then stop else 1 - stop, cache') \<and>
    cache_ok dec cache'"
  using assms
proof (induction ts arbitrary: i cache)
  case (Cons t ts)
  let ?l = "length (enc_test (4 * i) t) div 4"
  have at: "bytes_at bc (4 * i) (enc_test (4 * i) t)"
    "bytes_at bc (4 * (i + ?l)) (enc_tests (4 * (i + ?l)) ts)"
    using Cons.prems(3) unfolding enc_tests.simps Let_def bytes_at_append enc_test_pos by simp_all
  obtain c where c: "eval_bc_test fuel env bc i cache = Some (of_bool (test_holds env dec t), i + ?l, c)"
    "cache_ok dec c"
  proof -
    have "test_evals env dec bc t" "test_ok env dec t" "size t < fuel" using Cons.prems by simp_all
    then show ?thesis using that at(1) Cons.prems(5) unfolding test_evals_def by blast
  qed
  show ?case
  proof (cases "of_bool (test_holds env dec t) = stop")
    case True
    then show ?thesis using c by auto
  next
    case False
    then show ?thesis using c Cons.IH [of "i + ?l" c] Cons.prems at(2) by auto
  qed
qed auto

lemma test_evalsI:
  assumes "\<And>i fuel cache. bytes_at bc (4 * i) (enc_test (4 * i) t) \<Longrightarrow> test_ok env dec t \<Longrightarrow>
    cache_ok dec cache \<Longrightarrow> size t \<le> fuel \<Longrightarrow>
    \<exists>cache'. eval_bc_test (Suc fuel) env bc i cache = Some (of_bool (test_holds env dec t),
      i + length (enc_test (4 * i) t) div 4, cache') \<and> cache_ok dec cache'"
  shows "test_evals env dec bc t"
  unfolding test_evals_def
proof (intro allI impI)
  fix i fuel cache
  assume *: "bytes_at bc (4 * i) (enc_test (4 * i) t)" "test_ok env dec t" "cache_ok dec cache" "size t < fuel"
  then obtain f where "fuel = Suc f" by (cases fuel) auto
  with assms [OF *(1-3), of f] *(4) show "\<exists>cache'. eval_bc_test fuel env bc i cache =
      Some (of_bool (test_holds env dec t), i + length (enc_test (4 * i) t) div 4, cache') \<and> cache_ok dec cache'"
    by simp
qed

text \<open>A test that is neither composed nor a body test.\<close>

lemma test_evals_leaf:
  assumes op: "\<And>i. bytes_at bc (4 * i) (enc_test (4 * i) t) \<Longrightarrow> bc_word bc i = Some opcode"
    and leaf: "opcode \<notin> {BC_NOT, BC_ANYOF, BC_ALLOF, BC_BODY}"
    and eval: "\<And>i. bytes_at bc (4 * i) (enc_test (4 * i) t) \<Longrightarrow> test_ok env dec t \<Longrightarrow>
      eval_leaf env opcode bc i = Some (of_bool (test_holds env dec t), i + length (enc_test (4 * i) t) div 4)"
  shows "test_evals env dec bc t"
proof (rule test_evalsI)
  fix i fuel cache
  assume *: "bytes_at bc (4 * i) (enc_test (4 * i) t)" "test_ok env dec t" "cache_ok dec cache"
  have "eval_bc_test (Suc fuel) env bc i cache =
      Some (of_bool (test_holds env dec t), i + length (enc_test (4 * i) t) div 4, cache)"
    using op [OF *(1)] eval [OF *(1,2)] leaf by simp
  with *(3) show "\<exists>cache'. eval_bc_test (Suc fuel) env bc i cache =
      Some (of_bool (test_holds env dec t), i + length (enc_test (4 * i) t) div 4, cache') \<and> cache_ok dec cache'"
    by blast
qed

lemma test_evals_list:
  assumes "\<forall>t \<in> set ts. test_evals env dec bc t" and bc: "length bc < 2 ^ 31"
    and t: "t = T_ANYOF ts \<and> opcode = BC_ANYOF \<and> stop = 1 \<or> t = T_ALLOF ts \<and> opcode = BC_ALLOF \<and> stop = (0 :: int)"
  shows "test_evals env dec bc t"
proof (rule test_evalsI)
  fix i fuel cache
  assume at: "bytes_at bc (4 * i) (enc_test (4 * i) t)" and ok: "test_ok env dec t"
    and co: "cache_ok dec cache" and fuel: "size t \<le> fuel"
  let ?b = "enc_tests (4 * (i + 3)) ts"
  have e: "enc_test (4 * i) t = htonl opcode @ htonl (of_nat (length ts)) @
      htonl (of_nat (4 * (i + 3) + length ?b)) @ ?b"
    using t by (auto simp: enc_list_def algebra_simps)
  have a: "bytes_at bc (4 * i) (htonl opcode)" "bytes_at bc (4 * (i + 1)) (htonl (of_nat (length ts)))"
    "bytes_at bc (4 * (i + 2)) (htonl (of_nat (4 * (i + 3) + length ?b)))" "bytes_at bc (4 * (i + 3)) ?b"
    using at unfolding e by (simp_all add: bytes_at_append algebra_simps)
  have le: "4 * (i + 3) + length ?b \<le> length bc" using bytes_at_bound [OF at] by (simp add: e)
  have "length ts \<le> length (enc_tests p ts)" if "list_all (test_ok env dec) ts" for p
    using that
  proof (induction ts arbitrary: p)
    case (Cons t ts)
    have "1 \<le> length (enc_test p t)" using Cons.prems by (cases t) (auto simp: Let_def)
    moreover have "length ts \<le> length (enc_tests (p + length (enc_test p t)) ts)"
      using Cons by simp
    ultimately show ?case by (simp add: Let_def)
  qed simp
  moreover have oks: "list_all (test_ok env dec) ts" using ok t by auto
  ultimately have n: "length ts < 2 ^ 31" using le bc by (metis add.commute le_add2 le_trans not_le)
  obtain c where c: "eval_bc_list fuel stop (length ts) env bc (i + 3) cache =
      Some (if \<exists>t \<in> set ts. of_bool (test_holds env dec t) = stop then stop else 1 - stop, c)" "cache_ok dec c"
  proof -
    have s: "stop = 0 \<or> stop = 1" "size_list size ts < fuel" using t fuel by auto
    from eval_bc_list_at [OF assms(1) s(1) a(4) oks co s(2)] that show ?thesis by blast
  qed
  have u: "unat (of_nat (4 * (i + 3) + length ?b) :: cint) div 4 = i + length (enc_test (4 * i) t) div 4"
    using le bc by (subst unat_of_nat_small) (simp_all add: e)
  have r: "(if \<exists>t \<in> set ts. of_bool (test_holds env dec t) = stop then stop else 1 - stop) =
      of_bool (test_holds env dec t)" "stop = of_bool (opcode = BC_ANYOF)" "opcode = BC_ANYOF \<or> opcode = BC_ALLOF"
    using t by (auto simp: list_ex_iff list_all_iff)
  have c1: "eval_bc_list fuel (of_bool (opcode = BC_ANYOF)) (length ts) env bc (i + 3) cache =
      Some (of_bool (test_holds env dec t), c)"
    using c(1) unfolding r(1) unfolding r(2) .
  have not: "opcode \<noteq> BC_NOT" using r(3) by auto
  have "eval_bc_test (Suc fuel) env bc i cache =
      Some (of_bool (test_holds env dec t), i + length (enc_test (4 * i) t) div 4, c)"
    unfolding eval_bc_test.simps bc_word_at [OF a(1)] bc_word_at [OF a(2)] bc_word_at [OF a(3)]
      Option.bind.simps u rounds_of_nat [OF n] c1 prod.case if_P [OF r(3)] if_not_P [OF not] ..
  with c(2) show "\<exists>cache'. eval_bc_test (Suc fuel) env bc i cache =
      Some (of_bool (test_holds env dec t), i + length (enc_test (4 * i) t) div 4, cache') \<and> cache_ok dec cache'"
    by blast
qed

lemma eval_test_at: "length bc < 2 ^ 31 \<Longrightarrow> test_evals env dec bc t"
proof (induction t)
  case T_STRUE
  show ?case by (rule test_evals_leaf [where opcode = BC_TRUE]) (auto simp: eval_leaf_def bc_word_at)
next
  case T_SFALSE
  show ?case by (rule test_evals_leaf [where opcode = BC_FALSE]) (auto simp: eval_leaf_def bc_word_at)
next
  case (T_NOT t)
  show ?case
  proof (rule test_evalsI)
    fix i fuel cache
    assume at: "bytes_at bc (4 * i) (enc_test (4 * i) (T_NOT t))" and ok: "test_ok env dec (T_NOT t)"
      and co: "cache_ok dec cache" and fuel: "size (T_NOT t) \<le> fuel"
    have e: "4 * i + 4 = 4 * (i + 1)" by simp
    have a: "bytes_at bc (4 * i) (htonl BC_NOT)" "bytes_at bc (4 * (i + 1)) (enc_test (4 * (i + 1)) t)"
      using at unfolding enc_test.simps bytes_at_append htonl_length e by simp_all
    obtain c where "eval_bc_test fuel env bc (i + 1) cache =
        Some (of_bool (test_holds env dec t), i + 1 + length (enc_test (4 * (i + 1)) t) div 4, c)" "cache_ok dec c"
    proof -
      have "test_ok env dec t" "size t < fuel" using ok fuel by simp_all
      then show ?thesis using that T_NOT a(2) co unfolding test_evals_def by blast
    qed
    then show "\<exists>cache'. eval_bc_test (Suc fuel) env bc i cache = Some (of_bool (test_holds env dec (T_NOT t)),
        i + length (enc_test (4 * i) (T_NOT t)) div 4, cache') \<and> cache_ok dec cache'"
      using bc_word_at [OF a(1)] by (auto simp: add.commute)
  qed
next
  case (T_SIZE x k)
  let ?v = "if x = TK_OVER then B_OVER else B_UNDER"
  have a: "bc_word bc i = Some BC_SIZE" "bc_word bc (i + 1) = Some ?v" "bc_word bc (i + 2) = Some k"
    if "bytes_at bc (4 * i) (enc_test (4 * i) (T_SIZE x k))" for i
  proof -
    have "bytes_at bc (4 * i) (enc_words [BC_SIZE, ?v, k])" using that by (simp add: enc_words_def)
    note w = enc_words_at [OF this]
    show "bc_word bc i = Some BC_SIZE" "bc_word bc (i + 1) = Some ?v" "bc_word bc (i + 2) = Some k"
      using w [of 0] w [of 1] w [of 2] by simp_all
  qed
  show ?case
    by (rule test_evals_leaf [where opcode = BC_SIZE])
      (use a in \<open>auto simp: eval_leaf_def eval_size_def split: prod.splits\<close>)
next
  case (T_EXISTS sl)
  then show ?case
    by (intro test_evals_leaf [where opcode = BC_EXISTS])
      (auto simp: eval_leaf_def bc_word_at bytes_at_append eval_exists_at [where dec = dec])
next
  case (T_ANYOF ts)
  then show ?case by (intro test_evals_list [of ts]) auto
next
  case (T_ALLOF ts)
  then show ?case by (intro test_evals_list [of ts]) auto
next
  case (T_HEADER m sl pl)
  have "eval_leaf env BC_HEADER bc i = eval_header env bc i" for i by (simp add: eval_leaf_def)
  then show ?case
    using eval_header_at [OF _ T_HEADER, where env = env and dec = dec and m = m and sl = sl and pl = pl]
    by (intro test_evals_leaf [where opcode = BC_HEADER]) (auto simp: bytes_at_append bc_word_at)
next
  case (T_ADDRESS m part sl pl)
  show ?case
    by (rule test_evals_leaf [where opcode = BC_ADDRESS])
      (use T_ADDRESS in \<open>auto simp: eval_leaf_def bc_word_at bytes_at_append
        eval_address_at [where get = "getheader env"]\<close>)
next
  case (T_ENVELOPE m part sl pl)
  show ?case
    by (rule test_evals_leaf [where opcode = BC_ENVELOPE])
      (use T_ENVELOPE in \<open>auto simp: eval_leaf_def bc_word_at bytes_at_append
        eval_address_at [where get = "getenvelope env"]\<close>)
next
  case (T_BODY m tr off cts pl)
  show ?case
  proof (rule test_evalsI)
    fix i fuel cache
    let ?t = "T_BODY m tr off cts pl"
    assume at: "bytes_at bc (4 * i) (enc_test (4 * i) ?t)" and ok: "test_ok env dec ?t" and co: "cache_ok dec cache"
    have "bc_word bc i = Some BC_BODY" using at by (simp add: bytes_at_append bc_word_at)
    then show "\<exists>cache'. eval_bc_test (Suc fuel) env bc i cache = Some (of_bool (test_holds env dec ?t),
        i + length (enc_test (4 * i) ?t) div 4, cache') \<and> cache_ok dec cache'"
      using eval_body_at [OF at T_BODY ok co] by simp
  qed
next
  case T_OTHER
  show ?case by (simp add: test_evals_def)
qed

text \<open>A message without headers, and the cache before anything is decoded.\<close>

definition empty_message :: "unit sieve_env" where
  "empty_message = \<lparr>getheader = (\<lambda>_. (SIEVE_FAIL, None)), getenvelope = (\<lambda>_. (SIEVE_FAIL, None)),
     getsize = (SIEVE_OK, 0), getbody = (\<lambda>_. (SIEVE_OK, Some [])), getinclude = (\<lambda>_ _. (SIEVE_FAIL, [])),
     regcomp = (\<lambda>_ _. None), regexec = (\<lambda>_ _. False), parseaddr_list = (\<lambda>_. []),
     decode_mimebody = (\<lambda>s _ _. s), md5 = id\<rparr>"

definition empty_cache :: body_cache where
  "empty_cache = \<lparr>ht_size = 1, ht_table = [[]], ht_pool = False\<rparr>"

lemma empty_cache_ok: "cache_ok dec empty_cache"
  by (simp add: cache_ok_def empty_cache_def hash_wf_def hash_lookup_def hash_slot_def)

text \<open>
  C6: the interpreter on a compiled test. Wherever in the file the test is, it returns 1 or
  0 as the test holds on the message or not, moves the position behind the test, and leaves a
  cache that again holds only decoded parts.
\<close>

theorem sieve_test_decides:
  assumes "bytes_at bc (4 * i) (enc_test (4 * i) t)" and "length bc < 2 ^ 31"
    and "test_ok env dec t" and "cache_ok dec cache" and "size t < fuel"
  shows "\<exists>cache'. eval_bc_test fuel env bc i cache =
    Some (of_bool (test_holds env dec t), i + length (enc_test (4 * i) t) div 4, cache') \<and>
    cache_ok dec cache'"
  using assms eval_test_at [of bc env dec t] unfolding test_evals_def by blast

theorem sieve_test_decides_witness:
  "\<exists>cache'. eval_bc_test 9 empty_message (enc_test 0 (T_NOT (T_EXISTS [''x'']))) 0 empty_cache =
    Some (1, 6, cache') \<and> cache_ok id cache'"
proof -
  let ?t = "T_NOT (T_EXISTS [''x''])"
  have l: "length (enc_test 0 ?t) = 24"
    by (simp add: enc_stringlist_def enc_list_def enc_strings_def enc_string_def pad_string_align align_needed_def)
  have "test_holds empty_message id ?t" by (simp add: empty_message_def)
  moreover have "bytes_at (enc_test 0 ?t) (4 * 0) (enc_test (4 * 0) ?t)" by (simp add: bytes_at_def)
  moreover have "test_ok empty_message id ?t" by (simp add: cstr_def)
  ultimately show ?thesis
    using sieve_test_decides [of "enc_test 0 ?t" 0 ?t empty_message id empty_cache 9] l
    by (simp add: empty_cache_ok del: enc_test.simps)
qed

end
