(* ===== verification/Sieve_Exec.thy ===== *)
theory Sieve_Exec
  imports Sieve_Tests
begin

text \<open>
  What a Sieve script means, on the parse tree, and the proof that the interpreter does it on
  the bytes of the compiled script: together with the theorem on the compiler, compiling and
  running a script is executing its tree.
\<close>

section \<open>The meaning of a script\<close>

datatype flow = Onward run_state | Ended int run_state

definition flags_do ::
  "(string option \<Rightarrow> action list \<Rightarrow> (int \<times> action list) option) \<Rightarrow> string \<Rightarrow> stringlist \<Rightarrow>
   int \<times> run_state \<Rightarrow> (int \<times> run_state) option" where
  "flags_do f msg sl s = for_list (\<lambda>_. True) (\<lambda>data (_, st). take_action (f data) (Some msg) st) sl s"

definition vacation_do :: "'r sieve_env \<Rightarrow> vacation_args \<Rightarrow> run_state \<Rightarrow> (int \<times> run_state) option" where
  "vacation_do env v st = do {
     (respond, fromaddr, toaddr) \<leftarrow> respond_to env (\<lambda>go body s. for_list go body (v_addresses v) s);
     if respond = SIEVE_OK then do {
       subject \<leftarrow> reply_subject env (v_subject v);
       take_action (do_vacation (md5 env) toaddr (if v_from v \<noteq> None then v_from v else fromaddr)
           subject (v_message v) (v_days v) (v_mime v) (v_handle v))
         (Some ''Vacation can not be used with Reject or Vacation'') st
     }
     else Some (if respond = SIEVE_DONE then 0 else SIEVE_RUN_ERROR, st)
   }"

definition denotify_do :: "'r sieve_env \<Rightarrow> denotify_args \<Rightarrow> run_state \<Rightarrow> (int \<times> run_state) option" where
  "denotify_do env d st = do {
     let priority = priority_of (the (priority_value (d_priority d)));
     let cmp = the (denotify_comptag_value (d_comptag d));
     let cmpf = (if cmp = B_ANY then None else lookup_comp B_ASCIICASEMAP cmp (relation_value (d_relation d)));
     if cmp = B_REGEX then do {
       pat \<leftarrow> d_pattern d;
       (case regcomp env pat True of
          None \<Rightarrow> Some (SIEVE_RUN_ERROR, st)
        | Some reg \<Rightarrow> do {
            ns \<leftarrow> do_denotify (regexec env) cmpf (Some (PReg reg)) priority (rs_notify st);
            Some (0, st\<lparr>rs_notify := ns\<rparr>)
          })
     }
     else do {
       ns \<leftarrow> do_denotify (regexec env) cmpf (map_option PStr (d_pattern d)) priority (rs_notify st);
       Some (0, st\<lparr>rs_notify := ns\<rparr>)
     }
   }"

fun exec_simple :: "'r sieve_env \<Rightarrow> command \<Rightarrow> run_state \<Rightarrow> (int \<times> run_state) option" where
  "exec_simple env C_STOP st = Some (1, st)"
| "exec_simple env C_KEEP st = take_action do_keep (Some ''Keep can not be used with Reject'') st"
| "exec_simple env C_DISCARD st = take_action do_discard None st"
| "exec_simple env (C_REJCT msg) st =
     take_action (do_reject (Some msg)) (Some ''Reject can not be used with any other action'') st"
| "exec_simple env (C_FILEINTO folder copy) st =
     take_action (do_fileinto (Some folder) (copy = 0)) (Some ''Fileinto can not be used with Reject'') st"
| "exec_simple env (C_REDIRECT address copy) st =
     take_action (do_redirect (Some address) (copy = 0)) (Some ''Redirect can not be used with Reject'') st"
| "exec_simple env C_MARK st = take_action do_mark None st"
| "exec_simple env C_UNMARK st = take_action do_unmark None st"
| "exec_simple env (C_ADDFLAG sl) st =
     flags_do do_addflag ''addflag can not be used with Reject'' sl (0, st)"
| "exec_simple env (C_SETFLAG sl) st = (case sl of
     [] \<Rightarrow> None
   | flag # flags \<Rightarrow> do {
       (res, st) \<leftarrow> take_action (do_setflag (Some flag)) (Some ''setflag can not be used with Reject'') st;
       if res = SIEVE_RUN_ERROR then Some (res, st)
       else flags_do do_addflag ''setflag can not be used with Reject'' flags (res, st)
     })"
| "exec_simple env (C_REMOVEFLAG sl) st =
     flags_do do_removeflag ''removeflag can not be used with Reject'' sl (0, st)"
| "exec_simple env (C_NOTIFY n) st = do {
     (res, ns) \<leftarrow> do_notify (n_id n) (Some (n_method n)) (map Some (n_options n))
       (priority_of (the (priority_value (n_priority n)))) (Some (n_message n)) (rs_notify st);
     Some (res, st\<lparr>rs_notify := ns\<rparr>)
   }"
| "exec_simple env (C_DENOTIFY d) st = denotify_do env d st"
| "exec_simple env (C_VACATION v) st = vacation_do env v st"
| "exec_simple env _ st = None"

fun exec_cmd :: "'r sieve_env \<Rightarrow> (string \<Rightarrow> string) \<Rightarrow> bool \<Rightarrow> command \<Rightarrow> run_state \<Rightarrow> flow option"
  and exec_cmds :: "'r sieve_env \<Rightarrow> (string \<Rightarrow> string) \<Rightarrow> bool \<Rightarrow> command list \<Rightarrow> run_state \<Rightarrow> flow option" where
  "exec_cmd env dec is_incl (C_IF t do_then do_else) st =
     (if test_holds env dec t then exec_cmds env dec is_incl do_then st
      else exec_cmds env dec is_incl do_else st)"
| "exec_cmd env dec is_incl C_RETURN st = Some (Ended (if is_incl then 0 else 1) st)"
| "exec_cmd env dec is_incl c st = do {
     (res, st) \<leftarrow> exec_simple env c st;
     Some (if res = 0 then Onward st else Ended res st)
   }"
| "exec_cmds env dec is_incl [] st = Some (Onward st)"
| "exec_cmds env dec is_incl (c # cs) st = do {
     f \<leftarrow> exec_cmd env dec is_incl c st;
     (case f of Onward st \<Rightarrow> exec_cmds env dec is_incl cs st | Ended res st \<Rightarrow> Some f)
   }"

definition ocstr :: "string option \<Rightarrow> bool" where
  "ocstr s \<longleftrightarrow> (case s of Some str \<Rightarrow> cstr str | None \<Rightarrow> True)"

fun simple_ok :: "command \<Rightarrow> bool" where
  "simple_ok (C_REJCT msg) = cstr msg"
| "simple_ok (C_FILEINTO folder copy) = cstr folder"
| "simple_ok (C_REDIRECT address copy) = cstr address"
| "simple_ok (C_ADDFLAG sl) = list_all cstr sl"
| "simple_ok (C_SETFLAG sl) = (list_all cstr sl \<and> sl \<noteq> [])"
| "simple_ok (C_REMOVEFLAG sl) = list_all cstr sl"
| "simple_ok (C_NOTIFY n) = (cstr (n_method n) \<and> ocstr (n_id n) \<and> list_all cstr (n_options n) \<and> cstr (n_message n))"
| "simple_ok (C_DENOTIFY d) = (ocstr (d_pattern d) \<and> priority_value (d_priority d) \<noteq> None)"
| "simple_ok (C_VACATION v) = (ocstr (v_subject v) \<and> list_all cstr (v_addresses v) \<and> ocstr (v_message v) \<and>
     ocstr (v_from v) \<and> ocstr (v_handle v))"
| "simple_ok (C_INCLUDE loc script) = False"
| "simple_ok (C_IF t a b) = False"
| "simple_ok C_RETURN = False"
| "simple_ok C_OTHER = False"
| "simple_ok _ = True"

fun runnable :: "'r sieve_env \<Rightarrow> (string \<Rightarrow> string) \<Rightarrow> command \<Rightarrow> bool" where
  "runnable env dec (C_IF t do_then do_else) \<longleftrightarrow>
     test_ok env dec t \<and> list_all (runnable env dec) do_then \<and> list_all (runnable env dec) do_else"
| "runnable env dec C_RETURN \<longleftrightarrow> True"
| "runnable env dec c \<longleftrightarrow> simple_ok c"

section \<open>The simple instructions\<close>

lemma word_then:
  assumes "bytes_at bc (4 * ip) (htonl w @ s)"
  shows "bc_word bc ip = Some w" and "bytes_at bc (4 * (ip + 1)) s"
  using assms by (simp_all add: bytes_at_append bc_word_at algebra_simps)

lemma string_then:
  assumes "bytes_at bc (4 * ip) (enc_string s @ r)" and "ocstr s"
  shows "unwrap_string bc ip = Some (s, ip + length (enc_string s) div 4)"
    and "bytes_at bc (4 * (ip + length (enc_string s) div 4)) r"
proof -
  show "unwrap_string bc ip = Some (s, ip + length (enc_string s) div 4)"
    using assms by (intro unwrap_enc) (auto simp: ocstr_def bytes_at_append)
  show "bytes_at bc (4 * (ip + length (enc_string s) div 4)) r"
    using assms(1) enc_string_words [of s] by (intro bytes_at_words) auto
qed

lemma string_last:
  assumes "bytes_at bc (4 * ip) (enc_string s)" and "ocstr s"
  shows "unwrap_string bc ip = Some (s, ip + length (enc_string s) div 4)"
  using string_then(1) [of bc ip s "[]"] assms by simp

lemma stringlist_then:
  assumes "bytes_at bc (4 * ip) (enc_stringlist (4 * ip) sl @ r)"
  shows "bytes_at bc (4 * ip) (enc_stringlist (4 * ip) sl)"
    and "bytes_at bc (4 * (ip + length (enc_stringlist (4 * ip) sl) div 4)) r"
  using assms bytes_at_words [OF _ assms] by (simp_all add: bytes_at_append)

lemma ocstr_Some [simp]: "ocstr (Some s) \<longleftrightarrow> cstr s" "ocstr None"
  by (simp_all add: ocstr_def)

definition runs_simple :: "'r sieve_env \<Rightarrow> string \<Rightarrow> command \<Rightarrow> bool" where
  "runs_simple env bc c \<longleftrightarrow> (\<forall>fuel is_incl ip st res st'.
     bytes_at bc (4 * ip) (htonl (opcode_of c) @ enc_args (4 * (ip + 1)) c) \<longrightarrow>
     exec_simple env c st = Some (res, st') \<longrightarrow>
     (\<exists>ip'. eval_op fuel env is_incl 5 bc ip st = Some (Go res ip' st') \<and>
       (res = 0 \<longrightarrow> ip' = ip + 1 + length (enc_args (4 * (ip + 1)) c) div 4)))"

lemma runs_noarg:
  assumes "c = C_STOP \<or> c = C_KEEP \<or> c = C_DISCARD \<or> c = C_MARK \<or> c = C_UNMARK"
  shows "runs_simple env bc c"
  unfolding runs_simple_def
proof (intro allI impI)
  fix fuel is_incl ip st res st'
  assume "bytes_at bc (4 * ip) (htonl (opcode_of c) @ enc_args (4 * (ip + 1)) c)"
    and "exec_simple env c st = Some (res, st')"
  with word_then(1) [OF this(1)] assms
  show "\<exists>ip'. eval_op fuel env is_incl 5 bc ip st = Some (Go res ip' st') \<and>
       (res = 0 \<longrightarrow> ip' = ip + 1 + length (enc_args (4 * (ip + 1)) c) div 4)"
    by (auto simp: eval_op_def op_keep_def op_discard_def op_mark_def op_unmark_def)
qed

lemma runs_string:
  assumes c: "c = C_REJCT s \<or> c = C_FILEINTO s k \<or> c = C_REDIRECT s k" and s: "cstr s"
  shows "runs_simple env bc c"
  unfolding runs_simple_def
proof (intro allI impI)
  fix fuel is_incl ip st res st'
  assume at: "bytes_at bc (4 * ip) (htonl (opcode_of c) @ enc_args (4 * (ip + 1)) c)"
    and ex: "exec_simple env c st = Some (res, st')"
  note w = word_then [OF at]
  show "\<exists>ip'. eval_op fuel env is_incl 5 bc ip st = Some (Go res ip' st') \<and>
       (res = 0 \<longrightarrow> ip' = ip + 1 + length (enc_args (4 * (ip + 1)) c) div 4)"
  proof (cases "c = C_REJCT s")
    case True
    with w(2) have "unwrap_string bc (ip + 1) = Some (Some s, ip + 1 + length (enc_string (Some s)) div 4)"
      using s by (intro string_last) auto
    with True w(1) ex show ?thesis by (auto simp: eval_op_def op_reject_def)
  next
    case False
    with c w(2) have "bytes_at bc (4 * (ip + 1)) (htonl k @ enc_string (Some s))"
      by (auto simp: enc_words_def)
    note w2 = word_then [OF this]
    have "unwrap_string bc (ip + 1 + 1) = Some (Some s, ip + 1 + 1 + length (enc_string (Some s)) div 4)"
      using s w2(2) by (intro string_last) auto
    with False c w(1) w2(1) ex show ?thesis
      by (auto simp: eval_op_def op_fileinto_def op_redirect_def enc_words_def)
  qed
qed

lemma flag_loop_at:
  assumes "bytes_at bc (4 * ip) (enc_strings sl)" and "list_all cstr sl"
  shows "flag_loop f msg bc (length sl) ip s =
    map_option (\<lambda>s. (s, ip + length (enc_strings sl) div 4)) (flags_do f msg sl s)"
  unfolding flag_loop_def flags_do_def by (rule for_strings_all [OF assms])

lemma runs_flags:
  assumes c: "c = C_ADDFLAG sl \<or> c = C_REMOVEFLAG sl \<or> c = C_SETFLAG sl \<and> sl \<noteq> []"
    and sl: "list_all cstr sl" and bc: "length bc < 2 ^ 31"
  shows "runs_simple env bc c"
  unfolding runs_simple_def
proof (intro allI impI)
  fix fuel is_incl ip st res st'
  assume at: "bytes_at bc (4 * ip) (htonl (opcode_of c) @ enc_args (4 * (ip + 1)) c)"
    and ex: "exec_simple env c st = Some (res, st')"
  note w = word_then [OF at]
  have args: "enc_args (4 * (ip + 1)) c = enc_stringlist (4 * (ip + 1)) sl" using c by auto
  note l = stringlist_at [OF w(2) [unfolded args] bc]
  have e3: "ip + 1 + 2 = ip + 3" by simp
  note l3 = l(4) [unfolded e3]
  have len: "ip + 1 + length (enc_args (4 * (ip + 1)) c) div 4 = ip + 3 + length (enc_strings sl) div 4"
    unfolding args l(5) by simp
  show "\<exists>ip'. eval_op fuel env is_incl 5 bc ip st = Some (Go res ip' st') \<and>
       (res = 0 \<longrightarrow> ip' = ip + 1 + length (enc_args (4 * (ip + 1)) c) div 4)"
    unfolding len
  proof (cases "c = C_SETFLAG sl")
    case False
    then show "\<exists>ip'. eval_op fuel env is_incl 5 bc ip st = Some (Go res ip' st') \<and>
        (res = 0 \<longrightarrow> ip' = ip + 3 + length (enc_strings sl) div 4)"
      using c w(1) ex flag_loop_at [OF l3 sl] l(1,2)
      by (auto simp: eval_op_def op_addflag_def op_removeflag_def)
  next
    case True
    with c obtain x xs where x: "sl = x # xs" by (cases sl) auto
    note s1 = string_then [OF l3 [unfolded x enc_strings_Cons]]
    let ?p = "ip + 3 + length (enc_string (Some x)) div 4"
    have u: "unwrap_string bc (ip + 3) = Some (Some x, ?p)" "bytes_at bc (4 * ?p) (enc_strings xs)"
      using s1 sl x by simp_all
    have p: "?p + length (enc_strings xs) div 4 = ip + 3 + length (enc_strings sl) div 4"
      using enc_string_words [of "Some x"] by (simp add: x)
    note fl = flag_loop_at [OF u(2), of do_addflag "''setflag can not be used with Reject''", unfolded p]
    obtain r st1 where t: "take_action (do_setflag (Some x)) (Some ''setflag can not be used with Reject'') st = Some (r, st1)"
      using ex True x by (auto split: Option.bind_splits)
    have n: "rounds (of_nat (length sl)) - 1 = length xs"
      unfolding rounds_of_nat [OF l(2)] by (simp add: x)
    have ex': "(if r = SIEVE_RUN_ERROR then Some (r, st1)
       else flags_do do_addflag ''setflag can not be used with Reject'' xs (r, st1)) = Some (res, st')"
      using ex unfolding True x by (simp add: t)
    have "eval_op fuel env is_incl 5 bc ip st = op_setflag bc ip st"
      using w(1) True by (simp add: eval_op_def)
    also have "\<dots> = (if r = SIEVE_RUN_ERROR then Some (Go r ?p st1) else
        do { ((res, st), ip) \<leftarrow> flag_loop do_addflag ''setflag can not be used with Reject'' bc (length xs) ?p (r, st1);
          Some (Go res ip st) })"
      unfolding op_setflag_def l(1) Option.bind.simps u(1) prod.case t n ..
    finally show "\<exists>ip'. eval_op fuel env is_incl 5 bc ip st = Some (Go res ip' st') \<and>
        (res = 0 \<longrightarrow> ip' = ip + 3 + length (enc_strings sl) div 4)"
      using ex' fl sl x by (auto split: if_splits)
  qed
qed

lemma runs_notify:
  assumes ok: "simple_ok (C_NOTIFY n)" and bc: "length bc < 2 ^ 31"
  shows "runs_simple env bc (C_NOTIFY n)"
  unfolding runs_simple_def
proof (intro allI impI)
  fix fuel is_incl ip st res st'
  let ?c = "C_NOTIFY n" and ?m = "Some (n_method n)"
  let ?a = "ip + 1 + length (enc_string ?m) div 4"
  let ?b = "?a + length (enc_string (n_id n)) div 4"
  assume at: "bytes_at bc (4 * ip) (htonl (opcode_of ?c) @ enc_args (4 * (ip + 1)) ?c)"
    and ex: "exec_simple env ?c st = Some (res, st')"
  note w = word_then [OF at]
  let ?d = "?b + length (enc_stringlist (4 * ?b) (n_options n)) div 4"
  have b4: "4 * (ip + 1) + length (enc_string ?m) + length (enc_string (n_id n)) = 4 * ?b"
    using enc_string_words [of ?m] enc_string_words [of "n_id n"] by simp
  have args: "enc_args (4 * (ip + 1)) ?c = enc_string ?m @ enc_string (n_id n) @
      enc_stringlist (4 * ?b) (n_options n) @ htonl (the (priority_value (n_priority n))) @
      enc_string (Some (n_message n))"
    by (simp only: enc_args.simps Let_def b4) (simp add: enc_words_def)
  have okm: "ocstr ?m" "ocstr (n_id n)" using ok by simp_all
  note s1 = string_then [OF w(2) [unfolded args] okm(1)]
  note m = s1(1)
  note s2 = string_then [OF s1(2) okm(2)]
  note i = s2(1) and b = s2(2)
  have o: "bc_makeArray bc ?b = Some (map Some (n_options n), ?d)"
    using stringlist_then(1) [OF b] ok bc by (intro makeArray_at) auto
  note s3 = word_then [OF stringlist_then(2) [OF b]]
  have ms: "unwrap_string bc (?d + 1) =
      Some (Some (n_message n), ?d + 1 + length (enc_string (Some (n_message n))) div 4)"
    using s3(2) ok by (intro string_last) auto
  have len: "ip + 1 + length (enc_args (4 * (ip + 1)) ?c) div 4 =
      ?d + 1 + length (enc_string (Some (n_message n))) div 4"
    unfolding args using enc_string_words [of ?m] enc_string_words [of "n_id n"]
      enc_string_words [of "Some (n_message n)"] enc_strings_words [of "n_options n"] by simp
  have "eval_op fuel env is_incl 5 bc ip st = op_notify bc ip st"
    using w(1) by (simp add: eval_op_def)
  also have "\<dots> = do {
      (res, ns) \<leftarrow> do_notify (n_id n) ?m (map Some (n_options n))
        (priority_of (the (priority_value (n_priority n)))) (Some (n_message n)) (rs_notify st);
      Some (Go res (?d + 1 + length (enc_string (Some (n_message n))) div 4) (st\<lparr>rs_notify := ns\<rparr>)) }"
    unfolding op_notify_def m i o s3(1) ms Option.bind.simps prod.case ..
  finally show "\<exists>ip'. eval_op fuel env is_incl 5 bc ip st = Some (Go res ip' st') \<and>
       (res = 0 \<longrightarrow> ip' = ip + 1 + length (enc_args (4 * (ip + 1)) ?c) div 4)"
    unfolding len using ex by (auto split: Option.bind_splits)
qed

lemma runs_denotify:
  assumes ok: "simple_ok (C_DENOTIFY d)"
  shows "runs_simple env bc (C_DENOTIFY d)"
  unfolding runs_simple_def
proof (intro allI impI)
  fix fuel is_incl ip st res st'
  let ?c = "C_DENOTIFY d" and ?s = "d_pattern d"
  let ?pri = "the (priority_value (d_priority d))" and ?cmp = "the (denotify_comptag_value (d_comptag d))"
    and ?rel = "relation_value (d_relation d)"
  assume at: "bytes_at bc (4 * ip) (htonl (opcode_of ?c) @ enc_args (4 * (ip + 1)) ?c)"
    and ex: "exec_simple env ?c st = Some (res, st')"
  note w = word_then [OF at]
  have args: "enc_args (4 * (ip + 1)) ?c = htonl ?pri @ htonl ?cmp @ htonl ?rel @ enc_string ?s"
    by (simp add: enc_words_def)
  note w1 = word_then [OF w(2) [unfolded args]]
  note w2 = word_then [OF w1(2)]
  note w3 = word_then [OF w2(2)]
  have e: "ip + 1 + 1 = ip + 2" "ip + 2 + 1 = ip + 3" "ip + 3 + 1 = ip + 4" by simp_all
  have u: "unwrap_string bc (ip + 4) = Some (?s, ip + 4 + length (enc_string ?s) div 4)"
    using w3(2) ok unfolding e by (intro string_last) auto
  obtain prio where p: "priority_of ?pri = Some prio"
    using ok by (cases "d_priority d") (auto simp: priority_value_def priority_of_def)
  have len: "ip + 1 + length (enc_args (4 * (ip + 1)) ?c) div 4 = ip + 4 + length (enc_string ?s) div 4"
    unfolding args by simp
  have "eval_op fuel env is_incl 5 bc ip st = op_denotify env bc ip st"
    using w(1) by (simp add: eval_op_def)
  also have "\<dots> = map_option (\<lambda>(res, st). Go res (ip + 4 + length (enc_string ?s) div 4) st) (denotify_do env d st)"
    unfolding op_denotify_def denotify_do_def w1(1) w2(1) [unfolded e] w3(1) [unfolded e] u p
      Option.bind.simps option.case prod.case Let_def
    by (auto split: option.splits Option.bind_splits)
  finally show "\<exists>ip'. eval_op fuel env is_incl 5 bc ip st = Some (Go res ip' st') \<and>
       (res = 0 \<longrightarrow> ip' = ip + 1 + length (enc_args (4 * (ip + 1)) ?c) div 4)"
    unfolding len using ex by simp
qed

lemma runs_vacation:
  assumes ok: "simple_ok (C_VACATION v)" and bc: "length bc < 2 ^ 31"
  shows "runs_simple env bc (C_VACATION v)"
  unfolding runs_simple_def
proof (intro allI impI)
  fix fuel is_incl ip st res st'
  let ?c = "C_VACATION v" and ?sl = "v_addresses v"
  assume at: "bytes_at bc (4 * ip) (htonl (opcode_of ?c) @ enc_args (4 * (ip + 1)) ?c)"
    and ex: "exec_simple env ?c st = Some (res, st')"
  note w = word_then [OF at]
  have args: "enc_args (4 * (ip + 1)) ?c = enc_stringlist (4 * (ip + 1)) ?sl @ enc_string (v_subject v) @
      enc_string (v_message v) @ htonl (v_days v) @ htonl (v_mime v) @ enc_string (v_from v) @ enc_string (v_handle v)"
    by (simp add: enc_words_def)
  have oks: "ocstr (v_subject v)" "ocstr (v_message v)" "ocstr (v_from v)" "ocstr (v_handle v)" "list_all cstr ?sl"
    using ok by simp_all
  note l = stringlist_then [OF w(2) [unfolded args]]
  note sl = stringlist_at [OF l(1) bc]
  let ?a = "ip + 1 + length (enc_stringlist (4 * (ip + 1)) ?sl) div 4"
  note s1 = string_then [OF l(2) oks(1)]
  note s2 = string_then [OF s1(2) oks(2)]
  let ?d = "?a + length (enc_string (v_subject v)) div 4 + length (enc_string (v_message v)) div 4"
  note s3 = word_then [OF s2(2)]
  note s4 = word_then [OF s3(2)]
  have e2: "?d + 1 + 1 = ?d + 2" by simp
  note s5 = string_then [OF s4(2) [unfolded e2] oks(3)]
  note s6 = string_last [OF s5(2) oks(4)]
  let ?e = "?d + 2 + length (enc_string (v_from v)) div 4 + length (enc_string (v_handle v)) div 4"
  have len: "ip + 1 + length (enc_args (4 * (ip + 1)) ?c) div 4 = ?e"
    unfolding args using enc_string_words [of "v_subject v"] enc_string_words [of "v_message v"]
      enc_string_words [of "v_from v"] enc_string_words [of "v_handle v"] enc_strings_words [of ?sl] by simp
  obtain wd where wd: "bc_word bc (ip + 1 + 1) = Some wd" "unat wd div 4 = ?a" using sl(3) by auto
  have sr: "shouldRespond env (of_nat (length ?sl)) bc (ip + 3) =
      respond_to env (\<lambda>go body s. for_list go body ?sl s)"
  proof -
    have e3: "ip + 1 + 2 = ip + 3" by simp
    show ?thesis
      unfolding shouldRespond_def rounds_of_nat [OF sl(2)] for_strings_enc [OF sl(4) [unfolded e3] oks(5)] ..
  qed
  have e1: "ip + 1 + 1 = ip + 2" by simp
  obtain respond fromaddr toaddr where
    r: "respond_to env (\<lambda>go body s. for_list go body ?sl s) = Some (respond, fromaddr, toaddr)"
    using ex by (auto simp: vacation_do_def split: Option.bind_splits)
  have "eval_op fuel env is_incl 5 bc ip st = op_vacation 5 env bc ip st"
    using w(1) by (simp add: eval_op_def)
  also have "\<dots> = map_option (\<lambda>(res, st). Go res (if respond = SIEVE_OK \<or> respond = SIEVE_DONE then ?e else ?a) st)
      (vacation_do env v st)"
  proof -
    have v5: "sint (5 :: cint) \<ge> 5" by simp
    show ?thesis
      unfolding op_vacation_def vacation_do_def sl(1) sr r wd(1) [unfolded e1] wd(2) s1(1) s2(1) s3(1) s4(1) s5(1) s6
        Option.bind.simps prod.case Let_def if_P [OF v5]
      by (auto split: Option.bind_splits)
  qed
  finally show "\<exists>ip'. eval_op fuel env is_incl 5 bc ip st = Some (Go res ip' st') \<and>
       (res = 0 \<longrightarrow> ip' = ip + 1 + length (enc_args (4 * (ip + 1)) ?c) div 4)"
    unfolding len using ex r by (auto simp: vacation_do_def)
qed

lemma runs_simple_cmd:
  assumes "simple_ok c" and "length bc < 2 ^ 31"
  shows "runs_simple env bc c"
proof (cases c)
  case (C_REJCT s)
  then show ?thesis using assms runs_string [of c s] by simp
next
  case (C_FILEINTO s k)
  then show ?thesis using assms runs_string [of c s k] by simp
next
  case (C_REDIRECT s k)
  then show ?thesis using assms runs_string [of c s k] by simp
next
  case (C_ADDFLAG sl)
  then show ?thesis using assms runs_flags [of c sl] by simp
next
  case (C_SETFLAG sl)
  then show ?thesis using assms runs_flags [of c sl] by simp
next
  case (C_REMOVEFLAG sl)
  then show ?thesis using assms runs_flags [of c sl] by simp
next
  case (C_NOTIFY n)
  then show ?thesis using assms runs_notify by blast
next
  case (C_DENOTIFY d)
  then show ?thesis using assms runs_denotify by blast
next
  case (C_VACATION v)
  then show ?thesis using assms runs_vacation by blast
qed (use assms runs_noarg [of c] in simp_all)

end
