(* ===== verification/Sieve_Run.thy ===== *)
theory Sieve_Run
  imports Sieve_Exec
begin

text \<open>
  The main loop of the interpreter on the bytes of a compiled script: blocks, jumps and
  conditions, and the theorem that compiling and running a script is executing its tree.
\<close>

section \<open>Positions\<close>

lemma enc_args_dvd [simp]: "4 dvd length (enc_args p c)"
  by (cases c) (simp_all add: Let_def)

lemma enc_cmd_dvd [simp]:
  "4 dvd length (enc_block p cs)" "4 dvd length (enc_cmds p cs)" "4 dvd length (enc_cmd p c)"
proof (induction p cs and p cs and p c rule: enc_block_enc_cmds_enc_cmd.induct)
  case (1 p cs)
  then show ?case by (simp add: enc_block.simps [of p cs])
next
  case (3 p c cs)
  then show ?case by (simp add: Let_def)
next
  case (4 p c)
  then show ?case by (cases c) (simp_all add: enc_cmd.simps Let_def)
qed simp

section \<open>Runs of the main loop\<close>

definition flow_cache :: "body_cache \<Rightarrow> flow \<Rightarrow> flow" where
  "flow_cache x f = (case f of
     Onward st \<Rightarrow> Onward (st\<lparr>rs_cache := x\<rparr>) | Ended res st \<Rightarrow> Ended res (st\<lparr>rs_cache := x\<rparr>))"

lemma take_action_cache:
  "take_action f msg (st\<lparr>rs_cache := x\<rparr>) =
     map_option (\<lambda>(r, st). (r, st\<lparr>rs_cache := x\<rparr>)) (take_action f msg st)"
  by (cases "f (rs_actions st)") (auto simp: take_action_def set_errmsg_def Let_def split: option.splits)

lemma flags_do_cache:
  "flags_do f msg sl (r, st\<lparr>rs_cache := x\<rparr>) =
     map_option (\<lambda>(r, st). (r, st\<lparr>rs_cache := x\<rparr>)) (flags_do f msg sl (r, st))"
proof (induction sl arbitrary: r st)
  case (Cons a sl)
  then show ?case
    by (cases "take_action (f (Some a)) (Some msg) st") (auto simp: flags_do_def take_action_cache)
qed (simp add: flags_do_def)

lemma exec_simple_cache:
  "exec_simple env c (st\<lparr>rs_cache := x\<rparr>) =
     map_option (\<lambda>(r, st). (r, st\<lparr>rs_cache := x\<rparr>)) (exec_simple env c st)"
proof (cases c)
  case (C_SETFLAG sl)
  show ?thesis
  proof (cases sl)
    case (Cons a l)
    show ?thesis
      unfolding C_SETFLAG Cons
      by (cases "take_action (do_setflag (Some a)) (Some ''setflag can not be used with Reject'') st")
        (auto simp: take_action_cache flags_do_cache)
  qed (simp add: C_SETFLAG)
next
  case (C_VACATION v)
  then show ?thesis
    by (auto simp: vacation_do_def take_action_cache split: Option.bind_splits)
next
  case (C_NOTIFY n)
  then show ?thesis by (auto split: Option.bind_splits)
next
  case (C_DENOTIFY d)
  then show ?thesis
    by (auto simp: denotify_do_def Let_def split: Option.bind_splits option.splits)
qed (simp_all add: take_action_cache flags_do_cache)

lemma exec_cache:
  "exec_cmd env dec is_incl c (st\<lparr>rs_cache := x\<rparr>) = map_option (flow_cache x) (exec_cmd env dec is_incl c st)"
  "exec_cmds env dec is_incl cs (st\<lparr>rs_cache := x\<rparr>) = map_option (flow_cache x) (exec_cmds env dec is_incl cs st)"
proof (induction env dec is_incl c st and env dec is_incl cs st rule: exec_cmd_exec_cmds.induct)
  case (5 env dec is_incl c cs st)
  then show ?case
    by (cases "exec_cmd env dec is_incl c st") (auto simp: flow_cache_def split: flow.splits)
qed (auto simp: exec_simple_cache flow_cache_def split: Option.bind_splits simp del: exec_simple.simps)

text \<open>
  From \<^verbatim>\<open>ip\<close>, in at most \<^verbatim>\<open>K\<close> rounds, the loop arrives at \<^verbatim>\<open>ip'\<close> or ends as \<^verbatim>\<open>f\<close> says; the cache
  may change. The rounds need fuel \<^verbatim>\<open>N\<close> for their tests.
\<close>

definition goes ::
  "scripts \<Rightarrow> 'r sieve_env \<Rightarrow> (string \<Rightarrow> string) \<Rightarrow> bool \<Rightarrow> string \<Rightarrow> execute \<Rightarrow> nat \<Rightarrow> nat \<Rightarrow> nat \<Rightarrow> run_state \<Rightarrow> nat \<Rightarrow> flow \<Rightarrow> bool"
where
  "goes fs env dec is_incl bc exe N K ip st ip' f \<longleftrightarrow> (case f of
     Onward st' \<Rightarrow> \<exists>k \<le> K. \<exists>c. cache_ok dec c \<and> (\<forall>fuel \<ge> N.
       eval_loop (k + fuel) fs env is_incl 5 bc ip exe st =
       eval_loop fuel fs env is_incl 5 bc ip' exe (st'\<lparr>rs_cache := c\<rparr>))
   | Ended res st' \<Rightarrow> \<exists>c. cache_ok dec c \<and> (\<forall>fuel \<ge> K + N.
       eval_loop fuel fs env is_incl 5 bc ip exe st = Some (res, exe, st'\<lparr>rs_cache := c\<rparr>, True)))"

lemma goes_cache [simp]:
  "goes fs env dec is_incl bc exe N K ip st ip' (flow_cache x f) = goes fs env dec is_incl bc exe N K ip st ip' f"
  by (cases f) (simp_all add: goes_def flow_cache_def)

lemma goes_mono:
  "goes fs env dec is_incl bc exe N K ip st ip' f \<Longrightarrow> K \<le> K' \<Longrightarrow> goes fs env dec is_incl bc exe N K' ip st ip' f"
proof (cases f)
  case (Onward st')
  assume "goes fs env dec is_incl bc exe N K ip st ip' f" and "K \<le> K'"
  then show ?thesis unfolding goes_def Onward flow.case by (meson le_trans)
next
  case (Ended res st')
  assume "goes fs env dec is_incl bc exe N K ip st ip' f" and "K \<le> K'"
  then show ?thesis unfolding goes_def Ended flow.case by (meson add_le_mono1 le_trans)
qed

lemma goes_ended:
  assumes "goes fs env dec is_incl bc exe N K ip st ip1 (Ended res st')" and "K \<le> K'"
  shows "goes fs env dec is_incl bc exe N K' ip st ip2 (Ended res st')"
  using goes_mono [OF assms] by (simp add: goes_def)

lemma goes_trans:
  assumes one: "goes fs env dec is_incl bc exe N K1 ip st ip1 (Onward st1)"
    and two: "\<And>c. cache_ok dec c \<Longrightarrow> goes fs env dec is_incl bc exe N K2 ip1 (st1\<lparr>rs_cache := c\<rparr>) ip2 f"
  shows "goes fs env dec is_incl bc exe N (K1 + K2) ip st ip2 f"
proof -
  let ?ev = "\<lambda>fuel ip st. eval_loop fuel fs env is_incl 5 bc ip exe st"
  obtain k c where k: "k \<le> K1" "cache_ok dec c"
    "\<And>fuel. N \<le> fuel \<Longrightarrow> ?ev (k + fuel) ip st = ?ev fuel ip1 (st1\<lparr>rs_cache := c\<rparr>)"
    using one by (auto simp: goes_def)
  show ?thesis
  proof (cases f)
    case (Onward st2)
    then obtain k2 c2 where k2: "k2 \<le> K2" "cache_ok dec c2"
      "\<And>fuel. N \<le> fuel \<Longrightarrow> ?ev (k2 + fuel) ip1 (st1\<lparr>rs_cache := c\<rparr>) = ?ev fuel ip2 (st2\<lparr>rs_cache := c2\<rparr>)"
      using two [OF k(2)] by (auto simp: goes_def)
    have "?ev (k + k2 + fuel) ip st = ?ev fuel ip2 (st2\<lparr>rs_cache := c2\<rparr>)" if "N \<le> fuel" for fuel
      using k(3) [of "k2 + fuel"] k2(3) [OF that] that by (simp add: add.assoc)
    then show ?thesis
      unfolding goes_def Onward flow.case using k(1) k2(1,2) by (intro exI [of _ "k + k2"]) auto
  next
    case (Ended res st2)
    then obtain c2 where c2: "cache_ok dec c2"
      "\<And>fuel. K2 + N \<le> fuel \<Longrightarrow> ?ev fuel ip1 (st1\<lparr>rs_cache := c\<rparr>) = Some (res, exe, st2\<lparr>rs_cache := c2\<rparr>, True)"
      using two [OF k(2)] by (auto simp: goes_def)
    have "?ev fuel ip st = Some (res, exe, st2\<lparr>rs_cache := c2\<rparr>, True)" if "K1 + K2 + N \<le> fuel" for fuel
      using k(3) [of "fuel - k"] c2(2) [of "fuel - k"] k(1) that by simp
    then show ?thesis unfolding goes_def Ended flow.case using c2(1) by auto
  qed
qed

lemma goes_step:
  assumes "\<And>fuel. N \<le> fuel \<Longrightarrow> eval_op fuel env is_incl 5 bc ip st = Some (Go 0 ip' (st'\<lparr>rs_cache := c\<rparr>))"
    and "ip < length bc div 4" and "cache_ok dec c"
  shows "goes fs env dec is_incl bc exe N 1 ip st ip' (Onward st')"
  unfolding goes_def flow.case using assms by (intro exI [of _ 1]) auto

lemma goes_stop:
  assumes "\<And>fuel. N \<le> fuel \<Longrightarrow> \<exists>ip'. eval_op fuel env is_incl 5 bc ip st = Some (Go res ip' (st'\<lparr>rs_cache := c\<rparr>)) \<or>
      eval_op fuel env is_incl 5 bc ip st = Some (Done (st'\<lparr>rs_cache := c\<rparr>)) \<and> res = 0"
    and "ip < length bc div 4" and "cache_ok dec c" and "res \<noteq> 0 \<or> (\<forall>fuel ip' st'. eval_op fuel env is_incl 5 bc ip st \<noteq> Some (Go 0 ip' st'))"
  shows "goes fs env dec is_incl bc exe N 1 ip st ip2 (Ended res st')"
  unfolding goes_def flow.case
proof (intro exI [of _ c] conjI allI impI)
  fix fuel assume "1 + N \<le> fuel"
  then obtain f where f: "fuel = Suc f" "N \<le> f" by (cases fuel) auto
  show "eval_loop fuel fs env is_incl 5 bc ip exe st = Some (res, exe, st'\<lparr>rs_cache := c\<rparr>, True)"
    using assms(1) [OF f(2)] assms(2,4) f(1) by auto
qed (rule assms)

section \<open>Commands and blocks\<close>

lemma word_inside: "bytes_at bc (4 * ip) (htonl w @ s) \<Longrightarrow> ip < length bc div 4"
  using bytes_at_bound [of bc "4 * ip" "htonl w @ s"] by simp

definition cmd_goes :: "scripts \<Rightarrow> 'r sieve_env \<Rightarrow> (string \<Rightarrow> string) \<Rightarrow> bool \<Rightarrow> string \<Rightarrow> execute \<Rightarrow> nat \<Rightarrow> command \<Rightarrow> bool" where
  "cmd_goes fs env dec is_incl bc exe N c \<longleftrightarrow> (\<forall>ip st f.
     bytes_at bc (4 * ip) (enc_cmd (4 * ip) c) \<longrightarrow> cache_ok dec (rs_cache st) \<longrightarrow>
     exec_cmd env dec is_incl c st = Some f \<longrightarrow>
     goes fs env dec is_incl bc exe N (4 * size c + 4) ip st (ip + length (enc_cmd (4 * ip) c) div 4) f)"

lemma exec_cmd_simple:
  "simple_ok c \<Longrightarrow> exec_cmd env dec is_incl c st = do {
     (res, st) \<leftarrow> exec_simple env c st;
     Some (if res = 0 then Onward st else Ended res st)
   }"
  by (cases c) (simp_all del: exec_simple.simps)

lemma enc_cmd_simple: "simple_ok c \<Longrightarrow> enc_cmd p c = htonl (opcode_of c) @ enc_args (p + 4) c"
  by (cases c) (simp_all add: enc_cmd.simps del: enc_args.simps opcode_of.simps)

lemma simple_goes:
  assumes ok: "simple_ok c" and bc: "length bc < 2 ^ 31"
  shows "cmd_goes fs env dec is_incl bc exe N c"
  unfolding cmd_goes_def
proof (intro allI impI)
  fix ip st f
  assume at: "bytes_at bc (4 * ip) (enc_cmd (4 * ip) c)" and co: "cache_ok dec (rs_cache st)"
    and ex: "exec_cmd env dec is_incl c st = Some f"
  have e: "enc_cmd (4 * ip) c = htonl (opcode_of c) @ enc_args (4 * (ip + 1)) c"
  proof -
    have "4 * ip + 4 = 4 * (ip + 1)" by simp
    with enc_cmd_simple [OF ok, of "4 * ip"] show ?thesis by (simp only:)
  qed
  have len: "ip + 1 + length (enc_args (4 * (ip + 1)) c) div 4 = ip + length (enc_cmd (4 * ip) c) div 4"
    unfolding e by simp
  obtain res st' where s1: "exec_simple env c st = Some (res, st')"
    using ex unfolding exec_cmd_simple [OF ok] by (cases "exec_simple env c st") (simp, metis surj_pair)
  have "f = (if res = 0 then Onward st' else Ended res st')"
    using ex unfolding exec_cmd_simple [OF ok] s1 by simp
  note s = s1 this
  have c': "st'\<lparr>rs_cache := rs_cache st\<rparr> = st'"
  proof -
    have "exec_simple env c (st\<lparr>rs_cache := rs_cache st\<rparr>) = Some (res, st')" using s(1) by simp
    then show ?thesis unfolding exec_simple_cache s(1) by simp
  qed
  have run: "\<exists>ip'. eval_op fuel env is_incl 5 bc ip st = Some (Go res ip' st') \<and>
      (res = 0 \<longrightarrow> ip' = ip + length (enc_cmd (4 * ip) c) div 4)" for fuel
    unfolding len [symmetric]
    by (rule runs_simple_cmd [OF ok bc, unfolded runs_simple_def, rule_format, OF at [unfolded e] s(1)])
  have ipb: "ip < length bc div 4" using at word_inside unfolding e by blast
  show "goes fs env dec is_incl bc exe N (4 * size c + 4) ip st (ip + length (enc_cmd (4 * ip) c) div 4) f"
  proof (cases "res = 0")
    case True
    have "goes fs env dec is_incl bc exe N 1 ip st (ip + length (enc_cmd (4 * ip) c) div 4) (Onward st')"
      by (rule goes_step [where c = "rs_cache st"]) (use run True ipb co c' in auto)
    then have "goes fs env dec is_incl bc exe N (4 * size c + 4) ip st
        (ip + length (enc_cmd (4 * ip) c) div 4) (Onward st')"
      by (rule goes_mono) simp
    then show ?thesis using True s(2) by simp
  next
    case False
    have "goes fs env dec is_incl bc exe N 1 ip st (ip + length (enc_cmd (4 * ip) c) div 4) (Ended res st')"
      by (rule goes_stop [where c = "rs_cache st"]) (use run False ipb co c' in auto)
    then have "goes fs env dec is_incl bc exe N (4 * size c + 4) ip st
        (ip + length (enc_cmd (4 * ip) c) div 4) (Ended res st')"
      by (rule goes_mono) simp
    then show ?thesis using False s(2) by simp
  qed
qed

lemma return_goes: "cmd_goes fs env dec is_incl bc exe N C_RETURN"
  unfolding cmd_goes_def
proof (intro allI impI)
  fix ip st f
  assume at: "bytes_at bc (4 * ip) (enc_cmd (4 * ip) C_RETURN)" and co: "cache_ok dec (rs_cache st)"
    and ex: "exec_cmd env dec is_incl C_RETURN st = Some f"
  have e: "enc_cmd (4 * ip) C_RETURN = htonl B_RETURN @ []" by (simp add: enc_cmd.simps)
  have w: "bc_word bc ip = Some B_RETURN" using at bc_word_at unfolding e by simp
  have op: "eval_op fuel env is_incl 5 bc ip st = Some (if is_incl then Done st else Go 1 ip st)" for fuel
    using w by (simp add: eval_op_def)
  have ipb: "ip < length bc div 4" using at word_inside unfolding e by blast
  show "goes fs env dec is_incl bc exe N (4 * size C_RETURN + 4) ip st (ip + length (enc_cmd (4 * ip) C_RETURN) div 4) f"
    using ex op ipb co
    by (cases is_incl)
      (auto simp del: B_RETURN_def intro!: goes_mono [OF goes_stop [where c = "rs_cache st"]])
qed

lemma cmds_goes:
  assumes "list_all (cmd_goes fs env dec is_incl bc exe N) cs"
    and "bytes_at bc (4 * ip) (enc_cmds (4 * ip) cs)" and "cache_ok dec (rs_cache st)"
    and "exec_cmds env dec is_incl cs st = Some f"
  shows "goes fs env dec is_incl bc exe N (4 * size_list size cs) ip st (ip + length (enc_cmds (4 * ip) cs) div 4) f"
  using assms
proof (induction cs arbitrary: ip st f)
  case Nil
  then show ?case by (auto simp: goes_def intro!: exI [of _ "rs_cache st"])
next
  case (Cons c cs)
  let ?l = "length (enc_cmd (4 * ip) c) div 4"
  have p: "4 * ip + length (enc_cmd (4 * ip) c) = 4 * (ip + ?l)" by simp
  have at: "bytes_at bc (4 * ip) (enc_cmd (4 * ip) c)" "bytes_at bc (4 * (ip + ?l)) (enc_cmds (4 * (ip + ?l)) cs)"
    using Cons.prems(2) unfolding enc_cmds.simps Let_def bytes_at_append p by simp_all
  have len: "ip + length (enc_cmds (4 * ip) (c # cs)) div 4 = ip + ?l + length (enc_cmds (4 * (ip + ?l)) cs) div 4"
    unfolding enc_cmds.simps Let_def p by simp
  obtain g where g: "exec_cmd env dec is_incl c st = Some g"
    using Cons.prems(4) by (auto split: Option.bind_splits)
  have one: "goes fs env dec is_incl bc exe N (4 * size c + 4) ip st (ip + ?l) g"
    using Cons.prems(1,3) at(1) g by (simp add: cmd_goes_def)
  have K: "4 * size_list size (c # cs) = 4 * size c + 4 + 4 * size_list size cs" by simp
  show ?case
  proof (cases g)
    case (Onward st1)
    have rest: "exec_cmds env dec is_incl cs st1 = Some f" using Cons.prems(4) g Onward by simp
    have two: "goes fs env dec is_incl bc exe N (4 * size_list size cs) (ip + ?l) (st1\<lparr>rs_cache := x\<rparr>)
        (ip + ?l + length (enc_cmds (4 * (ip + ?l)) cs) div 4) f" if "cache_ok dec x" for x
    proof -
      have "exec_cmds env dec is_incl cs (st1\<lparr>rs_cache := x\<rparr>) = Some (flow_cache x f)"
        using rest by (simp add: exec_cache)
      from Cons.IH [OF _ at(2) _ this] Cons.prems(1) that show ?thesis by simp
    qed
    show ?thesis unfolding K len by (rule goes_trans [OF one [unfolded Onward] two])
  next
    case (Ended res st1)
    then have "f = Ended res st1" using Cons.prems(4) g by simp
    then show ?thesis using goes_ended [OF one [unfolded Ended]] unfolding K by simp
  qed
qed

lemma block_goes:
  assumes "list_all (cmd_goes fs env dec is_incl bc exe N) cs"
    and at: "bytes_at bc (4 * ip) (enc_block (4 * ip) cs)" and co: "cache_ok dec (rs_cache st)"
    and ex: "exec_cmds env dec is_incl cs st = Some f"
  shows "goes fs env dec is_incl bc exe N (4 * size_list size cs + 1) ip st (ip + length (enc_block (4 * ip) cs) div 4) f"
proof (cases "cs = []")
  case True
  then have e: "enc_block (4 * ip) cs = htonl B_NULL @ []" by (simp add: enc_block.simps)
  have w: "bc_word bc ip = Some B_NULL" using at bc_word_at unfolding e by simp
  have "goes fs env dec is_incl bc exe N 1 ip st (ip + 1) (Onward st)"
    by (rule goes_step [where c = "rs_cache st"])
      (use w co word_inside [OF at [unfolded e]] in \<open>auto simp: eval_op_def\<close>)
  then show ?thesis using ex unfolding e by (simp add: True)
next
  case False
  then have e: "enc_block (4 * ip) cs = enc_cmds (4 * ip) cs" by (simp add: enc_block.simps)
  show ?thesis
    unfolding e by (rule goes_mono [OF cmds_goes [OF assms(1) at [unfolded e] co ex]]) simp
qed

lemma jump_goes:
  assumes at: "bytes_at bc (4 * ip) (htonl B_JUMP @ htonl (of_nat ip'))" and "ip' < 2 ^ 31" and "cache_ok dec (rs_cache st)"
  shows "goes fs env dec is_incl bc exe N 1 ip st ip' (Onward st)"
proof (rule goes_step [where c = "rs_cache st"])
  note w = word_then [OF at]
  have "bc_word bc (ip + 1) = Some (of_nat ip')" using w(2) by (rule bc_word_at)
  then show "eval_op fuel env is_incl 5 bc ip st = Some (Go 0 ip' (st\<lparr>rs_cache := rs_cache st\<rparr>))" for fuel
    using w(1) assms(2) by (simp add: eval_op_def nat_of_small)
  show "ip < length bc div 4" by (rule word_inside [OF at])
qed (rule assms)

lemma eval_bc_more_fuel:
  "eval_bc_test fuel env bc i cache = Some r \<Longrightarrow> eval_bc_test (Suc fuel) env bc i cache = Some r"
  "eval_bc_list fuel stop n env bc i cache = Some q \<Longrightarrow> eval_bc_list (Suc fuel) stop n env bc i cache = Some q"
proof (induction fuel env bc i cache and fuel stop n env bc i cache arbitrary: r and q
    rule: eval_bc_test_eval_bc_list.induct)
  case (2 fuel env bc i cache)
  obtain opcode where opcode: "bc_word bc i = Some opcode" using "2.prems" by (cases "bc_word bc i") simp_all
  consider (not) "opcode = BC_NOT" | (list) "opcode \<noteq> BC_NOT" "opcode = BC_ANYOF \<or> opcode = BC_ALLOF"
    | (leaf) "opcode \<noteq> BC_NOT" "\<not> (opcode = BC_ANYOF \<or> opcode = BC_ALLOF)" by blast
  then show ?case
  proof cases
    case not
    obtain x where x: "eval_bc_test fuel env bc (i + 1) cache = Some x"
      using "2.prems" opcode not by (auto split: Option.bind_splits)
    show ?thesis
      using "2.prems" "2.IH"(1) [OF opcode not x] x
      unfolding eval_bc_test.simps(2) opcode bind.bind_lunit if_P [OF not] by simp
  next
    case list
    obtain l e where l: "bc_word bc (i + 1) = Some l" "bc_word bc (i + 2) = Some e"
      using "2.prems" opcode list
      unfolding eval_bc_test.simps(2) opcode bind.bind_lunit if_not_P [OF list(1)] if_P [OF list(2)]
      by (auto split: Option.bind_splits)
    obtain x where x: "eval_bc_list fuel (of_bool (opcode = BC_ANYOF)) (rounds l) env bc (i + 3) cache = Some x"
      using "2.prems"
      unfolding eval_bc_test.simps(2) opcode bind.bind_lunit if_not_P [OF list(1)] if_P [OF list(2)] l
      by (auto split: Option.bind_splits)
    show ?thesis
      using "2.prems" "2.IH"(2) [OF opcode list l x] x
      unfolding eval_bc_test.simps(2) opcode bind.bind_lunit if_not_P [OF list(1)] if_P [OF list(2)] l by simp
  next
    case leaf
    show ?thesis
      using "2.prems"
      unfolding eval_bc_test.simps(2) opcode bind.bind_lunit if_not_P [OF leaf(1)] if_not_P [OF leaf(2)] .
  qed
next
  case (4 fuel stop n env bc i cache)
  obtain tmp i' cache' where x: "eval_bc_test fuel env bc i cache = Some (tmp, i', cache')"
    using "4.prems" by (cases "eval_bc_test fuel env bc i cache") auto
  note y = "4.IH"(1) [OF x]
  show ?case
    using "4.prems" "4.IH"(2) [OF x refl refl] unfolding eval_bc_list.simps(2) x y by (auto split: if_splits)
qed simp_all

lemma eval_bc_fuel_le:
  "eval_bc_test fuel env bc i cache = Some r \<Longrightarrow> fuel \<le> fuel' \<Longrightarrow> eval_bc_test fuel' env bc i cache = Some r"
proof (induction fuel')
  case (Suc n)
  then show ?case using eval_bc_more_fuel(1) [of n env bc i cache r] by (metis le_Suc_eq)
qed simp

lemma if_test_goes:
  assumes at: "bytes_at bc (4 * ip) (htonl B_IF @ htonl (of_nat a) @ enc_test (4 * (ip + 2)) t)"
    and bc: "length bc < 2 ^ 31" and ok: "test_ok env dec t" and N: "size t < N" and co: "cache_ok dec (rs_cache st)"
    and a: "a + 2 < 2 ^ 31"
  shows "goes fs env dec is_incl bc exe N 1 ip st (if test_holds env dec t then a + 2 else a) (Onward st)"
proof -
  note w = word_then [OF at]
  note w2 = word_then [OF w(2)]
  have e: "ip + 1 + 1 = ip + 2" by simp
  have "test_evals env dec bc t" by (rule eval_test_at [OF bc])
  then obtain c i' where c: "eval_bc_test N env bc (ip + 2) (rs_cache st) = Some (of_bool (test_holds env dec t), i', c)"
      "cache_ok dec c"
    using w2(2) [unfolded e] ok co N unfolding test_evals_def by meson
  have n: "nat_of (of_nat a) = Some a" "nat_of (of_nat a + 2) = Some (a + 2)"
    using nat_of_small [of a] nat_of_small [of "a + 2"] a by (simp_all add: add.commute [of 2])
  have op: "eval_op fuel env is_incl 5 bc ip st =
      Some (Go 0 (if test_holds env dec t then a + 2 else a) (st\<lparr>rs_cache := c\<rparr>))" if "N \<le> fuel" for fuel
  proof -
    have "eval_op fuel env is_incl 5 bc ip st = op_if fuel env bc ip st" using w(1) by (simp add: eval_op_def)
    also have "\<dots> = Some (Go 0 (if test_holds env dec t then a + 2 else a) (st\<lparr>rs_cache := c\<rparr>))"
      unfolding op_if_def w2(1) eval_bc_fuel_le [OF c(1) that] using n by (simp add: Let_def)
    finally show ?thesis .
  qed
  show ?thesis by (rule goes_step [OF op word_inside [OF at] c(2)])
qed


lemma block_pos: "4 * ip + length (enc_block (4 * ip) cs) = 4 * (ip + length (enc_block (4 * ip) cs) div 4)"
  by simp

lemma words_then:
  assumes "4 dvd length u" and "bytes_at bc (4 * ip) (u @ s)"
  shows "bytes_at bc (4 * ip) u" and "bytes_at bc (4 * (ip + length u div 4)) s"
proof -
  have "4 * ip + length u = 4 * (ip + length u div 4)" using assms(1) by simp
  then show "bytes_at bc (4 * ip) u" "bytes_at bc (4 * (ip + length u div 4)) s"
    using assms(2) unfolding bytes_at_append by simp_all
qed

text \<open>The layout of an \<^verbatim>\<open>if\<close>, in words.\<close>

lemma enc_if:
  fixes ip t do_then do_else
  defines "A \<equiv> ip + 2 + length (enc_test (4 * (ip + 2)) t) div 4"
  defines "B \<equiv> A + 2 + length (enc_block (4 * (A + 2)) do_then) div 4"
  shows "enc_cmd (4 * ip) (C_IF t do_then do_else) = (htonl B_IF @ htonl (of_nat A) @ enc_test (4 * (ip + 2)) t) @
     (if do_else = [] then (htonl B_JUMP @ htonl (of_nat B)) @ enc_block (4 * (A + 2)) do_then
      else (htonl B_JUMP @ htonl (of_nat (B + 2))) @ enc_block (4 * (A + 2)) do_then @
        (htonl B_JUMP @ htonl (of_nat (B + 2 + length (enc_block (4 * (B + 2)) do_else) div 4))) @
        enc_block (4 * (B + 2)) do_else)"
proof -
  have p: "4 * ip + 8 = 4 * (ip + 2)" by simp
  have a: "4 * (ip + 2) + length (enc_test (4 * (ip + 2)) t) = 4 * A" unfolding A_def enc_test_pos by simp
  have a8: "4 * A + 8 = 4 * (A + 2)" by simp
  have b: "4 * (A + 2) + length (enc_block (4 * (A + 2)) do_then) = 4 * B" unfolding B_def block_pos by simp
  have b8: "4 * B + 8 = 4 * (B + 2)" by simp
  show ?thesis
    unfolding enc_cmd.simps command.case Let_def p a a8 b b8 by simp
qed

lemma block_jump_goes:
  assumes cs: "list_all (cmd_goes fs env dec is_incl bc exe N) cs"
    and at: "bytes_at bc (4 * ip) (enc_block (4 * ip) cs @ (htonl B_JUMP @ htonl (of_nat ip')) @ s)"
    and ip': "ip' < 2 ^ 31" and co: "cache_ok dec (rs_cache st)" and ex: "exec_cmds env dec is_incl cs st = Some f"
  shows "goes fs env dec is_incl bc exe N (4 * size_list size cs + 2) ip st ip' f"
proof -
  note a = words_then [OF _ at]
  note one = block_goes [OF cs a(1) co ex]
  show ?thesis
  proof (cases f)
    case (Onward st')
    have "goes fs env dec is_incl bc exe N 1 (ip + length (enc_block (4 * ip) cs) div 4) (st'\<lparr>rs_cache := c\<rparr>) ip'
        (Onward st')" if "cache_ok dec c" for c
    proof -
      have "goes fs env dec is_incl bc exe N 1 (ip + length (enc_block (4 * ip) cs) div 4) (st'\<lparr>rs_cache := c\<rparr>) ip'
          (Onward (st'\<lparr>rs_cache := c\<rparr>))"
        using that a(2) by (intro jump_goes ip') (simp_all add: bytes_at_append)
      then show ?thesis by (simp add: goes_def)
    qed
    from goes_trans [OF one [unfolded Onward] this] show ?thesis unfolding Onward by simp
  next
    case (Ended res st')
    show ?thesis unfolding Ended by (rule goes_ended [OF one [unfolded Ended]]) simp_all
  qed
qed

lemma jump_block_goes:
  assumes cs: "list_all (cmd_goes fs env dec is_incl bc exe N) cs"
    and at: "bytes_at bc (4 * ip) (htonl B_JUMP @ htonl (of_nat ip'))" "bytes_at bc (4 * ip') (enc_block (4 * ip') cs)"
    and ip': "ip' < 2 ^ 31" and co: "cache_ok dec (rs_cache st)" and ex: "exec_cmds env dec is_incl cs st = Some f"
  shows "goes fs env dec is_incl bc exe N (4 * size_list size cs + 2) ip st (ip' + length (enc_block (4 * ip') cs) div 4) f"
proof -
  have "goes fs env dec is_incl bc exe N (4 * size_list size cs + 1) ip' (st\<lparr>rs_cache := c\<rparr>)
      (ip' + length (enc_block (4 * ip') cs) div 4) f" if "cache_ok dec c" for c
    using block_goes [OF cs at(2), of "st\<lparr>rs_cache := c\<rparr>" "flow_cache c f"] that ex by (simp add: exec_cache)
  from goes_trans [OF jump_goes [OF at(1) ip' co] this] show ?thesis by simp
qed

text \<open>After the test: the jump at \<^verbatim>\<open>A\<close> around the first branch, and the branches.\<close>

lemma if_alone_goes:
  fixes A do_then
  defines "B \<equiv> A + 2 + length (enc_block (4 * (A + 2)) do_then) div 4"
  assumes at: "bytes_at bc (4 * A) ((htonl B_JUMP @ htonl (of_nat B)) @ enc_block (4 * (A + 2)) do_then)"
    and thn: "list_all (cmd_goes fs env dec is_incl bc exe N) do_then" and "B < 2 ^ 31"
    and co: "cache_ok dec (rs_cache st)"
    and ex: "(if yes then exec_cmds env dec is_incl do_then st else Some (Onward st)) = Some f"
  shows "goes fs env dec is_incl bc exe N (4 * size_list size do_then + 3) (if yes then A + 2 else A) st B f"
proof -
  note j = words_then [OF _ at]
  have a: "bytes_at bc (4 * (A + 2)) (enc_block (4 * (A + 2)) do_then)" using j(2) by simp
  show ?thesis
  proof (cases yes)
    case True
    then show ?thesis using block_goes [OF thn a co, folded B_def] ex by (auto intro: goes_mono)
  next
    case False
    have "goes fs env dec is_incl bc exe N 1 A st B (Onward st)"
      using co assms(4) by (intro jump_goes j(1)) simp_all
    with False ex show ?thesis by (auto intro: goes_mono)
  qed
qed

lemma if_else_goes:
  fixes A do_then do_else
  defines "B \<equiv> A + 2 + length (enc_block (4 * (A + 2)) do_then) div 4"
  defines "E \<equiv> B + 2 + length (enc_block (4 * (B + 2)) do_else) div 4"
  assumes at: "bytes_at bc (4 * A) ((htonl B_JUMP @ htonl (of_nat (B + 2))) @ enc_block (4 * (A + 2)) do_then @
        (htonl B_JUMP @ htonl (of_nat E)) @ enc_block (4 * (B + 2)) do_else)"
    and thn: "list_all (cmd_goes fs env dec is_incl bc exe N) do_then"
    and els: "list_all (cmd_goes fs env dec is_incl bc exe N) do_else" and E: "E < 2 ^ 31"
    and co: "cache_ok dec (rs_cache st)"
    and ex: "(if yes then exec_cmds env dec is_incl do_then st else exec_cmds env dec is_incl do_else st) = Some f"
  shows "goes fs env dec is_incl bc exe N (4 * size_list size do_then + 4 * size_list size do_else + 3)
    (if yes then A + 2 else A) st E f"
proof -
  note j = words_then [OF _ at]
  have a: "bytes_at bc (4 * (A + 2)) (enc_block (4 * (A + 2)) do_then @
      (htonl B_JUMP @ htonl (of_nat E)) @ enc_block (4 * (B + 2)) do_else)"
    using j(2) by simp
  have b: "bytes_at bc (4 * (B + 2)) (enc_block (4 * (B + 2)) do_else)"
    using words_then(2) [OF _ words_then(2) [OF _ a, folded B_def]] by simp
  show ?thesis
  proof (cases yes)
    case True
    then show ?thesis using block_jump_goes [OF thn a E co] ex by (auto intro: goes_mono)
  next
    case False
    have "B + 2 < 2 ^ 31" using E by (simp add: E_def)
    with False show ?thesis
      using jump_block_goes [OF els j(1) b _ co, folded E_def] ex by (auto intro: goes_mono)
  qed
qed

lemma if_goes:
  assumes bc: "length bc < 2 ^ 31" and ok: "test_ok env dec t" and N: "size t < N"
    and thn: "list_all (cmd_goes fs env dec is_incl bc exe N) do_then"
    and els: "list_all (cmd_goes fs env dec is_incl bc exe N) do_else"
  shows "cmd_goes fs env dec is_incl bc exe N (C_IF t do_then do_else)"
  unfolding cmd_goes_def
proof (intro allI impI)
  fix ip st f
  assume at: "bytes_at bc (4 * ip) (enc_cmd (4 * ip) (C_IF t do_then do_else))" and co: "cache_ok dec (rs_cache st)"
    and ex: "exec_cmd env dec is_incl (C_IF t do_then do_else) st = Some f"
  define A where "A = ip + 2 + length (enc_test (4 * (ip + 2)) t) div 4"
  define B where "B = A + 2 + length (enc_block (4 * (A + 2)) do_then) div 4"
  define E where "E = B + 2 + length (enc_block (4 * (B + 2)) do_else) div 4"
  note enc = enc_if [of ip t do_then do_else, folded A_def, folded B_def, folded E_def]
  let ?stop = "if do_else = [] then B else E"
  let ?goes = "goes fs env dec is_incl bc exe N"
  have len: "ip + length (enc_cmd (4 * ip) (C_IF t do_then do_else)) div 4 = ?stop"
    unfolding enc by (auto simp: A_def B_def E_def)
  have "4 * ip + length (enc_cmd (4 * ip) (C_IF t do_then do_else)) \<le> length bc"
    by (rule bytes_at_bound [OF at]) (simp add: enc)
  then have small: "?stop < 2 ^ 31" unfolding len [symmetric] using bc by simp
  then have small2: "A + 2 < 2 ^ 31" by (auto simp: B_def E_def split: if_splits)
  have len1: "ip + length (htonl B_IF @ htonl (of_nat A) @ enc_test (4 * (ip + 2)) t) div 4 = A"
    by (simp add: A_def)
  note hd = words_then [OF _ at [unfolded enc], unfolded len1]
  have tst: "?goes 1 ip st (if test_holds env dec t then A + 2 else A) (Onward st)"
    by (rule if_test_goes [OF hd(1) bc ok N co small2]) simp
  have body: "?goes (4 * size_list size do_then + 4 * size_list size do_else + 3)
      (if test_holds env dec t then A + 2 else A) (st\<lparr>rs_cache := c\<rparr>) ?stop f" if c: "cache_ok dec c" for c
  proof (cases "do_else = []")
    case True
    have "(if test_holds env dec t then exec_cmds env dec is_incl do_then (st\<lparr>rs_cache := c\<rparr>)
        else Some (Onward (st\<lparr>rs_cache := c\<rparr>))) = Some (flow_cache c f)"
      using ex True by (auto simp: exec_cache flow_cache_def)
    from if_alone_goes [of bc A do_then, folded B_def, OF _ thn _ _ this] show ?thesis
      using hd(2) c small True by (simp add: if_P [OF True])
  next
    case False
    have "(if test_holds env dec t then exec_cmds env dec is_incl do_then (st\<lparr>rs_cache := c\<rparr>)
        else exec_cmds env dec is_incl do_else (st\<lparr>rs_cache := c\<rparr>)) = Some (flow_cache c f)"
      using ex by (auto simp: exec_cache)
    from if_else_goes [of bc A do_then do_else, folded B_def, folded E_def, OF _ thn els _ _ this] show ?thesis
      using hd(2) c small by (simp add: if_not_P [OF False])
  qed
  from goes_mono [OF goes_trans [OF tst body], of "4 * size (C_IF t do_then do_else) + 4"]
  show "?goes (4 * size (C_IF t do_then do_else) + 4) ip st (ip + length (enc_cmd (4 * ip) (C_IF t do_then do_else)) div 4) f"
    unfolding len by simp
qed

text \<open>The fuel the tests of a command need, and the rounds of the loop.\<close>

fun test_fuel :: "command \<Rightarrow> nat" where
  "test_fuel (C_IF t do_then do_else) =
     size t + sum_list (map test_fuel do_then) + sum_list (map test_fuel do_else)"
| "test_fuel c = 0"

definition script_fuel :: "command list \<Rightarrow> nat" where
  "script_fuel cmds = 4 * size_list size cmds + sum_list (map test_fuel cmds) + 3"

lemma ok_cmd_goes:
  assumes bc: "length bc < 2 ^ 31"
  shows "runnable env dec c \<Longrightarrow> test_fuel c < N \<Longrightarrow> cmd_goes fs env dec is_incl bc exe N c"
proof (induction c)
  case (C_IF t do_then do_else)
  have "test_fuel c < N" if "c \<in> set do_then \<union> set do_else" for c
    using member_le_sum_list [of "test_fuel c" "map test_fuel do_then"]
      member_le_sum_list [of "test_fuel c" "map test_fuel do_else"] that C_IF.prems(2) by auto
  with C_IF show ?case by (intro if_goes bc) (auto simp: list_all_iff)
qed (auto intro!: simple_goes bc return_goes simp del: simple_ok.simps)

lemma script_goes:
  assumes ok: "list_all (runnable env dec) cmds" and bc: "length bc < 2 ^ 31"
    and at: "bytes_at bc 16 (enc_block 16 cmds)"
    and co: "cache_ok dec (rs_cache st)" and ex: "exec_cmds env dec is_incl cmds st = Some f"
  shows "goes fs env dec is_incl bc exe (sum_list (map test_fuel cmds) + 1) (4 * size_list size cmds + 1) 4 st
    (4 + length (enc_block 16 cmds) div 4) f"
proof -
  have "test_fuel c < sum_list (map test_fuel cmds) + 1" if "c \<in> set cmds" for c
    using member_le_sum_list [of "test_fuel c" "map test_fuel cmds"] that by auto
  then have "list_all (cmd_goes fs env dec is_incl bc exe (sum_list (map test_fuel cmds) + 1)) cmds"
    using ok by (auto simp: list_all_iff intro!: ok_cmd_goes [OF bc])
  from block_goes [OF this _ co ex, of 4] at show ?thesis by simp
qed

lemma set_executing_back:
  assumes "\<not> list_ex (\<lambda>l. ld_inode l = i \<and> ld_executing l) (bc_list exe)"
  shows "set_executing i False (set_executing i True exe) = exe"
proof -
  have "map (\<lambda>l. if ld_inode l = i then l\<lparr>ld_executing := False\<rparr> else l)
      (map (\<lambda>l. if ld_inode l = i then l\<lparr>ld_executing := True\<rparr> else l) ls) = ls"
    if "\<not> list_ex (\<lambda>l. ld_inode l = i \<and> ld_executing l) ls" for ls
    using that by (induction ls) auto
  from this [OF assms] show ?thesis unfolding set_executing_def by simp
qed

lemma check_script_enc:
  "check_script (enc_script cmds) st = Inr BYTECODE_VERSION"
proof -
  have l: "length BYTECODE_MAGIC = 12" by (simp add: BYTECODE_MAGIC_def)
  have "enc_block 16 cmds \<noteq> []"
    by (cases cmds) (simp_all add: enc_block.simps enc_cmd.simps Let_def split: command.split)
  then have "0 < length (enc_block 16 cmds)" by simp
  with enc_cmd_dvd(1) [of 16 cmds] have "4 \<le> length (enc_block 16 cmds)" by (metis dvd_imp_le)
  then have "\<not> length (enc_script cmds) < length BYTECODE_MAGIC + 8" by (simp add: enc_script_def l)
  moreover have "take (length BYTECODE_MAGIC) (enc_script cmds) = BYTECODE_MAGIC"
    "take 4 (drop (length BYTECODE_MAGIC) (enc_script cmds)) = htonl BYTECODE_VERSION"
    by (simp_all add: enc_script_def)
  ultimately show ?thesis by (simp add: check_script_def)
qed

lemma script_run:
  fixes cmds
  defines "bc \<equiv> enc_script cmds"
  assumes ok: "list_all (runnable env dec) cmds" and bc: "length bc < 2 ^ 31"
    and co: "cache_ok dec (rs_cache st)" and ex: "exec_cmds env dec is_incl cmds st = Some f"
    and fuel: "script_fuel cmds \<le> fuel"
  shows "\<exists>c. cache_ok dec c \<and> eval_loop fuel fs env is_incl 5 bc 4 exe st =
    (case f of Onward st' \<Rightarrow> Some (0, exe, st'\<lparr>rs_cache := c\<rparr>, True)
     | Ended res st' \<Rightarrow> Some (res, exe, st'\<lparr>rs_cache := c\<rparr>, True))"
proof -
  have split: "bc = (BYTECODE_MAGIC @ htonl BYTECODE_VERSION) @ enc_block 16 cmds"
    by (simp add: bc_def enc_script_def)
  have l: "length (BYTECODE_MAGIC @ htonl BYTECODE_VERSION) = 16" by (simp add: BYTECODE_MAGIC_def)
  have "bytes_at bc 16 (enc_block 16 cmds)" unfolding bytes_at_def split l [symmetric] by simp
  note run = script_goes [OF ok bc this co ex, where fs = fs and exe = exe]
  have e: "length bc div 4 = 4 + length (enc_block 16 cmds) div 4" 
    unfolding split by (simp add: BYTECODE_MAGIC_def)
  show ?thesis
  proof (cases f)
    case (Onward st')
    then obtain k c where k: "k \<le> 4 * size_list size cmds + 1" "cache_ok dec c"
      "\<And>fuel. sum_list (map test_fuel cmds) + 1 \<le> fuel \<Longrightarrow> eval_loop (k + fuel) fs env is_incl 5 bc 4 exe st =
         eval_loop fuel fs env is_incl 5 bc (4 + length (enc_block 16 cmds) div 4) exe (st'\<lparr>rs_cache := c\<rparr>)"
      using run by (auto simp: goes_def)
    obtain g where g: "fuel = k + Suc g" "sum_list (map test_fuel cmds) + 1 \<le> Suc g"
    proof
      show "fuel = k + Suc (fuel - k - 1)" "sum_list (map test_fuel cmds) + 1 \<le> Suc (fuel - k - 1)"
        using fuel k(1) by (simp_all add: script_fuel_def)
    qed
    show ?thesis unfolding g(1) k(3) [OF g(2)] Onward using k(2) e by auto
  next
    case (Ended res st')
    then show ?thesis using run fuel by (auto simp: goes_def script_fuel_def)
  qed
qed

definition flow_result :: "execute \<Rightarrow> body_cache \<Rightarrow> flow \<Rightarrow> int \<times> execute \<times> run_state" where
  "flow_result exe c f = (case f of
     Onward st \<Rightarrow> (0, exe, st\<lparr>rs_cache := c\<rparr>) | Ended res st \<Rightarrow> (res, exe, st\<lparr>rs_cache := c\<rparr>))"

lemma enc_script_runs:
  assumes "list_all (runnable env dec) cmds" and "length (enc_script cmds) < 2 ^ 31"
    and "cache_ok dec (rs_cache st)" and "exec_cmds env dec is_incl cmds st = Some f"
    and "script_fuel cmds \<le> fuel"
    and data: "ld_data (bc_cur exe) = enc_script cmds"
    and idle: "\<not> list_ex (\<lambda>l. ld_inode l = ld_inode (bc_cur exe) \<and> ld_executing l) (bc_list exe)"
  shows "\<exists>c. cache_ok dec c \<and> sieve_eval_bc fuel fs env is_incl exe st = Some (flow_result exe c f)"
proof -
  let ?i = "ld_inode (bc_cur exe)"
  obtain c where c: "cache_ok dec c"
    "eval_loop fuel fs env is_incl 5 (enc_script cmds) 4 (set_executing ?i True exe) st =
      (case f of Onward st' \<Rightarrow> Some (0, set_executing ?i True exe, st'\<lparr>rs_cache := c\<rparr>, True)
       | Ended res st' \<Rightarrow> Some (res, set_executing ?i True exe, st'\<lparr>rs_cache := c\<rparr>, True))"
    using script_run [OF assms(1-5), of fs "set_executing ?i True exe"] by auto
  have "sieve_eval_bc fuel fs env is_incl exe st = Some (flow_result exe c f)"
    unfolding sieve_eval_bc.simps Let_def if_not_P [OF idle] data check_script_enc sum.case
    using c(2) set_executing_back [OF idle] by (cases f) (simp_all add: flow_result_def)
  with c(1) show ?thesis by blast
qed

text \<open>
  C2: a script means what its parse tree says. Compiling a script without
  includes writes a file on which the interpreter, in whatever list of loaded scripts it is the
  current one and not already executing, does what executing the tree does: the same result, the same actions, flags and
  notifications, the loaded scripts as they were; only the cache of decoded parts may differ,
  and it holds decoded parts only.
\<close>

theorem sieve_compile_and_run:
  assumes "list_all wf_cmd cmds" and "list_all (runnable env dec) cmds"
    and "length (enc_script cmds) < 2 ^ 31" and "length (enc_script cmds) \<le> limit"
    and "cmds_size cmds + 1 < cfuel" and "script_fuel cmds \<le> fuel"
    and "cache_ok dec (rs_cache st)" and "exec_cmds env dec is_incl cmds st = Some f"
  shows "\<exists>n bc len out. sieve_generate_bytecode cmds = Next n bc \<and>
    sieve_emit_bytecode cfuel bc \<lparr>f_bytes = [], f_pos = 0, f_limit = limit\<rparr> = Ret len out \<and>
    (\<forall>fs exe. ld_data (bc_cur exe) = f_bytes out \<longrightarrow>
       \<not> list_ex (\<lambda>l. ld_inode l = ld_inode (bc_cur exe) \<and> ld_executing l) (bc_list exe) \<longrightarrow>
       (\<exists>c. cache_ok dec c \<and> sieve_eval_bc fuel fs env is_incl exe st = Some (flow_result exe c f)))"
proof -
  obtain n bc where g: "sieve_generate_bytecode cmds = Next n bc"
    "sieve_emit_bytecode cfuel bc \<lparr>f_bytes = [], f_pos = 0, f_limit = limit\<rparr> =
      Ret (length (enc_block 16 cmds))
        \<lparr>f_bytes = enc_script cmds, f_pos = length (enc_script cmds), f_limit = limit\<rparr>"
    using script_ok [OF assms(1)] sieve_emit_ok [OF assms(1,3) _ assms(5,4)] by blast
  show ?thesis
    using g enc_script_runs [OF assms(2,3,7,8,6)] by (intro exI conjI) auto
qed

definition sample_state :: run_state where
  "sample_state = \<lparr>rs_actions = new_action_list, rs_notify = [], rs_cache = empty_cache, rs_errmsg = None\<rparr>"

definition sample_script :: "command list" where
  "sample_script = [C_IF (T_NOT (T_EXISTS [''x''])) [C_DISCARD] [C_KEEP]]"

theorem sieve_compile_and_run_witness:
  "\<exists>n bc len out. sieve_generate_bytecode sample_script = Next n bc \<and>
    sieve_emit_bytecode 20 bc \<lparr>f_bytes = [], f_pos = 0, f_limit = 200\<rparr> = Ret len out \<and>
    (\<forall>fs exe. ld_data (bc_cur exe) = f_bytes out \<longrightarrow>
       \<not> list_ex (\<lambda>l. ld_inode l = ld_inode (bc_cur exe) \<and> ld_executing l) (bc_list exe) \<longrightarrow>
       (\<exists>c. cache_ok id c \<and> sieve_eval_bc 50 fs empty_message False exe sample_state =
          Some (flow_result exe c (Onward (sample_state\<lparr>rs_actions :=
            new_action_list @ [\<lparr>act = ACTION_DISCARD, cancel_keep = True\<rparr>]\<rparr>)))))"
proof (rule sieve_compile_and_run)
  have l: "length (enc_script sample_script) = 72"
    unfolding sample_script_def by (simp add: enc_script_def BYTECODE_MAGIC_def enc_block.simps enc_cmd.simps
      Let_def enc_stringlist_def enc_list_def enc_strings_def enc_string_def pad_string_align align_needed_def)
  show "length (enc_script sample_script) < 2 ^ 31" "length (enc_script sample_script) \<le> 200"
    using l by simp_all
  show "list_all wf_cmd sample_script" "list_all (runnable empty_message id) sample_script"
    "cmds_size sample_script + 1 < 20" "script_fuel sample_script \<le> 50"
    by (simp_all add: sample_script_def cstr_def script_fuel_def)
  show "cache_ok id (rs_cache sample_state)" by (simp add: sample_state_def empty_cache_ok)
  show "exec_cmds empty_message id False sample_script sample_state = Some (Onward (sample_state\<lparr>rs_actions :=
      new_action_list @ [\<lparr>act = ACTION_DISCARD, cancel_keep = True\<rparr>]\<rparr>))"
    by (simp add: sample_script_def sample_state_def empty_message_def take_action_def do_discard_def
      add_action_def new_action_list_def)
qed

end
