(* ===== verification/Sieve_Safety.thy ===== *)
theory Sieve_Safety
  imports Sieve_Script Sieve_Run
begin

text \<open>
  What holds of every run of a Sieve script: for any bytes of the script, any answers of the
  callbacks, any way the run ends. The list of actions stays compatible, no message is lost,
  a script that fails does nothing, notifications are sent once, the flags are a set.
\<close>

section \<open>What every run keeps of the action list\<close>

fun step_state :: "step \<Rightarrow> run_state" where
  "step_state (Go res ip st) = st"
| "step_state (Bail res st) = st"
| "step_state (Done st) = st"
| "step_state (Include fpath ip st) = st"

text \<open>
  The interface between the interpreter and the list of actions: a property of the list that
  every function of \<^verbatim>\<open>message.c\<close> keeps.
\<close>

locale action_invariant =
  fixes P :: "action list \<Rightarrow> bool"
  assumes request: "P a \<Longrightarrow> do_request d r a = Some (ret, a') \<Longrightarrow> P a'"
begin

lemma take_action_keeps:
  assumes "take_action f msg st = Some (res, st')" and "P (rs_actions st)" and "f = do_request d r"
  shows "P (rs_actions st')"
  using assms request
  by (auto simp: take_action_def set_errmsg_def Let_def split: Option.bind_splits option.splits)

lemma do_functions:
  "do_reject m = do_request undefined (R_REJECT m)" "do_fileinto m c = do_request undefined (R_FILEINTO m c)"
  "do_redirect m c = do_request undefined (R_REDIRECT m c)" "do_keep = do_request undefined R_KEEP"
  "do_discard = do_request undefined R_DISCARD" "do_setflag m = do_request undefined (R_SETFLAG m)"
  "do_addflag m = do_request undefined (R_ADDFLAG m)" "do_removeflag m = do_request undefined (R_REMOVEFLAG m)"
  "do_mark = do_request undefined R_MARK" "do_unmark = do_request undefined R_UNMARK"
  "do_vacation d x1 x2 x3 x4 x5 x6 x7 = do_request d (R_VACATION x1 x2 x3 x4 x5 x6 x7)"
  by (auto simp: fun_eq_iff)

lemma take_keeps:
  "take_action (do_reject m) msg st = Some (res, st') \<Longrightarrow> P (rs_actions st) \<Longrightarrow> P (rs_actions st')"
  "take_action (do_fileinto m c) msg st = Some (res, st') \<Longrightarrow> P (rs_actions st) \<Longrightarrow> P (rs_actions st')"
  "take_action (do_redirect m c) msg st = Some (res, st') \<Longrightarrow> P (rs_actions st) \<Longrightarrow> P (rs_actions st')"
  "take_action do_keep msg st = Some (res, st') \<Longrightarrow> P (rs_actions st) \<Longrightarrow> P (rs_actions st')"
  "take_action do_discard msg st = Some (res, st') \<Longrightarrow> P (rs_actions st) \<Longrightarrow> P (rs_actions st')"
  "take_action (do_setflag m) msg st = Some (res, st') \<Longrightarrow> P (rs_actions st) \<Longrightarrow> P (rs_actions st')"
  "take_action (do_addflag m) msg st = Some (res, st') \<Longrightarrow> P (rs_actions st) \<Longrightarrow> P (rs_actions st')"
  "take_action (do_removeflag m) msg st = Some (res, st') \<Longrightarrow> P (rs_actions st) \<Longrightarrow> P (rs_actions st')"
  "take_action do_mark msg st = Some (res, st') \<Longrightarrow> P (rs_actions st) \<Longrightarrow> P (rs_actions st')"
  "take_action do_unmark msg st = Some (res, st') \<Longrightarrow> P (rs_actions st) \<Longrightarrow> P (rs_actions st')"
  "take_action (do_vacation d x1 x2 x3 x4 x5 x6 x7) msg st = Some (res, st') \<Longrightarrow> P (rs_actions st) \<Longrightarrow> P (rs_actions st')"
  by (erule (1) take_action_keeps, simp add: do_functions)+

lemma flag_loop_keeps:
  assumes "flag_loop f msg bc n ip (res, st) = Some ((res', st'), ip')" and "P (rs_actions st)"
    and "\<And>m. f m = do_request undefined (r m)"
  shows "P (rs_actions st')"
  using assms unfolding flag_loop_def
proof (induction n arbitrary: ip res st)
  case (Suc n)
  obtain str ip1 res1 st1 where 1: "unwrap_string bc ip = Some (str, ip1)"
    "take_action (f str) (Some msg) st = Some (res1, st1)"
    and rest: "for_strings bc n ip1 (\<lambda>_. True) (\<lambda>data (_, st). take_action (f data) (Some msg) st) (res1, st1) =
      Some ((res', st'), ip')"
    using Suc.prems(1) by (auto split: Option.bind_splits)
  show ?case
    by (rule Suc.IH [OF rest take_action_keeps [OF 1(2) Suc.prems(2) Suc.prems(3)] Suc.prems(3)])
qed simp

lemma op_keeps:
  "op_keep ip st = Some x \<Longrightarrow> P (rs_actions st) \<Longrightarrow> P (rs_actions (step_state x))"
  "op_discard ip st = Some x \<Longrightarrow> P (rs_actions st) \<Longrightarrow> P (rs_actions (step_state x))"
  "op_reject bc ip st = Some x \<Longrightarrow> P (rs_actions st) \<Longrightarrow> P (rs_actions (step_state x))"
  "op_fileinto copy bc ip st = Some x \<Longrightarrow> P (rs_actions st) \<Longrightarrow> P (rs_actions (step_state x))"
  "op_redirect copy bc ip st = Some x \<Longrightarrow> P (rs_actions st) \<Longrightarrow> P (rs_actions (step_state x))"
  "op_mark ip st = Some x \<Longrightarrow> P (rs_actions st) \<Longrightarrow> P (rs_actions (step_state x))"
  "op_unmark ip st = Some x \<Longrightarrow> P (rs_actions st) \<Longrightarrow> P (rs_actions (step_state x))"
  by (auto simp: op_keep_def op_discard_def op_reject_def op_fileinto_def op_redirect_def op_mark_def op_unmark_def
      split: Option.bind_splits dest!: take_keeps)

lemma op_flags_keeps:
  "op_addflag bc ip st = Some x \<Longrightarrow> P (rs_actions st) \<Longrightarrow> P (rs_actions (step_state x))"
  "op_removeflag bc ip st = Some x \<Longrightarrow> P (rs_actions st) \<Longrightarrow> P (rs_actions (step_state x))"
  "op_setflag bc ip st = Some x \<Longrightarrow> P (rs_actions st) \<Longrightarrow> P (rs_actions (step_state x))"
  by (auto simp: op_addflag_def op_removeflag_def op_setflag_def split: Option.bind_splits if_splits
      dest!: take_keeps flag_loop_keeps [OF _ _ do_functions(7)]
      flag_loop_keeps [OF _ _ do_functions(8)])

lemma op_other_keeps:
  "op_if fuel env bc ip st = Some x \<Longrightarrow> P (rs_actions st) \<Longrightarrow> P (rs_actions (step_state x))"
  "op_notify bc ip st = Some x \<Longrightarrow> P (rs_actions st) \<Longrightarrow> P (rs_actions (step_state x))"
  "op_denotify env bc ip st = Some x \<Longrightarrow> P (rs_actions st) \<Longrightarrow> P (rs_actions (step_state x))"
  "op_include env bc ip st = Some x \<Longrightarrow> P (rs_actions st) \<Longrightarrow> P (rs_actions (step_state x))"
  by (auto simp: op_if_def op_notify_def op_denotify_def op_include_def Let_def
      split: Option.bind_splits if_splits option.splits prod.splits)

lemma op_vacation_keeps:
  "op_vacation version env bc ip st = Some x \<Longrightarrow> P (rs_actions st) \<Longrightarrow> P (rs_actions (step_state x))"
  by (auto simp: op_vacation_def Let_def split: Option.bind_splits if_splits
      dest!: take_keeps)

lemma eval_op_keeps:
  assumes "eval_op fuel env is_incl version bc ip st = Some x" and "P (rs_actions st)"
  shows "P (rs_actions (step_state x))"
proof -
  obtain opcode where opcode: "bc_word bc ip = Some opcode"
    using assms(1) unfolding eval_op_def by (cases "bc_word bc ip") simp_all
  show ?thesis
    using assms unfolding eval_op_def opcode bind.bind_lunit
    by (auto split: if_splits Option.bind_splits simp del: B_STOP_def B_KEEP_def
        intro: op_keeps op_flags_keeps op_other_keeps op_vacation_keeps)
qed

lemma eval_keeps:
  "sieve_eval_bc fuel fs env is_incl exe st = Some (res, exe', st') \<Longrightarrow> P (rs_actions st) \<Longrightarrow> P (rs_actions st')"
  "eval_loop fuel fs env is_incl version bc ip exe st = Some (res, exe', st', fin) \<Longrightarrow> P (rs_actions st) \<Longrightarrow>
     P (rs_actions st')"
proof (induction fuel fs env is_incl exe st and fuel fs env is_incl version bc ip exe st
    arbitrary: res exe' st' and res exe' st' fin rule: sieve_eval_bc_eval_loop.induct)
  case (1 fuel fs env is_incl exe st)
  show ?case
  proof (cases "list_ex (\<lambda>l. ld_inode l = ld_inode (bc_cur exe) \<and> ld_executing l) (bc_list exe)")
    case True
    then show ?thesis using 1(2,3) by (auto simp: Let_def)
  next
    case idle: False
    show ?thesis
    proof (cases "check_script (ld_data (bc_cur exe)) st")
      case (Inl x)
      then have "rs_actions (snd x) = rs_actions st"
        by (auto simp: check_script_def Let_def split: if_splits)
      then show ?thesis using 1(2,3) idle Inl by (auto simp: Let_def split: prod.splits)
    next
      case (Inr version)
      then show ?thesis
        using 1(2,3) idle 1(1) [OF refl refl idle refl Inr] by (auto simp: Let_def split: Option.bind_splits)
    qed
  qed
next
  case (3 fuel fs env is_incl version bc ip exe st)
  show ?case
  proof (cases "length bc div 4 \<le> ip")
    case True
    then show ?thesis using 3(4,5) by simp
  next
    case inside: False
    then obtain x where x: "eval_op fuel env is_incl version bc ip st = Some x"
      using 3(4) by (auto split: Option.bind_splits)
    note px = eval_op_keeps [OF x 3(5)]
    show ?thesis
    proof (cases x)
      case (Go r ip' st1)
      then show ?thesis using 3(4) inside x px 3(1) [OF inside x Go] by (auto split: if_splits)
    next
      case (Include fpath ip' st1)
      obtain r exe1 where l: "sieve_script_load fs fpath exe = (r, exe1)" by (cases "sieve_script_load fs fpath exe")
      show ?thesis
      proof (cases "r = SIEVE_OK")
        case False
        then show ?thesis using 3(4) inside x px Include l by auto
      next
        case True
        then obtain r2 exe2 st2 where 2: "sieve_eval_bc fuel fs env True exe1 st1 = Some (r2, exe2, st2)"
          using 3(4) inside x Include l by (auto split: Option.bind_splits)
        have p2: "P (rs_actions st2)" using 3(2) [OF inside x Include l [symmetric] _ 2] px Include True by simp
        then show ?thesis
          using 3(4) inside x Include l 2 True 3(3) [OF inside x Include l [symmetric] _ 2 refl refl] by (auto split: if_splits)
      qed
    qed (use 3(4) inside x px in auto)
  qed
qed simp

end

lemma do_request_keeps_compatible:
  assumes "compatible a" and "do_request d r a = Some (ret, a')"
  shows "compatible a'"
proof (cases "request_ok r")
  case True
  with assms show ?thesis by (auto intro: do_request_compatible)
next
  case False
  then have "a' = a"
    using assms(2) by (cases r) (auto simp: do_vacation_def makehash_def Let_def split: option.splits)
  with assms show ?thesis by simp
qed

text \<open>Only an action that disposes of the message takes back the implicit keep.\<close>

fun disposes :: "action_data \<Rightarrow> bool" where
  "disposes (ACTION_REJECT m) = True"
| "disposes (ACTION_FILEINTO m) = True"
| "disposes ACTION_KEEP = True"
| "disposes (ACTION_REDIRECT m) = True"
| "disposes ACTION_DISCARD = True"
| "disposes _ = False"

definition cancels_ok :: "action list \<Rightarrow> bool" where
  "cancels_ok as \<longleftrightarrow> (\<forall>a \<in> set as. cancel_keep a \<longrightarrow> disposes (act a))"

interpretation compatible_actions: action_invariant compatible
  by unfold_locales (rule do_request_keeps_compatible)

interpretation cancelling_actions: action_invariant cancels_ok
proof unfold_locales
  fix a d r ret a'
  assume "cancels_ok a" and "do_request d r a = Some (ret, a')"
  then show "cancels_ok a'"
    by (cases r) (auto simp: do_defs cancels_ok_def makehash_def split: option.splits if_splits)
qed

text \<open>
  C7: whatever bytes are executed, whatever the callbacks answer and however the run ends, the
  list of actions it leaves is compatible: a rejection stands alone, but for \<^verbatim>\<open>discard\<close>, and
  the message is kept, discarded and answered at most once.
\<close>

theorem every_run_compatible:
  assumes "sieve_eval_bc fuel fs env is_incl exe (start_state i) = Some (res, exe', st)"
  shows "compatible (rs_actions st)"
  using assms by (rule compatible_actions.eval_keeps) (simp add: start_state_def compatible_new)

section \<open>The trace\<close>

text \<open>\<^verbatim>\<open>grows s s' evs\<close>: the events between two states.\<close>

definition grows :: "script_state \<Rightarrow> script_state \<Rightarrow> trace \<Rightarrow> bool" where
  "grows s s' evs \<longleftrightarrow> sc_trace s' = sc_trace s @ evs"

lemma grows_trans: "grows s1 s2 e1 \<Longrightarrow> grows s2 s3 e2 \<Longrightarrow> grows s1 s3 (e1 @ e2)"
  by (simp add: grows_def)

lemma grows_refl [simp]: "grows s s' [] \<longleftrightarrow> sc_trace s' = sc_trace s"
  by (auto simp: grows_def)

lemma callback_grows: "callback site e s = (ret, s') \<Longrightarrow> grows s s' [(e, ret)]"
  by (auto simp: callback_def grows_def split: prod.splits)

lemma append_trace [simp]:
  "sc_trace (append_bounded t s) = sc_trace s" "sc_trace (note_failure ret la s) = sc_trace s"
  "append_sizeof t s = Some s' \<Longrightarrow> sc_trace s' = sc_trace s"
  by (auto simp: append_bounded_def note_failure_def append_sizeof_def Let_def split: if_splits)

definition complete :: "notify_item \<Rightarrow> bool" where
  "complete n \<longleftrightarrow> ni_method n \<noteq> None \<and> ni_options n \<noteq> None \<and> ni_priority n \<noteq> None \<and> ni_message n \<noteq> None"

text \<open>The event of a notification, without its text.\<close>

definition notified :: "site_event \<times> int \<Rightarrow> (string \<times> string option list \<times> string) option" where
  "notified x = (case fst x of EV_NOTIFY m opts p t \<Rightarrow> Some (m, opts, p) | _ \<Rightarrow> None)"

definition notifications :: "trace \<Rightarrow> (string \<times> string option list \<times> string) list" where
  "notifications t = List.map_filter notified t"

definition due :: "notify_item list \<Rightarrow> (string \<times> string option list \<times> string) list" where
  "due ns = map (\<lambda>n. (the (ni_method n), the (ni_options n), the (ni_priority n)))
     (filter (\<lambda>n. ni_isactive n \<and> complete n) ns)"

definition keeps :: "trace \<Rightarrow> nat" where
  "keeps t = length (filter (\<lambda>(e, r). \<exists>fs. e = EV_KEEP fs) t)"

lemma notifications_simps [simp]:
  "notifications [] = []" "notifications (a @ b) = notifications a @ notifications b"
  "notifications ((EV_NOTIFY m opts p t, r) # b) = (m, opts, p) # notifications b"
  "notifications ((EV_KEEP fs, r) # b) = notifications b" "notifications ((EV_EXECUTE_ERR t, r) # b) = notifications b"
  by (simp_all add: notifications_def map_filter_def notified_def)

lemma keeps_simps [simp]:
  "keeps [] = 0" "keeps (a @ b) = keeps a + keeps b" "keeps ((EV_NOTIFY m opts p t, r) # b) = keeps b"
  "keeps ((EV_KEEP fs, r) # b) = Suc (keeps b)" "keeps ((EV_EXECUTE_ERR t, r) # b) = keeps b"
  by (simp_all add: keeps_def)

lemma due_simps [simp]:
  "due [] = []"
  "due (n # ns) = (if ni_isactive n \<and> complete n then [(the (ni_method n), the (ni_options n), the (ni_priority n))] else []) @ due ns"
  by (simp_all add: due_def)

fun reporting :: "site_event \<Rightarrow> bool" where
  "reporting (EV_NOTIFY m opts p t) = True"
| "reporting (EV_EXECUTE_ERR t) = True"
| "reporting _ = False"

definition only_reports :: "trace \<Rightarrow> bool" where
  "only_reports t \<longleftrightarrow> (\<forall>x \<in> set t. reporting (fst x))"

lemma only_reports_simps [simp]:
  "only_reports []" "only_reports (x # b) \<longleftrightarrow> reporting (fst x) \<and> only_reports b"
  "only_reports (a @ b) \<longleftrightarrow> only_reports a \<and> only_reports b"
  by (auto simp: only_reports_def)

lemma send_notify_grows:
  assumes "send_notify_callback env body site n s = Some (ret, s')"
  shows "\<exists>evs. grows s s' evs \<and> notifications evs = (if complete n then [(the (ni_method n), the (ni_options n), the (ni_priority n))] else [])
    \<and> keeps evs = 0 \<and> only_reports evs"
proof (cases "complete n")
  case True
  then obtain m opts p t where "ni_method n = Some m" "ni_options n = Some opts" "ni_priority n = Some p"
    "ni_message n = Some t" by (auto simp: complete_def)
  then obtain cache b msg where cb: "callback site (EV_NOTIFY m opts p msg) (s\<lparr>sc_cache := cache\<rparr>) = (ret, s')"
    and m: "ni_method n = Some m" "ni_options n = Some opts" "ni_priority n = Some p"
    using assms by (auto simp: send_notify_callback_def Let_def split: Option.bind_splits if_splits)
  from callback_grows [OF cb] have "grows s s' [(EV_NOTIFY m opts p msg, ret)]" by (simp add: grows_def)
  with m True show ?thesis by (intro exI [of _ "[(EV_NOTIFY m opts p msg, ret)]"]) simp
next
  case False
  then have "s' = s" using assms
    by (auto simp: send_notify_callback_def complete_def split: option.splits)
  then show ?thesis using False by (intro exI [of _ "[]"]) simp
qed

lemma notify_loop_grows:
  assumes "notify_loop env body site ns (ret, nret, la, s) = Some (ret', nret', la', s')"
  shows "\<exists>evs. grows s s' evs \<and> notifications evs = due ns \<and> keeps evs = 0 \<and> only_reports evs"
  using assms
proof (induction ns arbitrary: ret nret la s)
  case Nil
  then show ?case by (intro exI [of _ "[]"]) simp
next
  case (Cons n ns)
  show ?case
  proof (cases "ni_isactive n")
    case True
    then obtain r1 s1 where 1: "send_notify_callback env body site n s = Some (r1, s1)"
      and rest: "notify_loop env body site ns (ret OR r1, r1, LastNotify, s1) = Some (ret', nret', la', s')"
      using Cons.prems by (auto split: Option.bind_splits)
    from send_notify_grows [OF 1] Cons.IH [OF rest] True show ?thesis
      by (auto intro!: exI grows_trans)
  next
    case False
    then show ?thesis using Cons by simp
  qed
qed

lemma report_error_grows:
  assumes "report_error i site ret la s = Some (ret', s')"
  shows "\<exists>evs. grows s s' evs \<and> notifications evs = [] \<and> keeps evs = 0 \<and> only_reports evs"
proof (cases "ret \<noteq> SIEVE_OK \<and> has_err i")
  case True
  obtain buf r s1 where cb: "callback site (EV_EXECUTE_ERR buf) s = (r, s1)" and "sc_trace s' = sc_trace s1"
    using assms True by (auto simp: report_error_def Let_def split: if_splits prod.splits)
  with callback_grows [OF cb] have "grows s s' [(EV_EXECUTE_ERR buf, r)]" by (simp add: grows_def)
  then show ?thesis by (intro exI [of _ "[(EV_EXECUTE_ERR buf, r)]"]) simp
next
  case False
  then show ?thesis using assms by (intro exI [of _ "[]"]) (auto simp: report_error_def split: if_splits)
qed


lemma report_error_ret: "report_error i site ret la s = Some (0, s') \<Longrightarrow> ret = 0"
  by (auto simp: report_error_def or_eq_0_iff Let_def split: if_splits prod.splits)

lemma notify_loop_ret: "notify_loop env body site ns (ret, nret, la, s) = Some (0, nret', la', s') \<Longrightarrow> ret = 0"
  by (induction ns arbitrary: ret nret la s)
    (fastforce simp: or_eq_0_iff split: Option.bind_splits if_splits)+

definition handled :: "bool \<Rightarrow> int \<Rightarrow> notify_item list \<Rightarrow> bool \<Rightarrow> script_state \<Rightarrow> int \<Rightarrow> script_state \<Rightarrow> bool" where
  "handled notifies ret ns k s ret' s' \<longleftrightarrow> (\<exists>evs. grows s s' evs \<and>
     notifications evs = (if notifies then due ns else []) \<and> keeps evs = of_bool k \<and>
     (k \<or> only_reports evs) \<and> (ret' = 0 \<longrightarrow> ret = 0 \<and> (k \<longrightarrow> (\<exists>fs. (EV_KEEP fs, 0) \<in> set evs))))"

lemma handled_Nil: "handled b ret [] k s ret' s' \<longleftrightarrow> handled False ret [] k s ret' s'"
  by (cases b) (simp_all add: handled_def)

lemma do_sieve_error_handled:
  "do_sieve_error env i site ret ns la k s = Some (ret', s') \<Longrightarrow> handled (has_notify i) ret ns k s ret' s'"
  "error_tail env i site ret ns la k s = Some (ret', s') \<Longrightarrow> (has_notify i \<longrightarrow> ns = []) \<Longrightarrow> handled False ret ns k s ret' s'"
proof (induction env i site ret ns la k s and env i site ret ns la k s arbitrary: ret' s' and ret' s'
    rule: do_sieve_error_error_tail.induct)
  case (1 env i site ret ns la k s)
  let ?s = "note_failure ret la s"
  have s0: "grows s ?s []" by simp
  show ?case
  proof (cases "has_notify i \<and> ns \<noteq> []")
    case True
    then obtain r1 nr la1 s1 where 2: "notify_loop env (has_getbody i) site ns (ret, SIEVE_OK, la, ?s) = Some (r1, nr, la1, s1)"
      using "1.prems" by (auto simp: do_sieve_error.simps [of env i site ret ns la k s] Let_def split: Option.bind_splits)
    obtain evs where evs: "grows ?s s1 evs" "notifications evs = due ns" "keeps evs = 0" "only_reports evs"
      using notify_loop_grows [OF 2] by blast
    have "handled False r1 [] k s1 ret' s'"
    proof (cases "nr \<noteq> SIEVE_OK")
      case bad: True
      then have "do_sieve_error env i site r1 [] la1 k s1 = Some (ret', s')"
        using "1.prems" True 2 by (simp add: do_sieve_error.simps [of env i site ret ns la k s] Let_def)
      then show ?thesis using "1.IH"(1) [OF refl True 2 refl refl refl bad] handled_Nil by blast
    next
      case False
      then have "error_tail env i site r1 [] la1 k s1 = Some (ret', s')"
        using "1.prems" True 2 by (simp add: do_sieve_error.simps [of env i site ret ns la k s] Let_def)
      then show ?thesis using "1.IH"(2) [OF refl True 2 refl refl refl False] by simp
    qed
    then obtain evs2 where e2: "grows s1 s' evs2" "notifications evs2 = []" "keeps evs2 = of_bool k" "k \<or> only_reports evs2"
      "ret' = 0 \<longrightarrow> r1 = 0 \<and> (k \<longrightarrow> (\<exists>fs. (EV_KEEP fs, 0) \<in> set evs2))" by (auto simp: handled_def)
    have "grows s s' (evs @ evs2)" using grows_trans [OF grows_trans [OF s0 evs(1)] e2(1)] by simp
    then show ?thesis
      unfolding handled_def using evs e2 True notify_loop_ret [of env _ site ns ret _ la _ nr] 2
      by (intro exI [of _ "evs @ evs2"]) auto
  next
    case False
    then have "error_tail env i site ret ns la k ?s = Some (ret', s')"
      using "1.prems" by (auto simp: do_sieve_error.simps [of env i site ret ns la k s] Let_def)
    with "1.IH"(3) [OF refl False] False have "handled False ret ns k ?s ret' s'" by blast
    then show ?thesis using False by (auto simp: handled_def grows_def)
  qed
next
  case (2 env i site ret ns la k s)
  obtain r1 s1 where 1: "report_error i site ret la s = Some (r1, s1)"
    using "2.prems"(1) by (auto simp: error_tail.simps [of env i site ret ns la k s] split: Option.bind_splits)
  obtain evs where evs: "grows s s1 evs" "notifications evs = []" "keeps evs = 0" "only_reports evs"
    using report_error_grows [OF 1] by blast
  have r1: "r1 = 0 \<Longrightarrow> ret = 0" using report_error_ret 1 by blast
  show ?case
  proof (cases k)
    case False
    then have "ret' = r1" "s' = s1"
      using "2.prems"(1) 1 unfolding error_tail.simps [of env i site ret ns la k s] by simp_all
    then show ?thesis using evs r1 False by (auto simp: handled_def)
  next
    case True
    obtain kr s2 where cb: "callback site (EV_KEEP (sc_flags s1)) s1 = (kr, s2)" by fastforce
    have g: "grows s s2 (evs @ [(EV_KEEP (sc_flags s1), kr)])" by (rule grows_trans [OF evs(1) callback_grows [OF cb]])
    have hk: "has_keep i" using "2.prems"(1) True 1 unfolding error_tail.simps [of env i site ret ns la k s] by (simp split: if_splits)
    show ?thesis
    proof (cases "kr = SIEVE_OK")
      case ok: True
      then obtain s3 where "append_sizeof (''Kept'' @ [LF]) s2 = Some s3" "ret' = r1 OR kr" "s' = s3"
        using "2.prems"(1) True 1 cb hk unfolding error_tail.simps [of env i site ret ns la k s]
        by (auto split: Option.bind_splits)
      then show ?thesis
        unfolding handled_def using g evs r1 True ok
        by (intro exI [of _ "evs @ [(EV_KEEP (sc_flags s1), kr)]"]) (auto simp: grows_def)
    next
      case bad: False
      then have "do_sieve_error env i site (r1 OR kr) ns (Last ACTION_KEEP) False s2 = Some (ret', s')"
        using "2.prems"(1) True 1 cb hk unfolding error_tail.simps [of env i site ret ns la k s] by simp
      with "2.IH" [OF 1 refl True] hk cb bad
      have "handled (has_notify i) (r1 OR kr) ns False s2 ret' s'" by auto
      then obtain evs2 where e2: "grows s2 s' evs2" "notifications evs2 = []" "keeps evs2 = 0"
        "ret' = 0 \<longrightarrow> r1 OR kr = 0" using "2.prems"(2) by (auto simp: handled_def)
      show ?thesis
        unfolding handled_def using grows_trans [OF g e2(1)] e2 evs True bad
        by (intro exI [of _ "(evs @ [(EV_KEEP (sc_flags s1), kr)]) @ evs2"]) (auto simp: or_eq_0_iff)
    qed
  qed
qed

lemma do_sieve_error_ret: "do_sieve_error env i site ret ns la k s = Some (0, s') \<Longrightarrow> ret = 0"
  using do_sieve_error_handled(1) by (fastforce simp: handled_def)

section \<open>Performing the actions\<close>

fun delivery :: "site_event \<Rightarrow> bool" where
  "delivery (EV_REJECT m) = True"
| "delivery (EV_FILEINTO m fs) = True"
| "delivery (EV_KEEP fs) = True"
| "delivery (EV_REDIRECT a) = True"
| "delivery _ = False"

definition delivered :: "trace \<Rightarrow> bool" where
  "delivered t \<longleftrightarrow> (\<exists>e. (e, SIEVE_OK) \<in> set t \<and> delivery e)"

lemma delivered_append [simp]: "delivered (a @ b) \<longleftrightarrow> delivered a \<or> delivered b"
  by (auto simp: delivered_def)

lemma perform_callback_grows:
  assumes "perform_callback registered site e note s = Some (Performed ret s')"
  shows "grows s s' [(e, ret)]"
  using assms
  by (cases "callback site e s")
    (auto simp: perform_callback_def grows_def dest!: callback_grows append_trace(3) split: if_splits Option.bind_splits)

lemma perform_grows:
  assumes "perform i site d s = Some (Performed ret s')"
  shows "\<exists>evs. grows s s' evs \<and> (ret = SIEVE_OK \<longrightarrow> disposes d \<longrightarrow> d \<noteq> ACTION_DISCARD \<longrightarrow> delivered evs)"
proof (cases d)
  case (ACTION_VACATION v)
  obtain r1 s1 r2 s2 where c: "callback site (EV_AUTORESPOND (vac_hash v) (vac_days v)) s = (r1, s1)"
    "callback site (EV_SEND_RESPONSE v) s1 = (r2, s2)" by fastforce
  note g = callback_grows [OF c(1)] callback_grows [OF c(2)]
  have "sc_trace s' = sc_trace s1 \<or> sc_trace s' = sc_trace s2"
    using assms c by (auto simp: ACTION_VACATION perform_vacation_def split: if_splits Option.bind_splits dest!: append_trace(3))
  then show ?thesis using g by (auto simp: grows_def ACTION_VACATION)
next
  case ACTION_DISCARD
  obtain r1 s1 where c: "callback site EV_DISCARD s = (r1, s1)" by fastforce
  have "sc_trace s' = sc_trace s1 \<or> sc_trace s' = sc_trace s"
    using assms c by (auto simp: ACTION_DISCARD perform_discard_def split: if_splits Option.bind_splits dest!: append_trace(3))
  then show ?thesis using callback_grows [OF c] by (auto simp: grows_def ACTION_DISCARD)
qed (use assms in \<open>auto simp: perform_flags_def delivered_def grows_def split: Option.bind_splits
    dest!: perform_callback_grows\<close>)

lemma perform_loop_grows:
  assumes "perform_loop i site as la k s = Some (Inr (ret, la', k', s'))"
  shows "\<exists>evs. grows s s' evs \<and> (ret = SIEVE_OK \<longrightarrow> k' = (k \<and> (\<forall>a \<in> set as. \<not> cancel_keep a)) \<and>
    (\<forall>a \<in> set as. disposes (act a) \<longrightarrow> act a \<noteq> ACTION_DISCARD \<longrightarrow> delivered evs))"
  using assms
proof (induction as arbitrary: la k s)
  case Nil
  then show ?case by (intro exI [of _ "[]"]) auto
next
  case (Cons a as)
  let ?s = "s\<lparr>sc_errmsg := None\<rparr>"
  obtain p where p: "perform i site (act a) ?s = Some p" using Cons.prems by (auto simp: Let_def split: Option.bind_splits)
  then obtain r1 s1 where r1: "p = Performed r1 s1" using Cons.prems by (cases p) (auto simp: Let_def)
  obtain e1 where e1: "grows ?s s1 e1" "r1 = SIEVE_OK \<longrightarrow> disposes (act a) \<longrightarrow> act a \<noteq> ACTION_DISCARD \<longrightarrow> delivered e1"
    using perform_grows [OF p [unfolded r1]] by blast
  then have g: "grows s s1 e1" by (simp add: grows_def)
  show ?case
  proof (cases "r1 = SIEVE_OK")
    case True
    then have "perform_loop i site as (Last (act a)) (k \<and> \<not> cancel_keep a) s1 = Some (Inr (ret, la', k', s'))"
      using Cons.prems p r1 by (simp add: Let_def)
    from Cons.IH [OF this] obtain e2 where e2: "grows s1 s' e2" "ret = SIEVE_OK \<longrightarrow>
        k' = ((k \<and> \<not> cancel_keep a) \<and> (\<forall>a \<in> set as. \<not> cancel_keep a)) \<and>
        (\<forall>a \<in> set as. disposes (act a) \<longrightarrow> act a \<noteq> ACTION_DISCARD \<longrightarrow> delivered e2)" by blast
    show ?thesis
      using grows_trans [OF g e2(1)] e1(2) e2(2) True by (intro exI [of _ "e1 @ e2"]) auto
  next
    case False
    then show ?thesis using Cons.prems p r1 g by (auto simp: Let_def)
  qed
qed

lemma perform_loop_early: "perform_loop i site as la k s = Some (Inl (ret, s')) \<Longrightarrow> ret = SIEVE_INTERNAL_ERROR"
proof (induction as arbitrary: la k s)
  case (Cons a as)
  then show ?case
    by (cases "act a") (auto simp: Let_def perform_callback_def perform_discard_def perform_vacation_def perform_flags_def
        split: Option.bind_splits performed.splits if_splits prod.splits)
qed simp

lemma do_action_list_delivers:
  assumes "do_action_list env i site as ns s = Some (SIEVE_OK, s')" and "cancels_ok as" and "sc_trace s = []"
  shows "delivered (sc_trace s') \<or> ACTION_DISCARD \<in> act ` set as"
proof -
  obtain la k s1 where 1: "perform_loop i site as NoAction True (s\<lparr>sc_actions_string := ''Action(s) taken:'' @ [LF]\<rparr>) =
      Some (Inr (SIEVE_OK, la, k, s1))" and 2: "do_sieve_error env i site SIEVE_OK ns la k s1 = Some (SIEVE_OK, s')"
    using assms(1) by (auto simp: do_action_list_def split: Option.bind_splits sum.splits dest: perform_loop_early
      do_sieve_error_ret)
  obtain e1 where e1: "sc_trace s1 = e1" "k = (\<forall>a \<in> set as. \<not> cancel_keep a)"
    "\<forall>a \<in> set as. disposes (act a) \<longrightarrow> act a \<noteq> ACTION_DISCARD \<longrightarrow> delivered e1"
    using perform_loop_grows [OF 1] assms(3) by (auto simp: grows_def)
  obtain e2 where e2: "sc_trace s' = e1 @ e2" "k \<longrightarrow> (\<exists>fs. (EV_KEEP fs, 0) \<in> set e2)"
    using do_sieve_error_handled(1) [OF 2] e1(1) by (auto simp: handled_def grows_def)
  show ?thesis
  proof (cases k)
    case True
    then have "delivered e2" using e2(2) by (force simp: delivered_def)
    then show ?thesis by (simp add: e2(1))
  next
    case False
    then obtain a where a: "a \<in> set as" "cancel_keep a" using e1(2) by blast
    with assms(2) have "disposes (act a)" by (simp add: cancels_ok_def)
    with a(1) e1(3) show ?thesis by (cases "act a = ACTION_DISCARD") (force simp: e2(1))+
  qed
qed

section \<open>Runs\<close>

text \<open>
  C1: no message is lost. When a run reports success, whatever the bytes of the script and
  the answers of the callbacks, the message was delivered, that is kept, filed, redirected
  or rejected by a callback that succeeded, or the script asked to discard it.
\<close>

theorem no_message_lost:
  assumes "sieve_execute_bytecode fuel fs env i site exe = Some (SIEVE_OK, exe', s)"
  shows "delivered (sc_trace s) \<or>
    (\<exists>res st. sieve_eval_bc fuel fs env False exe (start_state i) = Some (res, exe', st) \<and>
      ACTION_DISCARD \<in> act ` set (rs_actions st))"
proof -
  obtain res st where ev: "sieve_eval_bc fuel fs env False exe (start_state i) = Some (res, exe', st)"
    and run: "(if res < 0
        then do_sieve_error env i site SIEVE_RUN_ERROR (rs_notify st) NoAction False (script_start st)
        else do_action_list env i site (rs_actions st) (rs_notify st) (script_start st)) = Some (SIEVE_OK, s)"
    using assms unfolding sieve_execute_bytecode_def by (auto split: Option.bind_splits)
  have "\<not> res < 0" using run do_sieve_error_ret by force
  then have "do_action_list env i site (rs_actions st) (rs_notify st) (script_start st) = Some (SIEVE_OK, s)"
    using run by simp
  moreover have "cancels_ok (rs_actions st)"
    using ev by (rule cancelling_actions.eval_keeps) (simp add: start_state_def new_action_list_def cancels_ok_def)
  ultimately have "delivered (sc_trace s) \<or> ACTION_DISCARD \<in> act ` set (rs_actions st)"
    by (rule do_action_list_delivers) (simp add: script_start_def)
  then show ?thesis using ev by blast
qed

text \<open>
  C28: a script that fails does nothing. When the interpreter returns an error the run reports
  an error, and the only callbacks called are those that notify and report: the message is
  neither delivered nor answered, none of the collected actions is performed.
\<close>

theorem failed_script_performs_nothing:
  assumes "sieve_eval_bc fuel fs env False exe (start_state i) = Some (res, exe1, st)" and "res < 0"
    and "sieve_execute_bytecode fuel fs env i site exe = Some (ret, exe', s)"
  shows "ret \<noteq> SIEVE_OK \<and> only_reports (sc_trace s)"
proof -
  have run: "do_sieve_error env i site SIEVE_RUN_ERROR (rs_notify st) NoAction False (script_start st) = Some (ret, s)"
    using assms unfolding sieve_execute_bytecode_def by (auto split: Option.bind_splits)
  from do_sieve_error_handled(1) [OF this] show ?thesis
    by (auto simp: handled_def grows_def script_start_def)
qed


section \<open>Flags\<close>

lemma flag_index_length: "flag_index f fs = length fs \<longleftrightarrow> f \<notin> set fs"
  by (induction fs) (auto simp: flag_index_def)

lemma flag_index_remove: "(let n = flag_index f fs in if n < length fs then take n fs @ drop (n + 1) fs else fs) = remove1 f fs"
proof (induction fs)
  case (Cons a fs)
  then show ?case by (simp add: flag_index_def Let_def split: if_splits)
qed (simp add: flag_index_def)

lemma sieve_addflag_insert: "sieve_addflag (Some f) fs = Some (if f \<in> set fs then fs else fs @ [f])"
  by (simp add: sieve_addflag_def flag_index_length)

lemma sieve_removeflag_remove1: "sieve_removeflag (Some f) fs = Some (remove1 f fs)"
  using flag_index_remove [of f fs] by (simp add: sieve_removeflag_def Let_def)

text \<open>The flags as a set: what an action does to them.\<close>

fun flag_effect :: "string set \<Rightarrow> action_data \<Rightarrow> string set \<Rightarrow> string set" where
  "flag_effect marks (ACTION_SETFLAG f) fs = {the f}"
| "flag_effect marks (ACTION_ADDFLAG f) fs = insert (the f) fs"
| "flag_effect marks (ACTION_REMOVEFLAG f) fs = (if f = None then fs else fs - {the f})"
| "flag_effect marks ACTION_MARK fs = fs \<union> marks"
| "flag_effect marks ACTION_UNMARK fs = fs - marks"
| "flag_effect marks _ fs = fs"

lemma mark_loop_add:
  "mark_loop sieve_addflag ms fs = Some fs' \<Longrightarrow> distinct fs \<Longrightarrow> distinct fs' \<and> set fs' = set fs \<union> set ms"
  by (induction ms arbitrary: fs) (fastforce simp: sieve_addflag_insert split: if_splits)+

lemma mark_loop_remove:
  "mark_loop sieve_removeflag ms fs = Some fs' \<Longrightarrow> distinct fs \<Longrightarrow> distinct fs' \<and> set fs' = set fs - set ms"
  by (induction ms arbitrary: fs) (fastforce simp: sieve_removeflag_remove1)+

lemma callback_flags: "callback site e s = (ret, s') \<Longrightarrow> sc_flags s' = sc_flags s"
  by (auto simp: callback_def split: prod.splits)

lemma append_flags: "append_sizeof t s = Some s' \<Longrightarrow> sc_flags s' = sc_flags s"
  by (auto simp: append_sizeof_def Let_def split: if_splits)

lemma perform_same_flags:
  "perform_callback b site e note s = Some (Performed ret s') \<Longrightarrow> sc_flags s' = sc_flags s"
  "perform_discard i site s = Some (Performed ret s') \<Longrightarrow> sc_flags s' = sc_flags s"
  "perform_vacation i site v s = Some (Performed ret s') \<Longrightarrow> sc_flags s' = sc_flags s"
  by (auto simp: perform_callback_def perform_discard_def perform_vacation_def dest!: callback_flags append_flags
      split: if_splits Option.bind_splits prod.splits)

lemma perform_flag_effect:
  assumes "perform i site d s = Some (Performed ret s')" and "distinct (sc_flags s)"
  shows "distinct (sc_flags s') \<and> set (sc_flags s') = flag_effect (set (the (markflags i))) d (set (sc_flags s))"
proof (cases d)
  case (ACTION_SETFLAG f)
  then show ?thesis using assms(1)
    by (auto simp: perform_flags_def free_imapflags_def sieve_addflag_def flag_index_def split: option.splits Option.bind_splits)
next
  case (ACTION_ADDFLAG f)
  then show ?thesis using assms
    by (cases f) (auto simp: perform_flags_def sieve_addflag_insert sieve_addflag_def [of None] split: if_splits)
next
  case (ACTION_REMOVEFLAG f)
  then show ?thesis using assms
    by (cases f) (auto simp: perform_flags_def sieve_removeflag_remove1 sieve_removeflag_def [of None] split: if_splits)
next
  case ACTION_MARK
  then show ?thesis using assms mark_loop_add by (fastforce simp: perform_flags_def split: Option.bind_splits)
next
  case ACTION_UNMARK
  then show ?thesis using assms mark_loop_remove by (fastforce simp: perform_flags_def split: Option.bind_splits)
qed (use assms in \<open>auto dest!: perform_same_flags\<close>)

text \<open>
  C36: the flags are a set. Performing a list of actions, from no flags at all or any list
  without repetition, keeps the list of flags free of repetition, and it holds exactly the flags that setting, adding,
  removing, marking and unmarking give one after the other.
\<close>

theorem performed_flags:
  assumes "perform_loop i site as la implicit_keep s = Some (Inr (SIEVE_OK, la', k, s'))" and "distinct (sc_flags s)"
  shows "distinct (sc_flags s') \<and>
    set (sc_flags s') = fold (\<lambda>a. flag_effect (set (the (markflags i))) (act a)) as (set (sc_flags s))"
  using assms
proof (induction as arbitrary: la implicit_keep s)
  case (Cons a as)
  obtain r1 s1 where 1: "perform i site (act a) (s\<lparr>sc_errmsg := None\<rparr>) = Some (Performed r1 s1)" and r1: "r1 = 0"
    and rest: "perform_loop i site as (Last (act a)) (implicit_keep \<and> \<not> cancel_keep a) s1 = Some (Inr (SIEVE_OK, la', k, s'))"
    using Cons.prems(1) by (auto simp: Let_def split: Option.bind_splits performed.splits if_splits)
  from perform_flag_effect [OF 1] Cons.IH [OF rest] Cons.prems(2) show ?case by simp
qed simp

section \<open>The list of the actions taken\<close>

text \<open>
  the buffer overrun of a rejection. The text of the actions taken has 4096 bytes, and the
  bound the code computes for \<^verbatim>\<open>snprintf\<close> does not hold: when the rejection of a message
  succeeds, the actions are performed exactly when the text of the rejection has at most 4062
  bytes, and a longer one makes the result of the whole run undefined.
\<close>

theorem reject_overruns_buffer:
  assumes "has_reject i" and "fst (site (sc_trace s) (EV_REJECT (Some msg))) = SIEVE_OK"
    and "as = new_action_list @ [\<lparr>act = ACTION_REJECT (Some msg), cancel_keep = True\<rparr>]"
  shows "(perform_loop i site as NoAction True (s\<lparr>sc_actions_string := ''Action(s) taken:'' @ [LF]\<rparr>) = None \<longleftrightarrow> 4062 < length msg) \<and>
    (4062 < length msg \<longrightarrow> do_action_list env i site as ns s = None)"
proof -
  define a where "a = ''Action(s) taken:'' @ [LF]"
  define txt1 where "txt1 = ''Rejected with: '' @ msg @ [LF]"
  have l: "length a = 17" "length txt1 = 16 + length msg" by (simp_all add: a_def txt1_def)
  obtain m where m: "site (sc_trace s) (EV_REJECT (Some msg)) = (0, m)"
    using assms(2) by (cases "site (sc_trace s) (EV_REJECT (Some msg))") simp
  have app: "append_sizeof txt1 s' = None \<longleftrightarrow> 4062 < length msg" if "sc_actions_string s' = a" for s'
    unfolding append_sizeof_def that Let_def l ACTIONS_STRING_LEN_def by simp
  have "perform i site (ACTION_REJECT (Some msg)) (s\<lparr>sc_actions_string := a, sc_errmsg := None\<rparr>) = None \<longleftrightarrow> 4062 < length msg"
  proof -
    have "perform i site (ACTION_REJECT (Some msg)) (s\<lparr>sc_actions_string := a, sc_errmsg := None\<rparr>) =
        perform_callback True site (EV_REJECT (Some msg)) (Some txt1) (s\<lparr>sc_actions_string := a, sc_errmsg := None\<rparr>)"
      by (simp add: txt1_def assms(1))
    also have "\<dots> = None \<longleftrightarrow> 4062 < length msg"
      by (simp add: perform_callback_def callback_def m app bind_eq_None_conv)
    finally show ?thesis .
  qed
  then have "perform_loop i site as NoAction True (s\<lparr>sc_actions_string := a\<rparr>) = None \<longleftrightarrow> 4062 < length msg"
    unfolding assms(3) new_action_list_def
    by (cases "perform i site (ACTION_REJECT (Some msg)) (s\<lparr>sc_actions_string := a, sc_errmsg := None\<rparr>)")
      (auto simp: Let_def simp del: perform.simps(1) split: performed.splits)
  then show ?thesis unfolding a_def [symmetric] do_action_list_def by (auto simp: bind_eq_None_conv)
qed

section \<open>Sample runs\<close>

text \<open>A site that registers every callback, all of which succeed, and a loaded script.\<close>

definition full_interp :: interp_callbacks where
  "full_interp = \<lparr>has_redirect = True, has_discard = True, has_reject = True, has_fileinto = True, has_keep = True,
     has_notify = True, has_vacation = True, has_getsize = True, has_getheader = True, has_getenvelope = True,
     has_getbody = True, has_getinclude = True, has_err = True, markflags = Some [''seen''], has_execute_err = True\<rparr>"

definition obliging :: site where
  "obliging t e = (SIEVE_OK, None)"

definition loaded_script :: "command list \<Rightarrow> execute" where
  "loaded_script cmds = (let l = \<lparr>ld_inode = 1, ld_data = enc_script cmds, ld_executing = False\<rparr>
     in \<lparr>bc_list = [l], bc_cur = l\<rparr>)"

lemma fresh_cache_ok: "0 < n \<Longrightarrow> cache_ok dec \<lparr>ht_size = n, ht_table = replicate n [], ht_pool = b\<rparr>"
  by (simp add: cache_ok_def hash_wf_def hash_lookup_def hash_slot_def)

lemma body_cache0_ok: "cache_ok dec body_cache0"
  unfolding body_cache0_def by (rule fresh_cache_ok) simp

lemma notify_loop_inactive:
  "list_all (\<lambda>n. \<not> ni_isactive n) ns \<Longrightarrow> notify_loop env body site ns (ret, nret, la, s) = Some (ret, nret, la, s)"
  by (induction ns) simp_all

lemma do_sieve_error_inactive:
  assumes "list_all (\<lambda>n. \<not> ni_isactive n) ns"
  shows "do_sieve_error env i site ret ns la False s = report_error i site ret la (note_failure ret la s)"
proof -
  have "error_tail env i site ret ns' la False s' = report_error i site ret la s'" for ns' s'
    by (cases "report_error i site ret la s'") (simp_all add: error_tail.simps)
  then show ?thesis
    by (simp add: do_sieve_error.simps [of env i site ret ns] notify_loop_inactive [OF assms] Let_def)
qed

lemma sample_run:
  assumes "list_all (runnable empty_message id) cmds" and "length (enc_script cmds) < 2 ^ 31" and "script_fuel cmds \<le> 50"
    and "exec_cmds empty_message id False cmds (start_state full_interp) = Some f"
  shows "\<exists>c. sieve_eval_bc 50 (\<lambda>_. None) empty_message False (loaded_script cmds) (start_state full_interp) =
    Some (flow_result (loaded_script cmds) c f)"
proof -
  have c: "cache_ok id (rs_cache (start_state full_interp))" by (simp add: start_state_def body_cache0_ok)
  have d: "ld_data (bc_cur (loaded_script cmds)) = enc_script cmds"
    "\<not> list_ex (\<lambda>l. ld_inode l = ld_inode (bc_cur (loaded_script cmds)) \<and> ld_executing l) (bc_list (loaded_script cmds))"
    by (simp_all add: loaded_script_def Let_def)
  show ?thesis using enc_script_runs [OF assms(1,2) c assms(4,3) d] by blast
qed

lemma discard_run:
  "\<exists>c. sieve_eval_bc 50 (\<lambda>_. None) empty_message False (loaded_script [C_DISCARD]) (start_state full_interp) =
     Some (0, loaded_script [C_DISCARD], (start_state full_interp)
       \<lparr>rs_actions := new_action_list @ [\<lparr>act = ACTION_DISCARD, cancel_keep = True\<rparr>], rs_cache := c\<rparr>)"
proof -
  have "exec_cmds empty_message id False [C_DISCARD] (start_state full_interp) = Some (Onward ((start_state full_interp)
      \<lparr>rs_actions := new_action_list @ [\<lparr>act = ACTION_DISCARD, cancel_keep = True\<rparr>]\<rparr>))"
    by (simp add: start_state_def take_action_def do_discard_def add_action_def new_action_list_def)
  moreover have "length (enc_script [C_DISCARD]) < 2 ^ 31"
    by (simp add: enc_script_def BYTECODE_MAGIC_def enc_block.simps enc_cmd.simps Let_def)
  ultimately show ?thesis
    using sample_run [of "[C_DISCARD]"]
    by (simp add: flow_result_def script_fuel_def del: sieve_eval_bc.simps exec_cmds.simps)
qed

lemma reject_keep_run:
  "\<exists>c. sieve_eval_bc 50 (\<lambda>_. None) empty_message False (loaded_script [C_REJCT ''no'', C_KEEP]) (start_state full_interp) =
     Some (SIEVE_RUN_ERROR, loaded_script [C_REJCT ''no'', C_KEEP], (start_state full_interp)
       \<lparr>rs_actions := new_action_list @ [\<lparr>act = ACTION_REJECT (Some ''no''), cancel_keep = True\<rparr>],
        rs_errmsg := Some ''Keep can not be used with Reject'', rs_cache := c\<rparr>)"
proof -
  have "exec_cmds empty_message id False [C_REJCT ''no'', C_KEEP] (start_state full_interp) = Some (Ended SIEVE_RUN_ERROR
      ((start_state full_interp)\<lparr>rs_actions := new_action_list @ [\<lparr>act = ACTION_REJECT (Some ''no''), cancel_keep = True\<rparr>],
       rs_errmsg := Some ''Keep can not be used with Reject''\<rparr>))"
    by (simp add: start_state_def take_action_def do_reject_def do_keep_def add_action_def new_action_list_def set_errmsg_def)
  moreover have "length (enc_script [C_REJCT ''no'', C_KEEP]) < 2 ^ 31"
    by (simp add: enc_script_def BYTECODE_MAGIC_def enc_block.simps enc_cmd.simps Let_def enc_string_def pad_string_align align_needed_def)
  ultimately show ?thesis
    using sample_run [of "[C_REJCT ''no'', C_KEEP]"] 
    by (simp add: flow_result_def script_fuel_def cstr_def del: sieve_eval_bc.simps exec_cmds.simps)
qed

theorem every_run_compatible_witness:
  "\<exists>st. sieve_eval_bc 50 (\<lambda>_. None) empty_message False (loaded_script [C_REJCT ''no'', C_KEEP]) (start_state full_interp) =
     Some (SIEVE_RUN_ERROR, loaded_script [C_REJCT ''no'', C_KEEP], st) \<and> compatible (rs_actions st)"
  using reject_keep_run every_run_compatible by blast

lemma append_sizeof_room:
  "8 < length (sc_actions_string s) \<Longrightarrow> length (sc_actions_string s) + length t < 4096 \<Longrightarrow>
   append_sizeof t s = Some (s\<lparr>sc_actions_string := sc_actions_string s @ t\<rparr>)"
  by (simp add: append_sizeof_def ACTIONS_STRING_LEN_def Let_def)

lemma perform_discard_obliging:
  assumes "8 < length (sc_actions_string s)" and "length (sc_actions_string s) + 10 < 4096"
  shows "perform_discard full_interp obliging s = Some (Performed 0 (s\<lparr>sc_trace := sc_trace s @ [(EV_DISCARD, 0)],
    sc_actions_string := sc_actions_string s @ ''Discarded'' @ [LF]\<rparr>))"
proof -
  have cb: "callback obliging EV_DISCARD s = (0, s\<lparr>sc_trace := sc_trace s @ [(EV_DISCARD, 0)]\<rparr>)"
    by (simp add: callback_def obliging_def)
  have d: "has_discard full_interp" by (simp add: full_interp_def)
  have "append_sizeof (''Discarded'' @ [LF]) (s\<lparr>sc_trace := sc_trace s @ [(EV_DISCARD, 0)]\<rparr>) =
      Some (s\<lparr>sc_trace := sc_trace s @ [(EV_DISCARD, 0)], sc_actions_string := sc_actions_string s @ ''Discarded'' @ [LF]\<rparr>)"
    using assms by (subst append_sizeof_room) simp_all
  then show ?thesis unfolding perform_discard_def if_P [OF d] cb by simp
qed

lemma discard_executes:
  "\<exists>s. sieve_execute_bytecode 50 (\<lambda>_. None) empty_message full_interp obliging (loaded_script [C_DISCARD]) =
     Some (SIEVE_OK, loaded_script [C_DISCARD], s)"
proof -
  obtain c where c: "sieve_eval_bc 50 (\<lambda>_. None) empty_message False (loaded_script [C_DISCARD]) (start_state full_interp) =
     Some (0, loaded_script [C_DISCARD], (start_state full_interp)
       \<lparr>rs_actions := new_action_list @ [\<lparr>act = ACTION_DISCARD, cancel_keep = True\<rparr>], rs_cache := c\<rparr>)"
    using discard_run by blast
  have "\<exists>la s. perform_loop full_interp obliging (new_action_list @ [\<lparr>act = ACTION_DISCARD, cancel_keep = True\<rparr>]) NoAction True
      (s0\<lparr>sc_actions_string := ''Action(s) taken:'' @ [LF]\<rparr>) = Some (Inr (0, la, False, s))" for s0
    unfolding new_action_list_def append_Cons append_Nil perform_loop.simps Let_def perform.simps bind.bind_lunit performed.case
    by (simp add: perform_discard_obliging)
  then obtain la s where s: "perform_loop full_interp obliging (new_action_list @ [\<lparr>act = ACTION_DISCARD, cancel_keep = True\<rparr>]) NoAction True
      ((script_start ((start_state full_interp)\<lparr>rs_actions := new_action_list @ [\<lparr>act = ACTION_DISCARD, cancel_keep = True\<rparr>],
        rs_cache := c\<rparr>))\<lparr>sc_actions_string := ''Action(s) taken:'' @ [LF]\<rparr>) = Some (Inr (0, la, False, s))"
    by fastforce
  have n: "list_all (\<lambda>n. \<not> ni_isactive n) (rs_notify (start_state full_interp))"
    by (simp add: start_state_def new_notify_list_def)
  show ?thesis
    using n s unfolding sieve_execute_bytecode_def c do_action_list_def
    by (simp add: do_sieve_error_inactive report_error_def note_failure_def del: append.simps)
qed

theorem no_message_lost_witness:
  "\<exists>s. sieve_execute_bytecode 50 (\<lambda>_. None) empty_message full_interp obliging (loaded_script [C_DISCARD]) =
     Some (SIEVE_OK, loaded_script [C_DISCARD], s) \<and>
   (delivered (sc_trace s) \<or>
    (\<exists>res st. sieve_eval_bc 50 (\<lambda>_. None) empty_message False (loaded_script [C_DISCARD]) (start_state full_interp) =
      Some (res, loaded_script [C_DISCARD], st) \<and> ACTION_DISCARD \<in> act ` set (rs_actions st)))"
  using discard_executes no_message_lost by meson

lemma reject_keep_executes:
  "\<exists>ret s. sieve_execute_bytecode 50 (\<lambda>_. None) empty_message full_interp obliging (loaded_script [C_REJCT ''no'', C_KEEP]) =
     Some (ret, loaded_script [C_REJCT ''no'', C_KEEP], s)"
proof -
  obtain c where c: "sieve_eval_bc 50 (\<lambda>_. None) empty_message False (loaded_script [C_REJCT ''no'', C_KEEP]) (start_state full_interp) =
     Some (SIEVE_RUN_ERROR, loaded_script [C_REJCT ''no'', C_KEEP], (start_state full_interp)
       \<lparr>rs_actions := new_action_list @ [\<lparr>act = ACTION_REJECT (Some ''no''), cancel_keep = True\<rparr>],
        rs_errmsg := Some ''Keep can not be used with Reject'', rs_cache := c\<rparr>)"
    using reject_keep_run by blast
  show ?thesis
    unfolding sieve_execute_bytecode_def c
    by (simp add: start_state_def full_interp_def callback_def obliging_def do_sieve_error_inactive
      report_error_def note_failure_def new_notify_list_def Let_def script_start_def append_bounded_def error_text_def
      last_name_def)
qed

theorem failed_script_performs_nothing_witness:
  "\<exists>ret s. sieve_execute_bytecode 50 (\<lambda>_. None) empty_message full_interp obliging (loaded_script [C_REJCT ''no'', C_KEEP]) =
     Some (ret, loaded_script [C_REJCT ''no'', C_KEEP], s) \<and> ret \<noteq> SIEVE_OK \<and> only_reports (sc_trace s)"
proof -
  obtain ret s where s: "sieve_execute_bytecode 50 (\<lambda>_. None) empty_message full_interp obliging (loaded_script [C_REJCT ''no'', C_KEEP]) =
     Some (ret, loaded_script [C_REJCT ''no'', C_KEEP], s)"
    using reject_keep_executes by blast
  obtain st where "sieve_eval_bc 50 (\<lambda>_. None) empty_message False (loaded_script [C_REJCT ''no'', C_KEEP]) (start_state full_interp) =
     Some (SIEVE_RUN_ERROR, loaded_script [C_REJCT ''no'', C_KEEP], st)"
    using reject_keep_run by blast
  from failed_script_performs_nothing [OF this _ s] s show ?thesis by simp
qed

definition sample_sc :: script_state where
  "sample_sc = \<lparr>sc_flags = [], sc_actions_string = [], sc_cache = body_cache0, sc_errmsg = None, sc_trace = []\<rparr>"



theorem performed_flags_witness:
  "\<exists>la k s'. perform_loop full_interp obliging
     [\<lparr>act = ACTION_MARK, cancel_keep = False\<rparr>, \<lparr>act = ACTION_ADDFLAG (Some ''x''), cancel_keep = False\<rparr>] NoAction True sample_sc
     = Some (Inr (SIEVE_OK, la, k, s')) \<and> distinct (sc_flags s') \<and> set (sc_flags s') = {''seen'', ''x''}"
proof -
  let ?as = "[\<lparr>act = ACTION_MARK, cancel_keep = False\<rparr>, \<lparr>act = ACTION_ADDFLAG (Some ''x''), cancel_keep = False\<rparr>]"
  obtain la k s' where s': "perform_loop full_interp obliging ?as NoAction True sample_sc = Some (Inr (SIEVE_OK, la, k, s'))"
    by (auto simp: Let_def perform_flags_def full_interp_def sieve_addflag_insert sample_sc_def)
  from performed_flags [OF this] s' show ?thesis by (auto simp: sample_sc_def full_interp_def simp del: perform_loop.simps)
qed

theorem reject_overruns_buffer_witness:
  "do_action_list empty_message full_interp obliging
     (new_action_list @ [\<lparr>act = ACTION_REJECT (Some (replicate 5000 CHR ''x'')), cancel_keep = True\<rparr>]) [] sample_sc = None"
proof -
  have "has_reject full_interp" by (simp add: full_interp_def)
  moreover have "fst (obliging (sc_trace sample_sc) (EV_REJECT (Some (replicate 5000 CHR ''x'')))) = SIEVE_OK"
    by (simp add: obliging_def)
  moreover have "4062 < length (replicate 5000 CHR ''x'')" by simp
  ultimately show ?thesis using reject_overruns_buffer [OF _ _ refl] by blast
qed

end
