(* ===== verification/Sieve_Notify.thy ===== *)
theory Sieve_Notify
  imports Sieve_Script Sieve_Tests
begin

text \<open>
  The text of a notification: the growing buffer of \<^verbatim>\<open>build_notify_message\<close> against the text
  written without a buffer.
\<close>

section \<open>The text of a notification\<close>

text \<open>The text without a buffer: the reference for \<^verbatim>\<open>build_notify_message\<close>.\<close>

definition header_text :: "'r sieve_env \<Rightarrow> bool \<Rightarrow> string \<Rightarrow> string" where
  "header_text env isenv header =
     (case snd (if isenv then getenvelope env header else getheader env header) of Some (h # _) \<Rightarrow> h | _ \<Rightarrow> [])"

definition body_text :: "'r sieve_env \<Rightarrow> 64 word \<Rightarrow> body_cache \<Rightarrow> (string \<times> body_cache) option" where
  "body_text env n cache = (case first_text env of
     None \<Rightarrow> Some ([], cache)
   | Some p \<Rightarrow>
       (let (sz, cache) = text_size env p cache; k = (if n = 0 \<or> n > of_nat sz then sz else unat n)
        in if k \<le> length (bp_content p) \<or> NUL \<in> set (bp_content p)
           then Some (takeWhile (\<lambda>c. c \<noteq> NUL) (take k (bp_content p)), cache) else None))"

definition onto :: "string \<Rightarrow> (string \<times> body_cache) option \<Rightarrow> (string \<times> body_cache) option" where
  "onto t r = map_option (\<lambda>(u, cache). (t @ u, cache)) r"

function expansion :: "'r sieve_env \<Rightarrow> bool \<Rightarrow> string \<Rightarrow> body_cache \<Rightarrow> (string \<times> body_cache) option" where
  "expansion env body c cache =
     (if c = [] then Some ([], cache)
      else if strncase_eq c ''$from$'' 6 then onto (header_text env False ''From'') (expansion env body (drop 6 c) cache)
      else if strncase_eq c ''$env-from$'' 10 then onto (header_text env True ''From'') (expansion env body (drop 10 c) cache)
      else if strncase_eq c ''$subject$'' 9 then onto (header_text env False ''Subject'') (expansion env body (drop 9 c) cache)
      else if body \<and> strncase_eq c ''$text'' 5 \<and> char_at c 5 = CHR ''['' then
        (case text_number 0 (drop 6 c) of
           None \<Rightarrow> None
         | Some (n, r) \<Rightarrow> do { (t, cache) \<leftarrow> body_text env n cache; onto t (expansion env body r cache) })
      else if body \<and> strncase_eq c ''$text'' 5 \<and> char_at c 5 = CHR ''$'' then do {
        (t, cache) \<leftarrow> body_text env 0 cache;
        onto t (expansion env body (drop 6 c) cache)
      }
      else let n = length (takeWhile (\<lambda>x. x \<noteq> CHR ''$'') (tl c)) + 1
           in onto (take n c) (expansion env body (drop n c) cache))"
  by pat_completeness auto
termination
  by (relation "measure (\<lambda>(env, body, c, s). length c)") (auto dest: text_number_shorter)

declare expansion.simps [simp del]

definition buf_ok :: "notify_buf \<Rightarrow> bool" where
  "buf_ok b \<longleftrightarrow> length (nb_out b) \<le> nb_outlen b \<and> nb_outlen b < nb_alloc b"

lemma add_header_ok:
  "buf_ok b \<Longrightarrow> \<exists>b'. add_header env isenv header b = Some b' \<and> buf_ok b' \<and> nb_out b' = nb_out b @ header_text env isenv header"
  by (auto simp: add_header_def header_text_def buf_ok_def buf_room_def buf_strcat_def Let_def GROW_AMOUNT_def
      split: option.split list.split)

lemma add_text_ok:
  assumes "buf_ok b"
  shows "\<exists>b'. add_text n t b = Some b' \<and> buf_ok b' \<and> nb_out b' = nb_out b @ takeWhile (\<lambda>c. c \<noteq> NUL) (take n t)"
proof -
  have "length (takeWhile (\<lambda>c. c \<noteq> NUL) (take n t)) \<le> n"
    using length_takeWhile_le [of "\<lambda>c. c \<noteq> NUL" "take n t"] by simp
  with assms show ?thesis
    by (auto simp: add_text_def buf_ok_def buf_room_def buf_strcat_def buf_terminate_def Let_def GROW_AMOUNT_def)
qed

lemma add_body_ok:
  assumes "buf_ok b"
  shows "case body_text env n cache of
      None \<Rightarrow> add_body env n (cache, b) = None
    | Some (t, cache') \<Rightarrow> \<exists>b'. add_body env n (cache, b) = Some (cache', b') \<and> buf_ok b' \<and> nb_out b' = nb_out b @ t"
proof (cases "first_text env")
  case (Some p)
  obtain sz cache1 where sz: "text_size env p cache = (sz, cache1)" by fastforce
  define k where "k = (if n = 0 \<or> n > of_nat sz then sz else unat n)"
  obtain b' where "add_text k (bp_content p) b = Some b'" "buf_ok b'"
    "nb_out b' = nb_out b @ takeWhile (\<lambda>c. c \<noteq> NUL) (take k (bp_content p))"
    using add_text_ok [OF assms] by blast
  then show ?thesis
    using Some sz by (simp add: add_body_def body_text_def Let_def k_def [symmetric])
qed (use assms in \<open>simp add: add_body_def body_text_def\<close>)

definition builds :: "'r sieve_env \<Rightarrow> bool \<Rightarrow> string \<Rightarrow> body_cache \<Rightarrow> notify_buf \<Rightarrow> bool" where
  "builds env body c cache b \<longleftrightarrow> (case expansion env body c cache of
     None \<Rightarrow> build_loop env body c (cache, b) = None
   | Some (t, cache') \<Rightarrow> \<exists>b'. build_loop env body c (cache, b) = Some (cache', b') \<and> buf_ok b' \<and> nb_out b' = nb_out b @ t)"

lemma builds_step:
  assumes "expansion env body c cache = onto t (expansion env body c' cache')"
    and "build_loop env body c (cache, b) = build_loop env body c' (cache', b')"
    and "nb_out b' = nb_out b @ t" and "builds env body c' cache' b'"
  shows "builds env body c cache b"
  using assms by (auto simp: builds_def onto_def split: option.splits)

lemma builds_header:
  assumes "expansion env body c cache = onto (header_text env isenv h) (expansion env body c' cache)"
    and "build_loop env body c (cache, b) = do { b \<leftarrow> add_header env isenv h b; build_loop env body c' (cache, b) }"
    and "buf_ok b" and "\<And>b. buf_ok b \<Longrightarrow> builds env body c' cache b"
  shows "builds env body c cache b"
proof -
  obtain b' where b': "add_header env isenv h b = Some b'" "buf_ok b'" "nb_out b' = nb_out b @ header_text env isenv h"
    using add_header_ok [OF assms(3)] by blast
  show ?thesis by (rule builds_step [OF assms(1) _ b'(3) assms(4) [OF b'(2)]]) (simp add: assms(2) b'(1))
qed

lemma builds_body:
  assumes "expansion env body c cache = do { (t, cache) \<leftarrow> body_text env n cache; onto t (expansion env body c' cache) }"
    and "build_loop env body c (cache, b) = do { s \<leftarrow> add_body env n (cache, b); build_loop env body c' s }"
    and "buf_ok b" and IH: "\<And>t cache' b. body_text env n cache = Some (t, cache') \<Longrightarrow> buf_ok b \<Longrightarrow> builds env body c' cache' b"
  shows "builds env body c cache b"
proof (cases "body_text env n cache")
  case None
  then show ?thesis using add_body_ok [OF assms(3), of env n cache] assms(1,2) by (simp add: builds_def)
next
  case (Some x)
  obtain t cache' where x: "x = (t, cache')" by (cases x)
  obtain b' where b': "add_body env n (cache, b) = Some (cache', b')" "buf_ok b'" "nb_out b' = nb_out b @ t"
    using add_body_ok [OF assms(3), of env n cache] Some x by auto
  show ?thesis
    by (rule builds_step [OF _ _ b'(3) IH [OF _ b'(2)]]) (simp_all add: assms(1,2) Some x b'(1))
qed

lemma takeWhile_no_NUL: "NUL \<notin> set s \<Longrightarrow> takeWhile (\<lambda>c. c \<noteq> NUL) (take n s) = take n s"
  by (auto simp: takeWhile_eq_all_conv dest: in_set_takeD)

lemma text_number_set: "text_number n s = Some (k, r) \<Longrightarrow> set r \<subseteq> set s"
  by (induction n s rule: text_number.induct) (auto split: if_splits dest: list.set_sel(2))

lemma no_NUL_drop: "NUL \<notin> set c \<Longrightarrow> NUL \<notin> set (drop n c)"
  by (meson in_set_dropD)

lemma build_loop_builds: "NUL \<notin> set c \<Longrightarrow> buf_ok b \<Longrightarrow> builds env body c cache b"
proof (induction env body c cache arbitrary: b rule: expansion.induct)
  case (1 env body c cache)
  note e = expansion.simps [of env body c cache] and l = build_loop.simps [of env body c "(cache, b)"]
  consider (nil) "c = []" | (sender) "c \<noteq> []" "strncase_eq c ''$from$'' 6"
    | (env) "c \<noteq> []" "\<not> strncase_eq c ''$from$'' 6" "strncase_eq c ''$env-from$'' 10"
    | (subj) "c \<noteq> []" "\<not> strncase_eq c ''$from$'' 6" "\<not> strncase_eq c ''$env-from$'' 10" "strncase_eq c ''$subject$'' 9"
    | (rest) "c \<noteq> []" "\<not> strncase_eq c ''$from$'' 6" "\<not> strncase_eq c ''$env-from$'' 10" "\<not> strncase_eq c ''$subject$'' 9"
    by blast
  then show ?case
  proof cases
    case nil
    then show ?thesis using "1.prems" unfolding builds_def e l by simp
  next
    case sender
    show ?thesis
      using "1.IH"(1) [OF sender no_NUL_drop [OF "1.prems"(1)]] "1.prems" sender
      by (intro builds_header [of env body c cache False "''From''" "drop 6 c"]) (simp_all only: e l if_True if_False simp_thms fst_conv snd_conv)
  next
    case env
    show ?thesis
      using "1.IH"(2) [OF env no_NUL_drop [OF "1.prems"(1)]] "1.prems" env
      by (intro builds_header [of env body c cache True "''From''" "drop 10 c"]) (simp_all only: e l if_True if_False simp_thms fst_conv snd_conv)
  next
    case subj
    show ?thesis
      using "1.IH"(3) [OF subj no_NUL_drop [OF "1.prems"(1)]] "1.prems" subj
      by (intro builds_header [of env body c cache False "''Subject''" "drop 9 c"]) (simp_all only: e l if_True if_False simp_thms fst_conv snd_conv)
  next
    case rest
    consider (num) "body \<and> strncase_eq c ''$text'' 5 \<and> char_at c 5 = CHR ''[''"
      | (all) "\<not> (body \<and> strncase_eq c ''$text'' 5 \<and> char_at c 5 = CHR ''['')" "body \<and> strncase_eq c ''$text'' 5 \<and> char_at c 5 = CHR ''$''"
      | (plain) "\<not> (body \<and> strncase_eq c ''$text'' 5 \<and> char_at c 5 = CHR ''['')" "\<not> (body \<and> strncase_eq c ''$text'' 5 \<and> char_at c 5 = CHR ''$'')"
      by blast
    then show ?thesis
    proof cases
      case num
      note e2 = e [unfolded if_not_P [OF rest(1)] if_not_P [OF rest(2)] if_not_P [OF rest(3)] if_not_P [OF rest(4)] if_P [OF num]]
      note l2 = l [unfolded if_not_P [OF rest(1)] if_not_P [OF rest(2)] if_not_P [OF rest(3)] if_not_P [OF rest(4)] if_P [OF num]]
      show ?thesis
      proof (cases "text_number 0 (drop 6 c)")
        case None
        then show ?thesis by (simp add: builds_def e2 l2)
      next
        case (Some x)
        obtain n r where x: "x = (n, r)" by (cases x)
        have "NUL \<notin> set r" using text_number_set Some x no_NUL_drop [OF "1.prems"(1)] by blast
        then show ?thesis
          using "1.IH"(4) [OF rest num Some x [symmetric]] "1.prems"
          by (intro builds_body [of env body c cache n r]) (simp_all add: e2 l2 Some x)
      qed
    next
      case all
      note e2 = e [unfolded if_not_P [OF rest(1)] if_not_P [OF rest(2)] if_not_P [OF rest(3)] if_not_P [OF rest(4)]
          if_not_P [OF all(1)] if_P [OF all(2)]]
      note l2 = l [unfolded if_not_P [OF rest(1)] if_not_P [OF rest(2)] if_not_P [OF rest(3)] if_not_P [OF rest(4)]
          if_not_P [OF all(1)] if_P [OF all(2)]]
      show ?thesis
        by (rule builds_body [OF e2 l2 "1.prems"(2) "1.IH"(5) [OF rest all _ refl no_NUL_drop [OF "1.prems"(1)]]])
    next
      case plain
      define n where "n = length (takeWhile (\<lambda>x. x \<noteq> CHR ''$'') (tl c)) + 1"
      obtain b' where b': "add_text n c b = Some b'" "buf_ok b'" "nb_out b' = nb_out b @ take n c"
        using add_text_ok [OF "1.prems"(2), of n c] takeWhile_no_NUL [OF "1.prems"(1)] by auto
      show ?thesis
        by (rule builds_step [OF _ _ b'(3) "1.IH"(6) [OF rest plain n_def no_NUL_drop [OF "1.prems"(1)] b'(2)]])
          (simp_all only: e l rest plain if_True if_False simp_thms Let_def n_def [symmetric] fst_conv snd_conv b'(1) bind.bind_lunit)
    qed
  qed
qed

text \<open>
  C37: the text of a notification. The growing buffer never overruns, and holds the
  text in which every variable is replaced: the routine has a result exactly when
  the text has one, that is unless a \<^verbatim>\<open>$text[\<close> is not closed, and its buffer is large enough
  for what the caller adds to it.
\<close>

theorem build_notify_message_expands:
  assumes "NUL \<notin> set msg"
  shows "(case expansion env body msg cache of
      None \<Rightarrow> build_notify_message env body (Some msg) cache = None
    | Some (t, cache') \<Rightarrow> \<exists>b. build_notify_message env body (Some msg) cache = Some (cache', b) \<and>
        nb_out b = t \<and> length t \<le> nb_outlen b \<and> nb_outlen b < nb_alloc b)"
proof -
  define b where "b = \<lparr>nb_out = [], nb_outlen = 0, nb_alloc = GROW_AMOUNT\<rparr>"
  have "builds env body msg cache b"
    using assms by (rule build_loop_builds) (simp add: b_def buf_ok_def GROW_AMOUNT_def)
  then show ?thesis
    by (auto simp: builds_def build_notify_message_def b_def buf_ok_def Let_def split: option.splits)
qed

theorem build_notify_message_expands_witness:
  "\<exists>b. build_notify_message empty_message True (Some ''hi'') body_cache0 = Some (body_cache0, b) \<and>
    nb_out b = ''hi'' \<and> nb_outlen b < nb_alloc b"
proof -
  have "expansion empty_message True ''hi'' body_cache0 = Some (''hi'', body_cache0)"
    by (simp add: expansion.simps strncase_eq_def tolower_def isupper_def onto_def)
  with build_notify_message_expands [of "''hi''" empty_message True body_cache0] show ?thesis by auto
qed

end
