(* ===== verification/Master.thy ===== *)
theory Master
  imports Prelude "HOL-Library.Monad_Syntax"
begin

text \<open>
  The master process, \<^verbatim>\<open>master/master.c\<close>: the table of its children, the counters of every
  service, the state machine that the messages of the children drive, the reaping of children,
  the janitor of the table, the limit on the rate of forks and the schedule of events.

  What the kernel answers is an argument: the process id \<^verbatim>\<open>fork\<close> returns to the parent
  (\<^verbatim>\<open>None\<close> when it fails), the process ids \<^verbatim>\<open>waitpid\<close> reports, the time. The child's side of
  \<^verbatim>\<open>fork\<close>, sockets, pipes and logging are not modelled. \<^verbatim>\<open>None\<close> as a result is a run that does
  not go on: \<^verbatim>\<open>fatal\<close> ends the process, a \<^verbatim>\<open>NULL\<close> pointer is followed or an index is outside
  its array. Counters are below \<^verbatim>\<open>2^31\<close>.
\<close>

section \<open>State\<close>

datatype sstate = SERVICE_STATE_UNKNOWN | SERVICE_STATE_INIT | SERVICE_STATE_READY | SERVICE_STATE_BUSY
  | SERVICE_STATE_DEAD

text \<open>
  A child; \<^verbatim>\<open>SERVICE_NONE\<close> is \<^verbatim>\<open>None\<close>. What the memory of a new entry holds for the user of a
  connection is not defined, \<^verbatim>\<open>None\<close>.
\<close>

record conn_info =
  m_start_time :: int
  m_user_buf :: string
  m_host_buf :: string

record centry =
  ce_pid :: nat
  ce_state :: sstate
  ce_deadline :: int
  ce_si :: "nat option"
  ce_info :: "conn_info option"

record service =
  sv_name :: "string option"
  sv_exec :: "string list option"
  sv_babysit :: bool
  sv_desired_workers :: int
  sv_max_workers :: int
  sv_maxforkrate :: nat
  sv_ready_workers :: int
  sv_nforks :: int
  sv_nactive :: int
  sv_nconnections :: int
  sv_forkrate :: nat
  sv_last_interval_start :: int
  sv_interval_forks :: nat

record event =
  ev_name :: "string option"
  ev_mark :: int
  ev_period :: int
  ev_periodic :: bool
  ev_exec :: "string list option"

record master =
  ms_services :: "service list"
  ms_ctable :: "centry list list"
  ms_schedule :: "event list"
  ms_janitor_position :: nat
  ms_imap_count :: int
  ms_pop_count :: int
  ms_conn_tbl :: "(string \<times> int) list option"

definition child_table_size :: nat where
  "child_table_size = 10000"

section \<open>The table of children\<close>

definition slot :: "nat \<Rightarrow> nat" where
  "slot pid = pid mod child_table_size"

definition chain_of :: "nat \<Rightarrow> master \<Rightarrow> centry list" where
  "chain_of pid m = ms_ctable m ! slot pid"

definition find_centry :: "nat \<Rightarrow> master \<Rightarrow> centry option" where
  "find_centry pid m = List.find (\<lambda>c. ce_pid c = pid) (chain_of pid m)"

definition set_chain :: "nat \<Rightarrow> centry list \<Rightarrow> master \<Rightarrow> master" where
  "set_chain pid cs m = m\<lparr>ms_ctable := (ms_ctable m)[slot pid := cs]\<rparr>"

definition add_centry :: "nat \<Rightarrow> sstate \<Rightarrow> int \<Rightarrow> nat option \<Rightarrow> master \<Rightarrow> master" where
  "add_centry pid st deadline si m = set_chain pid
     (\<lparr>ce_pid = pid, ce_state = st, ce_deadline = deadline, ce_si = si, ce_info = None\<rparr> # chain_of pid m) m"

text \<open>Changing the first entry of a process.\<close>

fun change_first :: "nat \<Rightarrow> (centry \<Rightarrow> centry) \<Rightarrow> centry list \<Rightarrow> centry list" where
  "change_first pid f [] = []"
| "change_first pid f (c # cs) = (if ce_pid c = pid then f c # cs else c # change_first pid f cs)"

definition change_centry :: "nat \<Rightarrow> (centry \<Rightarrow> centry) \<Rightarrow> master \<Rightarrow> master" where
  "change_centry pid f m = set_chain pid (change_first pid f (chain_of pid m)) m"

definition change_service :: "nat \<Rightarrow> (service \<Rightarrow> service) \<Rightarrow> master \<Rightarrow> master" where
  "change_service si f m = m\<lparr>ms_services := (ms_services m)[si := f (ms_services m ! si)]\<rparr>"

section \<open>Events\<close>

fun insert_event :: "event \<Rightarrow> event list \<Rightarrow> event list" where
  "insert_event a [] = [a]"
| "insert_event a (e # es) = (if ev_mark e \<le> ev_mark a then e # insert_event a es else a # e # es)"

definition schedule_event :: "event \<Rightarrow> master \<Rightarrow> master option" where
  "schedule_event a m = (if ev_name a = None then None
     else Some (m\<lparr>ms_schedule :=
       (case ms_schedule m of
          [] \<Rightarrow> [a]
        | e # es \<Rightarrow> if ev_mark a < ev_mark e then a # e # es else e # insert_event a es)\<rparr>))"

text \<open>
  The next time of a daily event: \<^verbatim>\<open>None\<close> when the loop does not end. Its period is not 0.
\<close>

function daily_mark :: "int \<Rightarrow> int \<Rightarrow> int \<Rightarrow> int option" where
  "daily_mark now period mark =
     (if mark > now then Some mark
      else if period \<le> 0 then None
      else daily_mark now period (mark + period))"
  by pat_completeness auto
termination
  by (relation "measure (\<lambda>(now, period, mark). nat (now - mark + 1))") auto

declare daily_mark.simps [simp del]

definition reschedule :: "int \<Rightarrow> event \<Rightarrow> master \<Rightarrow> master option" where
  "reschedule now a m =
     (if ev_period a = 0 then Some m
      else if ev_periodic a then schedule_event (a\<lparr>ev_mark := now + ev_period a\<rparr>) m
      else do {
        mark \<leftarrow> daily_mark now (ev_period a) (ev_mark a);
        schedule_event (a\<lparr>ev_mark := mark\<rparr>) m
      })"

text \<open>
  The events that are due, last first; \<^verbatim>\<open>forks\<close> are the answers of \<^verbatim>\<open>fork\<close>. The list of due events
  and the schedule have no node in common, so the loop over the former ends at its end.
\<close>

fun run_events :: "int \<Rightarrow> event list \<Rightarrow> nat option list \<Rightarrow> master \<Rightarrow> master option" where
  "run_events now [] forks m = Some m"
| "run_events now (a # as) forks m = do {
     let m' = (case ev_exec a of
         None \<Rightarrow> m
       | Some _ \<Rightarrow> (case forks of
           Some p # _ \<Rightarrow> add_centry p SERVICE_STATE_READY 0 None m
         | _ \<Rightarrow> m));
     m'' \<leftarrow> reschedule now a m';
     run_events now as (if ev_exec a = None then forks else tl forks) m''
   }"

definition spawn_schedule :: "int \<Rightarrow> nat option list \<Rightarrow> master \<Rightarrow> master option" where
  "spawn_schedule now forks m =
     (let due = takeWhile (\<lambda>e. ev_mark e \<le> now) (ms_schedule m);
          m = m\<lparr>ms_schedule := dropWhile (\<lambda>e. ev_mark e \<le> now) (ms_schedule m)\<rparr>
      in run_events now (rev due) forks m)"

section \<open>Forking a service\<close>

definition FORKRATE_INTERVAL :: int where
  "FORKRATE_INTERVAL = 2"

definition update_forkrate :: "int \<Rightarrow> service \<Rightarrow> service" where
  "update_forkrate now s =
     (if now - sv_last_interval_start s \<ge> FORKRATE_INTERVAL
      then let s = s\<lparr>sv_forkrate := sv_interval_forks s div 2 + sv_forkrate s div 2, sv_interval_forks := 0,
                 sv_last_interval_start := sv_last_interval_start s + FORKRATE_INTERVAL\<rparr>;
               interval = now - sv_last_interval_start s
           in if interval > 2
              then let skipped = nat (interval div FORKRATE_INTERVAL) in
                if skipped > 30 then s\<lparr>sv_forkrate := 0\<rparr>
                else s\<lparr>sv_forkrate := sv_forkrate s div 2 ^ skipped, sv_last_interval_start := now\<rparr>
              else s
      else s)"

definition is_imap :: "string \<Rightarrow> bool" where
  "is_imap name \<longleftrightarrow> name = ''imap'' \<or> name = ''imaps''"

definition is_pop :: "string \<Rightarrow> bool" where
  "is_pop name \<longleftrightarrow> name = ''pop3'' \<or> name = ''pop3s''"

text \<open>The counters of connections; \<^verbatim>\<open>d\<close> is 1 or -1.\<close>

definition count_conn :: "int \<Rightarrow> string \<Rightarrow> master \<Rightarrow> master" where
  "count_conn d name m =
     (if is_imap name then m\<lparr>ms_imap_count := ms_imap_count m + d\<rparr>
      else if is_pop name then m\<lparr>ms_pop_count := ms_pop_count m + d\<rparr>
      else m)"

definition wakeup_call :: "int \<Rightarrow> event" where
  "wakeup_call now = \<lparr>ev_name = Some ''forkrate wakeup call'', ev_mark = now + FORKRATE_INTERVAL, ev_period = 0,
     ev_periodic = False, ev_exec = None\<rparr>"

definition count_fork :: "service \<Rightarrow> service" where
  "count_fork s = s\<lparr>sv_ready_workers := sv_ready_workers s + 1, sv_interval_forks := sv_interval_forks s + 1,
     sv_nforks := sv_nforks s + 1, sv_nactive := sv_nactive s + 1\<rparr>"

definition spawn_service :: "int \<Rightarrow> nat option \<Rightarrow> nat \<Rightarrow> master \<Rightarrow> master option" where
  "spawn_service now p si m =
     (if length (ms_services m) \<le> si then None
      else case sv_name (ms_services m ! si) of
        None \<Rightarrow> None
      | Some name \<Rightarrow>
          (let m = change_service si (update_forkrate now) m; s = ms_services m ! si in
           if sv_maxforkrate s \<noteq> 0 \<and> sv_forkrate s \<ge> sv_maxforkrate s
           then schedule_event (wakeup_call now) m
           else let m = count_conn 1 name m in
             (case p of
                None \<Rightarrow> Some m
              | Some pid \<Rightarrow> Some (add_centry pid SERVICE_STATE_READY 0 (Some si) (change_service si count_fork m)))))"

section \<open>Reaping\<close>

definition count_exit :: "sstate \<Rightarrow> service \<Rightarrow> service" where
  "count_exit st s = (case st of
     SERVICE_STATE_READY \<Rightarrow> s\<lparr>sv_nactive := sv_nactive s - 1, sv_ready_workers := sv_ready_workers s - 1\<rparr>
   | SERVICE_STATE_BUSY \<Rightarrow> s\<lparr>sv_nactive := sv_nactive s - 1\<rparr>
   | SERVICE_STATE_UNKNOWN \<Rightarrow> s\<lparr>sv_nactive := sv_nactive s - 1\<rparr>
   | _ \<Rightarrow> s)"

text \<open>
  The state a child counts as: an illegal one is forced to \<^verbatim>\<open>UNKNOWN\<close>, after a line in the log
  that has the name of the service, through a \<^verbatim>\<open>NULL\<close> pointer when there is none.
\<close>

definition valid_state :: "sstate \<Rightarrow> sstate" where
  "valid_state st = (if st = SERVICE_STATE_INIT then SERVICE_STATE_UNKNOWN else st)"

definition account_exit :: "centry \<Rightarrow> master \<Rightarrow> master option" where
  "account_exit c m = (case ce_si c of
     None \<Rightarrow> if ce_state c = SERVICE_STATE_INIT then None else Some m
   | Some si \<Rightarrow>
       if length (ms_services m) \<le> si then None
       else let st = valid_state (ce_state c); m = change_service si (count_exit st) m in
         if st = SERVICE_STATE_DEAD then Some m
         else do {
           name \<leftarrow> sv_name (ms_services m ! si);
           Some (count_conn (- 1) name m)
         })"

definition reap_one :: "int \<Rightarrow> nat \<Rightarrow> master \<Rightarrow> master option" where
  "reap_one now pid m = (case find_centry pid m of
     Some c \<Rightarrow> do {
       m \<leftarrow> account_exit c m;
       Some (change_centry pid (\<lambda>c. c\<lparr>ce_state := SERVICE_STATE_DEAD, ce_deadline := now + 2\<rparr>) m)
     }
   | None \<Rightarrow> Some (add_centry pid SERVICE_STATE_DEAD (now + 2) None m))"

fun reap_child :: "int \<Rightarrow> nat list \<Rightarrow> master \<Rightarrow> master option" where
  "reap_child now [] m = Some m"
| "reap_child now (pid # pids) m = do { m \<leftarrow> reap_one now pid m; reap_child now pids m }"

section \<open>The janitor\<close>

definition expired :: "int \<Rightarrow> centry \<Rightarrow> bool" where
  "expired now c \<longleftrightarrow> ce_state c = SERVICE_STATE_DEAD \<and> ce_deadline c < now"

text \<open>
  \<^verbatim>\<open>i\<close> is the number of chains to clean, estimated from the time since the last sweep. The
  entries removed go to the list of free ones.
\<close>

fun child_janitor :: "int \<Rightarrow> nat \<Rightarrow> master \<Rightarrow> master" where
  "child_janitor now 0 m = m"
| "child_janitor now (Suc i) m =
     (let k = ms_janitor_position m in
      child_janitor now i (m\<lparr>ms_ctable := (ms_ctable m)[k := filter (\<lambda>c. \<not> expired now c) (ms_ctable m ! k)],
        ms_janitor_position := (k + 1) mod child_table_size\<rparr>))"

section \<open>Messages\<close>

datatype message =
    MASTER_SERVICE_AVAILABLE
  | MASTER_SERVICE_UNAVAILABLE
  | MASTER_SERVICE_CONNECTION
  | MASTER_SERVICE_CONNECTION_MULTI
  | MASTER_SERVICE_STATUS_ADD_USER conn_info
  | MASTER_SERVICE_STATUS_REMOVE_USER
  | MASTER_SERVICE_OTHER

text \<open>
  The state machine: the new state of the child, and what is added to \<^verbatim>\<open>ready_workers\<close> and
  \<^verbatim>\<open>nconnections\<close>.
\<close>

fun transition :: "message \<Rightarrow> sstate \<Rightarrow> sstate \<times> int \<times> int" where
  "transition MASTER_SERVICE_AVAILABLE SERVICE_STATE_UNKNOWN = (SERVICE_STATE_READY, 0, 0)"
| "transition MASTER_SERVICE_AVAILABLE SERVICE_STATE_BUSY = (SERVICE_STATE_READY, 1, 0)"
| "transition MASTER_SERVICE_UNAVAILABLE SERVICE_STATE_UNKNOWN = (SERVICE_STATE_BUSY, 0, 0)"
| "transition MASTER_SERVICE_UNAVAILABLE SERVICE_STATE_READY = (SERVICE_STATE_BUSY, - 1, 0)"
| "transition MASTER_SERVICE_CONNECTION SERVICE_STATE_BUSY = (SERVICE_STATE_BUSY, 0, 1)"
| "transition MASTER_SERVICE_CONNECTION SERVICE_STATE_UNKNOWN = (SERVICE_STATE_BUSY, 0, 1)"
| "transition MASTER_SERVICE_CONNECTION SERVICE_STATE_READY = (SERVICE_STATE_BUSY, - 1, 1)"
| "transition MASTER_SERVICE_CONNECTION_MULTI SERVICE_STATE_READY = (SERVICE_STATE_READY, 0, 1)"
| "transition MASTER_SERVICE_CONNECTION_MULTI SERVICE_STATE_BUSY = (SERVICE_STATE_READY, 1, 1)"
| "transition MASTER_SERVICE_CONNECTION_MULTI SERVICE_STATE_UNKNOWN = (SERVICE_STATE_READY, 0, 1)"
| "transition _ st = (st, 0, 0)"

text \<open>
  The table of the connections of every user: a slot is used by the first user that hashes to
  it. The hash is on \<^verbatim>\<open>unsigned long\<close>.
\<close>

definition conn_hash :: "string \<Rightarrow> nat" where
  "conn_hash u = unat (foldl (\<lambda>h c. of_int (let n = of_char c in if n < 128 then n else n - 256) +
     push_bit 6 h + push_bit 16 h - h) (0 :: 64 word) u) mod 1000"

definition set_user_conn_limit :: "string \<Rightarrow> bool \<Rightarrow> master \<Rightarrow> master" where
  "set_user_conn_limit user add m = (case ms_conn_tbl m of
     None \<Rightarrow> m
   | Some t \<Rightarrow>
       (let i = conn_hash user; (id, n) = t ! i;
            e = (if add
                 then if id = [] then (take 64 user, 1) else if user = id then (id, n + 1) else (id, n)
                 else if id = [] then (id, n) else if n \<le> 1 then ([], 0) else (id, n - 1))
        in m\<lparr>ms_conn_tbl := Some (t[i := e])\<rparr>))"

definition set_head_info :: "nat \<Rightarrow> conn_info \<Rightarrow> master \<Rightarrow> master" where
  "set_head_info pid info m = (case chain_of pid m of
     [] \<Rightarrow> m
   | c # cs \<Rightarrow> set_chain pid (c\<lparr>ce_info := Some info\<rparr> # cs) m)"

definition idle_info :: conn_info where
  "idle_info = \<lparr>m_start_time = 0, m_user_buf = ''idle process'', m_host_buf = ''[0.0.0.0]''\<rparr>"

text \<open>
  The messages on the user of a connection write to the first entry of the chain, which need
  not be the one of the process.
\<close>

definition status_msg :: "nat \<Rightarrow> message \<Rightarrow> master \<Rightarrow> master option" where
  "status_msg pid msg m = (case msg of
     MASTER_SERVICE_STATUS_ADD_USER info \<Rightarrow>
       Some (set_user_conn_limit (m_user_buf info) True
         (set_head_info pid (info\<lparr>m_user_buf := take 64 (m_user_buf info), m_host_buf := take 64 (m_host_buf info)\<rparr>) m))
   | MASTER_SERVICE_STATUS_REMOVE_USER \<Rightarrow> do {
       info \<leftarrow> ce_info (hd (chain_of pid m));
       Some (set_head_info pid idle_info (set_user_conn_limit (m_user_buf info) False m))
     }
   | _ \<Rightarrow> Some m)"

definition process_msg :: "nat \<Rightarrow> nat \<Rightarrow> message \<Rightarrow> master \<Rightarrow> master option" where
  "process_msg si pid msg m =
     (if length (ms_services m) \<le> si then None
      else
        let m = (if find_centry pid m = None then add_centry pid SERVICE_STATE_UNKNOWN 0 (Some si) m else m);
            m = change_centry pid (\<lambda>c. c\<lparr>ce_si := Some si, ce_state := valid_state (ce_state c)\<rparr>) m
        in do {
          c \<leftarrow> find_centry pid m;
          let (st, dready, dconn) = transition msg (ce_state c);
          let m = change_service si (\<lambda>s. s\<lparr>sv_ready_workers := sv_ready_workers s + dready,
            sv_nconnections := sv_nconnections s + dconn\<rparr>) (change_centry pid (\<lambda>c. c\<lparr>ce_state := st\<rparr>) m);
          status_msg pid msg m
        })"

section \<open>The main loop\<close>

text \<open>
  The two loops over the services: the one that starts and removes services, and the one that
  reads a message and starts children. \<^verbatim>\<open>ps\<close> are the answers of \<^verbatim>\<open>fork\<close>, \<^verbatim>\<open>connection\<close> says that
  somebody connects.
\<close>

definition remove_service :: "service \<Rightarrow> service" where
  "remove_service s = s\<lparr>sv_name := None, sv_nforks := 0, sv_nactive := 0, sv_nconnections := 0\<rparr>"

definition supervise :: "int \<Rightarrow> nat option \<Rightarrow> nat \<Rightarrow> master \<Rightarrow> master option" where
  "supervise now p i m = (let s = ms_services m ! i in
     if sv_exec s \<noteq> None \<and> sv_nactive s < sv_max_workers s \<and> sv_ready_workers s < sv_desired_workers s
     then spawn_service now p i m
     else if sv_exec s \<noteq> None \<and> sv_babysit s \<and> sv_nactive s = 0 then spawn_service now p i m
     else if sv_exec s = None \<and> sv_name s \<noteq> None \<and> sv_nactive s = 0
     then Some (change_service i remove_service m)
     else Some m)"

fun spawn_many :: "int \<Rightarrow> nat option list \<Rightarrow> nat \<Rightarrow> master \<Rightarrow> master option" where
  "spawn_many now [] i m = Some m"
| "spawn_many now (p # ps) i m = do { m \<leftarrow> spawn_service now p i m; spawn_many now ps i m }"

definition man_service :: "int \<Rightarrow> (nat \<Rightarrow> nat option) \<Rightarrow> bool \<Rightarrow> nat \<Rightarrow> master \<Rightarrow> master option" where
  "man_service now ps connection i m = (let s = ms_services m ! i in
     if sv_exec s \<noteq> None \<and> sv_nactive s < sv_max_workers s
     then do {
       let k = nat (sv_desired_workers s - sv_ready_workers s);
       m \<leftarrow> spawn_many now (map ps [0..<k]) i m;
       if sv_ready_workers (ms_services m ! i) = 0 \<and> connection then spawn_service now (ps k) i m else Some m
     }
     else Some m)"

datatype received = No_message | Bad_size | Received nat message

definition serve :: "int \<Rightarrow> (nat \<Rightarrow> nat option) \<Rightarrow> received \<Rightarrow> bool \<Rightarrow> nat \<Rightarrow> master \<Rightarrow> master option" where
  "serve now ps msg connection i m = (case msg of
     Bad_size \<Rightarrow> Some m
   | No_message \<Rightarrow> man_service now ps connection i m
   | Received pid msg \<Rightarrow> do {
       m \<leftarrow> process_msg i pid msg m;
       man_service now ps connection i m
     })"

end
