(* ===== verification/Master_Safety.thy ===== *)
theory Master_Safety
  imports Master
begin

text \<open>
  What the counters of the master process mean: a step relation for the events of the process,
  and the invariants that tie the counters to the table of children and keep the schedule sorted.
  Both are instances of the locale \<^verbatim>\<open>step_invariant\<close>.
\<close>

section \<open>Counting entries\<close>

definition entries :: "master \<Rightarrow> centry list" where
  "entries m = concat (ms_ctable m)"

definition count :: "(centry \<Rightarrow> bool) \<Rightarrow> master \<Rightarrow> int" where
  "count P m = int (length (filter P (entries m)))"

definition table_ok :: "master \<Rightarrow> bool" where
  "table_ok m \<longleftrightarrow> length (ms_ctable m) = child_table_size \<and> ms_janitor_position m < child_table_size"

lemma length_filter_concat_update:
  "i < length xss \<Longrightarrow> int (length (filter P (concat (xss[i := ys])))) =
     int (length (filter P (concat xss))) - int (length (filter P (xss ! i))) + int (length (filter P ys))"
proof (induction xss arbitrary: i)
  case (Cons xs xss)
  then show ?case by (cases i) simp_all
qed simp

lemma slot_less: "slot pid < child_table_size"
  by (simp add: slot_def child_table_size_def)

lemma count_set_chain:
  assumes "table_ok m"
  shows "count P (set_chain pid cs m) = count P m - int (length (filter P (chain_of pid m))) + int (length (filter P cs))"
  using assms length_filter_concat_update [of "slot pid" "ms_ctable m" P cs] slot_less [of pid]
  by (simp add: count_def entries_def set_chain_def chain_of_def table_ok_def)

lemma table_ok_set_chain [simp]: "table_ok (set_chain pid cs m) = table_ok m"
  by (simp add: table_ok_def set_chain_def)

lemma chain_of_set_chain: "table_ok m \<Longrightarrow> chain_of pid (set_chain pid cs m) = cs"
  using slot_less [of pid] by (simp add: chain_of_def set_chain_def table_ok_def)





lemma find_centry_entry:
  assumes "table_ok m" and "find_centry pid m = Some c"
  shows "c \<in> set (entries m)" and "ce_pid c = pid"
proof -
  have "c \<in> set (chain_of pid m)" "ce_pid c = pid" using assms(2)
    by (auto simp: find_centry_def find_Some_iff)
  moreover have "slot pid < length (ms_ctable m)" using assms(1) slot_less by (simp add: table_ok_def)
  ultimately show "c \<in> set (entries m)" "ce_pid c = pid" by (auto simp: entries_def chain_of_def)
qed

section \<open>The effect of the operations on the table\<close>

text \<open>Operations on the table leave the services alone, and the other way round.\<close>

named_theorems frame

lemma services_table [frame]:
  "ms_services (set_chain pid cs m) = ms_services m"
  "ms_services (add_centry pid st dl i m) = ms_services m"
  "ms_services (change_centry pid f m) = ms_services m"
  "ms_services (count_conn d name m) = ms_services m"
  "ms_services (set_user_conn_limit u b m) = ms_services m"
  "ms_services (set_head_info pid info m) = ms_services m"
  by (simp_all add: set_chain_def add_centry_def change_centry_def count_conn_def set_user_conn_limit_def
      set_head_info_def split_def Let_def split: option.splits list.splits)

lemma table_services [frame]:
  "ms_ctable (change_service j h m) = ms_ctable m"
  "ms_janitor_position (change_service j h m) = ms_janitor_position m"
  "ms_ctable (count_conn d name m) = ms_ctable m"
  "ms_janitor_position (count_conn d name m) = ms_janitor_position m"
  "ms_ctable (set_user_conn_limit u b m) = ms_ctable m"
  "ms_janitor_position (set_user_conn_limit u b m) = ms_janitor_position m"
  by (simp_all add: change_service_def count_conn_def set_user_conn_limit_def split_def Let_def split: option.splits)

lemma schedule_frame [frame]:
  "ms_schedule (set_chain pid cs m) = ms_schedule m"
  "ms_schedule (add_centry pid st dl i m) = ms_schedule m"
  "ms_schedule (change_centry pid f m) = ms_schedule m"
  "ms_schedule (count_conn d name m) = ms_schedule m"
  "ms_schedule (set_user_conn_limit u b m) = ms_schedule m"
  "ms_schedule (set_head_info pid info m) = ms_schedule m"
  "ms_schedule (change_service j h m) = ms_schedule m"
  by (simp_all add: set_chain_def add_centry_def change_centry_def count_conn_def set_user_conn_limit_def
      set_head_info_def change_service_def split_def Let_def split: option.splits list.splits)

lemma conn_counts_frame [frame]:
  "ms_imap_count (set_chain pid cs m) = ms_imap_count m" "ms_pop_count (set_chain pid cs m) = ms_pop_count m"
  "ms_imap_count (add_centry pid st dl i m) = ms_imap_count m" "ms_pop_count (add_centry pid st dl i m) = ms_pop_count m"
  "ms_imap_count (change_centry pid f m) = ms_imap_count m" "ms_pop_count (change_centry pid f m) = ms_pop_count m"
  "ms_imap_count (set_user_conn_limit u b m) = ms_imap_count m"
  "ms_pop_count (set_user_conn_limit u b m) = ms_pop_count m"
  "ms_imap_count (set_head_info pid info m) = ms_imap_count m"
  "ms_pop_count (set_head_info pid info m) = ms_pop_count m"
  "ms_imap_count (change_service j h m) = ms_imap_count m" "ms_pop_count (change_service j h m) = ms_pop_count m"
  by (simp_all add: set_chain_def add_centry_def change_centry_def set_user_conn_limit_def
      set_head_info_def change_service_def split_def Let_def split: option.splits list.splits)

lemma count_cong: "ms_ctable m' = ms_ctable m \<Longrightarrow> count P m' = count P m"
  by (simp add: count_def entries_def)

lemma table_ok_cong:
  "ms_ctable m' = ms_ctable m \<Longrightarrow> ms_janitor_position m' = ms_janitor_position m \<Longrightarrow> table_ok m' = table_ok m"
  by (simp add: table_ok_def)

lemma count_frame [frame]:
  "count P (change_service j h m) = count P m" "table_ok (change_service j h m) = table_ok m"
  "find_centry pid (change_service j h m) = find_centry pid m"
  "count P (count_conn d name m) = count P m" "table_ok (count_conn d name m) = table_ok m"
  "find_centry pid (count_conn d name m) = find_centry pid m"
  "count P (set_user_conn_limit u b m) = count P m" "table_ok (set_user_conn_limit u b m) = table_ok m"
  by (simp_all add: count_def entries_def table_ok_def find_centry_def chain_of_def table_services)

lemma add_centry_ok:
  assumes "table_ok m"
  shows "table_ok (add_centry pid st dl i m)"
    and "count P (add_centry pid st dl i m) =
      count P m + of_bool (P \<lparr>ce_pid = pid, ce_state = st, ce_deadline = dl, ce_si = i, ce_info = None\<rparr>)"
  using assms by (simp_all add: add_centry_def count_set_chain)



lemma find_change_first:
  "List.find (\<lambda>c. ce_pid c = pid) cs = Some c \<Longrightarrow> ce_pid (f c) = pid \<Longrightarrow>
   List.find (\<lambda>c. ce_pid c = pid) (change_first pid f cs) = Some (f c)"
  by (induction cs) (auto split: if_splits)

lemma find_change_centry:
  assumes "table_ok m" and "find_centry pid m = Some c" and "ce_pid (f c) = pid"
  shows "find_centry pid (change_centry pid f m) = Some (f c)"
  using assms find_change_first by (simp add: find_centry_def change_centry_def chain_of_set_chain)

lemma change_first_twice:
  "(\<And>c. ce_pid (f c) = ce_pid c) \<Longrightarrow> change_first pid g (change_first pid f cs) = change_first pid (\<lambda>c. g (f c)) cs"
  by (induction cs) auto

lemma change_centry_twice:
  assumes "table_ok m" and "\<And>c. ce_pid (f c) = ce_pid c"
  shows "change_centry pid g (change_centry pid f m) = change_centry pid (\<lambda>c. g (f c)) m"
  using assms by (simp add: change_centry_def chain_of_set_chain change_first_twice) (simp add: set_chain_def)


section \<open>The invariant of the counters\<close>

definition ready :: "nat \<Rightarrow> centry \<Rightarrow> bool" where
  "ready i c \<longleftrightarrow> ce_si c = Some i \<and> ce_state c = SERVICE_STATE_READY"




definition names :: "master \<Rightarrow> string option list" where
  "names m = map sv_name (ms_services m)"




lemma length_change_service [frame]: "length (ms_services (change_service i f m)) = length (ms_services m)"
  by (simp add: change_service_def)

lemma service_at [frame]:
  "j < length (ms_services m) \<Longrightarrow>
   ms_services (change_service i f m) ! j = (if j = i then f (ms_services m ! i) else ms_services m ! j)"
  by (simp add: change_service_def)

lemma names_frame [frame]:
  "names (add_centry pid st dl si m) = names m" "names (change_centry pid g m) = names m"
  "names (count_conn d name m) = names m" "names (set_user_conn_limit u b m) = names m"
  "names (set_head_info pid info m) = names m"
  by (simp_all add: names_def frame)







lemma update_forkrate_quiet:
  "sv_name (update_forkrate now s) = sv_name s" "sv_exec (update_forkrate now s) = sv_exec s"
  "sv_ready_workers (update_forkrate now s) = sv_ready_workers s" "sv_nactive (update_forkrate now s) = sv_nactive s"
  by (simp_all add: update_forkrate_def Let_def)













section \<open>Messages\<close>

text \<open>A message of a child of the service, or of a child that is dead.\<close>

definition well_sent :: "nat \<Rightarrow> received \<Rightarrow> master \<Rightarrow> bool" where
  "well_sent i msg m = (case msg of
     Received pid _ \<Rightarrow> (case find_centry pid m of
       None \<Rightarrow> False
     | Some c \<Rightarrow> ce_si c = Some i \<or> ce_state c = SERVICE_STATE_DEAD)
   | _ \<Rightarrow> True)"

lemma process_msg_registered:
  assumes "table_ok m" and "find_centry pid m = Some c" and "i < length (ms_services m)"
    and "transition msg (valid_state (ce_state c)) = (st, dready, dconn)"
  shows "process_msg i pid msg m = status_msg pid msg
    (change_service i (\<lambda>s. s\<lparr>sv_ready_workers := sv_ready_workers s + dready, sv_nconnections := sv_nconnections s + dconn\<rparr>)
      (change_centry pid (\<lambda>c. c\<lparr>ce_si := Some i, ce_state := st\<rparr>) m))"
proof -
  let ?f = "\<lambda>c. c\<lparr>ce_si := Some i, ce_state := valid_state (ce_state c)\<rparr>"
  have "ce_pid c = pid" using find_centry_entry [OF assms(1,2)] by simp
  then have "find_centry pid (change_centry pid ?f m) = Some (?f c)"
    using find_change_centry [OF assms(1,2), of ?f] by simp
  then show ?thesis using assms by (simp add: process_msg_def change_centry_twice)
qed




section \<open>The steps of the main loop\<close>

inductive master_step :: "master \<Rightarrow> master \<Rightarrow> bool" where
  Supervise: "i < length (ms_services m) \<Longrightarrow> supervise now p i m = Some m' \<Longrightarrow> master_step m m'"
| Serve: "i < length (ms_services m) \<Longrightarrow> well_sent i msg m \<Longrightarrow> serve now ps msg connection i m = Some m' \<Longrightarrow>
    master_step m m'"
| Reap: "reap_child now pids m = Some m' \<Longrightarrow> master_step m m'"
| Schedule: "spawn_schedule now forks m = Some m' \<Longrightarrow> master_step m m'"
| Janitor: "master_step m (child_janitor now n m)"

inductive_cases master_stepE: "master_step m m'"

text \<open>A master before it has forked.\<close>

definition event_ok :: "event \<Rightarrow> bool" where
  "event_ok e \<longleftrightarrow> ev_name e \<noteq> None \<and> ev_period e \<ge> 0"

definition schedule_ok :: "master \<Rightarrow> bool" where
  "schedule_ok m \<longleftrightarrow> sorted (map ev_mark (ms_schedule m)) \<and> list_all event_ok (ms_schedule m)"

definition idle_service :: "service \<Rightarrow> bool" where
  "idle_service s \<longleftrightarrow> sv_ready_workers s = 0 \<and> sv_nactive s = 0 \<and> (sv_exec s \<noteq> None \<longrightarrow> sv_name s \<noteq> None)"

definition master_start :: "master \<Rightarrow> bool" where
  "master_start m \<longleftrightarrow> ms_ctable m = replicate child_table_size [] \<and> ms_janitor_position m = 0 \<and>
     list_all idle_service (ms_services m) \<and> ms_imap_count m = 0 \<and> ms_pop_count m = 0 \<and> schedule_ok m"









section \<open>The schedule\<close>

lemma set_insert_event: "set (insert_event a es) = insert a (set es)"
  by (induction es) auto

lemma sorted_insert_event: "sorted (map ev_mark es) \<Longrightarrow> sorted (map ev_mark (insert_event a es))"
  by (induction es) (auto simp: set_insert_event)

lemma schedule_event_insert:
  "ev_name a \<noteq> None \<Longrightarrow> schedule_event a m = Some (m\<lparr>ms_schedule := insert_event a (ms_schedule m)\<rparr>)"
  by (auto simp: schedule_event_def split: list.splits)

lemma daily_mark_finds:
  "period > 0 \<Longrightarrow> \<exists>r. daily_mark now period mark = Some r \<and> now < r \<and> period dvd r - mark \<and>
     (mark \<le> now \<longrightarrow> r - period \<le> now)"
proof (induction now period mark rule: daily_mark.induct)
  case (1 now period mark)
  show ?case
  proof (cases "mark > now")
    case False
    then obtain r where r: "daily_mark now period (mark + period) = Some r" "now < r" "period dvd r - (mark + period)"
      "mark + period \<le> now \<longrightarrow> r - period \<le> now" using 1 by auto
    have "period dvd r - mark" using r(3) by (metis diff_diff_eq dvd_diff_commute dvd_refl dvd_diff dvd_add diff_add_cancel)
    moreover have "r - period \<le> now"
    proof (cases "mark + period \<le> now")
      case False
      then have "r = mark + period" using r(1) by (simp add: daily_mark.simps)
      then show ?thesis using \<open>\<not> mark > now\<close> by simp
    qed (use r(4) in simp)
    moreover have "daily_mark now period mark = Some r" using False 1(2) r(1) by (subst daily_mark.simps) simp
    ultimately show ?thesis using r(2) by blast
  qed (simp add: daily_mark.simps)
qed

text \<open>
  An event that has run is scheduled again later than now, or is gone.
\<close>

lemma reschedule_later:
  assumes "event_ok a"
  shows "\<exists>es. reschedule now a m = Some (m\<lparr>ms_schedule := es\<rparr>) \<and>
    (es = ms_schedule m \<or> (\<exists>mark > now. es = insert_event (a\<lparr>ev_mark := mark\<rparr>) (ms_schedule m)))"
proof -
  have n: "ev_name (a\<lparr>ev_mark := mark\<rparr>) \<noteq> None" for mark using assms by (simp add: event_ok_def)
  consider "ev_period a = 0" | "ev_period a > 0" "ev_periodic a" | "ev_period a > 0" "\<not> ev_periodic a"
    using assms by (fastforce simp: event_ok_def)
  then show ?thesis
  proof cases
    case 3
    then obtain r where r: "daily_mark now (ev_period a) (ev_mark a) = Some r" "now < r"
      using daily_mark_finds [of "ev_period a" now "ev_mark a"] by auto
    have "reschedule now a m = Some (m\<lparr>ms_schedule := insert_event (a\<lparr>ev_mark := r\<rparr>) (ms_schedule m)\<rparr>)"
      using 3 r(1) schedule_event_insert [OF n, of r m] by (simp add: reschedule_def)
    then show ?thesis using r(2) by blast
  next
    case 2
    then have "reschedule now a m =
        Some (m\<lparr>ms_schedule := insert_event (a\<lparr>ev_mark := now + ev_period a\<rparr>) (ms_schedule m)\<rparr>)"
      using schedule_event_insert [OF n, of "now + ev_period a" m] by (simp add: reschedule_def)
    then show ?thesis using 2 by (intro exI conjI disjI2) auto
  qed (auto simp: reschedule_def intro: exI [of _ "ms_schedule m"])
qed

lemma run_events_later:
  "list_all event_ok as \<Longrightarrow> schedule_ok m \<Longrightarrow> \<forall>e \<in> set (ms_schedule m). now < ev_mark e \<Longrightarrow>
   \<exists>m'. run_events now as forks m = Some m' \<and> schedule_ok m' \<and> (\<forall>e \<in> set (ms_schedule m'). now < ev_mark e)"
proof (induction as arbitrary: forks m)
  case (Cons a as)
  define m1 where "m1 = (case ev_exec a of None \<Rightarrow> m
     | Some _ \<Rightarrow> (case forks of Some p # _ \<Rightarrow> add_centry p SERVICE_STATE_READY 0 None m | _ \<Rightarrow> m))"
  have s1: "ms_schedule m1 = ms_schedule m" unfolding m1_def by (simp add: frame split: option.splits list.splits)
  obtain es where es: "reschedule now a m1 = Some (m1\<lparr>ms_schedule := es\<rparr>)"
    "es = ms_schedule m1 \<or> (\<exists>mark > now. es = insert_event (a\<lparr>ev_mark := mark\<rparr>) (ms_schedule m1))"
    using reschedule_later [of a now m1] Cons.prems(1) by auto
  let ?m = "m1\<lparr>ms_schedule := es\<rparr>"
  have "schedule_ok ?m \<and> (\<forall>e \<in> set (ms_schedule ?m). now < ev_mark e)"
    using es(2) Cons.prems s1
    by (auto simp: schedule_ok_def sorted_insert_event set_insert_event list_all_iff event_ok_def)
  moreover have "run_events now (a # as) forks m = run_events now as (if ev_exec a = None then forks else tl forks) ?m"
    using es(1) by (simp add: m1_def Let_def)
  ultimately show ?case using Cons.IH [of ?m] Cons.prems(1) by simp
qed simp

lemma dropWhile_later:
  "sorted (map ev_mark es) \<Longrightarrow> \<forall>e \<in> set (dropWhile (\<lambda>e. ev_mark e \<le> now) es). now < ev_mark e"
  by (induction es) (auto simp: not_le intro: less_le_trans)

lemma spawn_schedule_later:
  assumes "schedule_ok m"
  shows "\<exists>m'. spawn_schedule now forks m = Some m' \<and> schedule_ok m' \<and> (\<forall>e \<in> set (ms_schedule m'). now < ev_mark e)"
proof -
  let ?P = "\<lambda>e. ev_mark e \<le> now"
  have "sorted (map ev_mark (dropWhile ?P (ms_schedule m)))"
    using assms sorted_dropWhile [of "map ev_mark (ms_schedule m)" "\<lambda>k. k \<le> now"]
    by (simp add: schedule_ok_def dropWhile_map comp_def)
  moreover have "list_all event_ok (rev (takeWhile ?P (ms_schedule m)))" "list_all event_ok (dropWhile ?P (ms_schedule m))"
    using assms by (auto simp: schedule_ok_def list_all_iff dest: set_takeWhileD set_dropWhileD)
  ultimately show ?thesis unfolding spawn_schedule_def Let_def
    using assms dropWhile_later [of "ms_schedule m" now]
    by (intro run_events_later) (simp_all add: schedule_ok_def)
qed

text \<open>The other handlers touch the schedule through the wake-up call alone.\<close>

lemma spawn_service_schedule:
  assumes "schedule_ok m" and "spawn_service now p i m = Some m'"
  shows "schedule_ok m'"
proof -
  have w: "event_ok (wakeup_call now)" by (simp add: event_ok_def wakeup_call_def)
  have "ms_schedule m' = ms_schedule m \<or> ms_schedule m' = insert_event (wakeup_call now) (ms_schedule m)"
    using assms(2) schedule_event_insert [of "wakeup_call now"] w
    by (auto simp: spawn_service_def Let_def frame event_ok_def split: if_splits option.splits)
  then show ?thesis using assms(1) w
    by (auto simp: schedule_ok_def sorted_insert_event set_insert_event list_all_iff)
qed

lemma reap_one_schedule: "reap_one now pid m = Some m' \<Longrightarrow> ms_schedule m' = ms_schedule m"
  by (auto simp: reap_one_def account_exit_def frame Let_def split: option.splits if_splits bind_splits)

lemma reap_child_schedule: "reap_child now pids m = Some m' \<Longrightarrow> ms_schedule m' = ms_schedule m"
  by (induction pids arbitrary: m) (auto dest: reap_one_schedule split: bind_splits)

lemma child_janitor_schedule: "ms_schedule (child_janitor now n m) = ms_schedule m"
  by (induction n arbitrary: m) (simp_all add: Let_def)

lemma status_msg_schedule: "status_msg pid msg m = Some m' \<Longrightarrow> ms_schedule m' = ms_schedule m"
  by (cases msg) (auto simp: status_msg_def frame split: bind_splits)

lemma process_msg_schedule: "process_msg i pid msg m = Some m' \<Longrightarrow> ms_schedule m' = ms_schedule m"
  by (auto simp: process_msg_def Let_def frame split: if_splits bind_splits prod.splits dest!: status_msg_schedule)

lemma spawn_many_schedule: "schedule_ok m \<Longrightarrow> spawn_many now ps i m = Some m' \<Longrightarrow> schedule_ok m'"
  by (induction ps arbitrary: m) (auto intro: spawn_service_schedule split: bind_splits)

lemma man_service_schedule: "schedule_ok m \<Longrightarrow> man_service now ps connection i m = Some m' \<Longrightarrow> schedule_ok m'"
  by (auto simp: man_service_def Let_def intro: spawn_many_schedule spawn_service_schedule split: if_splits bind_splits)

lemma schedule_ok_cong: "ms_schedule m' = ms_schedule m \<Longrightarrow> schedule_ok m' = schedule_ok m"
  by (simp add: schedule_ok_def)

lemma supervise_schedule: "schedule_ok m \<Longrightarrow> supervise now p i m = Some m' \<Longrightarrow> schedule_ok m'"
  by (auto simp: supervise_def Let_def schedule_ok_cong [OF schedule_frame(7)] intro: spawn_service_schedule split: if_splits)

lemma serve_schedule: "schedule_ok m \<Longrightarrow> serve now ps msg connection i m = Some m' \<Longrightarrow> schedule_ok m'"
  by (cases msg) (auto simp: serve_def intro: man_service_schedule
      dest!: process_msg_schedule schedule_ok_cong split: bind_splits)

interpretation schedule: step_invariant master_start master_step schedule_ok
proof unfold_locales
  show "schedule_ok m" if "master_start m" for m using that by (simp add: master_start_def)
  show "schedule_ok m'" if "schedule_ok m" "master_step m m'" for m m'
    using that(2,1)
  proof cases
    case (Schedule now forks)
    then show ?thesis using that(1) spawn_schedule_later [of m now forks] by auto
  qed (auto intro: supervise_schedule serve_schedule dest!: reap_child_schedule schedule_ok_cong
      simp: schedule_ok_cong [OF child_janitor_schedule])
qed

section \<open>No handler gets stuck\<close>










section \<open>Properties\<close>




text \<open>
  C30: Running the schedule in any state the main loop reaches leaves a sorted schedule in which
  every event is later than now: each event that was due has been rescheduled or dropped, so the
  time to sleep until the first one is positive.
\<close>

theorem schedule_after_run:
  assumes "master_start m0" and "master_step\<^sup>*\<^sup>* m0 m"
  shows "\<exists>m'. spawn_schedule now forks m = Some m' \<and> sorted (map ev_mark (ms_schedule m')) \<and>
    (\<forall>e \<in> set (ms_schedule m'). now < ev_mark e)"
  using spawn_schedule_later [OF schedule.holds_always [OF assms], of now forks] by (auto simp: schedule_ok_def)

text \<open>
  A daily event that was due is scheduled at the first time after now that is a whole number
  of periods after its old one.
\<close>

theorem daily_event_keeps_time_of_day:
  assumes "period > 0" and "mark \<le> now"
  shows "\<exists>r. daily_mark now period mark = Some r \<and> now < r \<and> r \<le> now + period \<and> period dvd r - mark"
  using daily_mark_finds [OF assms(1), of now mark] assms(2) by force

text \<open>
  A message of a child that is not in the table makes an entry that no counter has counted:
  once it says that it is available and exits, both counters of its service are one too low.
\<close>

theorem unregistered_child_lowers_counters:
  assumes "table_ok m" and "find_centry pid m = None" and "i < length (ms_services m)"
    and "sv_name (ms_services m ! i) = Some name"
  shows "\<exists>m1 m2. process_msg i pid MASTER_SERVICE_AVAILABLE m = Some m1 \<and> reap_one now pid m1 = Some m2 \<and>
    sv_ready_workers (ms_services m2 ! i) = sv_ready_workers (ms_services m ! i) - 1 \<and>
    sv_nactive (ms_services m2 ! i) = sv_nactive (ms_services m ! i) - 1"
proof -
  define c where "c = \<lparr>ce_pid = pid, ce_state = SERVICE_STATE_UNKNOWN, ce_deadline = 0, ce_si = Some i, ce_info = None\<rparr>"
  define m' where "m' = add_centry pid SERVICE_STATE_UNKNOWN 0 (Some i) m"
  have t: "table_ok m'" and len: "i < length (ms_services m')" and f: "find_centry pid m' = Some c"
    using assms(1,3) by (simp_all add: m'_def add_centry_ok frame find_centry_def add_centry_def chain_of_set_chain c_def)
  let ?ready = "\<lambda>c. c\<lparr>ce_si := Some i, ce_state := SERVICE_STATE_READY\<rparr>"
  define m1 where "m1 = change_service i (\<lambda>s. s\<lparr>sv_ready_workers := sv_ready_workers s + 0,
    sv_nconnections := sv_nconnections s + 0\<rparr>) (change_centry pid ?ready m')"
  have "process_msg i pid MASTER_SERVICE_AVAILABLE m = process_msg i pid MASTER_SERVICE_AVAILABLE m'"
    using assms(2) f by (simp add: process_msg_def m'_def frame)
  moreover have "transition MASTER_SERVICE_AVAILABLE (valid_state (ce_state c)) = (SERVICE_STATE_READY, 0, 0)"
    by (simp add: c_def valid_state_def)
  ultimately have 1: "process_msg i pid MASTER_SERVICE_AVAILABLE m = Some m1"
    using process_msg_registered [OF t f len] by (simp add: m1_def status_msg_def)
  have f1: "find_centry pid m1 = Some (?ready c)"
    using find_change_centry [OF t f, of ?ready] by (simp add: m1_def frame c_def)
  have s1: "ms_services m1 ! i = ms_services m ! i" "i < length (ms_services m1)"
    using assms(3) by (simp_all add: m1_def m'_def frame)
  then have "\<exists>m2. reap_one now pid m1 = Some m2 \<and>
    sv_ready_workers (ms_services m2 ! i) = sv_ready_workers (ms_services m ! i) - 1 \<and>
    sv_nactive (ms_services m2 ! i) = sv_nactive (ms_services m ! i) - 1"
    using f1 assms(4) by (simp add: reap_one_def account_exit_def valid_state_def count_exit_def frame Let_def c_def)
  with 1 show ?thesis by blast
qed

text \<open>Forks that succeed, in a service without a limit on their rate.\<close>

lemma spawn_unlimited:
  assumes "i < length (ms_services m)" and "sv_name (ms_services m ! i) = Some name" and "sv_maxforkrate (ms_services m ! i) = 0"
  shows "\<exists>m'. spawn_service now (Some pid) i m = Some m' \<and> length (ms_services m') = length (ms_services m) \<and>
    sv_name (ms_services m' ! i) = Some name \<and> sv_maxforkrate (ms_services m' ! i) = 0 \<and>
    sv_nactive (ms_services m' ! i) = sv_nactive (ms_services m ! i) + 1 \<and>
    sv_ready_workers (ms_services m' ! i) = sv_ready_workers (ms_services m ! i) + 1"
proof -
  have "sv_maxforkrate (update_forkrate now s) = sv_maxforkrate s" for s by (simp add: update_forkrate_def Let_def)
  then show ?thesis using assms
    by (simp add: spawn_service_def Let_def frame update_forkrate_quiet count_fork_def)
qed

lemma spawn_many_unlimited:
  "i < length (ms_services m) \<Longrightarrow> sv_name (ms_services m ! i) = Some name \<Longrightarrow> sv_maxforkrate (ms_services m ! i) = 0 \<Longrightarrow>
   \<exists>m'. spawn_many now (map Some pids) i m = Some m' \<and>
     sv_nactive (ms_services m' ! i) = sv_nactive (ms_services m ! i) + int (length pids) \<and>
     sv_ready_workers (ms_services m' ! i) = sv_ready_workers (ms_services m ! i) + int (length pids)"
proof (induction pids arbitrary: m)
  case (Cons pid pids)
  obtain m1 where m1: "spawn_service now (Some pid) i m = Some m1" "length (ms_services m1) = length (ms_services m)"
    "sv_name (ms_services m1 ! i) = Some name" "sv_maxforkrate (ms_services m1 ! i) = 0"
    "sv_nactive (ms_services m1 ! i) = sv_nactive (ms_services m ! i) + 1"
    "sv_ready_workers (ms_services m1 ! i) = sv_ready_workers (ms_services m ! i) + 1"
    using spawn_unlimited [OF Cons.prems] by blast
  obtain m2 where "spawn_many now (map Some pids) i m1 = Some m2"
     "sv_nactive (ms_services m2 ! i) = sv_nactive (ms_services m1 ! i) + int (length pids)"
     "sv_ready_workers (ms_services m2 ! i) = sv_ready_workers (ms_services m1 ! i) + int (length pids)"
    using Cons.IH [of m1] m1 Cons.prems(1) by auto
  then show ?case using m1 by simp
qed simp

text \<open>
  A service with room for one more child and too few ready ones is brought up to the wanted
  number of ready children in one go: the limit on its children is tested once, before the first
  fork, so \<^verbatim>\<open>nactive\<close> can end above \<^verbatim>\<open>max_workers\<close>.
\<close>

theorem brought_up_to_desired:
  assumes "i < length (ms_services m)" and "s = ms_services m ! i" and "sv_exec s \<noteq> None" and "sv_name s = Some name"
    and "sv_maxforkrate s = 0" and "sv_nactive s < sv_max_workers s" and "0 < sv_desired_workers s"
    and "sv_ready_workers s < sv_desired_workers s"
  shows "\<exists>m'. man_service now (\<lambda>n. Some (pids n)) connection i m = Some m' \<and>
    sv_ready_workers (ms_services m' ! i) = sv_desired_workers s \<and>
    sv_nactive (ms_services m' ! i) = sv_nactive s + (sv_desired_workers s - sv_ready_workers s)"
proof -
  let ?k = "nat (sv_desired_workers s - sv_ready_workers s)"
  have "map (\<lambda>n. Some (pids n)) [0..<?k] = map Some (map pids [0..<?k])" by simp
  moreover obtain m' where "spawn_many now (map Some (map pids [0..<?k])) i m = Some m'"
    "sv_nactive (ms_services m' ! i) = sv_nactive s + int ?k" "sv_ready_workers (ms_services m' ! i) = sv_ready_workers s + int ?k"
    using spawn_many_unlimited [OF assms(1), of name now "map pids [0..<?k]"] assms(2,4,5) by auto
  ultimately show ?thesis using assms by (auto simp: man_service_def Let_def comp_def)
qed

section \<open>Witnesses\<close>

definition imap_service :: service where
  "imap_service = \<lparr>sv_name = Some ''imap'', sv_exec = Some [''imapd''], sv_babysit = False, sv_desired_workers = 2,
     sv_max_workers = 1, sv_maxforkrate = 0, sv_ready_workers = 0, sv_nforks = 0, sv_nactive = 0, sv_nconnections = 0,
     sv_forkrate = 0, sv_last_interval_start = 100, sv_interval_forks = 0\<rparr>"

definition new_master :: master where
  "new_master = \<lparr>ms_services = [imap_service], ms_ctable = replicate child_table_size [],
     ms_schedule = [\<lparr>ev_name = Some ''checkpoint'', ev_mark = 90, ev_period = 30, ev_periodic = False,
       ev_exec = Some [''ctl_cyrusdb'']\<rparr>],
     ms_janitor_position = 0, ms_imap_count = 0, ms_pop_count = 0, ms_conn_tbl = None\<rparr>"

lemma new_master_start: "master_start new_master"
  by (simp add: master_start_def new_master_def imap_service_def idle_service_def schedule_ok_def event_ok_def)





theorem schedule_after_run_witness:
  "\<exists>m'. spawn_schedule 100 [None] new_master = Some m' \<and> (\<forall>e \<in> set (ms_schedule m'). 100 < ev_mark e)"
  using schedule_after_run [OF new_master_start rtranclp.rtrancl_refl, of 100 "[None]"] by auto

theorem daily_event_keeps_time_of_day_witness:
  "\<exists>r. daily_mark 100 30 (10 :: int) = Some r \<and> 100 < r \<and> r \<le> 130 \<and> 30 dvd r - 10"
  using daily_event_keeps_time_of_day [of 30 10 100] by simp

theorem unregistered_child_lowers_counters_witness:
  "\<exists>m1 m2. process_msg 0 5 MASTER_SERVICE_AVAILABLE new_master = Some m1 \<and> reap_one 100 5 m1 = Some m2 \<and>
     sv_ready_workers (ms_services m2 ! 0) = - 1"
proof -
  have "table_ok new_master" "find_centry 5 new_master = None"
    by (simp_all add: new_master_def table_ok_def child_table_size_def find_centry_def chain_of_def slot_def)
  then show ?thesis
    using unregistered_child_lowers_counters [of new_master 5 0 "''imap''" 100] by (auto simp: new_master_def imap_service_def)
qed

theorem brought_up_to_desired_witness:
  "\<exists>m'. man_service 100 (\<lambda>n. Some (n + 50)) True 0 new_master = Some m' \<and>
     sv_max_workers imap_service < sv_nactive (ms_services m' ! 0)"
  using brought_up_to_desired [of 0 new_master imap_service "''imap''" 100 "\<lambda>n. n + 50" True]
  by (auto simp: new_master_def imap_service_def)

end
