(* ===== verification/Bsearch.thy ===== *)
theory Bsearch
  imports Prelude "HOL-Library.Monad_Syntax"
begin

text \<open>
  Binary search in a text of lines, \<^verbatim>\<open>lib/bsearch.c\<close>, and the two comparisons that go with it.

  The text is a string of \<^verbatim>\<open>len\<close> bytes; offsets are natural numbers. The variable \<^verbatim>\<open>end\<close> of the
  code is the last byte of the range, an \<^verbatim>\<open>unsigned long\<close> that wraps around to the largest one
  when the range is empty at 0, and is used as \<^verbatim>\<open>end + 1\<close> in the test of the loop: the model has
  \<^verbatim>\<open>end + 1\<close>. A word ends at its NUL; \<^verbatim>\<open>None\<close> is a read behind it, or a pointer computed from the
  \<^verbatim>\<open>NULL\<close> of a \<^verbatim>\<open>memchr\<close> that finds nothing.
\<close>

section \<open>Code\<close>

definition TOCOMPARE :: "char \<Rightarrow> int" where
  "TOCOMPARE c = (let n = of_char c in
     if n = 0 then 0 else if n = 9 \<or> n = 10 then 1 else if n = 46 then 2 else if n < 9 then n + 2 else n)"

definition TOLOWER :: "char \<Rightarrow> int" where
  "TOLOWER c = of_char (tolower c)"

text \<open>\<^verbatim>\<open>memchr(base + i, '\n', n)\<close>, as an offset.\<close>

definition memchr_lf :: "string \<Rightarrow> nat \<Rightarrow> nat \<Rightarrow> nat option" where
  "memchr_lf base i n =
     (let xs = take n (drop i base); ys = takeWhile (\<lambda>c. c \<noteq> LF) xs
      in if length ys < length xs then Some (i + length ys) else None)"

text \<open>The comparison of the word with a line, which ends with its newline.\<close>

fun compare_line :: "(char \<Rightarrow> int) \<Rightarrow> string \<Rightarrow> string \<Rightarrow> int option" where
  "compare_line conv word [] = Some 1"
| "compare_line conv word (p # ps) =
     (let d = conv (deref word) - conv p in
      if d = 0 then (if word = [] then None else compare_line conv (tl word) ps)
      else if word = [] then Some (conv TAB - conv p)
      else Some d)"

text \<open>\<^verbatim>\<open>Inl\<close>: the line found, its offset and its length; \<^verbatim>\<open>Inr\<close>: where the search ended.\<close>

lemma memchr_lf_ge: "memchr_lf base i n = Some p \<Longrightarrow> i \<le> p"
  by (auto simp: memchr_lf_def Let_def split: if_splits)

definition search_mid :: "nat option \<Rightarrow> nat \<Rightarrow> nat \<Rightarrow> nat" where
  "search_mid hint start end1 = (case hint of
     Some h \<Rightarrow> if h \<le> start \<or> h \<ge> end1 then start else h
   | None \<Rightarrow> (start + (end1 - 1)) div 2)"

definition line_offset :: "string \<Rightarrow> nat \<Rightarrow> nat \<Rightarrow> nat option" where
  "line_offset base mid end1 = (if mid = 0 then Some 0 else map_option Suc (memchr_lf base mid (end1 - mid)))"

lemma search_mid_range: "start < end1 \<Longrightarrow> start \<le> search_mid hint start end1 \<and> search_mid hint start end1 < end1"
  by (auto simp: search_mid_def split: option.splits)

lemma line_offset_ge: "line_offset base mid end1 = Some offset \<Longrightarrow> mid \<le> offset"
  by (auto simp: line_offset_def dest: memchr_lf_ge split: if_splits)

lemma search_lower: "start < end1 \<Longrightarrow> search_mid hint start end1 - start < end1 - start"
  using search_mid_range [of start end1 hint] by auto

lemma search_upper:
  "start < end1 \<Longrightarrow> line_offset base (search_mid hint start end1) end1 = Some offset \<Longrightarrow> end1 - Suc offset < end1 - start"
  using search_mid_range [of start end1 hint] line_offset_ge [of base "search_mid hint start end1" end1 offset] by auto

function bsearch_loop ::
  "(char \<Rightarrow> int) \<Rightarrow> string \<Rightarrow> string \<Rightarrow> nat option \<Rightarrow> nat \<Rightarrow> nat \<Rightarrow> (nat \<times> nat + nat) option" where
  "bsearch_loop conv word base hint start end1 =
     (if start < end1
      then let mid = search_mid hint start end1 in
        (case line_offset base mid end1 of
           None \<Rightarrow> bsearch_loop conv word base None start mid
         | Some offset \<Rightarrow>
             (case memchr_lf base offset (length base - offset) of
                None \<Rightarrow> bsearch_loop conv word base None start mid
              | Some p \<Rightarrow>
                  (let linelen = p - offset + 1 in
                   (case compare_line conv word (take linelen (drop offset base)) of
                      None \<Rightarrow> None
                    | Some cmp \<Rightarrow>
                        if cmp = 0 then Some (Inl (offset, linelen))
                        else if cmp < 0
                        then if mid = 0 then Some (Inr start) else bsearch_loop conv word base None start mid
                        else bsearch_loop conv word base None (offset + 1) end1))))
      else Some (Inr start))"
  by pat_completeness auto
termination
  by (relation "measure (\<lambda>(conv, word, base, hint, start, end1). end1 - start)")
    (simp_all add: search_lower search_upper)

declare bsearch_loop.simps [simp del]

definition bsearch_mem :: "string \<Rightarrow> bool \<Rightarrow> string \<Rightarrow> nat \<Rightarrow> (nat \<times> nat) option" where
  "bsearch_mem word caseSensitive base hint = do {
     r \<leftarrow> bsearch_loop (if caseSensitive then TOCOMPARE else TOLOWER) word base (Some hint) 0 (length base);
     (case r of
        Inl found \<Rightarrow> Some found
      | Inr start \<Rightarrow>
          if start > length base then Some (length base, 0)
          else if start = 0 then Some (0, 0)
          else do { p \<leftarrow> memchr_lf base start (length base - start); Some (p + 1, 0) })
   }"

fun bsearch_compare :: "string \<Rightarrow> string \<Rightarrow> int" where
  "bsearch_compare s1 [] = of_char (deref s1)"
| "bsearch_compare s1 (c2 # s2) =
     (let d = TOCOMPARE (deref s1) - TOCOMPARE c2 in
      if d \<noteq> 0 then d else if TOCOMPARE c2 = TOCOMPARE TAB then 0 else bsearch_compare (tl s1) s2)"

text \<open>The strings of \<^verbatim>\<open>bsearch_ncompare\<close> have \<^verbatim>\<open>l1\<close> and \<^verbatim>\<open>l2\<close> bytes.\<close>

fun bsearch_ncompare :: "string \<Rightarrow> string \<Rightarrow> int" where
  "bsearch_ncompare (a # s1) (b # s2) =
     (let d = TOCOMPARE a - TOCOMPARE b in if d = 0 then bsearch_ncompare s1 s2 else d)"
| "bsearch_ncompare [] [] = 0"
| "bsearch_ncompare [] (b # s2) = - 1"
| "bsearch_ncompare (a # s1) [] = 1"

section \<open>The order of keys\<close>

definition cmpkey :: "string \<Rightarrow> int list" where
  "cmpkey s = map TOCOMPARE s"

definition key_ok :: "string \<Rightarrow> bool" where
  "key_ok k \<longleftrightarrow> TAB \<notin> set k \<and> LF \<notin> set k \<and> NUL \<notin> set k"

lemma TOCOMPARE_simps [simp]: "TOCOMPARE NUL = 0" "TOCOMPARE TAB = 1" "TOCOMPARE LF = 1"
  by (simp_all add: TOCOMPARE_def)

lemma of_char_int_eq_iff: "(of_char c :: int) = of_char d \<longleftrightarrow> c = d"
  by (metis char_of_char)

lemma of_char_nonneg: "(of_char c :: int) \<ge> 0"
  by (metis of_nat_0_le_iff of_nat_of_char)

lemma TOCOMPARE_key:
  assumes "c \<noteq> TAB" and "c \<noteq> LF" and "c \<noteq> NUL"
  shows "TOCOMPARE c \<ge> 2" and "d \<noteq> TAB \<Longrightarrow> d \<noteq> LF \<Longrightarrow> d \<noteq> NUL \<Longrightarrow> TOCOMPARE c = TOCOMPARE d \<longleftrightarrow> c = d"
proof -
  have k: "(of_char x :: int) \<noteq> 9" "(of_char x :: int) \<noteq> 10" "(of_char x :: int) \<noteq> 0"
    if "x \<noteq> TAB" "x \<noteq> LF" "x \<noteq> NUL" for x
    using that of_char_int_eq_iff [of x TAB] of_char_int_eq_iff [of x LF] of_char_int_eq_iff [of x NUL] by simp_all
  note pos = of_char_nonneg
  show "TOCOMPARE c \<ge> 2" using k [OF assms] pos [of c] by (simp add: TOCOMPARE_def Let_def)
  assume "d \<noteq> TAB" "d \<noteq> LF" "d \<noteq> NUL"
  then have kd: "(of_char d :: int) \<noteq> 9" "(of_char d :: int) \<noteq> 10" "(of_char d :: int) \<noteq> 0" using k by blast+
  define x y where "x = (of_char c :: int)" and "y = (of_char d :: int)"
  have "TOCOMPARE c = TOCOMPARE d \<longleftrightarrow> x = y"
    using k [OF assms] kd pos [of c] pos [of d] unfolding TOCOMPARE_def Let_def x_def [symmetric] y_def [symmetric]
    by auto
  then have "TOCOMPARE c = TOCOMPARE d \<longleftrightarrow> (of_char c :: int) = of_char d" unfolding x_def y_def .
  then show "TOCOMPARE c = TOCOMPARE d \<longleftrightarrow> c = d" by (simp add: of_char_int_eq_iff)
qed

lemma key_ok_simps [simp]: "key_ok []" "key_ok (c # k) \<longleftrightarrow> c \<noteq> TAB \<and> c \<noteq> LF \<and> c \<noteq> NUL \<and> key_ok k"
  by (auto simp: key_ok_def)

lemma cmpkey_simps [simp]: "cmpkey [] = []" "cmpkey (c # k) = TOCOMPARE c # cmpkey k"
  by (simp_all add: cmpkey_def)

lemma cmpkey_inj: "key_ok k \<Longrightarrow> key_ok l \<Longrightarrow> cmpkey k = cmpkey l \<longleftrightarrow> k = l"
proof (induction k arbitrary: l)
  case Nil
  then show ?case by (cases l) auto
next
  case (Cons c k)
  then show ?case by (cases l) (auto simp: TOCOMPARE_key(2))
qed

lemma bsearch_ncompare_sign:
  "(bsearch_ncompare s t < 0 \<longleftrightarrow> cmpkey s < cmpkey t) \<and> (bsearch_ncompare s t = 0 \<longleftrightarrow> cmpkey s = cmpkey t)"
  by (induction s t rule: bsearch_ncompare.induct) (auto simp: Let_def)

section \<open>Files of sorted lines\<close>

definition enc :: "string \<times> string \<Rightarrow> string" where
  "enc e = fst e @ TAB # snd e @ [LF]"

definition file_text :: "(string \<times> string) list \<Rightarrow> string" where
  "file_text es = concat (map enc es)"

definition line_start :: "(string \<times> string) list \<Rightarrow> nat \<Rightarrow> nat" where
  "line_start es i = length (file_text (take i es))"

definition entry_ok :: "string \<times> string \<Rightarrow> bool" where
  "entry_ok e \<longleftrightarrow> key_ok (fst e) \<and> LF \<notin> set (snd e)"

definition file_ok :: "(string \<times> string) list \<Rightarrow> bool" where
  "file_ok es \<longleftrightarrow> list_all entry_ok es \<and> sorted_wrt (<) (map (cmpkey \<circ> fst) es)"

lemma compare_line_sign:
  "key_ok w \<Longrightarrow> key_ok k \<Longrightarrow> \<exists>c. compare_line TOCOMPARE w (k @ TAB # r) = Some c \<and>
     (c = 0 \<longleftrightarrow> w = k) \<and> (c < 0 \<longleftrightarrow> cmpkey w < cmpkey k)"
proof (induction w arbitrary: k)
  case Nil
  then show ?case using TOCOMPARE_key(1) by (cases k) (fastforce simp: Let_def)+
next
  case (Cons b w)
  have b: "TOCOMPARE b \<ge> 2" using Cons.prems(1) TOCOMPARE_key(1) by auto
  show ?case
  proof (cases k)
    case Nil
    then show ?thesis using b by simp
  next
    case (Cons a k')
    then show ?thesis using Cons.IH [of k'] Cons.prems TOCOMPARE_key(2) [of b a] by (auto simp: Let_def)
  qed
qed

lemma enc_simps [simp]: "length (enc e) = length (fst e) + length (snd e) + 2"
  by (simp add: enc_def)

lemma file_text_simps [simp]: "file_text [] = []" "file_text (e # es) = enc e @ file_text es"
  "file_text (es @ fs) = file_text es @ file_text fs"
  by (simp_all add: file_text_def)

lemma line_start_simps [simp]: "line_start es 0 = 0" "line_start (e # es) (Suc i) = length (enc e) + line_start es i"
  "line_start [] i = 0"
  by (simp_all add: line_start_def)

lemma line_start_length: "length es \<le> i \<Longrightarrow> line_start es i = length (file_text es)"
  by (simp add: line_start_def)

lemma line_start_Suc: "i < length es \<Longrightarrow> line_start es (Suc i) = line_start es i + length (enc (es ! i))"
  by (simp add: line_start_def take_Suc_conv_app_nth)

lemma line_start_mono: "i \<le> j \<Longrightarrow> line_start es i \<le> line_start es j"
proof -
  assume "i \<le> j"
  then have "take j es = take i es @ take (j - i) (drop i es)" by (metis le_add_diff_inverse take_add)
  then show ?thesis by (simp add: line_start_def)
qed

lemma line_start_less: "i < j \<Longrightarrow> i < length es \<Longrightarrow> line_start es i + 2 \<le> line_start es j"
  using line_start_mono [of "Suc i" j es] by (simp add: line_start_Suc)

lemma file_text_at_line:
  assumes "i < length es"
  shows "take (length (enc (es ! i))) (drop (line_start es i) (file_text es)) = enc (es ! i)"
    and "line_start es i + length (enc (es ! i)) \<le> length (file_text es)"
proof -
  have t: "file_text es = file_text (take i es) @ enc (es ! i) @ file_text (drop (Suc i) es)"
    by (metis id_take_nth_drop assms file_text_simps(2,3))
  have l: "line_start es i = length (file_text (take i es))" by (simp add: line_start_def)
  show "take (length (enc (es ! i))) (drop (line_start es i) (file_text es)) = enc (es ! i)"
    unfolding l by (subst t) simp
  show "line_start es i + length (enc (es ! i)) \<le> length (file_text es)"
    using arg_cong [OF t, of length] l by simp
qed

text \<open>The newlines of the text are the last characters of its lines.\<close>

lemma newlines:
  "list_all entry_ok es \<Longrightarrow> p < length (file_text es) \<Longrightarrow>
   file_text es ! p = LF \<longleftrightarrow> (\<exists>i < length es. Suc p = line_start es (Suc i))"
proof (induction es arbitrary: p)
  case (Cons e es)
  have lf: "enc e ! q = LF \<longleftrightarrow> Suc q = length (enc e)" if "q < length (enc e)" for q
  proof -
    have body: "LF \<notin> set (fst e @ TAB # snd e)" using Cons.prems(1) by (auto simp: entry_ok_def key_ok_def)
    have e: "enc e = (fst e @ TAB # snd e) @ [LF]" by (simp add: enc_def)
    show ?thesis
    proof (cases "q < length (fst e @ TAB # snd e)")
      case True
      then have "enc e ! q \<in> set (fst e @ TAB # snd e)" unfolding e by (metis nth_append nth_mem)
      then show ?thesis using True body by auto
    next
      case False
      then have q: "q = length (fst e @ TAB # snd e)" using that by simp
      have "enc e ! q = LF" unfolding e q by (rule nth_append_length)
      then show ?thesis using q by simp
    qed
  qed
  have ex: "(\<exists>i < length (e # es). Suc p = line_start (e # es) (Suc i)) \<longleftrightarrow>
      Suc p = length (enc e) \<or> (\<exists>i < length es. Suc p = length (enc e) + line_start es (Suc i))"
    by (simp add: Ex_less_Suc2 del: enc_simps)
  show ?case
  proof (cases "p < length (enc e)")
    case True
    have "\<not> (\<exists>i < length es. Suc p = length (enc e) + line_start es (Suc i))"
    proof -
      have "line_start es (Suc i) \<ge> 2" if "i < length es" for i
        using that line_start_less [of 0 "Suc i" es] by (cases es) auto
      then show ?thesis using True by fastforce
    qed
    then have "(\<exists>i < length (e # es). Suc p = line_start (e # es) (Suc i)) \<longleftrightarrow> Suc p = length (enc e)" using ex by blast
    moreover have "file_text (e # es) ! p = enc e ! p" using True by (simp add: nth_append del: enc_simps)
    ultimately show ?thesis using lf [OF True] by (simp only:)
  next
    case False
    then have "file_text (e # es) ! p = file_text es ! (p - length (enc e))" by (simp add: nth_append del: enc_simps)
    moreover have "(\<exists>i < length es. Suc p = length (enc e) + line_start es (Suc i)) \<longleftrightarrow>
        (\<exists>i < length es. Suc (p - length (enc e)) = line_start es (Suc i))" using False by (auto simp del: enc_simps)
    ultimately show ?thesis using ex False Cons by (simp del: enc_simps)
  qed
qed simp

lemma memchr_lf_Some:
  assumes "memchr_lf base i n = Some p"
  shows "i \<le> p" "p < i + n" "p < length base" "base ! p = LF" "\<And>q. i \<le> q \<Longrightarrow> q < p \<Longrightarrow> base ! q \<noteq> LF"
proof -
  let ?xs = "take n (drop i base)" and ?P = "\<lambda>c. c \<noteq> LF"
  have l: "length (takeWhile ?P ?xs) < length ?xs" and p: "p = i + length (takeWhile ?P ?xs)"
    using assms by (auto simp: memchr_lf_def Let_def split: if_splits)
  show "i \<le> p" "p < i + n" "p < length base" using l p by auto
  have "?xs ! length (takeWhile ?P ?xs) = LF" using nth_length_takeWhile [OF l] by simp
  moreover have i: "i \<le> length base" using l by (cases "i \<le> length base") auto
  ultimately show "base ! p = LF" using l p by simp
  fix q assume q: "i \<le> q" "q < p"
  then have "takeWhile ?P ?xs ! (q - i) \<in> set (takeWhile ?P ?xs)" using p by (intro nth_mem) simp
  then have "?P (takeWhile ?P ?xs ! (q - i))" using set_takeWhileD by fast
  moreover have "takeWhile ?P ?xs ! (q - i) = base ! q"
    using q p l i by (subst takeWhile_nth) auto
  ultimately show "base ! q \<noteq> LF" by simp
qed

lemma memchr_lf_None:
  assumes "memchr_lf base i n = None" and "i \<le> q" and "q < i + n" and "q < length base"
  shows "base ! q \<noteq> LF"
proof -
  let ?xs = "take n (drop i base)"
  have "length (takeWhile (\<lambda>c. c \<noteq> LF) ?xs) = length ?xs"
    using assms(1) length_takeWhile_le [of "\<lambda>c. c \<noteq> LF" ?xs] by (auto simp: memchr_lf_def Let_def split: if_splits)
  then have "takeWhile (\<lambda>c. c \<noteq> LF) ?xs = ?xs" by (metis order_refl take_all takeWhile_eq_take)
  then have "\<forall>c \<in> set ?xs. c \<noteq> LF" by (simp only: takeWhile_eq_all_conv)
  moreover have "base ! q \<in> set ?xs"
    using assms(2-4) by (auto simp: in_set_conv_nth intro!: exI [of _ "q - i"])
  ultimately show ?thesis by blast
qed

text \<open>The two searches of the loop for a newline: the next line, and the end of a line.\<close>

lemma line_start_newline:
  assumes "list_all entry_ok es" and "0 < line_start es i"
  shows "line_start es i - 1 < length (file_text es)" and "file_text es ! (line_start es i - 1) = LF"
proof -
  obtain k where k: "line_start es i = line_start es (Suc k)" "k < length es"
  proof (cases "i \<le> length es")
    case True
    then show ?thesis using that [of "i - 1"] assms(2) by (cases i) auto
  next
    case False
    then show ?thesis using that [of "length es - 1"] assms(2) line_start_length [of es i] line_start_length [of es "length es"]
      by (cases es) auto
  qed
  show *: "line_start es i - 1 < length (file_text es)"
    using assms(2) line_start_mono [of "Suc k" "length es" es] k line_start_length [of es "length es"] by auto
  have "Suc (line_start es i - 1) = line_start es (Suc k)" using assms(2) k(1) by simp
  then show "file_text es ! (line_start es i - 1) = LF" using newlines [OF assms(1) *] k(2) by blast
qed

lemma next_line:
  assumes "list_all entry_ok es" and "memchr_lf (file_text es) mid n = Some p"
  shows "\<exists>j \<le> length es. Suc p = line_start es j \<and> mid < line_start es j \<and> line_start es j \<le> mid + n \<and>
    (\<forall>i. mid < line_start es i \<longrightarrow> line_start es j \<le> line_start es i)"
proof -
  note m = memchr_lf_Some [OF assms(2)]
  obtain j where j: "j < length es" "Suc p = line_start es (Suc j)" using newlines [OF assms(1) m(3)] m(4) by blast
  have "line_start es (Suc j) \<le> line_start es i" if gt: "mid < line_start es i" for i
  proof (rule ccontr)
    assume less: "\<not> line_start es (Suc j) \<le> line_start es i"
    have "file_text es ! (line_start es i - 1) = LF" using line_start_newline(2) [OF assms(1)] gt by simp
    moreover have "mid \<le> line_start es i - 1" "line_start es i - 1 < p" using gt less j(2) by linarith+
    ultimately show False using m(5) by blast
  qed
  then show ?thesis using j m(1,2) by (intro exI [of _ "Suc j"]) auto
qed

lemma no_next_line:
  assumes "list_all entry_ok es" and "memchr_lf (file_text es) mid n = None" and "mid < line_start es i"
  shows "mid + n < line_start es i"
proof (rule ccontr)
  assume c: "\<not> mid + n < line_start es i"
  have "file_text es ! (line_start es i - 1) = LF" "line_start es i - 1 < length (file_text es)"
    using line_start_newline [OF assms(1)] assms(3) by simp_all
  moreover have "mid \<le> line_start es i - 1" "line_start es i - 1 < mid + n" using c assms(3) by linarith+
  ultimately show False using memchr_lf_None [OF assms(2)] by blast
qed

lemma end_of_line:
  assumes "list_all entry_ok es"
  shows "i < length es \<Longrightarrow> memchr_lf (file_text es) (line_start es i) (length (file_text es) - line_start es i) =
      Some (line_start es (Suc i) - 1)"
    and "memchr_lf (file_text es) (length (file_text es)) 0 = None"
proof -
  show "memchr_lf (file_text es) (length (file_text es)) 0 = None" by (simp add: memchr_lf_def)
  assume i: "i < length es"
  let ?n = "length (file_text es) - line_start es i"
  have lt: "line_start es i < line_start es (Suc i)" using line_start_less [of i "Suc i" es] i by simp
  have "line_start es (Suc i) \<le> length (file_text es)"
    using line_start_mono [of "Suc i" "length es" es] line_start_length [of es "length es"] i by simp
  then have "memchr_lf (file_text es) (line_start es i) ?n \<noteq> None"
    using no_next_line [OF assms _ lt, of ?n] lt by fastforce
  then obtain p where p: "memchr_lf (file_text es) (line_start es i) ?n = Some p" by blast
  then obtain j where j: "Suc p = line_start es j" "line_start es i < line_start es j"
      "\<forall>k. line_start es i < line_start es k \<longrightarrow> line_start es j \<le> line_start es k"
    using next_line [OF assms p] by blast
  have "i < j" using j(2) line_start_mono [of j i es] by (meson not_le_imp_less not_less)
  then have "line_start es j = line_start es (Suc i)" using j(3) lt line_start_mono [of "Suc i" j es] by (simp add: le_antisym)
  then show "memchr_lf (file_text es) (line_start es i) ?n = Some (line_start es (Suc i) - 1)" using p j(1) by simp
qed

section \<open>The search\<close>

definition key_at :: "(string \<times> string) list \<Rightarrow> nat \<Rightarrow> int list" where
  "key_at es i = cmpkey (fst (es ! i))"

lemma key_at_mono: "file_ok es \<Longrightarrow> i < j \<Longrightarrow> j < length es \<Longrightarrow> key_at es i < key_at es j"
  by (auto simp: file_ok_def key_at_def sorted_wrt_iff_nth_less)

lemma line_start_le_iff: "i < length es \<Longrightarrow> line_start es j \<le> line_start es i \<longleftrightarrow> j \<le> i"
  using line_start_less [of i j es] line_start_mono [of j i es] by (metis add_leD1 not_le le_antisym add_le_same_cancel1
    le_trans not_numeral_le_zero)

text \<open>
  The invariant of the loop: every line that starts before \<^verbatim>\<open>start\<close> is smaller than the word, and
  every line that starts behind \<^verbatim>\<open>end1\<close> is larger.
\<close>

definition start_ok :: "string \<Rightarrow> (string \<times> string) list \<Rightarrow> nat \<Rightarrow> bool" where
  "start_ok w es s \<longleftrightarrow> s = 0 \<or> (\<exists>j < length es. s = line_start es j + 1 \<and> key_at es j < cmpkey w)"

definition end_ok :: "string \<Rightarrow> (string \<times> string) list \<Rightarrow> nat \<Rightarrow> bool" where
  "end_ok w es n \<longleftrightarrow> n \<le> length (file_text es) \<and> (n = 0 \<longrightarrow> es = []) \<and>
     (\<forall>i < length es. n < line_start es i \<longrightarrow> cmpkey w < key_at es i)"

definition search_result :: "string \<Rightarrow> (string \<times> string) list \<Rightarrow> nat \<times> nat + nat \<Rightarrow> bool" where
  "search_result w es r = (case r of
     Inl (offset, len) \<Rightarrow> \<exists>i < length es. offset = line_start es i \<and> len = length (enc (es ! i)) \<and> fst (es ! i) = w
   | Inr s \<Rightarrow> (s = 0 \<and> (\<forall>i < length es. cmpkey w < key_at es i)) \<or>
       (\<exists>j < length es. s = line_start es j + 1 \<and> key_at es j < cmpkey w \<and>
          (\<forall>i < length es. j < i \<longrightarrow> cmpkey w < key_at es i)))"

lemma search_finished:
  assumes "start_ok w es s" and "end_ok w es n" and "n \<le> s"
  shows "search_result w es (Inr s)"
proof (cases "s = 0")
  case False
  then obtain j where j: "j < length es" "s = line_start es j + 1" "key_at es j < cmpkey w"
    using assms(1) by (auto simp: start_ok_def)
  have "cmpkey w < key_at es i" if "i < length es" "j < i" for i
    using that assms(2,3) j line_start_less [of j i es] by (simp add: end_ok_def)
  then show ?thesis using j by (auto simp: search_result_def)
qed (use assms in \<open>simp add: search_result_def end_ok_def\<close>)

text \<open>The line the loop looks at: the first one that starts behind \<^verbatim>\<open>mid\<close>, or the first of all.\<close>

lemma line_offset_cases:
  assumes "list_all entry_ok es" and "mid < end1" and "end1 \<le> length (file_text es)"
  shows "line_offset (file_text es) mid end1 = None \<Longrightarrow> mid < line_start es i \<Longrightarrow> end1 < line_start es i"
    and "line_offset (file_text es) mid end1 = Some offset \<Longrightarrow> \<exists>j \<le> length es. offset = line_start es j \<and>
      (mid = 0 \<and> j = 0 \<or> mid > 0 \<and> mid < line_start es j \<and> (\<forall>i. mid < line_start es i \<longrightarrow> line_start es j \<le> line_start es i))"
proof -
  show "end1 < line_start es i" if "line_offset (file_text es) mid end1 = None" "mid < line_start es i"
  proof -
    have "memchr_lf (file_text es) mid (end1 - mid) = None" using that(1) by (auto simp: line_offset_def split: if_splits)
    then show ?thesis using no_next_line [OF assms(1) _ that(2), of "end1 - mid"] assms(2) by simp
  qed
  show "\<exists>j \<le> length es. offset = line_start es j \<and>
      (mid = 0 \<and> j = 0 \<or> mid > 0 \<and> mid < line_start es j \<and> (\<forall>i. mid < line_start es i \<longrightarrow> line_start es j \<le> line_start es i))"
    if lo: "line_offset (file_text es) mid end1 = Some offset"
  proof (cases "mid = 0")
    case False
    then obtain p where "memchr_lf (file_text es) mid (end1 - mid) = Some p" "offset = Suc p"
      using lo by (auto simp: line_offset_def)
    then show ?thesis using next_line [OF assms(1), of mid "end1 - mid" p] False by auto
  qed (use lo in \<open>auto simp: line_offset_def\<close>)
qed

lemma entry_ok_at: "file_ok es \<Longrightarrow> i < length es \<Longrightarrow> key_ok (fst (es ! i))"
  by (auto simp: file_ok_def list_all_length entry_ok_def)

text \<open>What the loop does with the line it looks at.\<close>

lemma bsearch_loop_at:
  assumes "start < end1" and "line_offset (file_text es) (search_mid hint start end1) end1 = Some (line_start es j)"
    and "file_ok es" and "j \<le> length es" and "key_ok w"
  shows "bsearch_loop TOCOMPARE w (file_text es) hint start end1 =
    (if j = length es then bsearch_loop TOCOMPARE w (file_text es) None start (search_mid hint start end1)
     else if w = fst (es ! j) then Some (Inl (line_start es j, length (enc (es ! j))))
     else if cmpkey w < key_at es j
     then if search_mid hint start end1 = 0 then Some (Inr start)
       else bsearch_loop TOCOMPARE w (file_text es) None start (search_mid hint start end1)
     else bsearch_loop TOCOMPARE w (file_text es) None (line_start es j + 1) end1)"
proof -
  have all: "list_all entry_ok es" using assms(3) by (simp add: file_ok_def)
  show ?thesis
  proof (cases "j = length es")
    case True
    then show ?thesis using assms(1,2) end_of_line(2) [OF all]
      by (subst bsearch_loop.simps) (simp add: Let_def line_start_length)
  next
    case False
    then have j: "j < length es" using assms(4) by simp
    have len: "line_start es (Suc j) - 1 - line_start es j + 1 = length (enc (es ! j))"
      using line_start_Suc [OF j] by simp
    obtain c where "compare_line TOCOMPARE w (enc (es ! j)) = Some c" "c = 0 \<longleftrightarrow> w = fst (es ! j)"
        "c < 0 \<longleftrightarrow> cmpkey w < key_at es j"
      using compare_line_sign [OF assms(5) entry_ok_at [OF assms(3) j], of "snd (es ! j) @ [LF]"]
      by (auto simp: enc_def key_at_def)
    then show ?thesis
      using j assms(1,2) end_of_line(1) [OF all j] len file_text_at_line(1) [OF j]
      by (subst bsearch_loop.simps) (simp add: Let_def del: enc_simps)
  qed
qed

lemma bsearch_loop_finds:
  assumes "file_ok es" and "key_ok w"
  shows "start_ok w es start \<Longrightarrow> end_ok w es end1 \<Longrightarrow>
    \<exists>r. bsearch_loop TOCOMPARE w (file_text es) hint start end1 = Some r \<and> search_result w es r"
proof (induction "end1 - start" arbitrary: hint start end1 rule: less_induct)
  case less
  have all: "list_all entry_ok es" using assms(1) by (simp add: file_ok_def)
  show ?case
  proof (cases "start < end1")
    case False
    then show ?thesis using search_finished [OF less(2,3)] by (simp add: bsearch_loop.simps)
  next
    case True
    define mid where "mid = search_mid hint start end1"
    have mid: "start \<le> mid" "mid < end1" using search_mid_range [OF True] by (simp_all add: mid_def)
    have le: "end1 \<le> length (file_text es)" using less(3) by (simp add: end_ok_def)
    have lower: "\<exists>r. bsearch_loop TOCOMPARE w (file_text es) None start mid = Some r \<and> search_result w es r"
      if "mid = 0 \<Longrightarrow> es = []" "\<And>i. i < length es \<Longrightarrow> mid < line_start es i \<Longrightarrow> cmpkey w < key_at es i"
      using less(1) [of mid start None] that mid le less(2) by (simp add: end_ok_def)
    show ?thesis
    proof (cases "line_offset (file_text es) mid end1")
      case None
      then have "bsearch_loop TOCOMPARE w (file_text es) hint start end1 = bsearch_loop TOCOMPARE w (file_text es) None start mid"
        using True by (subst bsearch_loop.simps) (simp add: mid_def)
      moreover have "mid \<noteq> 0" using None by (auto simp: line_offset_def split: if_splits)
      moreover have "cmpkey w < key_at es i" if "i < length es" "mid < line_start es i" for i
        using line_offset_cases(1) [OF all mid(2) le None that(2)] that(1) less(3) by (simp add: end_ok_def)
      ultimately show ?thesis using lower by simp
    next
      case (Some offset)
      then obtain j where j: "j \<le> length es" "offset = line_start es j"
        "mid = 0 \<and> j = 0 \<or> mid > 0 \<and> mid < line_start es j \<and> (\<forall>i. mid < line_start es i \<longrightarrow> line_start es j \<le> line_start es i)"
        using line_offset_cases(2) [OF all mid(2) le Some] by blast
      have behind: "j \<le> i" if "i < length es" "mid < line_start es i" for i
        using that j(3) line_start_le_iff [OF that(1), of j] by auto
      note step = bsearch_loop_at [OF True, of es hint j w, folded mid_def, OF Some [unfolded j(2)] assms(1) j(1) assms(2)]
      consider "j = length es" | "j < length es" "w = fst (es ! j)" | "j < length es" "w \<noteq> fst (es ! j)" "cmpkey w < key_at es j"
        | "j < length es" "w \<noteq> fst (es ! j)" "\<not> cmpkey w < key_at es j"
        using j(1) by linarith
      then show ?thesis
      proof cases
        case 1
        then show ?thesis using step lower j(3) behind by fastforce
      next
        case 2
        then show ?thesis using step by (auto simp: search_result_def)
      next
        case 3
        have "cmpkey w < key_at es i" if "i < length es" "j \<le> i" for i
          using 3(3) key_at_mono [OF assms(1), of j i] that by (cases "i = j") auto
        then show ?thesis using step lower 3 behind mid(1) j(3) by (auto simp: search_result_def)
      next
        case 4
        then have "cmpkey w \<noteq> key_at es j"
          using cmpkey_inj [OF assms(2) entry_ok_at [OF assms(1) 4(1)]] by (simp add: key_at_def)
        then have "start_ok w es (line_start es j + 1)" using 4 by (auto simp: start_ok_def)
        moreover have "end1 - (line_start es j + 1) < end1 - start" using search_upper [OF True, of "file_text es" hint offset] Some j(2) by (simp add: mid_def)
        ultimately show ?thesis using step 4 less(1) [of end1 "line_start es j + 1" None] less(3) by simp
      qed
    qed
  qed
qed

text \<open>The reference: the number of lines with a smaller key.\<close>

definition insertion_point :: "string \<Rightarrow> (string \<times> string) list \<Rightarrow> nat" where
  "insertion_point w es = length (takeWhile (\<lambda>e. cmpkey (fst e) < cmpkey w) es)"

definition present_at :: "string \<Rightarrow> (string \<times> string) list \<Rightarrow> nat \<Rightarrow> bool" where
  "present_at w es i \<longleftrightarrow> i < length es \<and> fst (es ! i) = w"

lemma insertion_pointI:
  assumes "k \<le> length es" and "\<And>i. i < k \<Longrightarrow> key_at es i < cmpkey w" and "k < length es \<Longrightarrow> \<not> key_at es k < cmpkey w"
  shows "insertion_point w es = k"
proof -
  have "takeWhile (\<lambda>e. cmpkey (fst e) < cmpkey w) es = take k es"
    using assms by (intro takeWhile_eq_take_P_nth) (auto simp: key_at_def)
  then show ?thesis using assms(1) by (simp add: insertion_point_def)
qed

lemma insertion_point_split:
  assumes "file_ok es"
  shows "insertion_point w es \<le> length es" "i < insertion_point w es \<Longrightarrow> key_at es i < cmpkey w"
    "insertion_point w es \<le> i \<Longrightarrow> i < length es \<Longrightarrow> \<not> key_at es i < cmpkey w"
proof -
  let ?P = "\<lambda>e. cmpkey (fst e) < cmpkey w"
  show "insertion_point w es \<le> length es" by (simp add: insertion_point_def length_takeWhile_le)
  show "key_at es i < cmpkey w" if "i < insertion_point w es"
    using that nth_mem [of i "takeWhile ?P es"] takeWhile_nth [of i ?P es]
    by (auto simp: insertion_point_def key_at_def dest: set_takeWhileD)
  show "\<not> key_at es i < cmpkey w" if "insertion_point w es \<le> i" "i < length es"
  proof -
    have "\<not> key_at es (insertion_point w es) < cmpkey w"
      using that nth_length_takeWhile [of ?P es] by (simp add: insertion_point_def key_at_def)
    then show ?thesis using that key_at_mono [OF assms, of "insertion_point w es" i]
      by (cases "i = insertion_point w es") auto
  qed
qed

lemma present_at_iff: "file_ok es \<Longrightarrow> present_at w es i \<Longrightarrow> insertion_point w es = i"
  using key_at_mono [of es _ i] by (intro insertion_pointI) (auto simp: present_at_def key_at_def)

lemma bsearch_mem_eq:
  assumes "file_ok es" and "key_ok w"
  shows "bsearch_mem w True (file_text es) hint = Some (let k = insertion_point w es in
    (line_start es k, if present_at w es k then length (enc (es ! k)) else 0))"
proof -
  have all: "list_all entry_ok es" using assms(1) by (simp add: file_ok_def)
  have "start_ok w es 0" by (simp add: start_ok_def)
  moreover have "line_start es i \<le> length (file_text es)" if "i < length es" for i
    using line_start_mono [of i "length es" es] line_start_length [of es "length es"] that by simp
  then have "end_ok w es (length (file_text es))" by (cases es) (fastforce simp: end_ok_def)+
  ultimately obtain r where r: "bsearch_loop TOCOMPARE w (file_text es) (Some hint) 0 (length (file_text es)) = Some r"
      "search_result w es r" using bsearch_loop_finds [OF assms] by blast
  show ?thesis
  proof (cases r)
    case (Inl f)
    then obtain i where i: "f = (line_start es i, length (enc (es ! i)))" "present_at w es i"
      using r(2) by (auto simp: search_result_def present_at_def)
    then show ?thesis using r(1) Inl present_at_iff [OF assms(1) i(2)] by (simp add: bsearch_mem_def Let_def)
  next
    case (Inr s)
    consider "s = 0" "\<And>i. i < length es \<Longrightarrow> cmpkey w < key_at es i"
      | j where "j < length es" "s = line_start es j + 1" "key_at es j < cmpkey w"
        "\<And>i. i < length es \<Longrightarrow> j < i \<Longrightarrow> cmpkey w < key_at es i"
      using r(2) Inr by (auto simp: search_result_def)
    then show ?thesis
    proof cases
      case 1
      then have "insertion_point w es = 0" by (intro insertion_pointI) (auto dest: less_not_sym)
      moreover have "\<not> present_at w es 0" using 1(2) by (force simp: present_at_def key_at_def)
      ultimately show ?thesis using r(1) Inr 1(1) by (simp add: bsearch_mem_def Let_def)
    next
      case (2 j)
      have k: "insertion_point w es = Suc j"
      proof (rule insertion_pointI)
        show "key_at es i < cmpkey w" if "i < Suc j" for i
          using that key_at_mono [OF assms(1), of i j] 2(1,3) by (cases "i = j") auto
      qed (use 2 in \<open>auto dest: less_not_sym\<close>)
      have np: "\<not> present_at w es (Suc j)" using 2(4) [of "Suc j"] by (auto simp: present_at_def key_at_def)
      have lt: "s < line_start es (Suc j)" using line_start_less [of j "Suc j" es] 2(1,2) by simp
      have up: "line_start es (Suc j) \<le> length (file_text es)"
        using line_start_mono [of "Suc j" "length es" es] line_start_length [of es "length es"] 2(1) by simp
      have "memchr_lf (file_text es) s (length (file_text es) - s) = Some (line_start es (Suc j) - 1)"
      proof (cases "memchr_lf (file_text es) s (length (file_text es) - s)")
        case None
        then show ?thesis using no_next_line [OF all None lt] lt up by simp
      next
        case (Some p)
        then obtain i where i: "i \<le> length es" "Suc p = line_start es i" "s < line_start es i"
            "\<forall>k. s < line_start es k \<longrightarrow> line_start es i \<le> line_start es k"
          using next_line [OF all Some] by blast
        have "j < i" using i(3) 2(2) line_start_mono [of i j es] by (meson not_le_imp_less not_less add_lessD1 le_less_trans)
        then have "line_start es i = line_start es (Suc j)" using i(4) lt line_start_mono [of "Suc j" i es] by (simp add: le_antisym)
        then show ?thesis using Some i(2) by simp
      qed
      then show ?thesis using r(1) Inr 2(2) k np lt up by (simp add: bsearch_mem_def Let_def)
    qed
  qed
qed

lemma bsearch_compare_words:
  "key_ok k \<Longrightarrow> key_ok l \<Longrightarrow> (bsearch_compare k l = 0 \<longleftrightarrow> k = l) \<and> (bsearch_compare k l < 0 \<longleftrightarrow> cmpkey k < cmpkey l)"
proof (induction k l rule: bsearch_compare.induct)
  case (1 k)
  show ?case
  proof (cases k)
    case (Cons a k')
    then have "a \<noteq> NUL" using 1 by simp
    then have "(of_char a :: int) \<noteq> of_char NUL" by (simp only: of_char_int_eq_iff not_False_eq_True)
    then have "(of_char a :: int) > 0" using of_char_nonneg [of a] by simp
    then show ?thesis using Cons by simp
  qed simp
next
  case (2 k c l)
  have c: "TOCOMPARE c \<ge> 2" using 2(3) TOCOMPARE_key(1) by simp
  show ?case
  proof (cases k)
    case Nil
    then show ?thesis using c by simp
  next
    case (Cons a k')
    then show ?thesis using 2 c TOCOMPARE_key(2) [of a c] by (auto simp: Let_def)
  qed
qed

lemma bsearch_compare_lines:
  "key_ok k \<Longrightarrow> key_ok l \<Longrightarrow> (bsearch_compare (k @ TAB # r) (l @ TAB # t) = 0 \<longleftrightarrow> k = l) \<and>
     (bsearch_compare (k @ TAB # r) (l @ TAB # t) < 0 \<longleftrightarrow> cmpkey k < cmpkey l)"
proof (induction k arbitrary: l)
  case Nil
  then show ?case using TOCOMPARE_key(1) by (cases l) (fastforce simp: Let_def)+
next
  case (Cons a k)
  have a: "TOCOMPARE a \<ge> 2" using Cons.prems(1) TOCOMPARE_key(1) by simp
  show ?case
  proof (cases l)
    case Nil
    then show ?thesis using a by (auto simp: Let_def)
  next
    case (Cons b l')
    then show ?thesis using Cons.IH [of l'] Cons.prems a TOCOMPARE_key(2) [of a b] by (auto simp: Let_def)
  qed
qed

section \<open>Properties\<close>

text \<open>
  C14: In a file of lines sorted by their keys, the binary search for a key returns, for every
  hint, the offset of the first line whose key is not smaller, and the length of that line when
  its key is the one searched, 0 otherwise. It ends on every such file and reads nothing outside it.
\<close>

theorem bsearch_mem_correct:
  assumes "file_ok es" and "key_ok w"
  shows "\<exists>k \<le> length es. bsearch_mem w True (file_text es) hint =
      Some (line_start es k, if k < length es \<and> fst (es ! k) = w then length (enc (es ! k)) else 0) \<and>
    (\<forall>i < k. cmpkey (fst (es ! i)) < cmpkey w) \<and> (\<forall>i < length es. k \<le> i \<longrightarrow> cmpkey w \<le> cmpkey (fst (es ! i)))"
  using bsearch_mem_eq [OF assms, of hint] insertion_point_split [OF assms(1), where w = w]
  by (intro exI [of _ "insertion_point w es"]) (auto simp: Let_def present_at_def key_at_def not_less)

theorem bsearch_mem_correct_witness:
  "\<exists>k \<le> 2. bsearch_mem ''user.b'' True (file_text [(''user.a'', ''1''), (''user-b'', ''2'')]) 3 = Some (line_start [(''user.a'', ''1''), (''user-b'', ''2'')] k, 0) \<and>
     (\<forall>i < 2. k \<le> i \<longrightarrow> cmpkey ''user.b'' \<le> cmpkey (fst ([(''user.a'', ''1''), (''user-b'', ''2'')] ! i)))"
proof -
  have "file_ok [(''user.a'', ''1''), (''user-b'', ''2'')]" "key_ok ''user.b''"
    by (simp_all add: file_ok_def entry_ok_def TOCOMPARE_def)
  then obtain k where "k \<le> 2" "bsearch_mem ''user.b'' True (file_text [(''user.a'', ''1''), (''user-b'', ''2'')]) 3 =
      Some (line_start [(''user.a'', ''1''), (''user-b'', ''2'')] k,
        if k < 2 \<and> fst ([(''user.a'', ''1''), (''user-b'', ''2'')] ! k) = ''user.b''
        then length (enc ([(''user.a'', ''1''), (''user-b'', ''2'')] ! k)) else 0)"
    "\<forall>i < 2. k \<le> i \<longrightarrow> cmpkey ''user.b'' \<le> cmpkey (fst ([(''user.a'', ''1''), (''user-b'', ''2'')] ! i))"
    using bsearch_mem_correct [of "[(''user.a'', ''1''), (''user-b'', ''2'')]" "''user.b''" 3] by (auto simp: numeral_2_eq_2)
  moreover have "fst ([(''user.a'', ''1''), (''user-b'', ''2'')] ! k) \<noteq> ''user.b''" if "k < 2" for k
    using that by (auto simp: less_2_cases_iff)
  ultimately show ?thesis by auto
qed

text \<open>
  The two comparisons agree with the order of the search: on keys, \<^verbatim>\<open>bsearch_ncompare\<close> of the
  keys, \<^verbatim>\<open>bsearch_compare\<close> of the keys as strings and of two lines with these keys have the
  same sign, and are 0 for equal keys alone.
\<close>

theorem comparisons_agree:
  assumes "key_ok k" and "key_ok l"
  shows "sgn (bsearch_ncompare k l) = sgn (bsearch_compare k l) \<and>
    sgn (bsearch_compare (k @ TAB # r) (l @ TAB # t)) = sgn (bsearch_compare k l) \<and>
    (bsearch_compare k l = 0 \<longleftrightarrow> k = l) \<and> (bsearch_compare k l < 0 \<longleftrightarrow> cmpkey k < cmpkey l)"
  using bsearch_compare_words [OF assms] bsearch_compare_lines [OF assms, of r t] bsearch_ncompare_sign [of k l]
    cmpkey_inj [OF assms] by (auto simp: sgn_if)

theorem comparisons_agree_witness:
  "sgn (bsearch_ncompare ''user.a'' ''user-a'') = sgn (bsearch_compare ''user.a'' ''user-a'') \<and>
   bsearch_compare ''user.a'' ''user-a'' < 0"
  using comparisons_agree [of "''user.a''" "''user-a''"] by (simp add: TOCOMPARE_def)

end
