(* ===== verification/Cyrusdb_Flat.thy ===== *)
theory Cyrusdb_Flat
  imports Bsearch
begin

text \<open>
  The flat database, \<^verbatim>\<open>lib/cyrusdb_flat.c\<close>: a text file of lines \<^verbatim>\<open>key TAB data\<close>, sorted by key.
  Every change writes a new file beside the old one and renames it over the old one, at once or
  when the transaction commits.

  The state has the part of the file system the code touches: the file of that name, with its
  inode number, and the new file beside it. A file is never changed in place, so a file handle is
  the inode and the text it had when it was opened. Which system calls succeed is an argument.
  The name of the new file fits its buffer. \<^verbatim>\<open>None\<close> as a result is a run with undefined behaviour.
\<close>

section \<open>State\<close>

definition CYRUSDB_OK :: int where "CYRUSDB_OK = 0"
definition CYRUSDB_IOERROR :: int where "CYRUSDB_IOERROR = - 1"
definition CYRUSDB_EXISTS :: int where "CYRUSDB_EXISTS = - 3"
definition CYRUSDB_NOTFOUND :: int where "CYRUSDB_NOTFOUND = - 5"

record inode =
  in_ino :: nat
  in_text :: string

text \<open>
  \<^verbatim>\<open>fw_locked\<close>: this process holds the lock on the file. \<^verbatim>\<open>fw_next\<close> is an inode number no file has.
\<close>

record flat_world =
  fw_file :: inode
  fw_new :: "inode option"
  fw_locked :: bool
  fw_next :: nat

record flat_db =
  db_ino :: nat
  db_base :: string

record flat_txn =
  tx_new :: "inode option"

text \<open>
  The argument \<^verbatim>\<open>struct txn **mytid\<close>: \<^verbatim>\<open>NULL\<close>, the address of a \<^verbatim>\<open>NULL\<close>, of an open transaction, or of
  a pointer to a transaction that has been freed.
\<close>

datatype mytid = No_txn | Null_txn | Txn flat_txn | Freed_txn

text \<open>Which calls succeed; a write can fail after it has written some of the bytes.\<close>

record flat_io =
  io_lock :: bool
  io_open :: bool
  io_write :: "nat option"
  io_stat :: bool
  io_sync :: bool
  io_unlock :: bool

definition written :: "flat_io \<Rightarrow> string \<Rightarrow> string" where
  "written io t = (case io_write io of None \<Rightarrow> t | Some n \<Rightarrow> take n t)"

section \<open>Transactions\<close>

text \<open>\<^verbatim>\<open>abort_txn\<close> returns 0 on every path.\<close>

definition abort_txn :: "flat_io \<Rightarrow> flat_txn \<Rightarrow> flat_world \<Rightarrow> flat_db \<Rightarrow> flat_world \<times> flat_db" where
  "abort_txn io t w db =
     (let rw = (tx_new t \<noteq> None);
          w = (if rw then w\<lparr>fw_new := None\<rparr> else w);
          w = (if io_unlock io then w\<lparr>fw_locked := False\<rparr> else w);
          db = (if rw \<and> io_unlock io \<and> io_stat io then db\<lparr>db_base := in_text (fw_file w)\<rparr> else db)
      in (w, db))"

definition commit_txn :: "flat_io \<Rightarrow> flat_txn \<Rightarrow> flat_world \<Rightarrow> flat_db \<Rightarrow> int \<times> flat_world \<times> flat_db" where
  "commit_txn io t w db = (case tx_new t of
     Some f \<Rightarrow>
       if io_sync io
       then (CYRUSDB_OK, w\<lparr>fw_file := f, fw_new := None, fw_locked := False\<rparr>, db\<lparr>db_ino := in_ino f\<rparr>)
       else (CYRUSDB_IOERROR, w, db)
   | None \<Rightarrow>
       if io_unlock io then (CYRUSDB_OK, w\<lparr>fw_locked := False\<rparr>, db) else (CYRUSDB_IOERROR, w, db))"

section \<open>Opening and reading\<close>

text \<open>Opening a file that exists; the file system shows its inode and size.\<close>

definition myopen :: "flat_io \<Rightarrow> flat_world \<Rightarrow> int \<times> flat_db option" where
  "myopen io w =
     (if \<not> io_open io \<or> \<not> io_stat io then (CYRUSDB_IOERROR, None)
      else (CYRUSDB_OK, Some \<lparr>db_ino = in_ino (fw_file w), db_base = in_text (fw_file w)\<rparr>))"

definition refresh :: "flat_world \<Rightarrow> flat_db \<Rightarrow> flat_db" where
  "refresh w db = db\<lparr>db_ino := in_ino (fw_file w), db_base := in_text (fw_file w)\<rparr>"

definition starttxn_or_refetch ::
  "flat_io \<Rightarrow> mytid \<Rightarrow> flat_world \<Rightarrow> flat_db \<Rightarrow> (int \<times> mytid \<times> flat_world \<times> flat_db) option" where
  "starttxn_or_refetch io tid w db = (case tid of
     Null_txn \<Rightarrow> Some
       (if io_lock io then (0, Txn \<lparr>tx_new = None\<rparr>, w\<lparr>fw_locked := True\<rparr>, refresh w db)
        else (CYRUSDB_IOERROR, tid, w, db))
   | No_txn \<Rightarrow> Some
       (if \<not> io_stat io then (CYRUSDB_IOERROR, tid, w, db)
        else if in_ino (fw_file w) \<noteq> db_ino db \<and> \<not> io_open io then (CYRUSDB_IOERROR, tid, w, db)
        else (0, tid, w, refresh w db))
   | Txn t \<Rightarrow> Some (0, tid, w, db)
   | Freed_txn \<Rightarrow> None)"

text \<open>
  The key is the bytes from the pointer to the first NUL; \<^verbatim>\<open>keylen\<close> is used for the position of
  the data alone.
\<close>

definition myfetch ::
  "flat_io \<Rightarrow> string \<Rightarrow> nat \<Rightarrow> mytid \<Rightarrow> flat_world \<Rightarrow> flat_db \<Rightarrow> (int \<times> string option \<times> mytid \<times> flat_world \<times> flat_db) option" where
  "myfetch io key keylen tid w db = do {
     (r, tid, w, db) \<leftarrow> starttxn_or_refetch io tid w db;
     if r \<noteq> 0 then Some (r, None, tid, w, db)
     else do {
       (offset, len) \<leftarrow> bsearch_mem key True (db_base db) 0;
       Some (if len \<noteq> 0
         then (0, Some (take (len - keylen - 2) (drop (offset + keylen + 1) (db_base db))), tid, w, db)
         else (CYRUSDB_NOTFOUND, None, tid, w, db))
     }
   }"

section \<open>Iteration\<close>

text \<open>
  \<^verbatim>\<open>GETENTRY\<close> at a suffix of the mapped text: the key, the data and the suffix behind the line.
\<close>

definition getentry :: "string \<Rightarrow> (string \<times> string \<times> string) option" where
  "getentry s = do {
     (key, rest) \<leftarrow> strchr (takeWhile (\<lambda>c. c \<noteq> NUL) s) TAB;
     (data, _) \<leftarrow> strchr rest LF;
     Some (key, data, drop (length key + length data + 2) s)
   }"

lemma getentry_shorter: "getentry s = Some (key, data, s') \<Longrightarrow> s \<noteq> [] \<and> length s' < length s"
  by (cases s) (auto simp: getentry_def split: bind_splits)

text \<open>
  The loop of \<^verbatim>\<open>foreach\<close> for a callback that does not change the database. The callback gets the key and
  the data, and the state \<^verbatim>\<open>rock\<close> it works on; a result other than 0 ends the loop.
\<close>

function foreach_loop ::
  "string \<Rightarrow> ('r \<Rightarrow> string \<Rightarrow> string \<Rightarrow> bool) option \<Rightarrow> ('r \<Rightarrow> string \<Rightarrow> string \<Rightarrow> int \<times> 'r) \<Rightarrow> string \<Rightarrow> 'r \<Rightarrow> int \<times> 'r" where
  "foreach_loop prefix goodp cb s rock =
     (if s = [] then (CYRUSDB_OK, rock)
      else case getentry s of
        None \<Rightarrow> (CYRUSDB_IOERROR, rock)
      | Some (key, data, s') \<Rightarrow>
          if length key < length prefix \<or> take (length prefix) key \<noteq> prefix then (CYRUSDB_OK, rock)
          else if case goodp of None \<Rightarrow> True | Some p \<Rightarrow> p rock key data
          then (let (r, rock) = cb rock key data in
            if r \<noteq> 0 then (r, rock) else foreach_loop prefix goodp cb s' rock)
          else foreach_loop prefix goodp cb s' rock)"
  by pat_completeness auto
termination
  by (relation "measure (\<lambda>(prefix, goodp, cb, s, rock). length s)") (auto dest: getentry_shorter)

declare foreach_loop.simps [simp del]

definition foreach ::
  "flat_io \<Rightarrow> string option \<Rightarrow> ('r \<Rightarrow> string \<Rightarrow> string \<Rightarrow> bool) option \<Rightarrow> ('r \<Rightarrow> string \<Rightarrow> string \<Rightarrow> int \<times> 'r) \<Rightarrow> 'r \<Rightarrow>
   mytid \<Rightarrow> flat_world \<Rightarrow> flat_db \<Rightarrow> (int \<times> 'r \<times> mytid \<times> flat_world \<times> flat_db) option" where
  "foreach io prefix goodp cb rock tid w db = do {
     (r, tid, w, db) \<leftarrow> starttxn_or_refetch io tid w db;
     if r \<noteq> 0 then Some (r, rock, tid, w, db)
     else if tid = No_txn \<and> \<not> io_open io then Some (CYRUSDB_IOERROR, rock, tid, w, db)
     else do {
       offset \<leftarrow> (case prefix of
         None \<Rightarrow> Some 0
       | Some p \<Rightarrow> map_option fst (bsearch_mem p True (db_base db) 0));
       let (r, rock) = foreach_loop (case prefix of None \<Rightarrow> [] | Some p \<Rightarrow> p) goodp cb (drop offset (db_base db)) rock;
       Some (r, rock, tid, if tid = No_txn \<and> io_unlock io then w\<lparr>fw_locked := False\<rparr> else w, db)
     }
   }"

section \<open>Writing\<close>

text \<open>The text of the new file: the line at \<^verbatim>\<open>offset\<close> of \<^verbatim>\<open>len\<close> bytes replaced.\<close>

definition new_text :: "string \<Rightarrow> nat \<Rightarrow> nat \<Rightarrow> string \<Rightarrow> string option \<Rightarrow> string" where
  "new_text base offset len key data =
     take offset base @ (case data of None \<Rightarrow> [] | Some d \<Rightarrow> key @ TAB # d @ [LF]) @ drop (offset + len) base"

text \<open>
  Taking the lock, unless there is an open transaction. A failed call returns the error at once.
\<close>

definition store_lock :: "flat_io \<Rightarrow> mytid \<Rightarrow> flat_world \<Rightarrow> flat_db \<Rightarrow> (mytid \<times> flat_world \<times> flat_db) option" where
  "store_lock io tid w db = (case tid of
     Txn t \<Rightarrow> Some (tid, w, db)
   | _ \<Rightarrow>
     if \<not> io_lock io then None
     else Some (if tid = Null_txn then Txn \<lparr>tx_new = None\<rparr> else tid, w\<lparr>fw_locked := True\<rparr>,
       if in_ino (fw_file w) \<noteq> db_ino db then refresh w db else db))"

text \<open>An error after the lock is taken: a transaction is aborted, and its pointer stays.\<close>

definition store_fails :: "flat_io \<Rightarrow> int \<Rightarrow> mytid \<Rightarrow> flat_world \<Rightarrow> flat_db \<Rightarrow> int \<times> mytid \<times> flat_world \<times> flat_db" where
  "store_fails io r tid w db = (case tid of
     Txn t \<Rightarrow> (let (w, db) = abort_txn io t w db in (r, Freed_txn, w, db))
   | _ \<Rightarrow> (r, tid, w, db))"

definition mystore ::
  "flat_io \<Rightarrow> string \<Rightarrow> nat \<Rightarrow> string option \<Rightarrow> mytid \<Rightarrow> bool \<Rightarrow> flat_world \<Rightarrow> flat_db \<Rightarrow>
   (int \<times> mytid \<times> flat_world \<times> flat_db) option" where
  "mystore io key keylen data tid overwrite w db =
     (if tid = Freed_txn then None
      else case store_lock io tid w db of
        None \<Rightarrow> Some (CYRUSDB_IOERROR, tid, w, db)
      | Some (tid, w, db) \<Rightarrow> do {
          let key = take keylen key;
          (offset, len) \<leftarrow> bsearch_mem key True (db_base db) 0;
          if len \<noteq> 0 \<and> \<not> overwrite then Some (store_fails io CYRUSDB_EXISTS tid w db)
          else if \<not> io_open io then Some (store_fails io CYRUSDB_IOERROR tid (w\<lparr>fw_new := None\<rparr>) db)
          else do {
            let f = \<lparr>in_ino = fw_next w, in_text = written io (new_text (db_base db) offset len key data)\<rparr>;
            let w = w\<lparr>fw_new := Some f, fw_next := fw_next w + 1\<rparr>;
            (case tid of
               Txn t \<Rightarrow>
                 if io_write io = None \<and> io_stat io
                 then Some (0, Txn (t\<lparr>tx_new := Some f\<rparr>), w, db\<lparr>db_base := in_text f\<rparr>)
                 else None
             | _ \<Rightarrow>
                 if io_write io \<noteq> None \<or> \<not> io_sync io then Some (CYRUSDB_IOERROR, tid, w, db)
                 else Some (if io_unlock io then 0 else CYRUSDB_IOERROR, tid,
                   w\<lparr>fw_file := f, fw_new := None, fw_locked := False\<rparr>, \<lparr>db_ino = in_ino f, db_base = in_text f\<rparr>))
          }
        })"

definition flat_create where
  "flat_create io key keylen data tid w db = mystore io key keylen data tid False w db"

definition flat_store where
  "flat_store io key keylen data tid w db = mystore io key keylen data tid True w db"

definition flat_delete where
  "flat_delete io key keylen tid w db = mystore io key keylen None tid True w db"

section \<open>The contract of a store\<close>

text \<open>
  \<^verbatim>\<open>represents t m\<close>: the representation \<^verbatim>\<open>t\<close> stands for the map \<^verbatim>\<open>m\<close>; \<^verbatim>\<open>put k (Some d)\<close> stores, \<^verbatim>\<open>put k None\<close>
  deletes.
\<close>

locale map_store =
  fixes represents :: "'t \<Rightarrow> ('k \<rightharpoonup> 'v) \<Rightarrow> bool"
    and put :: "'k \<Rightarrow> 'v option \<Rightarrow> 't \<Rightarrow> 't"
    and good :: "'k \<Rightarrow> 'v option \<Rightarrow> bool"
  assumes represents_put: "represents t m \<Longrightarrow> good k d \<Longrightarrow> represents (put k d t) (m(k := d))"
begin

lemma represents_puts:
  "represents t m \<Longrightarrow> list_all (\<lambda>(k, d). good k d) ps \<Longrightarrow>
   represents (fold (\<lambda>(k, d). put k d) ps t) (fold (\<lambda>(k, d) m. m(k := d)) ps m)"
  by (induction ps arbitrary: t m) (auto simp: represents_put)

end

section \<open>A change of the text\<close>

definition text_map :: "string \<Rightarrow> (string \<rightharpoonup> string) \<Rightarrow> bool" where
  "text_map text m \<longleftrightarrow> (\<exists>es. file_ok es \<and> list_all (\<lambda>e. NUL \<notin> set (snd e)) es \<and> text = file_text es \<and> m = map_of es)"

definition flat_put :: "string \<Rightarrow> string option \<Rightarrow> string \<Rightarrow> string" where
  "flat_put key data text = (case bsearch_mem key True text 0 of
     None \<Rightarrow> text | Some (offset, len) \<Rightarrow> new_text text offset len key data)"

definition good_put :: "string \<Rightarrow> string option \<Rightarrow> bool" where
  "good_put k d \<longleftrightarrow> key_ok k \<and> (case d of None \<Rightarrow> True | Some x \<Rightarrow> LF \<notin> set x \<and> NUL \<notin> set x)"

text \<open>The entries before a key, those behind it, and its own.\<close>

definition before :: "string \<Rightarrow> (string \<times> string) list \<Rightarrow> (string \<times> string) list" where
  "before w es = take (insertion_point w es) es"

definition own :: "string \<Rightarrow> (string \<times> string) list \<Rightarrow> (string \<times> string) list" where
  "own w es = (let k = insertion_point w es in if present_at w es k then [es ! k] else [])"

definition behind :: "string \<Rightarrow> (string \<times> string) list \<Rightarrow> (string \<times> string) list" where
  "behind w es = (let k = insertion_point w es in drop (if present_at w es k then Suc k else k) es)"

lemma entries_split: "es = before w es @ own w es @ behind w es"
  by (simp add: before_def own_def behind_def Let_def present_at_def Cons_nth_drop_Suc)

lemma own_cases: "own w es = [] \<or> (\<exists>d. own w es = [(w, d)])"
  by (auto simp: own_def present_at_def Let_def) (metis prod.collapse)

lemma before_less: "file_ok es \<Longrightarrow> e \<in> set (before w es) \<Longrightarrow> cmpkey (fst e) < cmpkey w"
  using insertion_point_split(1,2) [where es = es and w = w] by (auto simp: before_def in_set_conv_nth key_at_def)

lemma behind_greater:
  assumes "file_ok es" and "key_ok w" and "e \<in> set (behind w es)"
  shows "cmpkey w < cmpkey (fst e)"
proof -
  define k where "k = insertion_point w es"
  obtain i where i: "e = es ! i" "i < length es" "k \<le> i" "present_at w es k \<Longrightarrow> k < i"
    using assms(3) by (fastforce simp: behind_def in_set_conv_nth k_def Let_def split: if_splits)
  have "cmpkey w \<le> key_at es i" using insertion_point_split(3) [OF assms(1), where w = w and i = i] i(2,3) by (simp add: k_def not_less)
  moreover have "key_at es i \<noteq> cmpkey w"
  proof
    assume "key_at es i = cmpkey w"
    then have "present_at w es i"
      using cmpkey_inj [OF entry_ok_at [OF assms(1) i(2)] assms(2)] i(2) by (simp add: present_at_def key_at_def)
    then show False using present_at_iff [OF assms(1)] i(4) by (auto simp: k_def)
  qed
  ultimately show ?thesis by (simp add: i(1) key_at_def)
qed

lemma bsearch_mem_split:
  assumes "file_ok es" and "key_ok w"
  shows "bsearch_mem w True (file_text es) 0 = Some (length (file_text (before w es)), length (file_text (own w es)))"
  using bsearch_mem_eq [OF assms, of 0] by (simp add: Let_def before_def own_def line_start_def del: enc_simps)

lemma new_text_split:
  assumes "file_ok es" and "key_ok w"
  shows "flat_put w data (file_text es) =
    file_text (before w es @ (case data of None \<Rightarrow> [] | Some d \<Rightarrow> [(w, d)]) @ behind w es)"
proof -
  have t: "file_text es = file_text (before w es) @ file_text (own w es) @ file_text (behind w es)"
    by (metis entries_split file_text_simps(3))
  have "flat_put w data (file_text es) =
      new_text (file_text es) (length (file_text (before w es))) (length (file_text (own w es))) w data"
    by (simp add: flat_put_def bsearch_mem_split [OF assms])
  then show ?thesis unfolding t by (simp add: new_text_def enc_def split: option.splits)
qed

lemma put_file_ok:
  assumes "file_ok es" and "good_put w data"
  shows "file_ok (before w es @ (case data of None \<Rightarrow> [] | Some d \<Rightarrow> [(w, d)]) @ behind w es)"
proof -
  have w: "key_ok w" using assms(2) by (simp add: good_put_def)
  have "file_ok (before w es @ own w es @ behind w es)" using assms(1) entries_split by metis
  then show ?thesis
    using before_less [OF assms(1), of _ w] behind_greater [OF assms(1) w] assms(2)
    by (auto simp: file_ok_def sorted_wrt_append good_put_def entry_ok_def split: option.splits)
qed

lemma put_map_of:
  assumes "file_ok es" and "key_ok w"
  shows "map_of (before w es @ (case data of None \<Rightarrow> [] | Some d \<Rightarrow> [(w, d)]) @ behind w es) = (map_of es)(w := data)"
proof -
  have b: "map_of (before w es) w = None" "map_of (behind w es) w = None"
    using before_less [OF assms(1), of _ w] behind_greater [OF assms]
    by (fastforce simp: map_of_eq_None_iff)+
  have es: "map_of es = map_of (before w es @ own w es @ behind w es)" using entries_split by metis
  show ?thesis unfolding es
    using own_cases [of w es] b by (auto simp: map_add_def fun_eq_iff split: option.splits)
qed

interpretation flat_text: map_store text_map flat_put good_put
proof
  fix t m k d
  assume "text_map t m" and g: "good_put k d"
  then obtain es where es: "file_ok es" "list_all (\<lambda>e. NUL \<notin> set (snd e)) es" "t = file_text es" "m = map_of es"
    by (auto simp: text_map_def)
  let ?es = "before k es @ (case d of None \<Rightarrow> [] | Some x \<Rightarrow> [(k, x)]) @ behind k es"
  have k: "key_ok k" using g by (simp add: good_put_def)
  have "list_all (\<lambda>e. NUL \<notin> set (snd e)) (before k es @ own k es @ behind k es)" using es(2) entries_split by metis
  then have "list_all (\<lambda>e. NUL \<notin> set (snd e)) ?es" using g by (auto simp: good_put_def split: option.splits)
  then show "text_map (flat_put k d t) (m(k := d))"
    using put_file_ok [OF es(1) g] put_map_of [OF es(1) k] new_text_split [OF es(1) k] es(3,4)
    unfolding text_map_def by metis
qed

text \<open>What a search shows of the map.\<close>

lemma map_of_own:
  assumes "file_ok es" and "key_ok w"
  shows "map_of es w = (case own w es of [] \<Rightarrow> None | e # _ \<Rightarrow> Some (snd e))"
proof -
  have b: "map_of (before w es) w = None" "map_of (behind w es) w = None"
    using before_less [OF assms(1), of _ w] behind_greater [OF assms] by (fastforce simp: map_of_eq_None_iff)+
  have es: "map_of es = map_of (before w es @ own w es @ behind w es)" using entries_split by metis
  show ?thesis unfolding es using own_cases [of w es] b by (auto simp: map_add_def)
qed

lemma search_map:
  assumes "text_map text m" and "key_ok k"
  obtains offset len where "bsearch_mem k True text 0 = Some (offset, len)" and "len = 0 \<longleftrightarrow> m k = None"
    and "\<And>d. m k = Some d \<Longrightarrow> take (len - length k - 2) (drop (offset + length k + 1) text) = d"
    and "flat_put k data text = new_text text offset len k data"
proof -
  obtain es where es: "file_ok es" "text = file_text es" "m = map_of es" using assms(1) by (auto simp: text_map_def)
  have t: "text = file_text (before k es) @ file_text (own k es) @ file_text (behind k es)"
    unfolding es(2) by (metis entries_split file_text_simps(3))
  have s: "bsearch_mem k True text 0 = Some (length (file_text (before k es)), length (file_text (own k es)))"
    using bsearch_mem_split [OF es(1) assms(2)] es(2) by simp
  show ?thesis
  proof (rule that [OF s])
    show "length (file_text (own k es)) = 0 \<longleftrightarrow> m k = None"
      using own_cases [of k es] map_of_own [OF es(1) assms(2)] es(3) by (auto simp: enc_def)
    show "take (length (file_text (own k es)) - length k - 2) (drop (length (file_text (before k es)) + length k + 1) text) = d"
      if "m k = Some d" for d
    proof -
      have "own k es = [(k, d)]" using that own_cases [of k es] map_of_own [OF es(1) assms(2)] es(3) by auto
      then show ?thesis unfolding t by (simp add: enc_def)
    qed
    show "flat_put k data text = new_text text (length (file_text (before k es))) (length (file_text (own k es))) k data"
      by (simp add: flat_put_def s)
  qed
qed

section \<open>The state of a session\<close>

text \<open>
  \<^verbatim>\<open>C\<close> is the map of the committed file, \<^verbatim>\<open>V\<close> the one this session sees.
\<close>

definition view_ok :: "mytid \<Rightarrow> flat_world \<Rightarrow> flat_db \<Rightarrow> (string \<rightharpoonup> string) \<Rightarrow> (string \<rightharpoonup> string) \<Rightarrow> bool" where
  "view_ok tid w db C V \<longleftrightarrow> text_map (in_text (fw_file w)) C \<and> in_ino (fw_file w) < fw_next w \<and> db_ino db < fw_next w \<and>
     (case tid of
        Freed_txn \<Rightarrow> False
      | Txn t \<Rightarrow> text_map (db_base db) V \<and> db_ino db = in_ino (fw_file w) \<and>
          (case tx_new t of
             None \<Rightarrow> db_base db = in_text (fw_file w) \<and> V = C
           | Some f \<Rightarrow> in_text f = db_base db \<and> fw_new w = Some f \<and> in_ino f < fw_next w \<and> in_ino f \<noteq> in_ino (fw_file w))
      | _ \<Rightarrow> V = C \<and> (db_ino db = in_ino (fw_file w) \<longrightarrow> db_base db = in_text (fw_file w)))"

definition io_ok :: "flat_io \<Rightarrow> bool" where
  "io_ok io \<longleftrightarrow> io_lock io \<and> io_open io \<and> io_write io = None \<and> io_stat io \<and> io_sync io \<and> io_unlock io"

text \<open>The transaction an operation leaves behind.\<close>

definition started :: "mytid \<Rightarrow> mytid" where
  "started tid = (if tid = Null_txn then Txn \<lparr>tx_new = None\<rparr> else tid)"

lemma starttxn_view:
  assumes "view_ok tid w db C V" and "io_ok io"
  shows "\<exists>w' db'. starttxn_or_refetch io tid w db = Some (0, started tid, w', db') \<and> fw_file w' = fw_file w \<and>
    view_ok (started tid) w' db' C V \<and> text_map (db_base db') V"
  using assms
  by (cases tid) (auto simp: starttxn_or_refetch_def io_ok_def started_def view_ok_def refresh_def)

lemma myfetch_view:
  assumes "view_ok tid w db C V" and "io_ok io" and "key_ok k"
  shows "\<exists>w' db'. myfetch io k (length k) tid w db =
      Some (if V k = None then CYRUSDB_NOTFOUND else 0, V k, started tid, w', db') \<and> fw_file w' = fw_file w \<and>
    view_ok (started tid) w' db' C V"
proof -
  obtain w' db' where s: "starttxn_or_refetch io tid w db = Some (0, started tid, w', db')" "fw_file w' = fw_file w"
    "view_ok (started tid) w' db' C V" "text_map (db_base db') V" using starttxn_view [OF assms(1,2)] by blast
  obtain offset len where "bsearch_mem k True (db_base db') 0 = Some (offset, len)" "len = 0 \<longleftrightarrow> V k = None"
    "\<And>d. V k = Some d \<Longrightarrow> take (len - length k - 2) (drop (offset + length k + 1) (db_base db')) = d"
    using search_map [OF s(4) assms(3)] by metis
  then show ?thesis using s by (cases "V k") (auto simp: myfetch_def)
qed

lemma store_lock_view:
  assumes "view_ok tid w db C V" and "io_lock io"
  shows "\<exists>w' db'. store_lock io tid w db = Some (started tid, w', db') \<and> fw_file w' = fw_file w \<and> fw_next w' = fw_next w \<and>
    view_ok (started tid) w' db' C V \<and> text_map (db_base db') V \<and> (tid = No_txn \<longrightarrow> fw_locked w')"
  using assms by (cases tid) (auto simp: store_lock_def started_def view_ok_def refresh_def)

definition put_result :: "bool \<Rightarrow> string \<Rightarrow> (string \<rightharpoonup> string) \<Rightarrow> bool" where
  "put_result overwrite k V \<longleftrightarrow> overwrite \<or> V k = None"

lemma mystore_view:
  assumes "view_ok tid w db C V" and "io_ok io" and "good_put k d" and "put_result overwrite k V"
  shows "\<exists>tid' w' db'. mystore io k (length k) d tid overwrite w db = Some (0, tid', w', db') \<and>
    (if tid = No_txn then tid' = No_txn \<and> view_ok No_txn w' db' (V(k := d)) (V(k := d)) \<and> \<not> fw_locked w'
     else (\<exists>t. tid' = Txn t) \<and> view_ok tid' w' db' C (V(k := d)) \<and> fw_file w' = fw_file w)"
proof -
  have k: "key_ok k" using assms(3) by (simp add: good_put_def)
  have io: "io_lock io" "io_open io" "io_write io = None" "io_stat io" "io_sync io" "io_unlock io"
    using assms(2) by (simp_all add: io_ok_def)
  obtain w' db' where s: "store_lock io tid w db = Some (started tid, w', db')" "fw_file w' = fw_file w"
    "view_ok (started tid) w' db' C V" "text_map (db_base db') V" using store_lock_view [OF assms(1) io(1)] by blast
  obtain offset len where b: "bsearch_mem k True (db_base db') 0 = Some (offset, len)" "len = 0 \<longleftrightarrow> V k = None"
    "flat_put k d (db_base db') = new_text (db_base db') offset len k d"
    using search_map [OF s(4) k, where data = d] by metis
  have new: "text_map (new_text (db_base db') offset len k d) (V(k := d))"
    using flat_text.represents_put [OF s(4) assms(3)] b(3) by simp
  have "tid \<noteq> Freed_txn" using assms(1) by (auto simp: view_ok_def)
  moreover have "V k = None \<or> overwrite" using assms(4) by (auto simp: put_result_def)
  ultimately show ?thesis using s b new io
    by (cases tid) (auto simp: mystore_def started_def view_ok_def written_def Let_def split: option.splits)
qed

lemma commit_view:
  assumes "view_ok (Txn t) w db C V" and "io_ok io"
  shows "\<exists>w' db'. commit_txn io t w db = (0, w', db') \<and> view_ok No_txn w' db' V V \<and> \<not> fw_locked w'"
  using assms by (auto simp: commit_txn_def view_ok_def io_ok_def CYRUSDB_OK_def split: option.splits)

lemma abort_view:
  assumes "view_ok (Txn t) w db C V" and "io_ok io"
  shows "\<exists>w' db'. abort_txn io t w db = (w', db') \<and> view_ok No_txn w' db' C C \<and> \<not> fw_locked w' \<and> fw_file w' = fw_file w"
  using assms by (auto simp: abort_txn_def view_ok_def io_ok_def Let_def split: option.splits)

text \<open>The operations of a transaction, in sequence, and what they are on a map.\<close>

datatype flat_op = Op_fetch string | Op_put string "string option"

fun run_op :: "flat_io \<Rightarrow> flat_op \<Rightarrow> mytid \<Rightarrow> flat_world \<Rightarrow> flat_db \<Rightarrow> (string option \<times> mytid \<times> flat_world \<times> flat_db) option" where
  "run_op io (Op_fetch k) tid w db = do {
     (r, d, tid, w, db) \<leftarrow> myfetch io k (length k) tid w db;
     Some (d, tid, w, db)
   }"
| "run_op io (Op_put k d) tid w db = do {
     (r, tid, w, db) \<leftarrow> mystore io k (length k) d tid True w db;
     Some (None, tid, w, db)
   }"

fun run_ops :: "flat_io \<Rightarrow> flat_op list \<Rightarrow> mytid \<Rightarrow> flat_world \<Rightarrow> flat_db \<Rightarrow>
  (string option list \<times> mytid \<times> flat_world \<times> flat_db) option" where
  "run_ops io [] tid w db = Some ([], tid, w, db)"
| "run_ops io (x # xs) tid w db = do {
     (r, tid, w, db) \<leftarrow> run_op io x tid w db;
     (rs, tid, w, db) \<leftarrow> run_ops io xs tid w db;
     Some (r # rs, tid, w, db)
   }"

fun spec_ops :: "flat_op list \<Rightarrow> (string \<rightharpoonup> string) \<Rightarrow> string option list \<times> (string \<rightharpoonup> string)" where
  "spec_ops [] m = ([], m)"
| "spec_ops (Op_fetch k # xs) m = (let (rs, m') = spec_ops xs m in (m k # rs, m'))"
| "spec_ops (Op_put k d # xs) m = (let (rs, m') = spec_ops xs (m(k := d)) in (None # rs, m'))"

fun good_op :: "flat_op \<Rightarrow> bool" where
  "good_op (Op_fetch k) = key_ok k"
| "good_op (Op_put k d) = good_put k d"

lemma run_ops_view:
  assumes "io_ok io"
  shows "view_ok tid w db C V \<Longrightarrow> tid \<noteq> No_txn \<Longrightarrow> list_all good_op xs \<Longrightarrow>
    \<exists>tid' w' db'. run_ops io xs tid w db = Some (fst (spec_ops xs V), tid', w', db') \<and>
      view_ok tid' w' db' C (snd (spec_ops xs V)) \<and> fw_file w' = fw_file w \<and> (tid' = tid \<and> xs = [] \<or> (\<exists>t. tid' = Txn t))"
proof (induction xs arbitrary: tid w db V)
  case (Cons x xs)
  have "\<exists>r t w' db' V'. run_op io x tid w db = Some (r, Txn t, w', db') \<and> fw_file w' = fw_file w \<and>
      view_ok (Txn t) w' db' C V' \<and> spec_ops (x # xs) V = (r # fst (spec_ops xs V'), snd (spec_ops xs V'))"
  proof (cases x)
    case (Op_fetch k)
    have "started tid \<noteq> No_txn" "started tid \<noteq> Null_txn" "started tid \<noteq> Freed_txn"
      using Cons.prems by (auto simp: started_def view_ok_def)
    then obtain t where "started tid = Txn t" by (cases "started tid") auto
    then show ?thesis using myfetch_view [OF Cons.prems(1) assms, of k] Cons.prems(3) Op_fetch
      by (auto simp: split_def Let_def)
  next
    case (Op_put k d)
    then show ?thesis using mystore_view [OF Cons.prems(1) assms, of k d True] Cons.prems(2,3)
      by (force simp: put_result_def split_def Let_def)
  qed
  then obtain r t w' db' V' where x: "run_op io x tid w db = Some (r, Txn t, w', db')" "fw_file w' = fw_file w"
      "view_ok (Txn t) w' db' C V'" "spec_ops (x # xs) V = (r # fst (spec_ops xs V'), snd (spec_ops xs V'))" by blast
  obtain tid' w'' db'' where "run_ops io xs (Txn t) w' db' = Some (fst (spec_ops xs V'), tid', w'', db'')"
      "view_ok tid' w'' db'' C (snd (spec_ops xs V'))" "fw_file w'' = fw_file w'" "tid' = Txn t \<and> xs = [] \<or> (\<exists>t. tid' = Txn t)"
    using Cons.IH [OF x(3)] Cons.prems(3) by auto
  then show ?case using x by auto
qed simp

section \<open>Iteration\<close>

text \<open>The reference: the callback on the entries of a list, in order, until it returns an error.\<close>

fun visit :: "('r \<Rightarrow> string \<Rightarrow> string \<Rightarrow> bool) option \<Rightarrow> ('r \<Rightarrow> string \<Rightarrow> string \<Rightarrow> int \<times> 'r) \<Rightarrow> (string \<times> string) list \<Rightarrow> 'r \<Rightarrow> int \<times> 'r" where
  "visit goodp cb [] rock = (CYRUSDB_OK, rock)"
| "visit goodp cb ((k, d) # es) rock =
     (if case goodp of None \<Rightarrow> True | Some p \<Rightarrow> p rock k d
      then (let (r, rock) = cb rock k d in if r \<noteq> 0 then (r, rock) else visit goodp cb es rock)
      else visit goodp cb es rock)"

definition has_prefix :: "string \<Rightarrow> string \<times> string \<Rightarrow> bool" where
  "has_prefix p e \<longleftrightarrow> take (length p) (fst e) = p"

lemma getentry_line:
  assumes "list_all entry_ok (e # es)" and "list_all (\<lambda>e. NUL \<notin> set (snd e)) (e # es)"
  shows "getentry (file_text (e # es)) = Some (fst e, snd e, file_text es)"
proof -
  have "NUL \<notin> set (file_text (e # es))" using assms
    by (auto simp: file_text_def enc_def entry_ok_def key_ok_def list_all_iff)
  then have "takeWhile (\<lambda>c. c \<noteq> NUL) (file_text (e # es)) = file_text (e # es)"
    unfolding takeWhile_eq_all_conv by blast
  moreover define r where "r = snd e @ LF # file_text es"
  moreover have s: "file_text (e # es) = fst e @ TAB # r" by (simp add: enc_def r_def)
  moreover have "strchr (fst e @ TAB # r) TAB = Some (fst e, r)" using assms(1) by (auto simp: entry_ok_def key_ok_def)
  moreover have "strchr r LF = Some (snd e, file_text es)" using assms(1) by (auto simp: entry_ok_def r_def)
  moreover have "drop (length (fst e) + length (snd e) + 2) (fst e @ TAB # r) = file_text es" by (simp add: r_def)
  ultimately show ?thesis by (simp only: getentry_def bind.bind_lunit prod.case)
qed

lemma foreach_loop_visit:
  "list_all entry_ok es \<Longrightarrow> list_all (\<lambda>e. NUL \<notin> set (snd e)) es \<Longrightarrow>
   foreach_loop p goodp cb (file_text es) rock = visit goodp cb (takeWhile (has_prefix p) es) rock"
proof (induction es arbitrary: rock)
  case Nil
  then show ?case by (simp add: foreach_loop.simps)
next
  case (Cons e es)
  obtain k d where e: "e = (k, d)" by fastforce
  define t where "t = file_text (e # es)"
  have t: "t \<noteq> []" "getentry t = Some (k, d, file_text es)"
    using getentry_line [OF Cons.prems] by (simp_all add: t_def enc_def e)
  have short: "length k < length p \<or> take (length p) k \<noteq> p \<longleftrightarrow> \<not> has_prefix p (k, d)"
    by (auto simp: has_prefix_def)
  have "foreach_loop p goodp cb t rock =
      (if \<not> has_prefix p (k, d) then (CYRUSDB_OK, rock)
       else if case goodp of None \<Rightarrow> True | Some q \<Rightarrow> q rock k d
       then (let (r, rock) = cb rock k d in if r \<noteq> 0 then (r, rock) else foreach_loop p goodp cb (file_text es) rock)
       else foreach_loop p goodp cb (file_text es) rock)"
    by (subst foreach_loop.simps) (simp only: t short option.case prod.case if_False)
  then show ?case unfolding t_def [symmetric] using Cons.IH Cons.prems by (simp add: e Let_def split_def)
qed

lemma lex_prefix_between: "p \<le> x \<Longrightarrow> x < (y :: int list) \<Longrightarrow> take (length p) y = p \<Longrightarrow> take (length p) x = p"
proof (induction p arbitrary: x y)
  case (Cons a p)
  then show ?case by (cases x; cases y) (auto simp: less_imp_le)
qed simp

lemma lex_prefix_ge: "take (length p) x = p \<Longrightarrow> p \<le> (x :: int list)"
proof (induction p arbitrary: x)
  case (Cons a p)
  then show ?case by (cases x) auto
qed simp

lemma has_prefix_cmpkey: "key_ok p \<Longrightarrow> key_ok (fst e) \<Longrightarrow> has_prefix p e \<longleftrightarrow> take (length (cmpkey p)) (cmpkey (fst e)) = cmpkey p"
proof -
  assume "key_ok p" "key_ok (fst e)"
  then have "key_ok (take (length p) (fst e))" by (auto simp: key_ok_def dest: in_set_takeD)
  then show ?thesis using cmpkey_inj [of "take (length p) (fst e)" p] \<open>key_ok p\<close>
    by (simp add: has_prefix_def cmpkey_def take_map)
qed

text \<open>In a sorted file the entries with a prefix are next to each other, from the place of the prefix on.\<close>

lemma takeWhile_prefix:
  assumes "list_all entry_ok es" and "sorted_wrt (<) (map (cmpkey \<circ> fst) es)" and "key_ok p"
    and "\<And>e. e \<in> set es \<Longrightarrow> cmpkey p \<le> cmpkey (fst e)"
  shows "takeWhile (has_prefix p) es = filter (has_prefix p) es"
  using assms
proof (induction es)
  case (Cons e es)
  have "filter (has_prefix p) es = []" if "\<not> has_prefix p e"
  proof -
    have "\<not> has_prefix p f" if f: "f \<in> set es" for f
    proof
      assume "has_prefix p f"
      then have "take (length (cmpkey p)) (cmpkey (fst e)) = cmpkey p"
        using lex_prefix_between [of "cmpkey p" "cmpkey (fst e)" "cmpkey (fst f)"] Cons.prems f
          has_prefix_cmpkey [OF Cons.prems(3), of f] by (auto simp: entry_ok_def list_all_iff)
      then show False using \<open>\<not> has_prefix p e\<close> has_prefix_cmpkey [OF Cons.prems(3), of e] Cons.prems(1)
        by (simp add: entry_ok_def)
    qed
    then show ?thesis by (simp add: filter_empty_conv)
  qed
  then show ?case using Cons by auto
qed simp

lemma prefix_entries:
  assumes "file_ok es" and "key_ok p"
  shows "takeWhile (has_prefix p) (own p es @ behind p es) = filter (has_prefix p) es"
proof -
  let ?l = "own p es @ behind p es"
  have ok: "file_ok (before p es @ ?l)" using assms(1) entries_split by metis
  have "cmpkey p \<le> cmpkey (fst e)" if "e \<in> set ?l" for e
  proof (cases "e \<in> set (behind p es)")
    case True
    then show ?thesis using behind_greater [OF assms] by (simp add: less_imp_le)
  next
    case False
    then show ?thesis using that own_cases [of p es] by auto
  qed
  then have "takeWhile (has_prefix p) ?l = filter (has_prefix p) ?l"
    using ok assms(2) by (intro takeWhile_prefix) (auto simp: file_ok_def sorted_wrt_append)
  moreover have "\<not> has_prefix p e" if "e \<in> set (before p es)" for e
  proof
    assume "has_prefix p e"
    moreover have "key_ok (fst e)" using ok that by (auto simp: file_ok_def entry_ok_def list_all_iff)
    ultimately show False
      using has_prefix_cmpkey [OF assms(2), of e] lex_prefix_ge [of "cmpkey p" "cmpkey (fst e)"] before_less [OF assms(1) that]
      by simp
  qed
  ultimately show ?thesis
    using arg_cong [OF entries_split [of es p], of "filter (has_prefix p)"] by (simp add: filter_empty_conv)
qed

section \<open>Properties\<close>

text \<open>
  C12: A sequence of fetches, stores and deletes in a transaction returns what the same sequence on
  a map returns, and leaves the committed file alone; a commit then makes the map of that sequence
  the committed one, an abort leaves the old one, and both release the lock.
\<close>

theorem flat_transaction:
  assumes "view_ok No_txn w db C C" and "io_ok io" and "list_all good_op xs" and "xs \<noteq> []"
  shows "\<exists>t w1 db1. run_ops io xs Null_txn w db = Some (fst (spec_ops xs C), Txn t, w1, db1) \<and> fw_file w1 = fw_file w \<and>
    (\<exists>w2 db2. commit_txn io t w1 db1 = (0, w2, db2) \<and> \<not> fw_locked w2 \<and>
       view_ok No_txn w2 db2 (snd (spec_ops xs C)) (snd (spec_ops xs C))) \<and>
    (\<exists>w2 db2. abort_txn io t w1 db1 = (w2, db2) \<and> \<not> fw_locked w2 \<and> fw_file w2 = fw_file w \<and> view_ok No_txn w2 db2 C C)"
proof -
  have "view_ok Null_txn w db C C" using assms(1) by (simp add: view_ok_def)
  then obtain t w1 db1 where 1: "run_ops io xs Null_txn w db = Some (fst (spec_ops xs C), Txn t, w1, db1)"
      "view_ok (Txn t) w1 db1 C (snd (spec_ops xs C))" "fw_file w1 = fw_file w"
    using run_ops_view [OF assms(2), of Null_txn w db C C xs] assms(3,4) by auto
  then show ?thesis using commit_view [OF 1(2) assms(2)] abort_view [OF 1(2) assms(2)] by auto
qed

text \<open>
  C13: Whatever system calls fail, a store or delete outside a transaction leaves either the old
  file, untouched, or a file of the new map; it is the new one when the call reports success.
\<close>

theorem flat_store_atomic:
  assumes "view_ok No_txn w db C C" and "good_put k d"
  shows "\<exists>r w' db'. mystore io k (length k) d No_txn overwrite w db = Some (r, No_txn, w', db') \<and>
    (fw_file w' = fw_file w \<and> r \<noteq> 0 \<or> text_map (in_text (fw_file w')) (C(k := d)) \<and> \<not> fw_locked w' \<and> db_base db' = in_text (fw_file w'))"
proof (cases "io_lock io")
  case False
  then show ?thesis by (simp add: mystore_def store_lock_def CYRUSDB_IOERROR_def)
next
  case True
  have k: "key_ok k" using assms(2) by (simp add: good_put_def)
  obtain w' db' where s: "store_lock io No_txn w db = Some (No_txn, w', db')" "fw_file w' = fw_file w"
    "text_map (db_base db') C" using store_lock_view [OF assms(1) True] by (auto simp: started_def)
  obtain offset len where b: "bsearch_mem k True (db_base db') 0 = Some (offset, len)"
    "flat_put k d (db_base db') = new_text (db_base db') offset len k d"
    using search_map [OF s(3) k, where data = d] by metis
  then show ?thesis using s flat_text.represents_put [OF s(3) assms(2)]
    by (auto simp: mystore_def store_fails_def written_def CYRUSDB_EXISTS_def CYRUSDB_IOERROR_def Let_def)
qed

text \<open>
  C38: \<^verbatim>\<open>foreach\<close> with a prefix calls the callback on exactly the entries whose key has the prefix, in
  the order of the file, until the callback returns an error.
\<close>

theorem flat_foreach_visits:
  assumes "io_ok io" and "key_ok p" and "file_ok es" and "list_all (\<lambda>e. NUL \<notin> set (snd e)) es"
    and "in_text (fw_file w) = file_text es"
  shows "\<exists>w' db'. foreach io (Some p) goodp cb rock No_txn w db =
    Some (fst (visit goodp cb (filter (has_prefix p) es) rock), snd (visit goodp cb (filter (has_prefix p) es) rock), No_txn, w', db')"
proof -
  let ?l = "own p es @ behind p es"
  have t: "file_text es = file_text (before p es) @ file_text ?l"
    by (metis entries_split file_text_simps(3))
  have l: "list_all entry_ok ?l" "list_all (\<lambda>e. NUL \<notin> set (snd e)) ?l"
    using assms(3,4) arg_cong [OF entries_split [of es p], of "list_all entry_ok"]
      arg_cong [OF entries_split [of es p], of "list_all (\<lambda>e. NUL \<notin> set (snd e))"] by (auto simp: file_ok_def)
  have "drop (length (file_text (before p es))) (file_text es) = file_text ?l" by (subst t) simp
  then show ?thesis
    using assms(1,5) bsearch_mem_split [OF assms(3,2)] foreach_loop_visit [OF l, of p goodp cb rock] prefix_entries [OF assms(3,2)]
    by (simp add: foreach_def starttxn_or_refetch_def io_ok_def refresh_def split_def Let_def)
qed

text \<open>
  Creating a key that exists, outside a transaction, reports \<^verbatim>\<open>CYRUSDB_EXISTS\<close>, changes nothing
  and keeps the lock on the file, although there is no transaction that could release it.
\<close>

theorem flat_create_keeps_lock:
  assumes "view_ok No_txn w db C C" and "key_ok k" and "C k \<noteq> None" and "io_lock io"
  shows "\<exists>w' db'. flat_create io k (length k) (Some d) No_txn w db = Some (CYRUSDB_EXISTS, No_txn, w', db') \<and>
    fw_file w' = fw_file w \<and> fw_locked w'"
proof -
  obtain w' db' where s: "store_lock io No_txn w db = Some (No_txn, w', db')" "fw_file w' = fw_file w" "fw_locked w'"
    "text_map (db_base db') C" using store_lock_view [OF assms(1,4)] by (auto simp: started_def)
  obtain offset len where "bsearch_mem k True (db_base db') 0 = Some (offset, len)" "len \<noteq> 0"
    using search_map [OF s(4) assms(2)] assms(3) by metis
  then show ?thesis using s by (simp add: flat_create_def mystore_def store_fails_def)
qed

section \<open>Witnesses\<close>

definition two_entries :: "(string \<times> string) list" where
  "two_entries = [(''user.a'', ''1''), (''user.b'', ''2'')]"

definition disk :: flat_world where
  "disk = \<lparr>fw_file = \<lparr>in_ino = 1, in_text = file_text two_entries\<rparr>, fw_new = None, fw_locked = False, fw_next = 2\<rparr>"

definition opened :: flat_db where
  "opened = \<lparr>db_ino = 1, db_base = file_text two_entries\<rparr>"

definition all_good :: flat_io where
  "all_good = \<lparr>io_lock = True, io_open = True, io_write = None, io_stat = True, io_sync = True, io_unlock = True\<rparr>"

lemma two_entries_ok: "file_ok two_entries" "list_all (\<lambda>e. NUL \<notin> set (snd e)) two_entries" "io_ok all_good"
  by (simp_all add: two_entries_def file_ok_def entry_ok_def TOCOMPARE_def all_good_def io_ok_def)

lemma opened_ok: "view_ok No_txn disk opened (map_of two_entries) (map_of two_entries)"
  using two_entries_ok by (auto simp: view_ok_def disk_def opened_def text_map_def)

theorem flat_transaction_witness:
  "\<exists>t w1 db1 w2 db2. run_ops all_good [Op_fetch ''user.a'', Op_put ''user.a'' (Some ''3''), Op_fetch ''user.a''] Null_txn disk opened =
      Some ([Some ''1'', None, Some ''3''], Txn t, w1, db1) \<and> commit_txn all_good t w1 db1 = (0, w2, db2) \<and> \<not> fw_locked w2"
  using flat_transaction [OF opened_ok two_entries_ok(3),
      of "[Op_fetch ''user.a'', Op_put ''user.a'' (Some ''3''), Op_fetch ''user.a'']"]
  by (auto simp: good_put_def two_entries_def)

theorem flat_store_atomic_witness:
  "\<exists>r w' db'. mystore (all_good\<lparr>io_sync := False\<rparr>) ''user.c'' (length ''user.c'') (Some ''3'') No_txn True disk opened = Some (r, No_txn, w', db') \<and>
     (fw_file w' = fw_file disk \<and> r \<noteq> 0 \<or> text_map (in_text (fw_file w')) ((map_of two_entries)(''user.c'' := Some ''3'')))"
proof -
  have "good_put ''user.c'' (Some ''3'')" by (simp add: good_put_def)
  from flat_store_atomic [OF opened_ok this, of "all_good\<lparr>io_sync := False\<rparr>" True] show ?thesis by blast
qed

theorem flat_foreach_visits_witness:
  "\<exists>w' db'. foreach all_good (Some ''user.'') None (\<lambda>ks k d. (0, ks @ [k])) [] No_txn disk opened =
     Some (0, [''user.a'', ''user.b''], No_txn, w', db')"
  using flat_foreach_visits [OF two_entries_ok(3) _ two_entries_ok(1,2), of "''user.''" disk None "\<lambda>ks k d. (0, ks @ [k])" "[]" opened]
  by (simp add: disk_def two_entries_def has_prefix_def CYRUSDB_OK_def)

theorem flat_create_keeps_lock_witness:
  "\<exists>w' db'. flat_create all_good ''user.a'' (length ''user.a'') (Some ''5'') No_txn disk opened = Some (CYRUSDB_EXISTS, No_txn, w', db') \<and> fw_locked w'"
proof -
  have "key_ok ''user.a''" "map_of two_entries ''user.a'' \<noteq> None" "io_lock all_good"
    by (simp_all add: two_entries_def all_good_def)
  from flat_create_keeps_lock [OF opened_ok this, of "''5''"] show ?thesis by blast
qed

end

