(* ===== verification/Mboxname.thy ===== *)
theory Mboxname
  imports Prelude "HOL-Library.Monad_Syntax"
begin

text \<open>
  Names of mailboxes, \<^verbatim>\<open>imap/mboxname.c\<close>: the conversions between the names a client sees and the
  names inside the server, for both namespaces, both hierarchy separators and virtual domains; who
  owns a mailbox; and the checks of names.

  The buffer for a result has \<^verbatim>\<open>MAX_MAILBOX_NAME + 1\<close> bytes; the result is the string the code
  writes, so one with more than \<^verbatim>\<open>MAX_MAILBOX_NAME\<close> characters is written past the buffer.
  \<^verbatim>\<open>None\<close> is \<^verbatim>\<open>IMAP_MAILBOX_BADNAME\<close> (\<^verbatim>\<open>IMAP_NAMESPACE_BADPREFIX\<close> for \<^verbatim>\<open>mboxname_init_namespace\<close>). The
  options of the configuration are a record.
\<close>

section \<open>Namespaces\<close>

definition MAX_MAILBOX_NAME :: nat where "MAX_MAILBOX_NAME = 490"
definition MAX_NAMESPACE_PREFIX :: nat where "MAX_NAMESPACE_PREFIX = 40"
definition DOTCHAR :: char where "DOTCHAR = CHR ''^''"

record namespace =
  hier_sep :: char
  isalt :: bool
  isadmin :: bool
  prefix_inbox :: string
  prefix_user :: string
  prefix_shared :: string

record name_config =
  virtdomains :: bool
  defdomain :: "string option"
  unixhierarchysep :: bool
  altnamespace :: bool
  userprefix :: "string option"
  sharedprefix :: "string option"

definition mboxname_init_namespace :: "name_config \<Rightarrow> bool \<Rightarrow> namespace option" where
  "mboxname_init_namespace cfg admin =
     (let sep = (if unixhierarchysep cfg then CHR ''/'' else CHR ''.'');
          alt = (\<not> admin \<and> altnamespace cfg)
      in if alt
      then (case (userprefix cfg, sharedprefix cfg) of
          (Some up, Some sp) \<Rightarrow>
            (let bad = (\<lambda>p. p = [] \<or> length p \<ge> MAX_NAMESPACE_PREFIX \<or> sep \<in> set p);
                 user = take (MAX_NAMESPACE_PREFIX - 1) up @ [sep]
             in if bad up \<or> bad sp \<or> strn_eq user sp (length sp) then None
                else Some \<lparr>hier_sep = sep, isalt = True, isadmin = admin, prefix_inbox = [], prefix_user = user,
                  prefix_shared = take (MAX_NAMESPACE_PREFIX - 1) sp @ [sep]\<rparr>)
        | _ \<Rightarrow> None)
      else Some \<lparr>hier_sep = sep, isalt = False, isadmin = admin, prefix_inbox = ''INBOX'' @ [sep],
        prefix_user = ''user'' @ [sep], prefix_shared = []\<rparr>)"

section \<open>Separators\<close>

definition sep_tointernal :: "char \<Rightarrow> char" where
  "sep_tointernal c = (if c = CHR ''/'' then CHR ''.'' else if c = CHR ''.'' then DOTCHAR else c)"

definition sep_toexternal :: "char \<Rightarrow> char" where
  "sep_toexternal c = (if c = CHR ''.'' then CHR ''/'' else if c = DOTCHAR then CHR ''.'' else c)"

text \<open>The first \<^verbatim>\<open>len\<close> characters are translated, all of them when \<^verbatim>\<open>len\<close> is 0.\<close>

definition mboxname_hiersep_tointernal :: "namespace \<Rightarrow> string \<Rightarrow> nat \<Rightarrow> string" where
  "mboxname_hiersep_tointernal ns name len =
     (let n = (if len = 0 then length name else len) in
      if hier_sep ns = CHR ''/'' then map sep_tointernal (take n name) @ drop n name else name)"

definition mboxname_hiersep_toexternal :: "namespace \<Rightarrow> string \<Rightarrow> nat \<Rightarrow> string" where
  "mboxname_hiersep_toexternal ns name len =
     (let n = (if len = 0 then length name else len) in
      if hier_sep ns = CHR ''/'' then map sep_toexternal (take n name) @ drop n name else name)"

section \<open>Domains\<close>

definition at_default :: "name_config \<Rightarrow> string \<Rightarrow> bool" where
  "at_default cfg d = (case defdomain cfg of None \<Rightarrow> False | Some e \<Rightarrow> strcase_eq e d)"

text \<open>
  The user part of a user name, which is cut at an at sign, and its domain; \<^verbatim>\<open>at_sign\<close> is \<^verbatim>\<open>strchr\<close> or
  \<^verbatim>\<open>strrchr\<close>.
\<close>

definition user_split ::
  "(string \<Rightarrow> char \<Rightarrow> (string \<times> string) option) \<Rightarrow> name_config \<Rightarrow> string option \<Rightarrow> string \<times> string option" where
  "user_split at_sign cfg userid = (case userid of
     None \<Rightarrow> ([], None)
   | Some u \<Rightarrow>
       if virtdomains cfg
       then (case at_sign u (CHR ''@'') of None \<Rightarrow> (u, None) | Some (p, d) \<Rightarrow> (p, Some d))
       else (u, None))"

text \<open>The domain of the user, when it is not the default one.\<close>

definition own_domain :: "name_config \<Rightarrow> string option \<Rightarrow> string option" where
  "own_domain cfg d = (case d of None \<Rightarrow> None | Some d \<Rightarrow> if at_default cfg d then None else Some d)"

definition domain_prefix :: "string option \<Rightarrow> string" where
  "domain_prefix d = (case d of None \<Rightarrow> [] | Some d \<Rightarrow> d @ ''!'')"

definition resolve_domain ::
  "(string \<Rightarrow> char \<Rightarrow> (string \<times> string) option) \<Rightarrow> name_config \<Rightarrow> namespace \<Rightarrow> string \<Rightarrow> string option \<Rightarrow>
   (string option \<times> string \<times> string) option" where
  "resolve_domain at_sign cfg ns name userid =
     (let (user, ud) = user_split at_sign cfg userid; own = own_domain cfg ud in
      if length (domain_prefix own) > MAX_MAILBOX_NAME then None
      else case (if virtdomains cfg then strrchr name (CHR ''@'') else None) of
        None \<Rightarrow> Some (own, user, name)
      | Some (n, d) \<Rightarrow>
          if at_default cfg d then (if own \<noteq> None then None else Some (None, user, n))
          else if (own = None \<and> \<not> isadmin ns) \<or> (own \<noteq> None \<and> \<not> strcase_eq (the ud) d) then None
          else if length (domain_prefix (Some d)) > MAX_MAILBOX_NAME then None
          else Some (Some d, user, n))"

section \<open>To the internal name\<close>

text \<open>\<^verbatim>\<open>name\<close> is \<^verbatim>\<open>inbox\<close> in any case, or something below it.\<close>

definition is_inbox :: "char \<Rightarrow> string \<Rightarrow> bool" where
  "is_inbox sep n \<longleftrightarrow> strncase_eq n ''inbox'' 5 \<and> (length n = 5 \<or> char_at n 5 = sep)"

definition mboxname_tointernal :: "name_config \<Rightarrow> namespace \<Rightarrow> string \<Rightarrow> string option \<Rightarrow> string option" where
  "mboxname_tointernal cfg ns name userid = do {
     (dom, user, n) \<leftarrow> resolve_domain strrchr cfg ns name userid;
     let pre = domain_prefix dom;
     if is_inbox (hier_sep ns) n
     then if userid = None \<or> hier_sep ns \<in> set user then None
       else if length pre + length n + length user > MAX_MAILBOX_NAME then None
       else Some (pre @ ''user.'' @ user @ mboxname_hiersep_tointernal ns (drop 5 n) 0)
     else if length pre + length n > MAX_MAILBOX_NAME then None
     else Some (pre @ mboxname_hiersep_tointernal ns n 0)
   }"

text \<open>
  \<^verbatim>\<open>under prefix sep name n\<close>: the name, whose part before the domain is \<^verbatim>\<open>n\<close>, is the prefix of a namespace
  without its separator, or something below it.
\<close>

definition under :: "string \<Rightarrow> char \<Rightarrow> string \<Rightarrow> string \<Rightarrow> bool" where
  "under prefix sep name n \<longleftrightarrow> strn_eq name prefix (length prefix - 1) \<and>
     (length n = length prefix - 1 \<or> char_at name (length prefix - 1) = sep)"

text \<open>\<^verbatim>\<open>"%.*s"\<close>: a negative precision is none.\<close>

definition precision :: "int \<Rightarrow> string \<Rightarrow> string" where
  "precision n s = (if n < 0 then s else take (nat n) s)"

definition below :: "string \<Rightarrow> string \<Rightarrow> string \<Rightarrow> string" where
  "below prefix name n = precision (int (length n) - int (length prefix)) (drop (length prefix) name)"

definition mboxname_tointernal_alt :: "name_config \<Rightarrow> namespace \<Rightarrow> string \<Rightarrow> string option \<Rightarrow> string option" where
  "mboxname_tointernal_alt cfg ns name userid = do {
     (dom, user, n) \<leftarrow> resolve_domain strchr cfg ns name userid;
     let pre = domain_prefix dom;
     let sep = hier_sep ns;
     let sp = prefix_shared ns;
     let up = prefix_user ns;
     if sp = [] then None
     else if under sp sep name n
     then if length n = length sp - 1 then None
       else if int (length pre) + int (length n) - int (length sp) > int MAX_MAILBOX_NAME then None
       else Some (pre @ mboxname_hiersep_tointernal ns (below sp name n) 0)
     else if up = [] then None
     else if under up sep name n
     then if length n = length up - 1 then None
       else if int (length pre) + int (length n) - int (length up) + 5 > int MAX_MAILBOX_NAME then None
       else Some (pre @ ''user.'' @ mboxname_hiersep_tointernal ns (below up name n) 0)
     else if userid = None \<or> sep \<in> set user then None
     else if length pre + length user + 5 > MAX_MAILBOX_NAME then None
     else if is_inbox sep n
     then if char_at name 5 = sep then None else Some (pre @ ''user.'' @ user)
     else if length pre + (5 + length user) + 6 + length n > MAX_MAILBOX_NAME then None
     else Some (pre @ ''user.'' @ user @ ''.'' @ mboxname_hiersep_tointernal ns n 0)
   }"

section \<open>To the external name\<close>

definition mboxname_toexternal :: "name_config \<Rightarrow> namespace \<Rightarrow> string \<Rightarrow> string option \<Rightarrow> string option" where
  "mboxname_toexternal cfg ns name userid =
     (if length name > MAX_MAILBOX_NAME then None
      else
        let (dom, z) = (case (if virtdomains cfg then strchr name (CHR ''!'') else None) of
              None \<Rightarrow> (None, name)
            | Some (d, z) \<Rightarrow>
                (if case userid of None \<Rightarrow> False | Some u \<Rightarrow> (case strchr u (CHR ''@'') of None \<Rightarrow> False | Some (_, e) \<Rightarrow> e = d)
                 then None else Some d, z));
            result = mboxname_hiersep_toexternal ns z 0
        in case dom of
          None \<Rightarrow> Some result
        | Some d \<Rightarrow> if length result + length d + 1 > MAX_MAILBOX_NAME then None else Some (result @ ''@'' @ d))"

text \<open>The name without the domain of the user, and the user without it.\<close>

definition strip_own :: "name_config \<Rightarrow> string \<Rightarrow> string \<Rightarrow> string \<times> string" where
  "strip_own cfg u name = (case (if virtdomains cfg then strchr u (CHR ''@'') else None) of
     None \<Rightarrow> (u, name)
   | Some (p, d) \<Rightarrow> (p, if strn_eq name d (length d) \<and> char_at name (length d) = CHR ''!'' then drop (length d + 1) name else name))"

definition mboxname_toexternal_alt :: "name_config \<Rightarrow> namespace \<Rightarrow> string \<Rightarrow> string option \<Rightarrow> string option" where
  "mboxname_toexternal_alt cfg ns name userid =
     (if length name > MAX_MAILBOX_NAME then None
      else do {
        u \<leftarrow> userid;
        let (user, name) = strip_own cfg u name;
        let after = 5 + length user;
        let up = prefix_user ns;
        let sp = prefix_shared ns;
        result \<leftarrow>
          (if strncase_eq name ''inbox'' 5 \<and> (char_at name 5 = NUL \<or> char_at name 5 = CHR ''.'')
           then Some (if char_at name 5 = NUL then name else drop 6 name)
           else if strn_eq name ''user.'' 5 \<and> strn_eq (drop 5 name) user (length user) \<and>
             (char_at name after = NUL \<or> char_at name after = CHR ''.'')
           then Some (if char_at name after = NUL then ''INBOX'' else drop (after + 1) name)
           else if strn_eq name ''user'' 4 \<and> (char_at name 4 = NUL \<or> char_at name 4 = CHR ''.'')
           then if length up > MAX_MAILBOX_NAME \<or>
               (char_at name 4 = CHR ''.'' \<and> length up + 1 + length (drop 5 name) > MAX_MAILBOX_NAME) then None
             else Some (butlast up @ (if char_at name 4 = CHR ''.'' then hier_sep ns # drop 5 name else []))
           else if (if sp = [] then name = [] else strn_eq name sp (length sp - 1)) then Some name
           else Some (sp @ name));
        Some (mboxname_hiersep_toexternal ns result 0)
      })"

section \<open>Owners and checks\<close>

definition internal_namespace :: namespace where
  "internal_namespace = \<lparr>hier_sep = CHR ''.'', isalt = False, isadmin = False, prefix_inbox = ''INBOX.'',
     prefix_user = ''user.'', prefix_shared = []\<rparr>"

definition mboxname_userownsmailbox :: "name_config \<Rightarrow> string option \<Rightarrow> string \<Rightarrow> bool" where
  "mboxname_userownsmailbox cfg userid name = (case mboxname_tointernal cfg internal_namespace ''INBOX'' userid of
     None \<Rightarrow> False
   | Some inboxname \<Rightarrow> strn_eq name inboxname (length inboxname) \<and>
       (char_at name (length inboxname) = NUL \<or> char_at name (length inboxname) = CHR ''.''))"

text \<open>\<^verbatim>\<open>strstr\<close>: the suffix behind the first occurrence.\<close>

fun strstr_behind :: "string \<Rightarrow> string \<Rightarrow> string option" where
  "strstr_behind [] w = (if w = [] then Some [] else None)"
| "strstr_behind (c # s) w = (if strn_eq (c # s) w (length w) then Some (drop (length w) (c # s)) else strstr_behind s w)"

definition mboxname_isusermailbox :: "string \<Rightarrow> bool \<Rightarrow> string option" where
  "mboxname_isusermailbox name isinbox =
     (case (if strn_eq name ''user.'' 5 then Some (drop 5 name) else strstr_behind name ''!user.'') of
        None \<Rightarrow> None
      | Some p \<Rightarrow> if \<not> isinbox \<or> CHR ''.'' \<notin> set p then Some p else None)"

text \<open>\<^verbatim>\<open>True\<close> is 0, \<^verbatim>\<open>False\<close> is \<^verbatim>\<open>IMAP_MAILBOX_BADNAME\<close>.\<close>

fun netnews_loop :: "bool \<Rightarrow> string \<Rightarrow> bool" where
  "netnews_loop sawnonnumeric [] = sawnonnumeric"
| "netnews_loop sawnonnumeric (c # s) =
     (if c = CHR ''.'' then sawnonnumeric \<and> netnews_loop False s
      else if isdigit c then netnews_loop sawnonnumeric s
      else netnews_loop True s)"

definition mboxname_netnewscheck :: "string \<Rightarrow> bool" where
  "mboxname_netnewscheck name = netnews_loop False name"

section \<open>Lemmas\<close>

named_theorems names_defs \<open>definitions of the conversions\<close>

declare mboxname_hiersep_tointernal_def [names_defs] mboxname_hiersep_toexternal_def [names_defs]
  domain_prefix_def [names_defs] Let_def [names_defs]

lemma hiersep_length [simp]:
  "length (mboxname_hiersep_tointernal ns s 0) = length s" "length (mboxname_hiersep_toexternal ns s 0) = length s"
  by (simp_all add: names_defs)

lemma hiersep_roundtrip:
  assumes "hier_sep ns = CHR ''/'' \<Longrightarrow> CHR ''/'' \<notin> set s"
  shows "mboxname_hiersep_tointernal ns (mboxname_hiersep_toexternal ns s 0) 0 = s"
proof -
  have "map (\<lambda>c. sep_tointernal (sep_toexternal c)) s = s" if "CHR ''/'' \<notin> set s"
    using that by (intro map_idI) (auto simp: sep_tointernal_def sep_toexternal_def DOTCHAR_def)
  then show ?thesis using assms by (simp add: names_defs comp_def)
qed

lemma hiersep_roundtrip_external:
  assumes "hier_sep ns = CHR ''/'' \<Longrightarrow> DOTCHAR \<notin> set s"
  shows "mboxname_hiersep_toexternal ns (mboxname_hiersep_tointernal ns s 0) 0 = s"
proof -
  have "map (\<lambda>c. sep_toexternal (sep_tointernal c)) s = s" if "DOTCHAR \<notin> set s"
    using that by (intro map_idI) (auto simp: sep_tointernal_def sep_toexternal_def DOTCHAR_def)
  then show ?thesis using assms by (simp add: names_defs comp_def)
qed

lemma hiersep_at: "CHR ''@'' \<in> set (mboxname_hiersep_toexternal ns s 0) \<longleftrightarrow> CHR ''@'' \<in> set s"
  by (auto simp: names_defs sep_toexternal_def DOTCHAR_def split: if_splits intro: rev_image_eqI)

lemma is_inbox_length: "is_inbox sep n \<Longrightarrow> 5 \<le> length n"
proof -
  assume "is_inbox sep n"
  then have "length (map tolower (take 5 n)) = length (map tolower (take 5 ''inbox''))"
    unfolding is_inbox_def strncase_eq_def by presburger
  then show ?thesis by simp
qed

lemma strcase_eq_length: "strcase_eq s t \<Longrightarrow> length s = length t"
  unfolding strcase_eq_def by (metis length_map)

lemma resolve_domain_cases:
  assumes "resolve_domain at_sign cfg ns name userid = Some (dm, user, n)"
  shows "length (domain_prefix dm) \<le> MAX_MAILBOX_NAME" and "user = fst (user_split at_sign cfg userid)"
    and "n = name \<or> (\<exists>d. name = n @ ''@'' @ d)"
    and "own_domain cfg (snd (user_split at_sign cfg userid)) = Some d \<Longrightarrow> \<exists>e. dm = Some e \<and> strcase_eq d e"
    and "own_domain cfg (snd (user_split at_sign cfg userid)) = None \<Longrightarrow> \<not> isadmin ns \<Longrightarrow> dm = None"
  using assms
  by (auto simp: resolve_domain_def own_domain_def strcase_eq_def split_def Let_def dest!: strrchr_Some
      split: option.splits if_splits) metis+

text \<open>The part of a name below a prefix without an at sign is no longer than the name without the prefix.\<close>

lemma below_length:
  assumes "resolve_domain at_sign cfg ns name userid = Some (dm, user, n)" and "under p sep name n" and "length n \<noteq> length p - 1"
    and "CHR ''@'' \<notin> set p" and "p \<noteq> []"
  shows "length p \<le> length n" and "length (below p name n) \<le> length n - length p"
proof -
  have "length p - 1 \<le> length n"
  proof (rule ccontr)
    assume c: "\<not> length p - 1 \<le> length n"
    have eq: "take (length p - 1) name = take (length p - 1) p" using assms(2) by (simp add: under_def strn_eq_def)
    then have "length (take (length p - 1) name) = length p - 1" by simp
    then have l: "length p - 1 \<le> length name" by simp
    then obtain d where d: "name = n @ ''@'' @ d" using resolve_domain_cases(3) [OF assms(1)] c by auto
    have "take (length p - 1) name ! length n = name ! length n" using c by simp
    also have "\<dots> = CHR ''@''" by (simp add: d)
    finally have "take (length p - 1) name ! length n = CHR ''@''" .
    then have "CHR ''@'' \<in> set (take (length p - 1) p)" using c eq l by (metis length_take min.absorb2 not_le_imp_less nth_mem)
    then show False using assms(4) by (auto dest: in_set_takeD)
  qed
  then show "length p \<le> length n" using assms(3,5) by (cases p) auto
  then show "length (below p name n) \<le> length n - length p" by (simp add: below_def precision_def)
qed








section \<open>Properties\<close>


text \<open>
  The names the conversions write fit the buffer of the caller, except in the conversion to the
  alternative namespace, which puts the prefix of the shared namespace before the name without a test.
\<close>

theorem mailbox_names_fit:
  assumes "CHR ''@'' \<notin> set (prefix_user ns)" and "CHR ''@'' \<notin> set (prefix_shared ns)"
  shows "(mboxname_tointernal cfg ns name userid = Some r \<longrightarrow> length r \<le> MAX_MAILBOX_NAME) \<and>
    (mboxname_tointernal_alt cfg ns name userid = Some r \<longrightarrow> length r \<le> MAX_MAILBOX_NAME) \<and>
    (mboxname_toexternal cfg ns name userid = Some r \<longrightarrow> length r \<le> MAX_MAILBOX_NAME) \<and>
    (mboxname_toexternal_alt cfg ns name userid = Some r \<longrightarrow> length r \<le> MAX_MAILBOX_NAME + length (prefix_shared ns))"
proof (intro conjI impI)
  assume r: "mboxname_tointernal cfg ns name userid = Some r"
  then obtain dm user n where d: "resolve_domain strrchr cfg ns name userid = Some (dm, user, n)"
    by (auto simp: mboxname_tointernal_def split: bind_splits)
  show "length r \<le> MAX_MAILBOX_NAME"
    using r is_inbox_length [of "hier_sep ns" n] by (auto simp: mboxname_tointernal_def d Let_def split: if_splits)
next
  assume r: "mboxname_tointernal_alt cfg ns name userid = Some r"
  then obtain dm user n where d: "resolve_domain strchr cfg ns name userid = Some (dm, user, n)"
    by (auto simp: mboxname_tointernal_alt_def split: bind_splits)
  show "length r \<le> MAX_MAILBOX_NAME"
  proof -
    have b: "length (below p name n) + length p \<le> length n"
      if "under p (hier_sep ns) name n" "length n \<noteq> length p - 1" "p \<noteq> []" "CHR ''@'' \<notin> set p" for p
      using below_length [OF d that(1,2,4,3)] by simp
    let ?pre = "length (domain_prefix dm)" and ?sp = "prefix_shared ns" and ?up = "prefix_user ns"
    have "length r = ?pre + length (below ?sp name n) \<and> ?pre + length n \<le> MAX_MAILBOX_NAME + length ?sp \<and>
          length (below ?sp name n) + length ?sp \<le> length n \<or>
        length r = ?pre + 5 + length (below ?up name n) \<and> ?pre + length n + 5 \<le> MAX_MAILBOX_NAME + length ?up \<and>
          length (below ?up name n) + length ?up \<le> length n \<or>
        length r = ?pre + 5 + length user \<and> ?pre + length user + 5 \<le> MAX_MAILBOX_NAME \<or>
        length r = ?pre + 6 + length user + length n \<and> ?pre + length user + 11 + length n \<le> MAX_MAILBOX_NAME"
      using r b [of ?sp] b [of ?up] assms unfolding mboxname_tointernal_alt_def d Let_def
      by (auto split: if_splits)
    then show ?thesis by linarith
  qed
next
  assume r: "mboxname_toexternal cfg ns name userid = Some r"
  have "length z < length s" if "strchr s c = Some (d, z)" for s c d and z :: string using strchr_shorter [OF that] .
  then show "length r \<le> MAX_MAILBOX_NAME" using r
    by (fastforce simp: mboxname_toexternal_def Let_def split_def split: if_splits option.splits)
next
  assume r: "mboxname_toexternal_alt cfg ns name userid = Some r"
  then obtain u where u: "userid = Some u" by (cases userid) (auto simp: mboxname_toexternal_alt_def split: if_splits)
  obtain user z where z: "strip_own cfg u name = (user, z)" by fastforce
  have l: "length name \<le> MAX_MAILBOX_NAME" using r by (auto simp: mboxname_toexternal_alt_def split: if_splits)
  have "length z \<le> length name" using z by (auto simp: strip_own_def split: option.splits if_splits)
  then show "length r \<le> MAX_MAILBOX_NAME + length (prefix_shared ns)"
    using r l u z by (auto simp: mboxname_toexternal_alt_def Let_def MAX_MAILBOX_NAME_def split: if_splits bind_splits)
qed

text \<open>Who may use the names of a domain: its users, administrators of the default domain, and for the default domain its users.\<close>

definition may_use :: "name_config \<Rightarrow> namespace \<Rightarrow> string option \<Rightarrow> string option \<Rightarrow> bool" where
  "may_use cfg ns userid d =
     (if virtdomains cfg
      then (case (d, own_domain cfg (snd (user_split strrchr cfg userid))) of
          (None, e) \<Rightarrow> e = None
        | (Some d, None) \<Rightarrow> \<not> at_default cfg d \<and> isadmin ns
        | (Some d, Some e) \<Rightarrow> \<not> at_default cfg d \<and> strcase_eq e d)
      else d = None)"

text \<open>
  C35: The external name of a mailbox, given back by a user who may use its domain, denotes the same
  mailbox: \<^verbatim>\<open>mboxname_tointernal\<close> inverts \<^verbatim>\<open>mboxname_toexternal\<close> on every internal name that is not
  itself called \<^verbatim>\<open>inbox\<close> and has neither the external separator nor the signs of domains inside.
\<close>

theorem mailbox_name_roundtrip:
  assumes "may_use cfg ns userid d" and "length (domain_prefix d @ z) \<le> MAX_MAILBOX_NAME"
    and "\<not> is_inbox (hier_sep ns) (mboxname_hiersep_toexternal ns z 0)"
    and "CHR ''@'' \<notin> set (domain_prefix d @ z)" and "CHR ''!'' \<notin> set z" and "\<forall>x. d = Some x \<longrightarrow> CHR ''!'' \<notin> set x"
    and "hier_sep ns = CHR ''/'' \<longrightarrow> CHR ''/'' \<notin> set z"
  shows "(do { x \<leftarrow> mboxname_toexternal cfg ns (domain_prefix d @ z) userid; mboxname_tointernal cfg ns x userid }) =
    Some (domain_prefix d @ z)"
proof -
  let ?x = "mboxname_hiersep_toexternal ns z 0"
  have rt: "mboxname_hiersep_tointernal ns ?x 0 = z" using assms(7) by (intro hiersep_roundtrip) simp
  have at: "CHR ''@'' \<notin> set ?x" using assms(4) by (simp add: hiersep_at)
  have nobang: "strchr z (CHR ''!'') = None" using assms(5) by (simp add: strchr_None_iff)
  have noat: "strrchr ?x (CHR ''@'') = None" using at by (rule strrchr_None)
  show ?thesis
  proof (cases d)
    case None
    then have "mboxname_toexternal cfg ns (domain_prefix d @ z) userid = Some ?x"
      using assms(2) nobang by (simp add: mboxname_toexternal_def domain_prefix_def Let_def)
    moreover have "own_domain cfg (snd (user_split strrchr cfg userid)) = None"
      using assms(1) None by (auto simp: may_use_def own_domain_def user_split_def split: option.splits if_splits)
    then have "resolve_domain strrchr cfg ns ?x userid = Some (None, fst (user_split strrchr cfg userid), ?x)"
      using noat by (simp add: resolve_domain_def domain_prefix_def split_def Let_def)
    ultimately show ?thesis using assms(2,3) None rt by (simp add: mboxname_tointernal_def domain_prefix_def Let_def)
  next
    case (Some e)
    have v: "virtdomains cfg" using assms(1) Some by (auto simp: may_use_def split: if_splits)
    have p: "domain_prefix d @ z = e @ CHR ''!'' # z" using Some by (simp add: domain_prefix_def)
    have "CHR ''!'' \<notin> set e" "CHR ''@'' \<notin> set e" using assms(4,6) Some by (auto simp: domain_prefix_def)
    then have cut: "strchr (e @ CHR ''!'' # z) (CHR ''!'') = Some (e, z)" and at: "strrchr (?x @ CHR ''@'' # e) (CHR ''@'') = Some (?x, e)" by simp_all
    define own where "own = own_domain cfg (snd (user_split strrchr cfg userid))"
    have own: "\<not> at_default cfg e" "own = None \<and> isadmin ns \<or> (\<exists>x. own = Some x \<and> strcase_eq x e)"
      using assms(1) Some v by (auto simp: may_use_def own_def split: option.splits)
    have len: "length e + 1 \<le> MAX_MAILBOX_NAME" "length (domain_prefix own) \<le> MAX_MAILBOX_NAME"
      using assms(2) own(2) Some by (auto simp: domain_prefix_def dest!: strcase_eq_length)
    show ?thesis
    proof (cases "\<exists>u q. userid = Some u \<and> strchr u (CHR ''@'') = Some (q, e)")
      case True
      then obtain u q where u: "userid = Some u" "strchr u (CHR ''@'') = Some (q, e)" by blast
      then have "u = q @ CHR ''@'' # e" by (simp add: strchr_Some_iff)
      then have s: "user_split strrchr cfg userid = (q, Some e)" using u(1) v \<open>CHR ''@'' \<notin> set e\<close> by (simp add: user_split_def)
      have "mboxname_toexternal cfg ns (domain_prefix d @ z) userid = Some ?x"
        using assms(2) p cut u v by (simp add: mboxname_toexternal_def Let_def)
      moreover have "resolve_domain strrchr cfg ns ?x userid = Some (Some e, q, ?x)"
        using noat s own(1) len(1) by (simp add: resolve_domain_def own_domain_def domain_prefix_def)
      ultimately show ?thesis using assms(2,3) p rt by (simp add: mboxname_tointernal_def domain_prefix_def Let_def)
    next
      case False
      then have ne: "\<not> (case userid of None \<Rightarrow> False | Some u \<Rightarrow> (case strchr u (CHR ''@'') of None \<Rightarrow> False | Some (_, x) \<Rightarrow> x = e))"
        by (auto split: option.splits)
      have "mboxname_toexternal cfg ns (domain_prefix d @ z) userid = Some (?x @ CHR ''@'' # e)"
        using assms(2) p cut v ne by (simp add: mboxname_toexternal_def Let_def)
      moreover have "own \<noteq> None \<Longrightarrow> snd (user_split strrchr cfg userid) = own"
        by (auto simp: own_def own_domain_def split: option.splits if_splits)
      then have "resolve_domain strrchr cfg ns (?x @ CHR ''@'' # e) userid = Some (Some e, fst (user_split strrchr cfg userid), ?x)"
        using at v own len by (auto simp: resolve_domain_def split_def Let_def domain_prefix_def simp flip: own_def)
      ultimately show ?thesis using assms(2,3) p rt by (simp add: mboxname_tointernal_def domain_prefix_def Let_def)
    qed
  qed
qed

text \<open>
  A user owns the mailbox named after the user, in the domain of the user, and every mailbox
  below it, and no other.
\<close>

theorem userowns_iff:
  assumes "user_split strrchr cfg (Some u) = (user, ud)" and "CHR ''.'' \<notin> set user" and "NUL \<notin> set name"
    and "length (domain_prefix (own_domain cfg ud)) + length user + 5 \<le> MAX_MAILBOX_NAME"
  shows "mboxname_userownsmailbox cfg (Some u) name \<longleftrightarrow>
    (\<exists>r. name = domain_prefix (own_domain cfg ud) @ ''user.'' @ user @ r \<and> (r = [] \<or> hd r = CHR ''.''))"
proof -
  let ?i = "domain_prefix (own_domain cfg ud) @ ''user.'' @ user"
  have "strrchr ''INBOX'' (CHR ''@'') = None" by (simp add: strrchr_None)
  moreover have "is_inbox (CHR ''.'') ''INBOX''" by code_simp
  ultimately have "mboxname_tointernal cfg internal_namespace ''INBOX'' (Some u) = Some ?i"
    using assms(1,2,4) by (simp add: mboxname_tointernal_def resolve_domain_def internal_namespace_def names_defs)
  then have "mboxname_userownsmailbox cfg (Some u) name \<longleftrightarrow> strn_eq name ?i (length ?i) \<and>
      (char_at name (length ?i) = NUL \<or> char_at name (length ?i) = CHR ''.'')"
    by (simp only: mboxname_userownsmailbox_def option.case)
  also have "\<dots> \<longleftrightarrow> (\<exists>r. name = ?i @ r \<and> (r = [] \<or> hd r = CHR ''.''))"
  proof -
    have "char_at (?i @ r) (length ?i) = (case r of [] \<Rightarrow> NUL | c # _ \<Rightarrow> c)" for r
      by (cases r) (simp_all add: char_at_def nth_append)
    moreover have "(\<exists>r. name = ?i @ r) \<longleftrightarrow> strn_eq name ?i (length ?i)" using strn_eq_prefix [of ?i "length ?i" name] by simp
    moreover have "r = [] \<or> hd r \<noteq> NUL" if "name = ?i @ r" for r using that assms(3) by (cases r) auto
    ultimately show ?thesis by (fastforce split: list.splits)
  qed
  finally show ?thesis by simp
qed

section \<open>Witnesses\<close>

definition site :: name_config where
  "site = \<lparr>virtdomains = True, defdomain = Some ''a.org'', unixhierarchysep = True, altnamespace = False,
     userprefix = None, sharedprefix = None\<rparr>"

definition slashes :: namespace where
  "slashes = \<lparr>hier_sep = CHR ''/'', isalt = False, isadmin = False, prefix_inbox = ''INBOX/'', prefix_user = ''user/'',
     prefix_shared = []\<rparr>"

lemma site_sets: "mboxname_init_namespace site False = Some slashes"
  by (simp add: mboxname_init_namespace_def site_def slashes_def Let_def)

lemma site_lower: "map tolower ''a.org'' = ''a.org''" "map tolower ''b.org'' = ''b.org''" "map tolower ''B.org'' = ''b.org''"
  "map tolower ''inbox'' = ''inbox''" "map tolower ''user/'' = ''user/''"
  by code_simp+

lemmas site_eval = resolve_domain_def user_split_def own_domain_def at_default_def strrchr_def strchr_def is_inbox_def
  strncase_eq_def strcase_eq_def site_lower names_defs sep_tointernal_def sep_toexternal_def DOTCHAR_def MAX_MAILBOX_NAME_def
  site_def slashes_def


theorem mailbox_names_fit_witness:
  "\<exists>r. mboxname_toexternal site slashes ''b.org!user.joe.x^y'' (Some ''ann'') = Some r \<and> length r \<le> MAX_MAILBOX_NAME"
proof -
  have "mboxname_toexternal site slashes ''b.org!user.joe.x^y'' (Some ''ann'') = Some ''user/joe/x.y@b.org''"
    by (simp add: mboxname_toexternal_def site_eval)
  moreover have "CHR ''@'' \<notin> set (prefix_user slashes)" "CHR ''@'' \<notin> set (prefix_shared slashes)" by (simp_all add: slashes_def)
  ultimately show ?thesis using mailbox_names_fit by blast
qed

theorem mailbox_name_roundtrip_witness:
  "(do { x \<leftarrow> mboxname_toexternal site slashes (domain_prefix (Some ''b.org'') @ ''user.joe.x^y'') (Some ''ann@B.org'');
     mboxname_tointernal site slashes x (Some ''ann@B.org'') }) = Some (domain_prefix (Some ''b.org'') @ ''user.joe.x^y'')"
proof (rule mailbox_name_roundtrip)
  show "may_use site slashes (Some ''ann@B.org'') (Some ''b.org'')" by (simp add: may_use_def site_eval del: list.map(2))
  show "\<not> is_inbox (hier_sep slashes) (mboxname_hiersep_toexternal slashes ''user.joe.x^y'' 0)"
    by (simp add: site_eval) (simp add: tolower_def isupper_def)
qed (simp_all add: domain_prefix_def MAX_MAILBOX_NAME_def)

theorem userowns_iff_witness:
  "mboxname_userownsmailbox site (Some ''ann@b.org'') ''b.org!user.ann.work''"
proof -
  have "user_split strrchr site (Some ''ann@b.org'') = (''ann'', Some ''b.org'')"
    "domain_prefix (own_domain site (Some ''b.org'')) = ''b.org!''" by (simp_all add: site_eval del: list.map(2))
  then show ?thesis
    using userowns_iff [of site "''ann@b.org''" "''ann''" "Some ''b.org''" "''b.org!user.ann.work''"]
    by (simp add: MAX_MAILBOX_NAME_def)
qed

end
