(* ===== verification/Glob.thy ===== *)
theory Glob
  imports Prelude
begin

text \<open>
  Patterns of mailbox names, \<^verbatim>\<open>lib/glob.c\<close>: the preparation of a pattern and the test of a name.

  A pointer into the pattern or the name is its index; reading at the end of either gives NUL. The
  two versions of the main loop, with and without case, differ in the conversion \<^verbatim>\<open>conv\<close> of the
  characters of the name alone. \<^verbatim>\<open>mn\<close> stands for \<^verbatim>\<open>min\<close>; it is \<^verbatim>\<open>None\<close> when the caller passes \<^verbatim>\<open>NULL\<close>.
\<close>

section \<open>Data\<close>

record glob_flags =
  GLOB_ICASE :: bool
  GLOB_SUBSTRING :: bool
  GLOB_HIERARCHY :: bool
  GLOB_INBOXCASE :: bool

record glob =
  gl_flags :: glob_flags
  gl_suppress :: "string option"
  gl_gstar :: "nat option"
  gl_ghier :: "nat option"
  gl_gptr :: nat
  gl_sep_char :: char
  gl_inbox :: string
  gl_str :: string

abbreviation STAR :: char where "STAR \<equiv> CHR ''*''"
abbreviation PERCENT :: char where "PERCENT \<equiv> CHR ''%''"
abbreviation QUERY :: char where "QUERY \<equiv> CHR 0x3F"

definition wild :: "char \<Rightarrow> bool" where
  "wild c \<longleftrightarrow> c = STAR \<or> c = PERCENT \<or> c = QUERY"

section \<open>Preparing a pattern\<close>

text \<open>Skipping a run of wildcards: a \<^verbatim>\<open>?\<close> for each that is not a star, and the rest.\<close>

fun skip_wild :: "string \<Rightarrow> string \<times> string" where
  "skip_wild [] = ([], [])"
| "skip_wild (c # s) =
     (if wild c then (let (q, r) = skip_wild s in (if c \<noteq> STAR then QUERY # q else q, r)) else ([], c # s))"

fun skip_stars :: "string \<Rightarrow> string" where
  "skip_stars [] = []"
| "skip_stars (c # s) = (if c = STAR \<or> (c = PERCENT \<and> s \<noteq> []) then skip_stars s else c # s)"

lemma skip_wild_shorter: "length (snd (skip_wild s)) \<le> length s"
  by (induction s) (auto simp: split_def Let_def)

lemma skip_stars_shorter: "length (skip_stars s) \<le> length s"
  by (induction s) auto

lemma dropWhile_shorter: "length (dropWhile P s) \<le> length s"
  by (induction s) auto

function old_pattern :: "string \<Rightarrow> string" where
  "old_pattern [] = []"
| "old_pattern (c # s) =
     (if c = STAR then fst (skip_wild (c # s)) @ STAR # old_pattern (snd (skip_wild (c # s)))
      else (if c = PERCENT then QUERY else c) # old_pattern s)"
  by pat_completeness auto
termination
proof (relation "measure length")
  fix c s assume "c = STAR"
  then show "(snd (skip_wild (c # s)), c # s) \<in> measure length"
    using skip_wild_shorter [of s] by (simp add: wild_def split_def Let_def le_imp_less_Suc)
qed auto

lemma deref_STAR: "deref r = STAR \<Longrightarrow> \<exists>r'. r = STAR # r'"
  by (cases r) auto

function new_pattern :: "string \<Rightarrow> string" where
  "new_pattern [] = []"
| "new_pattern (c # s) =
     (if c = STAR \<or> c = PERCENT
      then (let r = dropWhile (\<lambda>x. x = PERCENT) (c # s) in
        if deref r = STAR then STAR # new_pattern (skip_stars r) else PERCENT # new_pattern r)
      else c # new_pattern s)"
  by pat_completeness auto
termination
proof (relation "measure length")
  fix c s r assume a: "c = STAR \<or> c = PERCENT" "r = dropWhile (\<lambda>x. x = PERCENT) (c # s)" "deref r = STAR"
  obtain r' where "r = STAR # r'" using deref_STAR [OF a(3)] by blast
  then have "length (skip_stars r) < length r" using skip_stars_shorter [of r'] by simp
  then show "(skip_stars r, c # s) \<in> measure length"
    using dropWhile_shorter [of "\<lambda>x. x = PERCENT" "c # s"] a(2) by simp
next
  fix c s r assume a: "c = STAR \<or> c = PERCENT" "r = dropWhile (\<lambda>x. x = PERCENT) (c # s)" "deref r \<noteq> STAR"
  then have "c = PERCENT" by auto
  then show "(r, c # s) \<in> measure length" using a(2) dropWhile_shorter [of "\<lambda>x. x = PERCENT" s] by (simp add: le_imp_less_Suc)
qed auto

definition glob_pattern :: "glob_flags \<Rightarrow> string \<Rightarrow> string" where
  "glob_pattern f s =
     (let newglob = GLOB_HIERARCHY f; sub = GLOB_SUBSTRING f;
          (front, s) = (if \<not> sub then ([], s)
            else if newglob then ([STAR], skip_stars s)
            else (let (q, r) = skip_wild s in (q @ [STAR], r)));
          d = front @ (if newglob then new_pattern s else old_pattern s);
          d = (if sub \<and> (d = [] \<or> last d \<noteq> STAR)
            then (if newglob then rev (dropWhile (\<lambda>x. x = PERCENT) (rev d)) else d) @ [STAR] else d)
      in if GLOB_ICASE f then map tolower d else d)"

text \<open>
  The match of the pattern with \<^verbatim>\<open>INBOX\<close> in any case: the positions it ends at, the part of \<^verbatim>\<open>INBOX\<close>
  that is left, and \<^verbatim>\<open>INBOX\<close> in the case of the pattern.
\<close>

fun copy_equal :: "string \<Rightarrow> nat \<Rightarrow> string \<Rightarrow> string \<Rightarrow> nat \<times> string \<times> string" where
  "copy_equal s i [] done = (i, [], done)"
| "copy_equal s i (c # dst) done =
     (if tolower (char_at s i) = tolower c then copy_equal s (i + 1) dst (done @ [char_at s i]) else (i, c # dst, done))"

lemma copy_equal_ge: "copy_equal s i dst d = (i', dst', d') \<Longrightarrow> i \<le> i'"
  by (induction s i dst d rule: copy_equal.induct) (fastforce split: if_splits)+

function prematch :: "string \<Rightarrow> nat \<Rightarrow> string \<Rightarrow> string \<Rightarrow> nat option \<Rightarrow> nat option \<Rightarrow>
  nat option \<times> nat option \<times> nat \<times> string \<times> string" where
  "prematch s i dst done gstar ghier =
     (let (i, dst, done) = copy_equal s i dst done in
      if char_at s i \<noteq> STAR \<and> char_at s i \<noteq> PERCENT then (gstar, ghier, i, dst, done)
      else
        let (gstar, ghier) = (if char_at s i = STAR then (Some (i + 1), None) else (gstar, Some (i + 1)));
            i = i + 1;
            skipped = takeWhile (\<lambda>c. tolower (char_at s i) \<noteq> tolower c) dst;
            (dst, done) = (if char_at s i \<noteq> PERCENT then (drop (length skipped) dst, done @ skipped) else (dst, done))
        in if char_at s i \<noteq> NUL \<and> dst \<noteq> [] then prematch s i dst done gstar ghier
           else (gstar, ghier, i, dst, done))"
  by pat_completeness auto
termination
  by (relation "measure (\<lambda>(s, i, dst, done, gstar, ghier). length s - i)")
    (auto simp: char_at_def dest!: copy_equal_ge [OF sym] split: if_splits)

definition glob_init_suppress :: "string \<Rightarrow> glob_flags \<Rightarrow> string option \<Rightarrow> glob" where
  "glob_init_suppress s f suppress =
     (let p = glob_pattern f s;
          g = \<lparr>gl_flags = f, gl_suppress = None, gl_gstar = None, gl_ghier = None, gl_gptr = 0, gl_sep_char = CHR ''.'',
            gl_inbox = ''INBOX'', gl_str = p\<rparr>;
          g = (if GLOB_INBOXCASE f
            then (let (gstar, ghier, i, dst, done) = prematch p 0 ''INBOX'' [] None None in
              g\<lparr>gl_gstar := gstar, gl_ghier := ghier, gl_gptr := i, gl_inbox := done @ dst,
                gl_flags := (if dst \<noteq> [] then f\<lparr>GLOB_INBOXCASE := False\<rparr> else f)\<rparr>)
            else g)
      in case suppress of
        None \<Rightarrow> g
      | Some u \<Rightarrow>
          if \<not> strn_eq u p (length u) \<or> (length u < length p \<and> p ! length u \<noteq> gl_sep_char g \<and> \<not> (p ! length u = STAR \<or> p ! length u = PERCENT))
          then (let k = length (takeWhile (\<lambda>(a, b). a = b) (zip p u)) in
            if GLOB_INBOXCASE (gl_flags g) \<or> char_at p k = STAR \<or> char_at p k = PERCENT \<or> length u \<le> k
            then g\<lparr>gl_suppress := Some u\<rparr> else g)
          else g)"

section \<open>Testing a name\<close>

record glob_state =
  st_gptr :: nat
  st_ptr :: nat
  st_gstar :: "nat option"
  st_pstar :: nat
  st_ghier :: "nat option"
  st_phier :: nat

datatype glob_step = Return int "int option" | Break nat nat | Next glob_state

text \<open>As far as the pattern goes without a wildcard; and the search for the next character behind a wildcard.\<close>

function literals :: "bool \<Rightarrow> (char \<Rightarrow> char) \<Rightarrow> string \<Rightarrow> string \<Rightarrow> nat \<Rightarrow> nat \<Rightarrow> nat \<times> nat" where
  "literals newglob conv g t i j =
     (if char_at g i \<noteq> STAR \<and> char_at g i \<noteq> PERCENT \<and> j < length t \<and>
        (char_at g i = conv (t ! j) \<or> (\<not> newglob \<and> char_at g i = QUERY))
      then literals newglob conv g t (i + 1) (j + 1) else (i, j))"
  by pat_completeness auto
termination
  by (relation "measure (\<lambda>(n, c, g, t, i, j). length t - j)") auto

declare literals.simps [simp del]

definition seek :: "(char \<Rightarrow> bool) \<Rightarrow> string \<Rightarrow> nat \<Rightarrow> nat" where
  "seek P t j = j + length (takeWhile P (drop j t))"

definition partial_match :: "glob \<Rightarrow> string \<Rightarrow> int option \<Rightarrow> nat \<Rightarrow> nat \<Rightarrow> bool" where
  "partial_match g t mn i j \<longleftrightarrow> char_at (gl_str g) i = NUL \<and>
     (case mn of None \<Rightarrow> False | Some m \<Rightarrow> m < int j) \<and> j < length t \<and> t ! j = gl_sep_char g"

definition hier_part :: "(char \<Rightarrow> char) \<Rightarrow> glob \<Rightarrow> string \<Rightarrow> int option \<Rightarrow> glob_state \<Rightarrow> glob_step \<times> bool" where
  "hier_part conv g t mn s = (case st_ghier s of
     None \<Rightarrow> (Next s, False)
   | Some h \<Rightarrow>
       (let p = gl_str g; sep = gl_sep_char g;
            over = (char_at p h = NUL \<and> (case st_gstar s of None \<Rightarrow> False | Some k \<Rightarrow> char_at p k = PERCENT));
            pos = (\<lambda>j. case mn of None \<Rightarrow> False | Some m \<Rightarrow> int j < m);
            stop = (\<lambda>j. char_at p h = conv (t ! j) \<or> (t ! j = sep \<and> \<not> (over \<and> pos j)));
            j = st_phier s + length (takeWhile (\<lambda>j. \<not> stop j) [st_phier s..<length t])
        in if length t \<le> j then (Break h j, False)
           else if t ! j = sep
           then if char_at p h = NUL \<and> (case mn of None \<Rightarrow> False | Some m \<Rightarrow> m < int j)
             then (Return (int j) (Some (if st_gstar s \<noteq> None then int j + 1 else - 1)), False)
             else (Next (s\<lparr>st_ptr := j, st_ghier := None\<rparr>), True)
           else (Next (s\<lparr>st_phier := j + 1, st_ptr := j + 1, st_gptr := h + 1\<rparr>), False)))"

definition star_part :: "(char \<Rightarrow> char) \<Rightarrow> glob \<Rightarrow> string \<Rightarrow> int option \<Rightarrow> glob_state \<Rightarrow> glob_step" where
  "star_part conv g t mn s = (case (st_gstar s, st_ghier s) of
     (Some k, None) \<Rightarrow>
       if char_at (gl_str g) k = NUL then Break (st_gptr s) (length t)
       else (let b = seek (\<lambda>c. char_at (gl_str g) k \<noteq> conv c) t (st_pstar s) in
         if length t \<le> b
         then if partial_match g t mn (st_gptr s) (st_ptr s) then Return (int (st_ptr s)) (Some (int (st_ptr s) + 1))
           else Break k (st_ptr s)
         else Next (s\<lparr>st_pstar := b + 1, st_ptr := b + 1, st_gptr := k + 1\<rparr>))
   | _ \<Rightarrow> Next s)"

text \<open>One turn of the loop. After \<^verbatim>\<open>Next\<close> the condition of the loop has been tested.\<close>

definition glob_turn :: "(char \<Rightarrow> char) \<Rightarrow> glob \<Rightarrow> string \<Rightarrow> int option \<Rightarrow> glob_state \<Rightarrow> glob_step" where
  "glob_turn conv g t mn s =
     (let p = gl_str g; (i, j) = literals (GLOB_HIERARCHY (gl_flags g)) conv p t (st_gptr s) (st_ptr s);
          s = s\<lparr>st_gptr := i, st_ptr := j\<rparr>
      in if char_at p i = NUL \<and> j = length t then Break i j
      else
        let s = (if char_at p i = STAR then s\<lparr>st_ghier := None, st_gstar := Some (i + 1), st_gptr := i + 1, st_pstar := j\<rparr> else s);
            i = st_gptr s;
            s = (if char_at p i = PERCENT then s\<lparr>st_ghier := Some (i + 1), st_gptr := i + 1, st_phier := j\<rparr> else s)
        in case hier_part conv g t mn s of
          (Next s, sepfound) \<Rightarrow>
            (case star_part conv g t mn s of
               Next s \<Rightarrow>
                 if partial_match g t mn (st_gptr s) (st_ptr s) then Return (int (st_ptr s)) (Some (int (st_ptr s) + 1))
                 else if char_at p (st_gptr s) = STAR \<or> char_at p (st_gptr s) = PERCENT \<or>
                   ((st_gstar s \<noteq> None \<or> st_ghier s \<noteq> None \<or> sepfound) \<and> (char_at p (st_gptr s) \<noteq> NUL \<or> st_ptr s \<noteq> length t))
                 then Next s
                 else Break (st_gptr s) (st_ptr s)
             | r \<Rightarrow> r)
        | (r, _) \<Rightarrow> r)"

partial_function (option) glob_loop :: "(char \<Rightarrow> char) \<Rightarrow> glob \<Rightarrow> string \<Rightarrow> int option \<Rightarrow> glob_state \<Rightarrow> (int \<times> int option) option" where
  "glob_loop conv g t mn s = (case glob_turn conv g t mn s of
     Return r m \<Rightarrow> Some (r, m)
   | Break i j \<Rightarrow> Some (if char_at (gl_str g) i = NUL \<and> j = length t then int j else - 1, map_option (\<lambda>_. - 1) mn)
   | Next s \<Rightarrow> glob_loop conv g t mn s)"

text \<open>
  \<^verbatim>\<open>len\<close> is the length of the name, 0 for the whole of it; it is not inside a prefix that is skipped.
\<close>

definition glob_test :: "glob \<Rightarrow> string \<Rightarrow> nat \<Rightarrow> int option \<Rightarrow> (int \<times> int option) option" where
  "glob_test g name len mn =
     (if case mn of None \<Rightarrow> False | Some m \<Rightarrow> m < 0 then Some (- 1, mn)
      else
        let t = (if len = 0 then name else take len name);
            start = \<lparr>st_gptr = 0, st_ptr = 0, st_gstar = None, st_pstar = 0, st_ghier = None, st_phier = 0\<rparr>;
            skip = (\<lambda>n s. s\<lparr>st_ptr := st_ptr s + n, st_pstar := st_ptr s + n, st_phier := st_ptr s + n,
              st_gstar := gl_gstar g, st_ghier := gl_ghier g, st_gptr := gl_gptr g\<rparr>);
            s = (if GLOB_INBOXCASE (gl_flags g) \<and> strn_eq name ''INBOX'' 5 then skip 5 start else start);
            conv = (if GLOB_ICASE (gl_flags g) then tolower else id)
        in case gl_suppress g of
          Some u \<Rightarrow>
            (let r = drop (st_ptr s) name in
             if strn_eq u r (length u) \<and> (char_at r (length u) = NUL \<or> char_at r (length u) = gl_sep_char g)
             then if \<not> GLOB_INBOXCASE (gl_flags g) then Some (- 1, map_option (\<lambda>_. - 1) mn)
               else glob_loop conv g t mn (skip (length u) s)
             else glob_loop conv g t mn s)
        | None \<Rightarrow> glob_loop conv g t mn s)"

section \<open>The language of a pattern\<close>

text \<open>
  Without \<^verbatim>\<open>GLOB_HIERARCHY\<close>: a star stands for any text, a question or percent mark for one character.
\<close>

fun pattern_matches :: "(char \<Rightarrow> char) \<Rightarrow> string \<Rightarrow> string \<Rightarrow> bool" where
  "pattern_matches conv [] t \<longleftrightarrow> t = []"
| "pattern_matches conv (c # p) [] \<longleftrightarrow> c = STAR \<and> pattern_matches conv p []"
| "pattern_matches conv (c # p) (x # t) \<longleftrightarrow>
     (if c = STAR then pattern_matches conv p (x # t) \<or> pattern_matches conv (c # p) t
      else (c = QUERY \<or> c = PERCENT \<or> c = conv x) \<and> pattern_matches conv p t)"

lemma star_matches: "pattern_matches conv (STAR # p) t \<longleftrightarrow> (\<exists>k \<le> length t. pattern_matches conv p (drop k t))"
proof (induction t)
  case (Cons x t)
  have "(\<exists>k \<le> length (x # t). pattern_matches conv p (drop k (x # t))) \<longleftrightarrow>
      pattern_matches conv p (x # t) \<or> (\<exists>k \<le> length t. pattern_matches conv p (drop k t))"
    by (metis (no_types, lifting) Suc_le_mono bot_nat_0.extremum drop0 drop_Suc_Cons length_Cons not0_implies_Suc)
  then show ?case using Cons by simp
qed simp

lemma star_matches_suffix:
  "pattern_matches conv (STAR # p) (drop k t) \<Longrightarrow> pattern_matches conv (STAR # p) t"
proof (induction k arbitrary: t)
  case (Suc k)
  then show ?case by (cases t) auto
qed simp

lemma star_star: "pattern_matches conv (STAR # STAR # s) t \<longleftrightarrow> pattern_matches conv (STAR # s) t"
  by (induction t) auto

lemma star_one:
  "c = QUERY \<or> c = PERCENT \<Longrightarrow> pattern_matches conv (STAR # c # s) t \<longleftrightarrow>
   (case t of [] \<Rightarrow> False | _ # t' \<Rightarrow> pattern_matches conv (STAR # s) t')"
proof (induction t)
  case (Cons x t)
  then show ?case by (cases t) auto
qed auto

lemma ex_le_Suc: "(\<exists>k \<le> Suc n. Suc m \<le> k \<and> Q k) \<longleftrightarrow> (\<exists>k \<le> n. m \<le> k \<and> Q (Suc k))"
proof
  assume "\<exists>k \<le> Suc n. Suc m \<le> k \<and> Q k"
  then obtain k where "k \<le> Suc n" "Suc m \<le> k" "Q k" by blast
  then show "\<exists>k \<le> n. m \<le> k \<and> Q (Suc k)" by (cases k) auto
qed auto

lemma ex_le_add: "(m :: nat) \<le> n \<and> (\<exists>k \<le> n - m. Q (k + m)) \<longleftrightarrow> (\<exists>k \<le> n. m \<le> k \<and> Q k)"
proof
  assume "m \<le> n \<and> (\<exists>k \<le> n - m. Q (k + m))"
  then obtain k where "m \<le> n" "k \<le> n - m" "Q (k + m)" by blast
  then show "\<exists>k \<le> n. m \<le> k \<and> Q k" by (intro exI [of _ "k + m"]) simp
next
  assume "\<exists>k \<le> n. m \<le> k \<and> Q k"
  then obtain k where "k \<le> n" "m \<le> k" "Q k" by blast
  then show "m \<le> n \<and> (\<exists>k \<le> n - m. Q (k + m))" by (intro conjI exI [of _ "k - m"]) simp_all
qed

text \<open>The run of wildcards behind a star: each that is not a star asks for one more character.\<close>

lemma skip_wild_matches:
  "pattern_matches conv (STAR # s) t \<longleftrightarrow>
   (\<exists>k \<le> length t. length (fst (skip_wild s)) \<le> k \<and> pattern_matches conv (snd (skip_wild s)) (drop k t))"
proof (induction s arbitrary: t)
  case Nil
  then show ?case by (auto simp: star_matches)
next
  case (Cons c s)
  consider "\<not> wild c" | "c = STAR" | "c \<noteq> STAR" "c = QUERY \<or> c = PERCENT" by (auto simp: wild_def)
  then show ?case
  proof cases
    case 1
    then show ?thesis by (simp add: star_matches)
  next
    case 2
    then show ?thesis using Cons star_star by (simp add: wild_def split_def Let_def)
  next
    case 3
    have w: "skip_wild (c # s) = (QUERY # fst (skip_wild s), snd (skip_wild s))"
      using 3 by (auto simp: wild_def split_def Let_def)
    show ?thesis
    proof (cases t)
      case (Cons x t')
      have "(\<exists>k \<le> length t. length (fst (skip_wild (c # s))) \<le> k \<and> pattern_matches conv (snd (skip_wild (c # s))) (drop k t)) \<longleftrightarrow>
          (\<exists>k \<le> length t'. length (fst (skip_wild s)) \<le> k \<and> pattern_matches conv (snd (skip_wild s)) (drop k t'))"
        unfolding w Cons by (simp add: ex_le_Suc)
      then show ?thesis using star_one [OF 3(2), of conv s t] Cons.IH [of t'] Cons by simp
    qed (use 3(1) w in simp)
  qed
qed

lemma queries_match:
  "(\<forall>c \<in> set q. c = QUERY) \<Longrightarrow> pattern_matches conv (q @ p) t \<longleftrightarrow> length q \<le> length t \<and> pattern_matches conv p (drop (length q) t)"
proof (induction q arbitrary: t)
  case (Cons c q)
  then show ?case by (cases t) auto
qed simp

lemma skip_wild_queries: "\<forall>c \<in> set (fst (skip_wild s)). c = QUERY"
  by (induction s) (auto simp: split_def Let_def)

lemma old_pattern_matches: "pattern_matches conv (old_pattern s) t \<longleftrightarrow> pattern_matches conv s t"
proof (induction s arbitrary: t rule: old_pattern.induct)
  case (2 c s)
  show ?case
  proof (cases "c = STAR")
    case True
    let ?q = "fst (skip_wild s)" and ?r = "snd (skip_wild s)"
    have w: "skip_wild (STAR # s) = (?q, ?r)" by (simp add: wild_def split_def Let_def)
    have "pattern_matches conv (old_pattern (c # s)) t \<longleftrightarrow> pattern_matches conv (?q @ STAR # old_pattern ?r) t"
      using True w by simp
    also have "\<dots> \<longleftrightarrow> length ?q \<le> length t \<and> pattern_matches conv (STAR # old_pattern ?r) (drop (length ?q) t)"
      by (rule queries_match [OF skip_wild_queries])
    also have "\<dots> \<longleftrightarrow> length ?q \<le> length t \<and> (\<exists>k \<le> length t - length ?q. pattern_matches conv ?r (drop k (drop (length ?q) t)))"
      using 2(1) True w by (simp add: star_matches)
    also have "\<dots> \<longleftrightarrow> (\<exists>k \<le> length t. length ?q \<le> k \<and> pattern_matches conv ?r (drop k t))"
      using ex_le_add [of "length ?q" "length t" "\<lambda>k. pattern_matches conv ?r (drop k t)"] by simp
    finally show ?thesis using True skip_wild_matches by simp
  next
    case False
    then show ?thesis using 2(2) by (cases t) auto
  qed
qed simp

section \<open>The loop without hierarchy\<close>

text \<open>A pattern as the preparation leaves it: no percent sign, and behind a star neither a star nor a question mark.\<close>

definition settled :: "string \<Rightarrow> bool" where
  "settled p \<longleftrightarrow> NUL \<notin> set p \<and> PERCENT \<notin> set p \<and>
     (\<forall>i. Suc i < length p \<longrightarrow> p ! i = STAR \<longrightarrow> p ! Suc i \<noteq> STAR \<and> p ! Suc i \<noteq> QUERY)"

lemma settled_char:
  assumes "settled p"
  shows "char_at p i = NUL \<longleftrightarrow> length p \<le> i" and "char_at p i \<noteq> PERCENT"
proof -
  have "p ! i \<noteq> NUL" "p ! i \<noteq> PERCENT" if "i < length p"
    using assms nth_mem [OF that] by (auto simp: settled_def)
  then show "char_at p i = NUL \<longleftrightarrow> length p \<le> i" "char_at p i \<noteq> PERCENT"
    by (cases "i < length p"; simp add: char_at_def)+
qed

definition matches_at :: "(char \<Rightarrow> char) \<Rightarrow> string \<Rightarrow> string \<Rightarrow> nat \<Rightarrow> nat \<Rightarrow> bool" where
  "matches_at conv p t i j \<longleftrightarrow> pattern_matches conv (drop i p) (drop j t)"

definition star_count :: "string \<Rightarrow> nat \<Rightarrow> nat" where
  "star_count p i = length (filter (\<lambda>c. c = STAR) (drop i p))"

lemma matches_at_step:
  assumes "i < length p" and "p ! i \<noteq> STAR" and "j < length t"
  shows "matches_at conv p t i j \<longleftrightarrow> (p ! i = QUERY \<or> p ! i = PERCENT \<or> p ! i = conv (t ! j)) \<and> matches_at conv p t (Suc i) (Suc j)"
  using assms by (simp add: matches_at_def Cons_nth_drop_Suc [symmetric])

lemma matches_at_end: "length p \<le> i \<Longrightarrow> matches_at conv p t i j \<longleftrightarrow> length t \<le> j"
  by (simp add: matches_at_def)

lemma matches_at_no_text:
  "i < length p \<Longrightarrow> p ! i \<noteq> STAR \<Longrightarrow> length t \<le> j \<Longrightarrow> \<not> matches_at conv p t i j"
  by (simp add: matches_at_def Cons_nth_drop_Suc [symmetric])

lemma literals_correct:
  assumes "settled p" and "\<And>c. c \<in> set t \<Longrightarrow> conv c \<noteq> NUL"
  shows "literals False conv p t i j = (i', j') \<Longrightarrow> j \<le> length t \<Longrightarrow>
    i \<le> i' \<and> j' = j + (i' - i) \<and> j' \<le> length t \<and> (\<forall>x. i \<le> x \<longrightarrow> x < i' \<longrightarrow> x < length p \<and> p ! x \<noteq> STAR) \<and>
    (matches_at conv p t i j \<longleftrightarrow> matches_at conv p t i' j') \<and>
    (char_at p i' = STAR \<or> (matches_at conv p t i' j' \<longleftrightarrow> char_at p i' = NUL \<and> j' = length t))"
proof (induction "length t - j" arbitrary: i j)
  case 0
  then have j: "j = length t" by simp
  have "literals False conv p t i j = (i, j)" using j by (subst literals.simps) simp
  then have "i' = i" "j' = j" using 0(2) by simp_all
  then show ?case using j settled_char(1) [OF assms(1), of i] matches_at_end [of p i conv t j] matches_at_no_text [of i p t j conv]
    by (cases "i < length p") (auto simp: char_at_def)
next
  case (Suc n)
  then have j: "j < length t" by simp
  have nul: "conv (t ! j) \<noteq> NUL" using assms(2) j by simp
  show ?case
  proof (cases "char_at p i \<noteq> STAR \<and> (char_at p i = conv (t ! j) \<or> char_at p i = QUERY)")
    case True
    then have i: "i < length p" using nul by (auto simp: char_at_def split: if_splits)
    have "literals False conv p t i j = literals False conv p t (Suc i) (Suc j)"
      using True j settled_char(2) [OF assms(1), of i] by (subst literals.simps) simp
    then have rec: "literals False conv p t (Suc i) (Suc j) = (i', j')" using Suc.prems(1) by simp
    have "matches_at conv p t i j \<longleftrightarrow> matches_at conv p t (Suc i) (Suc j)"
      using matches_at_step [OF i _ j, of conv] True i by (auto simp: char_at_def)
    moreover have ih: "Suc i \<le> i' \<and> j' = Suc j + (i' - Suc i) \<and> j' \<le> length t \<and>
        (\<forall>x. Suc i \<le> x \<longrightarrow> x < i' \<longrightarrow> x < length p \<and> p ! x \<noteq> STAR) \<and>
        (matches_at conv p t (Suc i) (Suc j) \<longleftrightarrow> matches_at conv p t i' j') \<and>
        (char_at p i' = STAR \<or> (matches_at conv p t i' j' \<longleftrightarrow> char_at p i' = NUL \<and> j' = length t))"
      by (rule Suc.hyps(1) [OF _ rec]) (use Suc.hyps(2) j in simp_all)
    moreover have "x < length p \<and> p ! x \<noteq> STAR" if "i \<le> x" "x < i'" for x
      using ih that True i by (cases "x = i") (simp_all add: char_at_def)
    moreover have "i \<le> i'" "j' = j + (i' - i)" using ih by linarith+
    ultimately show ?thesis by blast
  next
    case False
    then have "literals False conv p t i j = (i, j)" by (subst literals.simps) auto
    then have e: "i' = i" "j' = j" using Suc.prems(1) by simp_all
    have "matches_at conv p t i j \<longleftrightarrow> char_at p i = NUL \<and> j = length t" if "char_at p i \<noteq> STAR"
    proof (cases "i < length p")
      case True
      then show ?thesis using False that j matches_at_step [OF True _ j, of conv] settled_char [OF assms(1), of i] by (auto simp: char_at_def)
    next
      case False
      then show ?thesis using j matches_at_end [of p i conv t j] by (simp add: char_at_def)
    qed
    then show ?thesis using e j by auto
  qed
qed



definition star_at :: "(char \<Rightarrow> char) \<Rightarrow> string \<Rightarrow> string \<Rightarrow> nat \<Rightarrow> nat \<Rightarrow> bool" where
  "star_at conv p t k b \<longleftrightarrow> pattern_matches conv (STAR # drop k p) (drop b t)"

lemma matches_at_star:
  "i < length p \<Longrightarrow> p ! i = STAR \<Longrightarrow> matches_at conv p t i j \<longleftrightarrow> star_at conv p t (Suc i) j"
  by (simp add: matches_at_def star_at_def Cons_nth_drop_Suc [symmetric])

lemma star_at_end: "length p \<le> k \<Longrightarrow> star_at conv p t k b"
  by (auto simp: star_at_def star_matches intro: exI [of _ "length t - b"])

lemma star_at_iff: "b \<le> length t \<Longrightarrow> star_at conv p t k b \<longleftrightarrow> (\<exists>m. b \<le> m \<and> m \<le> length t \<and> matches_at conv p t k m)"
proof
  assume "b \<le> length t" "star_at conv p t k b"
  then obtain n where "n \<le> length t - b" "matches_at conv p t k (n + b)"
    by (auto simp: star_at_def star_matches matches_at_def)
  then show "\<exists>m. b \<le> m \<and> m \<le> length t \<and> matches_at conv p t k m" using \<open>b \<le> length t\<close> by (intro exI [of _ "n + b"]) simp
next
  assume "b \<le> length t" "\<exists>m. b \<le> m \<and> m \<le> length t \<and> matches_at conv p t k m"
  then obtain m where "b \<le> m" "m \<le> length t" "matches_at conv p t k m" by blast
  then show "star_at conv p t k b"
    unfolding star_at_def star_matches matches_at_def by (intro exI [of _ "m - b"]) simp
qed

lemma seek_step:
  "seek P t b = (if b < length t \<and> P (t ! b) then seek P t (Suc b) else b)"
  by (cases "b < length t") (simp_all add: seek_def Cons_nth_drop_Suc [symmetric])

text \<open>The search behind a star goes to the first place the character behind it stands.\<close>

lemma star_at_first:
  assumes "k < length p" and "p ! k \<noteq> STAR" "p ! k \<noteq> QUERY" "p ! k \<noteq> PERCENT"
  shows "b \<le> length t \<Longrightarrow> c = seek (\<lambda>x. p ! k \<noteq> conv x) t b \<Longrightarrow> b \<le> c \<and>
    (star_at conv p t k b \<longleftrightarrow> c < length t \<and> (matches_at conv p t (Suc k) (Suc c) \<or> star_at conv p t k (Suc c)))"
proof (induction "length t - b" arbitrary: b)
  case 0
  then have "c = b" "b = length t" by (simp_all add: seek_step [of _ t b])
  then show ?case using assms by (simp add: star_at_def Cons_nth_drop_Suc [symmetric])
next
  case (Suc n)
  then have b: "b < length t" by simp
  have step: "star_at conv p t k b \<longleftrightarrow> matches_at conv p t k b \<or> star_at conv p t k (Suc b)"
    using b by (simp add: star_at_def matches_at_def Cons_nth_drop_Suc [symmetric])
  have one: "matches_at conv p t k b \<longleftrightarrow> p ! k = conv (t ! b) \<and> matches_at conv p t (Suc k) (Suc b)"
    using matches_at_step [OF assms(1,2) b] assms by simp
  show ?case
  proof (cases "p ! k = conv (t ! b)")
    case True
    then have "c = b" using Suc.prems(2) by (simp add: seek_step [of _ t b])
    then show ?thesis using True step one b by simp
  next
    case False
    then have "c = seek (\<lambda>x. p ! k \<noteq> conv x) t (Suc b)" using Suc.prems(2) b by (simp add: seek_step [of _ t b])
    then have "Suc b \<le> c \<and> (star_at conv p t k (Suc b) \<longleftrightarrow>
        c < length t \<and> (matches_at conv p t (Suc k) (Suc c) \<or> star_at conv p t k (Suc c)))"
      using Suc.hyps(1) [of "Suc b"] Suc.hyps(2) b by simp
    then show ?thesis using False step one by auto
  qed
qed

lemma matches_at_run:
  "matches_at conv p t x y \<Longrightarrow> y \<le> length t \<Longrightarrow> (\<forall>z. x \<le> z \<longrightarrow> z < x + n \<longrightarrow> z < length p \<and> p ! z \<noteq> STAR) \<Longrightarrow>
   matches_at conv p t (x + n) (y + n) \<and> y + n \<le> length t"
proof (induction n arbitrary: x y)
  case (Suc n)
  have x: "x < length p" "p ! x \<noteq> STAR" using Suc.prems(3) by simp_all
  have y: "y < length t" using Suc.prems(1,2) matches_at_no_text [OF x, of t y conv] by (cases "length t \<le> y") auto
  have "matches_at conv p t (Suc x) (Suc y)" using Suc.prems(1) matches_at_step [OF x y, of conv] by simp
  then show ?case using Suc.IH [of "Suc x" "Suc y"] Suc.prems(3) y by simp
qed simp

text \<open>A star that is found makes the places behind the last one needless.\<close>

lemma last_star_suffices:
  assumes "b \<le> length t" and "k < length p" and "p ! k \<noteq> STAR" and "Suc k \<le> i" and "j = b + (i - Suc k)" and "j \<le> length t"
    and "\<forall>x. Suc k \<le> x \<longrightarrow> x < i \<longrightarrow> x < length p \<and> p ! x \<noteq> STAR"
    and "i < length p" and "p ! i = STAR" and "star_at conv p t k b"
  shows "star_at conv p t (Suc i) j"
proof -
  obtain m where m: "b \<le> m" "m \<le> length t" "matches_at conv p t k m" using assms(1,10) star_at_iff by blast
  have "m < length t" using m matches_at_no_text [OF assms(2,3), of t m conv] by (cases "length t \<le> m") auto
  then have "matches_at conv p t (Suc k) (Suc m)" using m(3) matches_at_step [OF assms(2,3)] by blast
  then have "matches_at conv p t i (Suc m + (i - Suc k)) \<and> Suc m + (i - Suc k) \<le> length t"
    using matches_at_run [of conv p t "Suc k" "Suc m" "i - Suc k"] \<open>m < length t\<close> assms(4,7) by simp
  then have "star_at conv p t (Suc i) (Suc m + (i - Suc k)) \<and> Suc m + (i - Suc k) \<le> length t"
    using matches_at_star [OF assms(8,9)] by blast
  then obtain n where "Suc m + (i - Suc k) \<le> n" "n \<le> length t" "matches_at conv p t (Suc i) n"
    using star_at_iff by blast
  then show ?thesis using star_at_iff [OF assms(6)] assms(5) m(1) by (metis add_le_mono1 le_SucI le_trans)
qed



lemma glob_turn_plain:
  assumes "\<not> GLOB_HIERARCHY (gl_flags g)" and "settled (gl_str g)" and "st_ghier s = None"
    and "literals False conv (gl_str g) t (st_gptr s) (st_ptr s) = (i, j)"
    and "s' = (if char_at (gl_str g) i = STAR
      then s\<lparr>st_ptr := j, st_ghier := None, st_gstar := Some (Suc i), st_gptr := Suc i, st_pstar := j\<rparr> else s\<lparr>st_gptr := i, st_ptr := j\<rparr>)"
  shows "glob_turn conv g t None s =
    (if length (gl_str g) \<le> i \<and> j = length t then Break i j
     else case st_gstar s' of
       None \<Rightarrow> Break i j
     | Some k \<Rightarrow>
         if length (gl_str g) \<le> k then Break (st_gptr s') (length t)
         else (let b = seek (\<lambda>c. gl_str g ! k \<noteq> conv c) t (st_pstar s') in
           if length t \<le> b then Break k j
           else if length (gl_str g) = Suc k \<and> Suc b = length t then Break (Suc k) (Suc b)
           else Next (s'\<lparr>st_pstar := Suc b, st_ptr := Suc b, st_gptr := Suc k\<rparr>)))"
proof -
  note c = settled_char [OF assms(2)]
  have k: "k < length (gl_str g) \<Longrightarrow> char_at (gl_str g) k = gl_str g ! k" for k by (simp add: char_at_def)
  have nn: "k < length (gl_str g) \<Longrightarrow> gl_str g ! k \<noteq> NUL" for k using c(1) [of k] by (simp add: char_at_def)
  have star: "char_at (gl_str g) k = STAR \<Longrightarrow> k < length (gl_str g)" for k by (auto simp: char_at_def split: if_splits)
  have turn: "glob_turn conv g t None s =
     (if length (gl_str g) \<le> i \<and> j = length t then Break i j
      else case star_part conv g t None s' of
         Next s \<Rightarrow>
           if char_at (gl_str g) (st_gptr s) = STAR \<or> ((st_gstar s \<noteq> None \<or> st_ghier s \<noteq> None) \<and> (st_gptr s < length (gl_str g) \<or> st_ptr s \<noteq> length t))
           then Next s else Break (st_gptr s) (st_ptr s)
       | r \<Rightarrow> r)"
    using assms(1,3,4,5)
    by (simp add: glob_turn_def hier_part_def c partial_match_def not_le Let_def split: glob_step.split)
  have ghier: "st_ghier s' = None" using assms(3,5) by simp
  show ?thesis
  proof (cases "st_gstar s'")
    case None
    then have "s' = s\<lparr>st_gptr := i, st_ptr := j\<rparr>" "char_at (gl_str g) i \<noteq> STAR" using assms(5) by (auto split: if_splits)
    then show ?thesis using None turn assms(3) by (simp add: star_part_def)
  next
    case (Some k)
    have ptr: "st_ptr s' = j" using assms(5) by simp
    define b where "b = seek (\<lambda>c. gl_str g ! k \<noteq> conv c) t (st_pstar s')"
    consider "length (gl_str g) \<le> k" | "k < length (gl_str g)" "length t \<le> b" | "k < length (gl_str g)" "b < length t" by linarith
    then show ?thesis
    proof cases
      case 1
      then have "star_part conv g t None s' = Break (st_gptr s') (length t)" using Some ghier by (simp add: star_part_def c)
      then show ?thesis using 1 Some turn by simp
    next
      case 2
      then have "star_part conv g t None s' = Break k j" using Some ghier ptr b_def by (simp add: star_part_def c k nn partial_match_def)
      then show ?thesis using 2 Some turn b_def by simp
    next
      case 3
      let ?r = "s'\<lparr>st_pstar := Suc b, st_ptr := Suc b, st_gptr := Suc k\<rparr>"
      have "star_part conv g t None s' = Next ?r" using 3 Some ghier b_def by (simp add: star_part_def c k nn Let_def)
      then have "glob_turn conv g t None s = (if length (gl_str g) \<le> i \<and> j = length t then Break i j
          else if length (gl_str g) = Suc k \<and> Suc b = length t then Break (Suc k) (Suc b) else Next ?r)"
        using turn 3 Some star [of "Suc k"] by (simp add: Suc_le_eq) linarith
      then show ?thesis using 3 Some b_def by (simp add: Let_def)
    qed
  qed
qed



definition glob_answer :: "bool \<Rightarrow> string \<Rightarrow> (int \<times> int option) option" where
  "glob_answer found t = Some (if found then int (length t) else - 1, None)"

definition awaits :: "nat \<Rightarrow> nat \<Rightarrow> glob_state \<Rightarrow> bool" where
  "awaits k b s \<longleftrightarrow> st_ghier s = None \<and> st_gstar s = Some k \<and> st_gptr s = Suc k \<and> st_ptr s = b \<and> st_pstar s = b"

lemma star_search:
  assumes "settled (gl_str g)" and "k < length (gl_str g) \<Longrightarrow> gl_str g ! k \<noteq> STAR \<and> gl_str g ! k \<noteq> QUERY"
    and "st_pstar s' \<le> length t" and "st_ghier s' = None" and "st_gstar s' = Some k"
    and "length (gl_str g) \<le> k \<Longrightarrow> length (gl_str g) \<le> st_gptr s'"
    and turn: "glob_turn conv g t None s =
      (if length (gl_str g) \<le> k then Break (st_gptr s') (length t)
       else (let b = seek (\<lambda>c. gl_str g ! k \<noteq> conv c) t (st_pstar s') in
         if length t \<le> b then Break k j
         else if length (gl_str g) = Suc k \<and> Suc b = length t then Break (Suc k) (Suc b)
         else Next (s'\<lparr>st_pstar := Suc b, st_ptr := Suc b, st_gptr := Suc k\<rparr>)))"
    and IH: "\<And>r b. k < length (gl_str g) \<Longrightarrow> awaits k b r \<Longrightarrow> st_pstar s' < b \<Longrightarrow> b \<le> length t \<Longrightarrow>
      glob_loop conv g t None r = glob_answer (matches_at conv (gl_str g) t (Suc k) b \<or> star_at conv (gl_str g) t k b) t"
  shows "glob_loop conv g t None s = glob_answer (star_at conv (gl_str g) t k (st_pstar s')) t"
proof (cases "length (gl_str g) \<le> k")
  case True
  then show ?thesis using turn assms(6) star_at_end [of "gl_str g" k conv t]
    by (simp add: glob_loop.simps [of conv g t None s] settled_char [OF assms(1)] glob_answer_def)
next
  case False
  define b where "b = seek (\<lambda>c. gl_str g ! k \<noteq> conv c) t (st_pstar s')"
  have k: "k < length (gl_str g)" and np: "gl_str g ! k \<noteq> PERCENT"
    using False settled_char(2) [OF assms(1), of k] by (simp_all add: char_at_def)
  have first: "st_pstar s' \<le> b" "star_at conv (gl_str g) t k (st_pstar s') \<longleftrightarrow>
      b < length t \<and> (matches_at conv (gl_str g) t (Suc k) (Suc b) \<or> star_at conv (gl_str g) t k (Suc b))"
    using star_at_first [OF k _ _ np assms(3) b_def] assms(2) [OF k] by blast+
  consider "length t \<le> b" | "b < length t" "length (gl_str g) = Suc k" "Suc b = length t"
    | "b < length t" "\<not> (length (gl_str g) = Suc k \<and> Suc b = length t)" by linarith
  then show ?thesis
  proof cases
    case 1
    then have "glob_turn conv g t None s = Break k j" using turn False b_def by simp
    then show ?thesis using 1 first(2) k by (simp add: glob_loop.simps [of conv g t None s] settled_char [OF assms(1)] glob_answer_def)
  next
    case 2
    then have "glob_turn conv g t None s = Break (Suc k) (Suc b)" using turn False b_def by simp
    moreover have "matches_at conv (gl_str g) t (Suc k) (Suc b)" using 2 by (simp add: matches_at_end)
    ultimately show ?thesis using 2 first(2)
      by (simp add: glob_loop.simps [of conv g t None s] settled_char [OF assms(1)] glob_answer_def)
  next
    case 3
    let ?r = "s'\<lparr>st_pstar := Suc b, st_ptr := Suc b, st_gptr := Suc k\<rparr>"
    have t: "glob_turn conv g t None s = Next ?r" unfolding turn b_def [symmetric] using 3 False by auto
    have "glob_loop conv g t None ?r =
        glob_answer (matches_at conv (gl_str g) t (Suc k) (Suc b) \<or> star_at conv (gl_str g) t k (Suc b)) t"
      by (rule IH [OF k]) (use 3 first(1) assms(4,5) in \<open>simp_all add: awaits_def\<close>)
    then show ?thesis using t first(2) 3(1) by (simp add: glob_loop.simps [of conv g t None s])
  qed
qed

lemma behind_star: "settled p \<Longrightarrow> p ! i = STAR \<Longrightarrow> Suc i < length p \<Longrightarrow> p ! Suc i \<noteq> STAR \<and> p ! Suc i \<noteq> QUERY"
  by (simp add: settled_def)

lemma star_char: "char_at p i = STAR \<longleftrightarrow> i < length p \<and> p ! i = STAR"
  by (simp add: char_at_def)

lemma glob_loop_star:
  assumes plain: "\<not> GLOB_HIERARCHY (gl_flags g)" "settled (gl_str g)" and nul: "\<And>c. c \<in> set t \<Longrightarrow> conv c \<noteq> NUL"
  shows "awaits k b s \<Longrightarrow> k < length (gl_str g) \<Longrightarrow> gl_str g ! k \<noteq> STAR \<Longrightarrow> gl_str g ! k \<noteq> QUERY \<Longrightarrow> b \<le> length t \<Longrightarrow>
    glob_loop conv g t None s = glob_answer (matches_at conv (gl_str g) t (Suc k) b \<or> star_at conv (gl_str g) t k b) t"
proof (induction "(k, b)" arbitrary: k b s rule: wf_induct_rule [OF wf_measures [of "[\<lambda>(k, b). length (gl_str g) - k, \<lambda>(k, b). length t - b]"]])
  case (1 k b)
  let ?p = "gl_str g"
  have s: "st_ghier s = None" "st_gstar s = Some k" "st_gptr s = Suc k" "st_ptr s = b" "st_pstar s = b"
    using 1(2) by (simp_all add: awaits_def)
  obtain i j where lit: "literals False conv ?p t (st_gptr s) (st_ptr s) = (i, j)" by (metis surj_pair)
  have l: "Suc k \<le> i" "j = b + (i - Suc k)" "j \<le> length t" "\<forall>x. Suc k \<le> x \<longrightarrow> x < i \<longrightarrow> x < length ?p \<and> ?p ! x \<noteq> STAR"
    "matches_at conv ?p t (Suc k) b \<longleftrightarrow> matches_at conv ?p t i j"
    "char_at ?p i = STAR \<or> (matches_at conv ?p t i j \<longleftrightarrow> char_at ?p i = NUL \<and> j = length t)"
    using literals_correct [OF plain(2) nul lit] 1(6) s by auto
  define s' where s': "s' = (if char_at ?p i = STAR
      then s\<lparr>st_ptr := j, st_ghier := None, st_gstar := Some (Suc i), st_gptr := Suc i, st_pstar := j\<rparr> else s\<lparr>st_gptr := i, st_ptr := j\<rparr>)"
  note turn = glob_turn_plain [OF plain s(1) lit s']
  show ?case
  proof (cases "length ?p \<le> i \<and> j = length t")
    case True
    then have "matches_at conv ?p t (Suc k) b" using l(5) matches_at_end [of ?p i conv t j] by simp
    then show ?thesis using True turn
      by (simp add: glob_loop.simps [of conv g t None s] settled_char [OF plain(2)] glob_answer_def)
  next
    case nt: False
    note turn = turn [unfolded if_not_P [OF nt]]
    show ?thesis
    proof (cases "char_at ?p i = STAR")
      case True
      then have i: "i < length ?p" "?p ! i = STAR" by (simp_all add: star_char)
      have f: "st_ghier s' = None" "st_gstar s' = Some (Suc i)" "st_gptr s' = Suc i" "st_pstar s' = j" using True s' by simp_all
      have "glob_loop conv g t None s = glob_answer (star_at conv ?p t (Suc i) (st_pstar s')) t"
      proof (rule star_search [OF plain(2), where j = j])
        show "Suc i < length ?p \<Longrightarrow> ?p ! Suc i \<noteq> STAR \<and> ?p ! Suc i \<noteq> QUERY" by (rule behind_star [OF plain(2) i(2)])
        show "glob_loop conv g t None r = glob_answer (matches_at conv ?p t (Suc (Suc i)) b' \<or> star_at conv ?p t (Suc i) b') t"
          if "Suc i < length ?p" "awaits (Suc i) b' r" "st_pstar s' < b'" "b' \<le> length t" for r b'
          by (rule 1(1)) (use that l(1) 1(3) behind_star [OF plain(2) i(2) that(1)] in auto)
      qed (use turn f l(3) in simp_all)
      moreover have "matches_at conv ?p t (Suc k) b \<or> star_at conv ?p t k b \<longleftrightarrow> star_at conv ?p t (Suc i) j"
        using last_star_suffices [OF 1(6) 1(3) 1(4) l(1-4) i, of conv] l(5) matches_at_star [OF i, of conv t j] by blast
      ultimately show ?thesis using f by simp
    next
      case False
      have f: "st_ghier s' = None" "st_gstar s' = Some k" "st_pstar s' = b" using False s' s by simp_all
      have "glob_loop conv g t None s = glob_answer (star_at conv ?p t k (st_pstar s')) t"
      proof (rule star_search [OF plain(2), where j = j])
        show "k < length ?p \<Longrightarrow> ?p ! k \<noteq> STAR \<and> ?p ! k \<noteq> QUERY" using 1(4,5) by simp
        show "glob_loop conv g t None r = glob_answer (matches_at conv ?p t (Suc k) b' \<or> star_at conv ?p t k b') t"
          if "k < length ?p" "awaits k b' r" "st_pstar s' < b'" "b' \<le> length t" for r b'
          by (rule 1(1)) (use that f 1(4,5) in auto)
      qed (use turn f 1(3,6) in simp_all)
      moreover have "\<not> matches_at conv ?p t (Suc k) b" using False l(5,6) nt settled_char(1) [OF plain(2), of i] by blast
      ultimately show ?thesis using False s s' by simp
    qed
  qed
qed



theorem glob_loop_plain:
  assumes plain: "\<not> GLOB_HIERARCHY (gl_flags g)" "settled (gl_str g)" and nul: "\<And>c. c \<in> set t \<Longrightarrow> conv c \<noteq> NUL"
    and s: "st_ghier s = None" "st_gstar s = None" "st_gptr s = 0" "st_ptr s = 0"
  shows "glob_loop conv g t None s = glob_answer (pattern_matches conv (gl_str g) t) t"
proof -
  let ?p = "gl_str g"
  obtain i j where lit: "literals False conv ?p t (st_gptr s) (st_ptr s) = (i, j)" by (metis surj_pair)
  have l: "j \<le> length t" "matches_at conv ?p t 0 0 \<longleftrightarrow> matches_at conv ?p t i j"
    "char_at ?p i = STAR \<or> (matches_at conv ?p t i j \<longleftrightarrow> char_at ?p i = NUL \<and> j = length t)"
    using literals_correct [OF plain(2) nul lit] s by auto
  have m: "pattern_matches conv ?p t \<longleftrightarrow> matches_at conv ?p t i j" using l(2) by (simp add: matches_at_def)
  define s' where s': "s' = (if char_at ?p i = STAR
      then s\<lparr>st_ptr := j, st_ghier := None, st_gstar := Some (Suc i), st_gptr := Suc i, st_pstar := j\<rparr> else s\<lparr>st_gptr := i, st_ptr := j\<rparr>)"
  note turn = glob_turn_plain [OF plain s(1) lit s']
  note loop = glob_loop.simps [of conv g t None s]
  show ?thesis
  proof (cases "char_at ?p i = STAR")
    case True
    then have i: "i < length ?p" "?p ! i = STAR" by (simp_all add: star_char)
    have f: "st_ghier s' = None" "st_gstar s' = Some (Suc i)" "st_gptr s' = Suc i" "st_pstar s' = j" using True s' by simp_all
    have "glob_loop conv g t None s = glob_answer (star_at conv ?p t (Suc i) (st_pstar s')) t"
    proof (rule star_search [OF plain(2), where j = j])
      show "Suc i < length ?p \<Longrightarrow> ?p ! Suc i \<noteq> STAR \<and> ?p ! Suc i \<noteq> QUERY" by (rule behind_star [OF plain(2) i(2)])
      show "glob_loop conv g t None r = glob_answer (matches_at conv ?p t (Suc (Suc i)) b' \<or> star_at conv ?p t (Suc i) b') t"
        if "Suc i < length ?p" "awaits (Suc i) b' r" "st_pstar s' < b'" "b' \<le> length t" for r b'
        using glob_loop_star [OF plain _ that(2,1) _ _ that(4), of conv] nul behind_star [OF plain(2) i(2) that(1)] by blast
    qed (use i(1) turn f l(1) in simp_all)
    then show ?thesis using m matches_at_star [OF i, of conv t j] f by simp
  next
    case False
    then have "st_gstar s' = None" using s s' by simp
    then have "glob_turn conv g t None s = Break i j" using turn by simp
    then show ?thesis using False l(3) m by (auto simp: loop glob_answer_def)
  qed
qed

section \<open>The prepared pattern\<close>

definition keeps_wild :: "(char \<Rightarrow> char) \<Rightarrow> bool" where
  "keeps_wild f \<longleftrightarrow> (\<forall>c. (f c = STAR \<longleftrightarrow> c = STAR) \<and> (f c = PERCENT \<longleftrightarrow> c = PERCENT) \<and> (f c = QUERY \<longleftrightarrow> c = QUERY) \<and>
     (f c = NUL \<longleftrightarrow> c = NUL))"

lemma keeps_wild_id: "keeps_wild id"
  by (simp add: keeps_wild_def)

lemma tolower_other: "\<not> isupper w \<Longrightarrow> \<not> islower w \<Longrightarrow> tolower c = w \<longleftrightarrow> c = w"
proof -
  assume w: "\<not> isupper w" "\<not> islower w"
  show ?thesis
  proof (cases "isupper c")
    case True
    then have "(of_char (tolower c) :: nat) = of_char c + 32"
      by (simp add: tolower_def isupper_def less_eq_char_def)
    then have "islower (tolower c)" using True by (simp add: isupper_def islower_def less_eq_char_def)
    then show ?thesis using w True by auto
  next
    case False
    then show ?thesis by (simp add: tolower_def)
  qed
qed

lemma keeps_wild_tolower: "keeps_wild tolower"
  unfolding keeps_wild_def by (intro allI conjI tolower_other) (simp_all add: isupper_def islower_def)

lemma skip_wild_map:
  assumes "keeps_wild f" shows "skip_wild (map f s) = map_prod (map f) (map f) (skip_wild s)"
proof (induction s)
  case (Cons c s)
  have "wild (f c) \<longleftrightarrow> wild c" "f c = STAR \<longleftrightarrow> c = STAR" "f QUERY = QUERY" using assms by (auto simp: keeps_wild_def wild_def)
  then show ?case using Cons by (auto simp: split_def Let_def prod_eq_iff)
qed simp

lemma old_pattern_map:
  assumes "keeps_wild f" shows "old_pattern (map f s) = map f (old_pattern s)"
proof (induction s rule: old_pattern.induct)
  case (2 c s)
  have f: "f c = STAR \<longleftrightarrow> c = STAR" "f c = PERCENT \<longleftrightarrow> c = PERCENT" "f QUERY = QUERY" "f STAR = STAR"
    using assms by (auto simp: keeps_wild_def)
  show ?case
  proof (cases "c = STAR")
    case True
    have "skip_wild (f c # map f s) = map_prod (map f) (map f) (skip_wild (c # s))"
      using skip_wild_map [OF assms, of "c # s"] by simp
    then show ?thesis using True 2(1) f by simp
  next
    case False
    then show ?thesis using 2(2) f by simp
  qed
qed simp



lemma settled_Nil: "settled []"
  by (simp add: settled_def)

lemma all_nat_split: "(\<forall>i. Q i) \<longleftrightarrow> Q 0 \<and> (\<forall>i. Q (Suc i))"
  by (metis not0_implies_Suc)

lemma settled_Cons:
  "settled (c # p) \<longleftrightarrow> c \<noteq> NUL \<and> c \<noteq> PERCENT \<and> settled p \<and> (c = STAR \<longrightarrow> p = [] \<or> (hd p \<noteq> STAR \<and> hd p \<noteq> QUERY))"
proof -
  have "(\<forall>i. Suc i < length (c # p) \<longrightarrow> (c # p) ! i = STAR \<longrightarrow> (c # p) ! Suc i \<noteq> STAR \<and> (c # p) ! Suc i \<noteq> QUERY) \<longleftrightarrow>
      (c = STAR \<longrightarrow> p = [] \<or> (hd p \<noteq> STAR \<and> hd p \<noteq> QUERY)) \<and>
      (\<forall>i. Suc i < length p \<longrightarrow> p ! i = STAR \<longrightarrow> p ! Suc i \<noteq> STAR \<and> p ! Suc i \<noteq> QUERY)"
    by (subst all_nat_split) (cases p; simp)
  then show ?thesis unfolding settled_def by auto
qed

lemma settled_queries: "(\<forall>c \<in> set q. c = QUERY) \<Longrightarrow> settled (q @ p) \<longleftrightarrow> settled p"
  by (induction q) (auto simp: settled_Cons)

lemma settled_snoc: "settled p \<Longrightarrow> p = [] \<or> last p \<noteq> STAR \<Longrightarrow> settled (p @ [STAR])"
  by (induction p) (auto simp: settled_Cons settled_Nil hd_append split: if_splits)

lemma skip_wild_rest: "snd (skip_wild s) = [] \<or> \<not> wild (hd (snd (skip_wild s)))"
  by (induction s) (auto simp: split_def Let_def)

lemma skip_wild_set: "set (snd (skip_wild s)) \<subseteq> set s"
  by (induction s) (auto simp: split_def Let_def)

lemma old_pattern_front: "s = [] \<or> \<not> wild (hd s) \<Longrightarrow> old_pattern s = [] \<or> hd (old_pattern s) = hd s \<and> \<not> wild (hd s)"
  by (cases s) (auto simp: wild_def)

lemma settled_old_pattern: "NUL \<notin> set s \<Longrightarrow> settled (old_pattern s)"
proof (induction s rule: old_pattern.induct)
  case (2 c s)
  show ?case
  proof (cases "c = STAR")
    case True
    let ?q = "fst (skip_wild (c # s))" and ?r = "snd (skip_wild (c # s))"
    have "settled (old_pattern ?r)" using 2(1) [OF True] 2(3) skip_wild_set [of "c # s"] by blast
    moreover have "old_pattern ?r = [] \<or> \<not> wild (hd (old_pattern ?r))"
      using old_pattern_front [OF skip_wild_rest [of "c # s"]] by metis
    moreover have "old_pattern (c # s) = ?q @ STAR # old_pattern ?r" by (simp only: old_pattern.simps if_P [OF True])
    ultimately show ?thesis unfolding settled_queries [OF skip_wild_queries [of "c # s"]] settled_Cons wild_def
      by (simp add: settled_queries [OF skip_wild_queries [of "c # s"]] settled_Cons del: skip_wild.simps old_pattern.simps) blast
  next
    case False
    then show ?thesis using 2(2,3) by (auto simp: settled_Cons)
  qed
qed (simp add: settled_Nil)

lemma ex_le_split: "(\<exists>k \<le> Suc n. Q k) \<longleftrightarrow> Q 0 \<or> (\<exists>k \<le> n. Q (Suc k))"
  using less_Suc_eq_0_disj le_less_Suc_eq by (metis Suc_le_mono bot_nat_0.extremum not0_implies_Suc)

lemma trailing_star: "pattern_matches conv (p @ [STAR]) t \<longleftrightarrow> (\<exists>k \<le> length t. pattern_matches conv p (take k t))"
proof (induction conv p t rule: pattern_matches.induct)
  case (1 conv t)
  have "pattern_matches conv [STAR] t" by (induction t) auto
  then show ?case by (auto intro: exI [of _ 0])
next
  case (3 conv c p x t)
  then show ?case by (auto simp: ex_le_split)
qed simp

lemma trailing_stars: "pattern_matches conv (p @ [STAR, STAR]) t \<longleftrightarrow> pattern_matches conv (p @ [STAR]) t"
proof -
  have "pattern_matches conv (p @ [STAR]) t" if "k \<le> length t" "pattern_matches conv (p @ [STAR]) (take k t)" for k
  proof -
    obtain m where "m \<le> k" "pattern_matches conv p (take m (take k t))" using \<open>pattern_matches conv (p @ [STAR]) (take k t)\<close> that(1) by (auto simp: trailing_star)
    then show ?thesis using that(1) unfolding trailing_star by (intro exI [of _ m]) (simp add: min_def)
  qed
  then have "(\<exists>k \<le> length t. pattern_matches conv (p @ [STAR]) (take k t)) \<longleftrightarrow> pattern_matches conv (p @ [STAR]) t"
    by (metis order_refl take_all)
  then show ?thesis using trailing_star [of conv "p @ [STAR]" t] by simp
qed



text \<open>The pattern that is looked for anywhere in the name has a star on both sides.\<close>

definition surrounded :: "string \<Rightarrow> string" where
  "surrounded s = (let d = old_pattern (STAR # s) in if last d \<noteq> STAR then d @ [STAR] else d)"

lemma surrounded_settled: "NUL \<notin> set s \<Longrightarrow> settled (surrounded s)"
  using settled_old_pattern [of "STAR # s"] settled_snoc [of "old_pattern (STAR # s)"]
  by (simp add: surrounded_def Let_def del: old_pattern.simps)

lemma surrounded_matches: "pattern_matches conv (surrounded s) t \<longleftrightarrow> pattern_matches conv (STAR # s @ [STAR]) t"
proof -
  let ?d = "old_pattern (STAR # s)"
  have "pattern_matches conv (?d @ [STAR]) t \<longleftrightarrow> pattern_matches conv ((STAR # s) @ [STAR]) t"
    unfolding trailing_star old_pattern_matches ..
  moreover have "pattern_matches conv ?d t \<longleftrightarrow> pattern_matches conv (?d @ [STAR]) t" if "last ?d = STAR"
  proof -
    have "?d \<noteq> []" by simp
    then have "?d = butlast ?d @ [STAR]" using that append_butlast_last_id by metis
    then show ?thesis using trailing_stars [of conv "butlast ?d" t] by (metis append.assoc append_Cons append_Nil)
  qed
  ultimately show ?thesis by (simp add: surrounded_def Let_def del: old_pattern.simps)
qed

lemma surrounded_map: "keeps_wild f \<Longrightarrow> surrounded (map f s) = map f (surrounded s)"
proof -
  assume f: "keeps_wild f"
  have fs: "f STAR = STAR" "\<And>c. f c = STAR \<longleftrightarrow> c = STAR" using f by (auto simp: keeps_wild_def)
  let ?d = "old_pattern (STAR # s)"
  have d: "old_pattern (STAR # map f s) = map f ?d" using old_pattern_map [OF f, of "STAR # s"] fs by (simp del: old_pattern.simps)
  have "?d \<noteq> []" by simp
  then have "last (map f ?d) = STAR \<longleftrightarrow> last ?d = STAR" using fs by (simp add: last_map del: old_pattern.simps)
  then show ?thesis using d fs(1) by (simp add: surrounded_def Let_def del: old_pattern.simps)
qed

definition searched :: "glob_flags \<Rightarrow> string \<Rightarrow> string" where
  "searched f s = (if GLOB_SUBSTRING f then STAR # s @ [STAR] else s)"

definition case_of :: "glob_flags \<Rightarrow> char \<Rightarrow> char" where
  "case_of f = (if GLOB_ICASE f then tolower else id)"

lemma case_of_keeps: "keeps_wild (case_of f)"
  by (simp add: case_of_def keeps_wild_id keeps_wild_tolower)

lemma case_of_NUL: "case_of f c = NUL \<longleftrightarrow> c = NUL"
  using case_of_keeps [of f] by (simp add: keeps_wild_def)

lemma glob_pattern_plain:
  assumes "\<not> GLOB_HIERARCHY f"
  shows "glob_pattern f s = (if GLOB_SUBSTRING f then surrounded (map (case_of f) s) else old_pattern (map (case_of f) s))"
proof -
  have star: "old_pattern (STAR # s) = fst (skip_wild s) @ STAR # old_pattern (snd (skip_wild s))"
    by (simp add: wild_def split_def Let_def)
  have "glob_pattern f s = map (case_of f) (if GLOB_SUBSTRING f then surrounded s else old_pattern s)"
    using assms unfolding glob_pattern_def surrounded_def star case_of_def by (simp add: split_def Let_def)
  then show ?thesis by (simp add: surrounded_map [OF case_of_keeps] old_pattern_map [OF case_of_keeps])
qed

lemma glob_pattern_language:
  assumes "\<not> GLOB_HIERARCHY f" and "NUL \<notin> set s"
  shows "settled (glob_pattern f s)"
    and "pattern_matches conv (glob_pattern f s) t \<longleftrightarrow> pattern_matches conv (searched f (map (case_of f) s)) t"
proof -
  have "NUL \<notin> set (map (case_of f) s)" using assms(2) case_of_NUL [of f] by (metis imageE list.set_map)
  then show "settled (glob_pattern f s)"
    by (simp add: glob_pattern_plain [OF assms(1)] surrounded_settled settled_old_pattern)
  show "pattern_matches conv (glob_pattern f s) t \<longleftrightarrow> pattern_matches conv (searched f (map (case_of f) s)) t"
    by (simp add: glob_pattern_plain [OF assms(1)] surrounded_matches old_pattern_matches searched_def)
qed

lemma glob_test_plain:
  assumes "\<not> GLOB_HIERARCHY f" and "\<not> GLOB_INBOXCASE f" and "NUL \<notin> set s" and "NUL \<notin> set name"
    and "n = (if len = 0 then name else take len name)"
  shows "glob_test (glob_init_suppress s f None) name len None =
    glob_answer (pattern_matches (case_of f) (searched f (map (case_of f) s)) n) n"
proof -
  let ?g = "glob_init_suppress s f None"
  have g: "gl_flags ?g = f" "gl_str ?g = glob_pattern f s" "gl_suppress ?g = None"
    using assms(2) by (simp_all add: glob_init_suppress_def Let_def)
  have nul: "case_of f c \<noteq> NUL" if "c \<in> set n" for c
    using that assms(4,5) case_of_NUL [of f] by (metis in_set_takeD)
  have "glob_test ?g name len None = glob_loop (case_of f) ?g n None
      \<lparr>st_gptr = 0, st_ptr = 0, st_gstar = None, st_pstar = 0, st_ghier = None, st_phier = 0\<rparr>"
    using assms(2,5) g by (simp add: glob_test_def case_of_def Let_def)
  also have "\<dots> = glob_answer (pattern_matches (case_of f) (gl_str ?g) n) n"
    by (rule glob_loop_plain) (use g assms(1) glob_pattern_language(1) [OF assms(1,3)] nul in simp_all)
  finally show ?thesis using g glob_pattern_language(2) [OF assms(1,3)] by simp
qed

section \<open>Properties\<close>

text \<open>
  C22: without \<^verbatim>\<open>GLOB_HIERARCHY\<close> and \<^verbatim>\<open>GLOB_INBOXCASE\<close> the test of a name with a prepared pattern ends and
  decides the language of the pattern: a star stands for any text, a question or percent mark for one
  character, every other character for itself, in any case with \<^verbatim>\<open>GLOB_ICASE\<close>; with \<^verbatim>\<open>GLOB_SUBSTRING\<close> the
  pattern may begin and end anywhere. It returns the length of the name or -1.
\<close>

theorem glob_test_decides:
  assumes "\<not> GLOB_HIERARCHY f" and "\<not> GLOB_INBOXCASE f" and "NUL \<notin> set s" and "NUL \<notin> set name"
    and "n = (if len = 0 then name else take len name)"
  shows "glob_test (glob_init_suppress s f None) name len None =
    Some (if pattern_matches (case_of f) (searched f (map (case_of f) s)) n then int (length n) else - 1, None)"
  using glob_test_plain [OF assms] by (simp add: glob_answer_def)

theorem glob_test_decides_witness:
  "(let f = \<lparr>GLOB_ICASE = True, GLOB_SUBSTRING = False, GLOB_HIERARCHY = False, GLOB_INBOXCASE = False\<rparr> in
    glob_test (glob_init_suppress ''a*%c'' f None) ''Abxc'' 0 None = Some (4, None))"
proof -
  let ?f = "\<lparr>GLOB_ICASE = True, GLOB_SUBSTRING = False, GLOB_HIERARCHY = False, GLOB_INBOXCASE = False\<rparr>"
  have "pattern_matches (case_of ?f) (searched ?f (map (case_of ?f) ''a*%c'')) ''Abxc''" by code_simp
  then show ?thesis using glob_test_decides [of ?f "''a*%c''" "''Abxc''" "''Abxc''" 0] by simp
qed

section \<open>A name that is accepted with a hierarchy\<close>

text \<open>The language with \<^verbatim>\<open>GLOB_HIERARCHY\<close>: a percent sign stands for a text without separator.\<close>

fun hierarchy_matches :: "char \<Rightarrow> string \<Rightarrow> string \<Rightarrow> bool" where
  "hierarchy_matches sep [] t \<longleftrightarrow> t = []"
| "hierarchy_matches sep (c # p) [] \<longleftrightarrow> (c = STAR \<or> c = PERCENT) \<and> hierarchy_matches sep p []"
| "hierarchy_matches sep (c # p) (x # t) \<longleftrightarrow>
     (if c = STAR \<or> c = PERCENT
      then hierarchy_matches sep p (x # t) \<or> ((c = STAR \<or> x \<noteq> sep) \<and> hierarchy_matches sep (c # p) t)
      else c = x \<and> hierarchy_matches sep p t)"

text \<open>
  After the search behind a percent sign has reached a separator, the position in the pattern is not
  set back, so the test accepts the name \<^verbatim>\<open>xa.z\<close> for the pattern \<^verbatim>\<open>%a.z.z\<close>, which it does not match.
\<close>

declare glob_loop.simps [code]

lemma hierarchy_accepts_other_name:
  "glob_test (glob_init_suppress ''%a.z.z'' \<lparr>GLOB_ICASE = False, GLOB_SUBSTRING = False, GLOB_HIERARCHY = True, GLOB_INBOXCASE = False\<rparr> None)
     ''xa.z'' 0 None = Some (4, None) \<and> \<not> hierarchy_matches CHR ''.'' ''%a.z.z'' ''xa.z''"
  by code_simp

end
