(* ===== verification/Mboxname_Policy.thy ===== *)
theory Mboxname_Policy
  imports Mboxname Glob
begin

text \<open>
  The policy on new mailbox names, \<^verbatim>\<open>mboxname_policycheck\<close> of \<^verbatim>\<open>imap/mboxname.c\<close>: the forbidden patterns,
  tested with \<^verbatim>\<open>lib/glob.c\<close>, the allowed characters and the modified UTF-7 of IMAP.

  \<^verbatim>\<open>Some True\<close> is 0, \<^verbatim>\<open>Some False\<close> is \<^verbatim>\<open>IMAP_MAILBOX_BADNAME\<close>; \<^verbatim>\<open>None\<close> would be a test of a pattern that
  does not end. The pointer into the name is the rest of the name.
\<close>

unbundle bit_operations_syntax

section \<open>Model\<close>

definition badmboxpatterns :: "string list" where
  "badmboxpatterns = [[], [STAR, CHR 0x09, STAR], [STAR, CHR 0x0A, STAR], ''*/*'', ''.*'', ''*.'', ''*..*'', ''user'']"

text \<open>\<^verbatim>\<open>None\<close> is \<^verbatim>\<open>XX\<close>.\<close>

definition index_mod64 :: "nat \<Rightarrow> nat option" where
  "index_mod64 n =
     (if n = 43 then Some 62 else if n = 44 then Some 63 else if 48 \<le> n \<and> n \<le> 57 then Some (n + 4)
      else if 65 \<le> n \<and> n \<le> 90 then Some (n - 65) else if 97 \<le> n \<and> n \<le> 122 then Some (n - 71) else None)"

definition CHARMOD64 :: "char \<Rightarrow> nat option" where
  "CHARMOD64 c = index_mod64 (of_char c)"

definition bad_ucs4 :: "nat \<Rightarrow> bool" where
  "bad_ucs4 u \<longleftrightarrow> u AND 0xff80 = 0 \<or> u AND 0xf800 = 0xd800"

lemma CHARMOD64_at: "CHARMOD64 (char_at s i) = Some c \<Longrightarrow> i < length s"
  by (auto simp: char_at_def CHARMOD64_def index_mod64_def split: if_splits)

function utf7_loop :: "string \<Rightarrow> string option" where
  "utf7_loop s =
     (if char_at s 0 = CHR ''-'' then Some s
      else do {
        c1 \<leftarrow> CHARMOD64 (char_at s 0);
        c2 \<leftarrow> CHARMOD64 (char_at s 1);
        c3 \<leftarrow> CHARMOD64 (char_at s 2);
        if bad_ucs4 (push_bit 10 c1 OR push_bit 4 c2 OR drop_bit 2 c3) then None
        else if char_at s 3 = CHR ''-'' then (if c3 AND 0x03 \<noteq> 0 then None else Some (drop 3 s))
        else do {
          c4 \<leftarrow> CHARMOD64 (char_at s 3);
          c5 \<leftarrow> CHARMOD64 (char_at s 4);
          c6 \<leftarrow> CHARMOD64 (char_at s 5);
          if bad_ucs4 (push_bit 14 (c3 AND 0x03) OR push_bit 8 c4 OR push_bit 2 c5 OR drop_bit 4 c6) then None
          else if char_at s 6 = CHR ''-'' then (if c6 AND 0x0f \<noteq> 0 then None else Some (drop 6 s))
          else do {
            c7 \<leftarrow> CHARMOD64 (char_at s 6);
            c8 \<leftarrow> CHARMOD64 (char_at s 7);
            if bad_ucs4 (push_bit 12 (c6 AND 0x0f) OR push_bit 6 c7 OR c8) then None
            else utf7_loop (drop 8 s)
          }
        }
      })"
  by pat_completeness auto
termination
  by (relation "measure length") (auto dest!: CHARMOD64_at)

declare utf7_loop.simps [simp del]

definition GOODCHARS :: string where
  "GOODCHARS = '' +,-.0123456789:=@ABCDEFGHIJKLMNOPQRSTUVWXYZ_abcdefghijklmnopqrstuvwxyz~''"

text \<open>The six-bit numbers up to the minus sign and the rest from there on; none when another character comes first.\<close>

fun segment :: "string \<Rightarrow> (nat list \<times> string) option" where
  "segment [] = None"
| "segment (a # s) = (if a = CHR ''-'' then Some ([], a # s)
     else do { c \<leftarrow> CHARMOD64 a; (cs, r) \<leftarrow> segment s; Some (c # cs, r) })"

lemma segment_step:
  "segment s = (if char_at s 0 = CHR ''-'' then Some ([], s)
     else do { c \<leftarrow> CHARMOD64 (char_at s 0); (cs, r) \<leftarrow> segment (drop 1 s); Some (c # cs, r) })"
  by (cases s) (auto simp: char_at_def CHARMOD64_def index_mod64_def)

definition bits6 :: "nat \<Rightarrow> bool list" where
  "bits6 c = map (bit c) [5, 4, 3, 2, 1, 0]"

text \<open>A character of sixteen bits that has to be encoded: neither US-ASCII nor half of a pair.\<close>

definition encoded_unit :: "bool list \<Rightarrow> bool" where
  "encoded_unit u \<longleftrightarrow> length u = 16 \<and> take 9 u \<noteq> replicate 9 False \<and> take 5 u \<noteq> [True, True, False, True, True]"

text \<open>Such characters, followed by fewer than six zero bits.\<close>

function well_coded :: "bool list \<Rightarrow> bool" where
  "well_coded bs \<longleftrightarrow> (if length bs < 16 then length bs < 6 \<and> True \<notin> set bs
     else encoded_unit (take 16 bs) \<and> well_coded (drop 16 bs))"
  by pat_completeness auto
termination
  by (relation "measure length") auto

declare well_coded.simps [simp del]

lemma well_coded_short: "length bs < 16 \<Longrightarrow> well_coded bs \<longleftrightarrow> length bs < 6 \<and> True \<notin> set bs"
  by (simp add: well_coded.simps)

lemma well_coded_unit: "length u = 16 \<Longrightarrow> well_coded (u @ bs) \<longleftrightarrow> encoded_unit u \<and> well_coded bs"
  by (simp add: well_coded.simps [of "u @ bs"])

lemma CHARMOD64_less: "CHARMOD64 a = Some c \<Longrightarrow> c < 64"
  by (auto simp: CHARMOD64_def index_mod64_def split: if_splits)

lemma high_bit: "c < 64 \<Longrightarrow> 6 \<le> n \<Longrightarrow> \<not> bit c n" for c :: nat
proof -
  assume a: "c < 64" "6 \<le> n"
  have "(2 :: nat) ^ 6 \<le> 2 ^ n" using a(2) by (intro power_increasing) simp_all
  then have "c div 2 ^ n = 0" using a(1) by simp
  then show ?thesis by (simp add: bit_iff_odd)
qed

lemma mask_ascii: "u AND 0xff80 = 0 \<longleftrightarrow>
  \<not> bit u 7 \<and> \<not> bit u 8 \<and> \<not> bit u 9 \<and> \<not> bit u 10 \<and> \<not> bit u 11 \<and> \<not> bit u 12 \<and> \<not> bit u 13 \<and> \<not> bit u 14 \<and> \<not> bit u 15" for u :: nat
proof -
  have "(0xff80 :: nat) = push_bit 7 (mask 9)" by (simp add: push_bit_eq_mult mask_eq_exp_minus_1)
  then have "u AND 0xff80 = 0 \<longleftrightarrow> (\<forall>n. \<not> (bit u n \<and> 7 \<le> n \<and> n < 16))"
    by (auto simp: bit_eq_iff bit_simps)
  also have "\<dots> \<longleftrightarrow> (\<forall>n \<in> {7..<16}. \<not> bit u n)" by auto
  finally show ?thesis unfolding set_upt [symmetric] by (simp add: upt_rec)
qed

lemma mask_pair: "u AND 0xf800 = 0xd800 \<longleftrightarrow> bit u 11 \<and> bit u 12 \<and> \<not> bit u 13 \<and> bit u 14 \<and> bit u 15" for u :: nat
proof -
  have f: "(0xf800 :: nat) = push_bit 11 (mask 5)" by (simp add: push_bit_eq_mult mask_eq_exp_minus_1)
  have d: "bit (0xd800 :: nat) n \<longleftrightarrow> n = 11 \<or> n = 12 \<or> n = 14 \<or> n = 15" for n
  proof -
    have e: "(0xd800 :: nat) = push_bit 11 (mask 2) OR push_bit 14 (mask 2)" by (simp add: push_bit_eq_mult mask_eq_exp_minus_1)
    have "bit (0xd800 :: nat) n \<longleftrightarrow> (11 \<le> n \<and> n < 13) \<or> (14 \<le> n \<and> n < 16)" unfolding e by (auto simp: bit_simps)
    then show ?thesis by arith
  qed
  have "bit (u AND 0xf800) n \<longleftrightarrow> bit u n \<and> 11 \<le> n \<and> n < 16" for n unfolding f by (auto simp: bit_simps)
  moreover have "11 \<le> n \<and> n < 16 \<longleftrightarrow> n = 13 \<or> n = 11 \<or> n = 12 \<or> n = 14 \<or> n = 15" for n :: nat by arith
  ultimately have e: "u AND 0xf800 = 0xd800 \<longleftrightarrow>
      (\<forall>n. bit u n \<and> (n = 13 \<or> n = 11 \<or> n = 12 \<or> n = 14 \<or> n = 15) \<longleftrightarrow> n = 11 \<or> n = 12 \<or> n = 14 \<or> n = 15)"
    unfolding bit_eq_iff [of "u AND 0xf800"] d by simp
  show ?thesis
  proof
    assume "u AND 0xf800 = 0xd800"
    then have "bit u n \<and> (n = 13 \<or> n = 11 \<or> n = 12 \<or> n = 14 \<or> n = 15) \<longleftrightarrow> n = 11 \<or> n = 12 \<or> n = 14 \<or> n = 15" for n
      unfolding e by blast
    from this [of 11] this [of 12] this [of 13] this [of 14] this [of 15]
    show "bit u 11 \<and> bit u 12 \<and> \<not> bit u 13 \<and> bit u 14 \<and> bit u 15" by simp
  next
    assume "bit u 11 \<and> bit u 12 \<and> \<not> bit u 13 \<and> bit u 14 \<and> bit u 15"
    then show "u AND 0xf800 = 0xd800" unfolding e by blast
  qed
qed

lemma bad_ucs4_bits:
  "bad_ucs4 u \<longleftrightarrow> \<not> encoded_unit (map (bit u) [15, 14, 13, 12, 11, 10, 9, 8, 7, 6, 5, 4, 3, 2, 1, 0])"
proof -
  have "replicate 9 False = [False, False, False, False, False, False, False, False, False]" by (simp add: numeral_eq_Suc)
  then show ?thesis by (simp add: bad_ucs4_def encoded_unit_def mask_ascii mask_pair) argo
qed

lemma first_unit:
  assumes "c1 < 64" "c2 < 64" "c3 < 64"
  shows "bits6 c1 @ bits6 c2 @ bits6 c3 = map (bit (push_bit 10 c1 OR push_bit 4 c2 OR drop_bit 2 c3))
    [15, 14, 13, 12, 11, 10, 9, 8, 7, 6, 5, 4, 3, 2, 1, 0] @ [bit c3 1, bit c3 0]"
  using assms by (simp add: bits6_def bit_simps high_bit)

lemma second_unit:
  assumes "c3 < 64" "c4 < 64" "c5 < 64" "c6 < 64"
  shows "[bit c3 1, bit c3 0] @ bits6 c4 @ bits6 c5 @ bits6 c6 =
    map (bit (push_bit 14 (c3 AND 0x03) OR push_bit 8 c4 OR push_bit 2 c5 OR drop_bit 4 c6))
    [15, 14, 13, 12, 11, 10, 9, 8, 7, 6, 5, 4, 3, 2, 1, 0] @ [bit c6 3, bit c6 2, bit c6 1, bit c6 0]"
  using assms by (simp add: bits6_def bit_simps high_bit)

lemma third_unit:
  assumes "c6 < 64" "c7 < 64" "c8 < 64"
  shows "[bit c6 3, bit c6 2, bit c6 1, bit c6 0] @ bits6 c7 @ bits6 c8 =
    map (bit (push_bit 12 (c6 AND 0x0f) OR push_bit 6 c7 OR c8)) [15, 14, 13, 12, 11, 10, 9, 8, 7, 6, 5, 4, 3, 2, 1, 0]"
  using assms by (simp add: bits6_def bit_simps high_bit)


text \<open>The loop in terms of the numbers: they are read up to the minus sign, and then judged.\<close>

definition judged :: "(nat list \<Rightarrow> bool) \<Rightarrow> string \<Rightarrow> string option" where
  "judged P s = (case segment s of None \<Rightarrow> None | Some (cs, r) \<Rightarrow> if P cs then Some r else None)"

definition coded :: "nat list \<Rightarrow> bool" where
  "coded cs \<longleftrightarrow> well_coded (concat (map bits6 cs))"

definition coded1 :: "nat \<Rightarrow> nat list \<Rightarrow> bool" where
  "coded1 c cs \<longleftrightarrow> well_coded ([bit c 1, bit c 0] @ concat (map bits6 cs))"

definition coded2 :: "nat \<Rightarrow> nat list \<Rightarrow> bool" where
  "coded2 c cs \<longleftrightarrow> well_coded ([bit c 3, bit c 2, bit c 1, bit c 0] @ concat (map bits6 cs))"

lemma judged_step:
  "judged P s = (if char_at s 0 = CHR ''-'' then (if P [] then Some s else None)
     else do { c \<leftarrow> CHARMOD64 (char_at s 0); judged (\<lambda>cs. P (c # cs)) (drop 1 s) })"
  unfolding judged_def by (subst segment_step) (auto split: option.splits bind_splits)

lemma judged_more:
  "\<not> P [] \<Longrightarrow> judged P s = do { c \<leftarrow> CHARMOD64 (char_at s 0); judged (\<lambda>cs. P (c # cs)) (drop 1 s) }"
  by (subst judged_step) (simp add: CHARMOD64_def index_mod64_def)

lemma judged_guard: "judged (\<lambda>cs. \<not> b \<and> P cs) s = (if b then None else judged P s)"
  by (auto simp: judged_def split: option.splits)

lemma length_bits6: "length (bits6 c) = 6"
  by (simp add: bits6_def)

lemma coded_short: "coded []" "\<not> coded [c]" "\<not> coded [c, c']" "\<not> coded1 c [c']" "\<not> coded1 c [c', c'']" "\<not> coded2 c [c']"
  by (simp_all add: coded_def coded1_def coded2_def well_coded_short length_bits6)

lemma coded_last: "coded1 c [] \<longleftrightarrow> c AND 0x03 = 0" "coded2 c [] \<longleftrightarrow> c AND 0x0f = 0"
proof -
  have "c AND mask 2 = 0 \<longleftrightarrow> (\<forall>n. \<not> (n < 2 \<and> bit c n))" "c AND mask 4 = 0 \<longleftrightarrow> (\<forall>n. \<not> (n < 4 \<and> bit c n))"
    by (auto simp: bit_eq_iff bit_simps)
  moreover have "n < 2 \<longleftrightarrow> n = 1 \<or> n = 0" "n < 4 \<longleftrightarrow> n = 3 \<or> n = 2 \<or> n = 1 \<or> n = 0" for n :: nat by arith+
  ultimately show "coded1 c [] \<longleftrightarrow> c AND 0x03 = 0" "coded2 c [] \<longleftrightarrow> c AND 0x0f = 0"
    by (auto simp: coded1_def coded2_def well_coded_short mask_eq_exp_minus_1)
qed

lemma coded_units:
  assumes "c1 < 64" "c2 < 64" "c3 < 64"
  shows "coded (c1 # c2 # c3 # cs) \<longleftrightarrow> \<not> bad_ucs4 (push_bit 10 c1 OR push_bit 4 c2 OR drop_bit 2 c3) \<and> coded1 c3 cs"
    and "c4 < 64 \<Longrightarrow> coded1 c4 (c1 # c2 # c3 # cs) \<longleftrightarrow>
      \<not> bad_ucs4 (push_bit 14 (c4 AND 0x03) OR push_bit 8 c1 OR push_bit 2 c2 OR drop_bit 4 c3) \<and> coded2 c3 cs"
    and "coded2 c1 (c2 # c3 # cs) \<longleftrightarrow> \<not> bad_ucs4 (push_bit 12 (c1 AND 0x0f) OR push_bit 6 c2 OR c3) \<and> coded cs"
proof -
  let ?u = "\<lambda>u. map (bit (u :: nat)) [15, 14, 13, 12, 11, 10, 9, 8, 7, 6, 5, 4, 3, 2, 1, 0]"
  have unit: "well_coded (?u u @ bs) \<longleftrightarrow> \<not> bad_ucs4 u \<and> well_coded bs" for u bs
    using well_coded_unit [of "?u u" bs] by (simp add: bad_ucs4_bits)
  have "coded (c1 # c2 # c3 # cs) \<longleftrightarrow> well_coded ((bits6 c1 @ bits6 c2 @ bits6 c3) @ concat (map bits6 cs))"
    by (simp add: coded_def)
  then show "coded (c1 # c2 # c3 # cs) \<longleftrightarrow> \<not> bad_ucs4 (push_bit 10 c1 OR push_bit 4 c2 OR drop_bit 2 c3) \<and> coded1 c3 cs"
    unfolding first_unit [OF assms] append_assoc unit coded1_def .
  have "coded1 c4 (c1 # c2 # c3 # cs) \<longleftrightarrow> well_coded (([bit c4 1, bit c4 0] @ bits6 c1 @ bits6 c2 @ bits6 c3) @ concat (map bits6 cs))"
    by (simp add: coded1_def)
  then show "coded1 c4 (c1 # c2 # c3 # cs) \<longleftrightarrow>
      \<not> bad_ucs4 (push_bit 14 (c4 AND 0x03) OR push_bit 8 c1 OR push_bit 2 c2 OR drop_bit 4 c3) \<and> coded2 c3 cs" if "c4 < 64"
    unfolding second_unit [OF that assms] append_assoc unit coded2_def .
  have "coded2 c1 (c2 # c3 # cs) \<longleftrightarrow> well_coded (([bit c1 3, bit c1 2, bit c1 1, bit c1 0] @ bits6 c2 @ bits6 c3) @ concat (map bits6 cs))"
    by (simp add: coded2_def)
  then show "coded2 c1 (c2 # c3 # cs) \<longleftrightarrow> \<not> bad_ucs4 (push_bit 12 (c1 AND 0x0f) OR push_bit 6 c2 OR c3) \<and> coded cs"
    unfolding third_unit [OF assms] append_assoc unit coded_def .
qed


lemma bind_cong_some: "(\<And>c. x = Some c \<Longrightarrow> f c = g c) \<Longrightarrow> Option.bind x f = Option.bind x g"
  by (cases x) auto

lemma judged_at:
  "judged P (drop i s) = (if char_at s i = CHR ''-'' then (if P [] then Some (drop i s) else None)
     else do { c \<leftarrow> CHARMOD64 (char_at s i); judged (\<lambda>cs. P (c # cs)) (drop (i + 1) s) })"
  by (subst judged_step) (simp add: char_at_def deref_def hd_drop_conv_nth)

lemma judged_more_at:
  "\<not> P [] \<Longrightarrow> judged P (drop i s) = do { c \<leftarrow> CHARMOD64 (char_at s i); judged (\<lambda>cs. P (c # cs)) (drop (i + 1) s) }"
  by (subst judged_at) (simp add: CHARMOD64_def index_mod64_def)

lemma utf7_third:
  assumes "c6 < 64"
  shows "judged (coded2 c6) (drop 6 s) = (if char_at s 6 = CHR ''-'' then (if c6 AND 0x0f \<noteq> 0 then None else Some (drop 6 s))
     else do {
       c7 \<leftarrow> CHARMOD64 (char_at s 6);
       c8 \<leftarrow> CHARMOD64 (char_at s 7);
       if bad_ucs4 (push_bit 12 (c6 AND 0x0f) OR push_bit 6 c7 OR c8) then None else judged coded (drop 8 s) })"
proof -
  have "judged (\<lambda>cs. coded2 c6 (c7 # cs)) (drop 7 s) = do {
      c8 \<leftarrow> CHARMOD64 (char_at s 7);
      if bad_ucs4 (push_bit 12 (c6 AND 0x0f) OR push_bit 6 c7 OR c8) then None else judged coded (drop 8 s) }"
    if "c7 < 64" for c7
    unfolding judged_more_at [of "\<lambda>cs. coded2 c6 (c7 # cs)", OF coded_short(6)]
    by (intro bind_cong_some) (simp add: coded_units(3) [OF assms that] CHARMOD64_less judged_guard)
  then show ?thesis unfolding judged_at [of _ 6] coded_last by (auto simp: CHARMOD64_less intro!: bind_cong_some)
qed

lemma utf7_second:
  assumes "c3 < 64"
  shows "judged (coded1 c3) (drop 3 s) = (if char_at s 3 = CHR ''-'' then (if c3 AND 0x03 \<noteq> 0 then None else Some (drop 3 s))
     else do {
       c4 \<leftarrow> CHARMOD64 (char_at s 3);
       c5 \<leftarrow> CHARMOD64 (char_at s 4);
       c6 \<leftarrow> CHARMOD64 (char_at s 5);
       if bad_ucs4 (push_bit 14 (c3 AND 0x03) OR push_bit 8 c4 OR push_bit 2 c5 OR drop_bit 4 c6) then None
       else judged (coded2 c6) (drop 6 s) })"
proof -
  have "judged (\<lambda>cs. coded1 c3 (c4 # c5 # cs)) (drop 5 s) = do {
       c6 \<leftarrow> CHARMOD64 (char_at s 5);
       if bad_ucs4 (push_bit 14 (c3 AND 0x03) OR push_bit 8 c4 OR push_bit 2 c5 OR drop_bit 4 c6) then None
       else judged (coded2 c6) (drop 6 s) }"
    if "c4 < 64" "c5 < 64" for c4 c5
    unfolding judged_more_at [of "\<lambda>cs. coded1 c3 (c4 # c5 # cs)", OF coded_short(5)]
    by (intro bind_cong_some) (simp add: coded_units(2) [OF that _ assms] CHARMOD64_less judged_guard)
  then have "judged (\<lambda>cs. coded1 c3 (c4 # cs)) (drop 4 s) = do {
       c5 \<leftarrow> CHARMOD64 (char_at s 4);
       c6 \<leftarrow> CHARMOD64 (char_at s 5);
       if bad_ucs4 (push_bit 14 (c3 AND 0x03) OR push_bit 8 c4 OR push_bit 2 c5 OR drop_bit 4 c6) then None
       else judged (coded2 c6) (drop 6 s) }"
    if "c4 < 64" for c4
    unfolding judged_more_at [of "\<lambda>cs. coded1 c3 (c4 # cs)", OF coded_short(4)]
    using that by (intro bind_cong_some) (simp add: CHARMOD64_less)
  then show ?thesis unfolding judged_at [of _ 3] coded_last by (auto simp: CHARMOD64_less intro!: bind_cong_some)
qed

lemma utf7_first:
  "judged coded s = (if char_at s 0 = CHR ''-'' then Some s
     else do {
       c1 \<leftarrow> CHARMOD64 (char_at s 0);
       c2 \<leftarrow> CHARMOD64 (char_at s 1);
       c3 \<leftarrow> CHARMOD64 (char_at s 2);
       if bad_ucs4 (push_bit 10 c1 OR push_bit 4 c2 OR drop_bit 2 c3) then None else judged (coded1 c3) (drop 3 s) })"
proof -
  have "judged (\<lambda>cs. coded (c1 # c2 # cs)) (drop 2 s) = do {
       c3 \<leftarrow> CHARMOD64 (char_at s 2);
       if bad_ucs4 (push_bit 10 c1 OR push_bit 4 c2 OR drop_bit 2 c3) then None else judged (coded1 c3) (drop 3 s) }"
    if "c1 < 64" "c2 < 64" for c1 c2
    unfolding judged_more_at [of "\<lambda>cs. coded (c1 # c2 # cs)", OF coded_short(3)]
    by (intro bind_cong_some) (simp add: coded_units(1) [OF that] CHARMOD64_less judged_guard)
  then have "judged (\<lambda>cs. coded (c1 # cs)) (drop 1 s) = do {
       c2 \<leftarrow> CHARMOD64 (char_at s 1);
       c3 \<leftarrow> CHARMOD64 (char_at s 2);
       if bad_ucs4 (push_bit 10 c1 OR push_bit 4 c2 OR drop_bit 2 c3) then None else judged (coded1 c3) (drop 3 s) }"
    if "c1 < 64" for c1
    unfolding judged_more_at [of "\<lambda>cs. coded (c1 # cs)", OF coded_short(2)]
    using that by (intro bind_cong_some) (simp add: CHARMOD64_less numeral_2_eq_2)
  then show ?thesis using judged_at [of coded 0 s] coded_short(1) by (auto simp: CHARMOD64_less intro!: bind_cong_some)
qed

lemma utf7_loop_judged: "utf7_loop s = judged coded s"
proof (induction s rule: utf7_loop.induct)
  case (1 s)
  show ?case
    unfolding utf7_loop.simps [of s] utf7_first [of s]
    using 1 by (auto simp: utf7_second utf7_third CHARMOD64_less intro!: bind_cong_some)
qed


lemma segment_shorter: "segment s = Some (cs, r) \<Longrightarrow> length r \<le> length s"
  by (induction s arbitrary: cs) (fastforce split: if_splits bind_splits)+

lemma utf7_loop_shorter: "utf7_loop s = Some r \<Longrightarrow> length r \<le> length s"
  by (auto simp: utf7_loop_judged judged_def split: option.splits if_splits dest: segment_shorter)

section \<open>The check of a name\<close>

function policy_loop :: "bool \<Rightarrow> bool \<Rightarrow> string \<Rightarrow> bool" where
  "policy_loop unixsep sawutf7 [] \<longleftrightarrow> True"
| "policy_loop unixsep sawutf7 (c # s) \<longleftrightarrow>
     (if c = CHR ''&''
      then if sawutf7 \<and> char_at s 0 \<noteq> CHR ''-'' then False
        else (case utf7_loop s of
          None \<Rightarrow> False
        | Some r \<Rightarrow> policy_loop unixsep (char_at (c # s) (length s - length r) \<noteq> CHR ''&'') (drop 1 r))
      else (c \<in> set GOODCHARS \<or> (unixsep \<and> c = DOTCHAR)) \<and> policy_loop unixsep False s)"
  by pat_completeness auto
termination
  by (relation "measure (\<lambda>(u, w, s). length s)") (auto dest!: utf7_loop_shorter)

definition no_flags :: glob_flags where
  "no_flags = \<lparr>GLOB_ICASE = False, GLOB_SUBSTRING = False, GLOB_HIERARCHY = False, GLOB_INBOXCASE = False\<rparr>"

fun pattern_loop :: "string list \<Rightarrow> string \<Rightarrow> bool option" where
  "pattern_loop [] name = Some True"
| "pattern_loop (p # ps) name = do {
     (r, m) \<leftarrow> glob_test (glob_init_suppress p no_flags None) name 0 None;
     if r \<noteq> - 1 then Some False else pattern_loop ps name
   }"

definition mboxname_policycheck :: "bool \<Rightarrow> string \<Rightarrow> bool option" where
  "mboxname_policycheck unixsep name =
     (if length name > MAX_MAILBOX_NAME then Some False
      else do {
        ok \<leftarrow> pattern_loop badmboxpatterns name;
        if \<not> ok then Some False
        else if char_at name 0 = CHR 0x7E then Some False
        else Some (policy_loop unixsep False name)
      })"


section \<open>Modified UTF-7\<close>

text \<open>The character of a six-bit number, and a text of bits cut into six-bit numbers, filled up with zeros.\<close>

definition mod64_char :: "nat \<Rightarrow> char" where
  "mod64_char n = (if n < 26 then char_of (n + 65) else if n < 52 then char_of (n + 71) else if n < 62 then char_of (n - 4)
     else if n = 62 then CHR ''+'' else CHR '','')"

definition from_bits :: "bool list \<Rightarrow> nat" where
  "from_bits = foldl (\<lambda>n b. 2 * n + of_bool b) 0"

function pack6 :: "bool list \<Rightarrow> nat list" where
  "pack6 bs = (if bs = [] then [] else from_bits (take 6 (bs @ replicate 6 False)) # pack6 (drop 6 bs))"
  by pat_completeness auto
termination
  by (relation "measure length") auto

declare pack6.simps [simp del]

lemma mod64_char_inverse: "CHARMOD64 a = Some c \<longleftrightarrow> c < 64 \<and> a = mod64_char c"
proof
  assume c: "CHARMOD64 a = Some c"
  have "a = char_of (of_char a :: nat)" by simp
  moreover have "(of_char a :: nat) = 43 \<Longrightarrow> a = CHR ''+''" "(of_char a :: nat) = 44 \<Longrightarrow> a = CHR '',''"
    using of_char_eq_iff [of a "CHR ''+''", where 'a = nat] of_char_eq_iff [of a "CHR '',''", where 'a = nat] by simp_all
  ultimately show "c < 64 \<and> a = mod64_char c"
    using c unfolding CHARMOD64_def index_mod64_def mod64_char_def by (auto split: if_splits)
next
  assume "c < 64 \<and> a = mod64_char c"
  then show "CHARMOD64 a = Some c"
    unfolding CHARMOD64_def index_mod64_def mod64_char_def by (auto split: if_splits)
qed

lemma mod64_char_minus: "c < 64 \<Longrightarrow> mod64_char c \<noteq> CHR ''-''"
  using mod64_char_inverse [of "CHR ''-''" c] by (auto simp: CHARMOD64_def index_mod64_def)

lemma mod64_char_amp: "c < 64 \<Longrightarrow> mod64_char c \<noteq> CHR ''&''"
  using mod64_char_inverse [of "CHR ''&''" c] by (auto simp: CHARMOD64_def index_mod64_def)

lemma segment_iff:
  "segment s = Some (cs, r) \<longleftrightarrow> s = map mod64_char cs @ r \<and> (\<forall>c \<in> set cs. c < 64) \<and> (\<exists>r'. r = CHR ''-'' # r')"
proof (induction s arbitrary: cs)
  case (Cons a s)
  show ?case
  proof (cases "a = CHR ''-''")
    case True
    then show ?thesis by (cases cs) (auto, metis mod64_char_minus)
  next
    case False
    then have "segment (a # s) = Some (cs, r) \<longleftrightarrow> (\<exists>c cs'. cs = c # cs' \<and> CHARMOD64 a = Some c \<and> segment s = Some (cs', r))"
      by (auto split: bind_splits)
    then show ?thesis unfolding Cons.IH mod64_char_inverse using False by (cases cs) auto
  qed
qed auto

lemma from_bits6: "c < 64 \<Longrightarrow> from_bits (bits6 c) = c"
proof -
  assume "c < 64"
  then have "c \<in> set [0..<64]" by simp
  moreover have "\<forall>c \<in> set [0..<64]. from_bits (bits6 c) = c" by code_simp
  ultimately show ?thesis by blast
qed

lemma bits6_from: "length bs = 6 \<Longrightarrow> bits6 (from_bits bs) = bs \<and> from_bits bs < 64"
proof -
  assume "length bs = 6"
  then have "bs \<in> set (List.n_lists 6 [True, False])" by (auto simp: set_n_lists)
  moreover have "\<forall>bs \<in> set (List.n_lists 6 [True, False]). bits6 (from_bits bs) = bs \<and> from_bits bs < 64" by code_simp
  ultimately show ?thesis by blast
qed


lemma bits_pack6: "\<exists>z. concat (map bits6 (pack6 bs)) = bs @ z \<and> length z < 6 \<and> True \<notin> set z \<and> (\<forall>c \<in> set (pack6 bs). c < 64)"
proof (induction bs rule: pack6.induct)
  case (1 bs)
  show ?case
  proof (cases "bs = []")
    case False
    let ?f = "take 6 (bs @ replicate 6 False)"
    have p: "pack6 bs = from_bits ?f # pack6 (drop 6 bs)" using False by (subst pack6.simps) simp
    have f: "bits6 (from_bits ?f) = ?f" "from_bits ?f < 64" using bits6_from [of ?f] by simp_all
    obtain z where z: "concat (map bits6 (pack6 (drop 6 bs))) = drop 6 bs @ z" "length z < 6" "True \<notin> set z"
      "\<forall>c \<in> set (pack6 (drop 6 bs)). c < 64" using 1 [OF False] by blast
    show ?thesis
    proof (cases "6 \<le> length bs")
      case True
      then have "concat (map bits6 (pack6 bs)) = bs @ z" using p f z(1) by simp
      moreover have "\<forall>c \<in> set (pack6 bs). c < 64" unfolding p using f(2) z(4) by simp
      ultimately show ?thesis using z(2,3) by blast
    next
      case l: False
      then have "pack6 (drop 6 bs) = []" by (simp add: pack6.simps)
      then have "concat (map bits6 (pack6 bs)) = bs @ replicate (6 - length bs) False" "\<forall>c \<in> set (pack6 bs). c < 64"
        using p f l by simp_all
      then show ?thesis using False l by (intro exI [of _ "replicate (6 - length bs) False"]) simp
    qed
  qed (simp add: pack6.simps)
qed

lemma zeros: "True \<notin> set z \<Longrightarrow> z = replicate (length z) False"
  by (induction z) auto

lemma pack6_bits:
  "concat (map bits6 cs) = bs @ z \<Longrightarrow> length z < 6 \<Longrightarrow> True \<notin> set z \<Longrightarrow> \<forall>c \<in> set cs. c < 64 \<Longrightarrow> pack6 bs = cs"
proof (induction cs arbitrary: bs)
  case Nil
  then show ?case by (simp add: pack6.simps)
next
  case (Cons c cs)
  have e: "bits6 c @ concat (map bits6 cs) = bs @ z" using Cons.prems(1) by simp
  show ?case
  proof (cases "6 \<le> length bs")
    case True
    then have b: "take 6 bs = bits6 c" "concat (map bits6 cs) = drop 6 bs @ z"
      using arg_cong [OF e, of "take 6"] arg_cong [OF e, of "drop 6"] by (simp_all add: length_bits6)
    have "bs \<noteq> []" using True by auto
    then have "pack6 bs = from_bits (bits6 c) # pack6 (drop 6 bs)" using True b(1) by (subst pack6.simps) simp
    then show ?thesis using Cons.IH [OF b(2) Cons.prems(2,3)] Cons.prems(4) from_bits6 by simp
  next
    case False
    have n: "6 + length (concat (map bits6 cs)) = length bs + length z" using arg_cong [OF e, of length] by (simp add: length_bits6)
    have cs: "cs = []"
    proof (cases cs)
      case (Cons d ds)
      then show ?thesis using n False Cons.prems(2) by (simp add: length_bits6)
    qed simp
    then have "length z = 6 - length bs" "bits6 c = bs @ z" "bs \<noteq> []" using n e Cons.prems(2) by auto
    then have "take 6 (bs @ replicate 6 False) = bits6 c" using zeros [OF Cons.prems(3)] False by simp
    then show ?thesis using \<open>bs \<noteq> []\<close> False cs Cons.prems(4) from_bits6 by (subst pack6.simps) (simp add: pack6.simps)
  qed
qed

lemma well_coded_iff:
  "well_coded bs \<longleftrightarrow> (\<exists>us z. bs = concat us @ z \<and> (\<forall>u \<in> set us. encoded_unit u) \<and> length z < 6 \<and> True \<notin> set z)"
proof (induction bs rule: well_coded.induct)
  case (1 bs)
  show ?case
  proof (cases "length bs < 16")
    case True
    have "us = []" if "bs = concat us @ z" "\<forall>u \<in> set us. encoded_unit u" for us z
      using that True by (cases us) (auto simp: encoded_unit_def)
    then have "(\<exists>us z. bs = concat us @ z \<and> (\<forall>u \<in> set us. encoded_unit u) \<and> length z < 6 \<and> True \<notin> set z) \<longleftrightarrow>
        length bs < 6 \<and> True \<notin> set bs"
      by (metis append_Nil concat.simps(1) empty_iff empty_set)
    then show ?thesis using well_coded_short [OF True] by simp
  next
    case False
    have "(\<exists>us z. bs = concat us @ z \<and> (\<forall>u \<in> set us. encoded_unit u) \<and> length z < 6 \<and> True \<notin> set z) \<longleftrightarrow>
      encoded_unit (take 16 bs) \<and> (\<exists>us z. drop 16 bs = concat us @ z \<and> (\<forall>u \<in> set us. encoded_unit u) \<and> length z < 6 \<and> True \<notin> set z)"
      (is "?l \<longleftrightarrow> ?r")
    proof
      assume ?l
      then obtain us z where b: "bs = concat us @ z" "\<forall>u \<in> set us. encoded_unit u" "length z < 6" "True \<notin> set z" by blast
      then obtain u us' where us: "us = u # us'" using False by (cases us) auto
      then have "take 16 bs = u" "drop 16 bs = concat us' @ z" using b by (simp_all add: encoded_unit_def)
      then show ?r using b us by auto
    next
      assume ?r
      then obtain us z where "encoded_unit (take 16 bs)" "drop 16 bs = concat us @ z" "\<forall>u \<in> set us. encoded_unit u" "length z < 6" "True \<notin> set z"
        by blast
      then show ?l by (intro exI [of _ "take 16 bs # us"] exI [of _ z]) (simp flip: append_assoc, metis append_take_drop_id append_assoc)
    qed
    then show ?thesis using 1 False by (subst well_coded.simps) simp
  qed
qed


text \<open>
  A name as a text: characters that stand for themselves, ampersands, and runs of characters of sixteen
  bits, which are written in modified UTF-7. Two runs are never side by side.
\<close>

datatype item = Plain char | Ampersand | Run "bool list list"

fun encode :: "item \<Rightarrow> string" where
  "encode (Plain c) = [c]"
| "encode Ampersand = ''&-''"
| "encode (Run us) = CHR ''&'' # map mod64_char (pack6 (concat us)) @ ''-''"

fun valid_item :: "bool \<Rightarrow> item \<Rightarrow> bool" where
  "valid_item unixsep (Plain c) \<longleftrightarrow> c \<in> set GOODCHARS \<or> (unixsep \<and> c = DOTCHAR)"
| "valid_item unixsep Ampersand \<longleftrightarrow> True"
| "valid_item unixsep (Run us) \<longleftrightarrow> us \<noteq> [] \<and> (\<forall>u \<in> set us. encoded_unit u)"

fun is_run :: "item \<Rightarrow> bool" where
  "is_run (Run us) = True"
| "is_run i = False"

fun valid_items :: "bool \<Rightarrow> bool \<Rightarrow> item list \<Rightarrow> bool" where
  "valid_items unixsep run [] \<longleftrightarrow> True"
| "valid_items unixsep run (i # is) \<longleftrightarrow> valid_item unixsep i \<and> \<not> (run \<and> is_run i) \<and> valid_items unixsep (is_run i) is"

lemma coded_iff: "cs \<noteq> [] \<and> (\<forall>c \<in> set cs. c < 64) \<and> coded cs \<longleftrightarrow> (\<exists>us. valid_item unixsep (Run us) \<and> cs = pack6 (concat us))"
proof
  assume a: "cs \<noteq> [] \<and> (\<forall>c \<in> set cs. c < 64) \<and> coded cs"
  then obtain us z where u: "concat (map bits6 cs) = concat us @ z" "\<forall>u \<in> set us. encoded_unit u" "length z < 6" "True \<notin> set z"
    unfolding coded_def well_coded_iff by blast
  have p: "pack6 (concat us) = cs" by (rule pack6_bits [OF u(1,3,4)]) (use a in blast)
  moreover have "us \<noteq> []" using a p by (auto simp: pack6.simps)
  ultimately show "\<exists>us. valid_item unixsep (Run us) \<and> cs = pack6 (concat us)" using u(2) by (intro exI [of _ us]) simp
next
  assume "\<exists>us. valid_item unixsep (Run us) \<and> cs = pack6 (concat us)"
  then obtain us where u: "us \<noteq> []" "\<forall>u \<in> set us. encoded_unit u" "cs = pack6 (concat us)" by auto
  obtain z where z: "concat (map bits6 cs) = concat us @ z" "length z < 6" "True \<notin> set z" "\<forall>c \<in> set cs. c < 64"
    using bits_pack6 [of "concat us"] u(3) by blast
  have "concat us \<noteq> []" using u(1,2) by (cases us) (auto simp: encoded_unit_def)
  then show "cs \<noteq> [] \<and> (\<forall>c \<in> set cs. c < 64) \<and> coded cs" using z u by (auto simp: coded_def well_coded_iff)
qed

text \<open>One turn of the loop at an ampersand.\<close>

lemma policy_loop_amp:
  "policy_loop unixsep run (CHR ''&'' # s) \<longleftrightarrow>
   (\<exists>r. s = CHR ''-'' # r \<and> policy_loop unixsep False r) \<or>
   (\<exists>us r. \<not> run \<and> valid_item unixsep (Run us) \<and> s = map mod64_char (pack6 (concat us)) @ CHR ''-'' # r \<and> policy_loop unixsep True r)"
  (is "?p \<longleftrightarrow> ?amp \<or> ?run")
proof (cases "\<exists>cs r. segment s = Some (cs, CHR ''-'' # r)")
  case True
  then obtain cs r where seg: "segment s = Some (cs, CHR ''-'' # r)" by blast
  then have s: "s = map mod64_char cs @ CHR ''-'' # r" "\<forall>c \<in> set cs. c < 64" by (simp_all add: segment_iff)
  have uniq: "cs' = cs \<and> r' = r" if "s = map mod64_char cs' @ CHR ''-'' # r'" "\<forall>c \<in> set cs'. c < 64" for cs' r'
    using that seg segment_iff [of s cs' "CHR ''-'' # r'"] by simp
  have len: "length s - length (CHR ''-'' # r) = length cs" using s(1) by simp
  show ?thesis
  proof (cases cs)
    case Nil
    then have "?p \<longleftrightarrow> policy_loop unixsep False r" using s seg coded_short(1) by (simp add: utf7_loop_judged judged_def)
    moreover have "\<not> ?run" using uniq Nil coded_iff [of "[]" unixsep] bits_pack6 by (metis coded_iff)
    ultimately show ?thesis using s Nil by auto
  next
    case (Cons c cs')
    then have h: "char_at s 0 \<noteq> CHR ''-''" using s mod64_char_minus [of c] by simp
    have "char_at (CHR ''&'' # s) (length cs) = mod64_char (last cs)"
      using s(1) Cons by (simp add: char_at_def nth_Cons' nth_append last_conv_nth)
    moreover have "mod64_char (last cs) \<noteq> CHR ''&''" using s(2) Cons mod64_char_amp last_in_set [of cs] by blast
    ultimately have "?p \<longleftrightarrow> \<not> run \<and> coded cs \<and> policy_loop unixsep True r"
      using h seg len by (simp add: utf7_loop_judged judged_def)
    moreover have "\<not> ?amp" using h by auto
    moreover have "?run \<longleftrightarrow> \<not> run \<and> coded cs \<and> policy_loop unixsep True r"
    proof
      assume ?run
      then obtain us r' where u: "\<not> run" "valid_item unixsep (Run us)" "s = map mod64_char (pack6 (concat us)) @ CHR ''-'' # r'"
        "policy_loop unixsep True r'" by blast
      have c: "(\<forall>c \<in> set (pack6 (concat us)). c < 64) \<and> coded (pack6 (concat us))" using coded_iff u(2) by blast
      then show "\<not> run \<and> coded cs \<and> policy_loop unixsep True r" using uniq [OF u(3)] u(1,4) by simp
    next
      assume a: "\<not> run \<and> coded cs \<and> policy_loop unixsep True r"
      then obtain us where "valid_item unixsep (Run us)" "cs = pack6 (concat us)" using coded_iff [of cs unixsep] s(2) Cons by blast
      then show ?run using a s(1) by blast
    qed
    ultimately show ?thesis by blast
  qed
next
  case False
  then have "segment s = None" using segment_iff by (metis option.exhaust surj_pair)
  then have "\<not> ?p" by (simp add: utf7_loop_judged judged_def)
  moreover have "\<not> ?amp" using \<open>segment s = None\<close> by auto
  moreover have "\<not> ?run" using \<open>segment s = None\<close> segment_iff coded_iff by (metis option.distinct(1))
  ultimately show ?thesis by blast
qed


lemma policy_loop_iff: "policy_loop unixsep run s \<longleftrightarrow> (\<exists>is. valid_items unixsep run is \<and> s = concat (map encode is))"
proof (induction "length s" arbitrary: run s rule: less_induct)
  case less
  show ?case
  proof (cases s)
    case Nil
    have "encode i \<noteq> []" for i by (cases i) simp_all
    then show ?thesis using Nil by (auto intro: exI [of _ "[]"])
  next
    case (Cons c s')
    have r: "policy_loop unixsep run' r \<longleftrightarrow> (\<exists>is. valid_items unixsep run' is \<and> r = concat (map encode is))" if "length r < length s" for run' r
      using less that by blast
    have good: "CHR ''&'' \<notin> set GOODCHARS" "DOTCHAR \<noteq> CHR ''&''" by (simp_all add: GOODCHARS_def DOTCHAR_def)
    show ?thesis
    proof (cases "c = CHR ''&''")
      case True
      have first: "(\<exists>is. valid_items unixsep run is \<and> s = concat (map encode is)) \<longleftrightarrow>
          (\<exists>is. valid_items unixsep False is \<and> s = encode Ampersand @ concat (map encode is)) \<or>
          (\<exists>us is. \<not> run \<and> valid_item unixsep (Run us) \<and> valid_items unixsep True is \<and> s = encode (Run us) @ concat (map encode is))"
        (is "?l \<longleftrightarrow> ?r")
      proof
        assume ?l
        then obtain "is" where i: "valid_items unixsep run is" "s = concat (map encode is)" by blast
        then obtain i is' where "is": "is = i # is'" using Cons by (cases "is") auto
        show ?r
        proof (cases i)
          case (Plain d)
          then show ?thesis using i "is" Cons True good by auto
        qed (use i "is" in auto)
      next
        assume ?r
        then show ?l
        proof (elim disjE exE conjE)
          fix "is" assume "valid_items unixsep False is" "s = encode Ampersand @ concat (map encode is)"
          then show ?l by (intro exI [of _ "Ampersand # is"]) simp
        next
          fix us "is" assume "\<not> run" "valid_item unixsep (Run us)" "valid_items unixsep True is" "s = encode (Run us) @ concat (map encode is)"
          then show ?l by (intro exI [of _ "Run us # is"]) simp
        qed
      qed
      have "policy_loop unixsep False q \<longleftrightarrow> (\<exists>is. valid_items unixsep False is \<and> q = concat (map encode is))" if "s' = CHR ''-'' # q" for q
        by (rule r) (simp add: Cons that)
      then have "(\<exists>q. s' = CHR ''-'' # q \<and> policy_loop unixsep False q) \<longleftrightarrow>
          (\<exists>is. valid_items unixsep False is \<and> s' = CHR ''-'' # concat (map encode is))" by blast
      moreover have "policy_loop unixsep True q \<longleftrightarrow> (\<exists>is. valid_items unixsep True is \<and> q = concat (map encode is))"
        if "s' = map mod64_char (pack6 (concat us)) @ CHR ''-'' # q" for q us
        by (rule r) (simp add: Cons that)
      then have "(\<exists>us q. \<not> run \<and> valid_item unixsep (Run us) \<and> s' = map mod64_char (pack6 (concat us)) @ CHR ''-'' # q \<and> policy_loop unixsep True q) \<longleftrightarrow>
          (\<exists>us is. \<not> run \<and> valid_item unixsep (Run us) \<and> valid_items unixsep True is \<and>
             s' = map mod64_char (pack6 (concat us)) @ CHR ''-'' # concat (map encode is))" by blast
      ultimately show ?thesis unfolding first unfolding Cons True policy_loop_amp by simp
    next
      case False
      have "(\<exists>is. valid_items unixsep run is \<and> s = concat (map encode is)) \<longleftrightarrow>
          valid_item unixsep (Plain c) \<and> (\<exists>is. valid_items unixsep False is \<and> s' = concat (map encode is))" (is "?l \<longleftrightarrow> ?r")
      proof
        assume ?l
        then obtain "is" where i: "valid_items unixsep run is" "s = concat (map encode is)" by blast
        then obtain i is' where "is": "is = i # is'" using Cons by (cases "is") auto
        show ?r using i "is" Cons False by (cases i) auto
      next
        assume ?r
        then obtain "is" where "valid_item unixsep (Plain c)" "valid_items unixsep False is" "s' = concat (map encode is)" by blast
        then show ?l using Cons by (intro exI [of _ "Plain c # is"]) simp
      qed
      then show ?thesis using r [of s' False] Cons False by simp
    qed
  qed
qed

section \<open>The forbidden patterns\<close>

lemma pattern_loop_decides:
  assumes "NUL \<notin> set name" and "\<forall>p \<in> set ps. NUL \<notin> set p"
  shows "pattern_loop ps name = Some (\<forall>p \<in> set ps. \<not> pattern_matches id p name)"
  using assms(2)
proof (induction ps)
  case (Cons p ps)
  have "glob_test (glob_init_suppress p no_flags None) name 0 None = glob_answer (pattern_matches id p name) name"
    using glob_test_plain [of no_flags p name name 0] Cons.prems assms(1)
    by (simp add: no_flags_def case_of_def searched_def)
  then show ?case using Cons by (auto simp: glob_answer_def id_def)
qed simp

lemma literal_matches: "(\<forall>c \<in> set p. \<not> wild c) \<Longrightarrow> pattern_matches id p t \<longleftrightarrow> t = p"
proof (induction p arbitrary: t)
  case (Cons c p)
  then show ?case by (cases t) (auto simp: wild_def)
qed simp

lemma prefix_matches: "(\<forall>c \<in> set p. \<not> wild c) \<Longrightarrow> pattern_matches id (p @ [STAR]) t \<longleftrightarrow> (\<exists>b. t = p @ b)"
proof -
  assume "\<forall>c \<in> set p. \<not> wild c"
  then have "pattern_matches id (p @ [STAR]) t \<longleftrightarrow> (\<exists>k \<le> length t. take k t = p)" by (simp add: trailing_star literal_matches)
  also have "\<dots> \<longleftrightarrow> (\<exists>b. t = p @ b)"
  proof
    assume "\<exists>b. t = p @ b"
    then show "\<exists>k \<le> length t. take k t = p" by (intro exI [of _ "length p"]) auto
  qed (metis append_take_drop_id)
  finally show ?thesis .
qed

lemma star_suffix_matches: "pattern_matches id (STAR # p) t \<longleftrightarrow> (\<exists>a b. t = a @ b \<and> pattern_matches id p b)"
proof
  assume "pattern_matches id (STAR # p) t"
  then show "\<exists>a b. t = a @ b \<and> pattern_matches id p b" unfolding star_matches by (metis append_take_drop_id)
next
  assume "\<exists>a b. t = a @ b \<and> pattern_matches id p b"
  then obtain a b where "t = a @ b" "pattern_matches id p b" by blast
  then show "pattern_matches id (STAR # p) t" unfolding star_matches by (intro exI [of _ "length a"]) simp
qed

definition allowed_hierarchy :: "string \<Rightarrow> bool" where
  "allowed_hierarchy t \<longleftrightarrow> t \<noteq> [] \<and> t \<noteq> ''user'' \<and> CHR 0x09 \<notin> set t \<and> CHR 0x0A \<notin> set t \<and> CHR ''/'' \<notin> set t \<and>
     hd t \<noteq> CHR ''.'' \<and> last t \<noteq> CHR ''.'' \<and> \<not> (\<exists>a b. t = a @ ''..'' @ b)"

lemma inside_matches: "\<forall>c \<in> set p. \<not> wild c \<Longrightarrow> pattern_matches id (STAR # p @ [STAR]) t \<longleftrightarrow> (\<exists>a b. t = a @ p @ b)"
  using prefix_matches by (simp add: star_suffix_matches) blast

lemma patterns_hierarchy: "(\<forall>p \<in> set badmboxpatterns. \<not> pattern_matches id p t) \<longleftrightarrow> allowed_hierarchy t"
proof -
  have one: "pattern_matches id [STAR, c, STAR] t \<longleftrightarrow> c \<in> set t" if "\<not> wild c" for c
    using inside_matches [of "[c]" t] that by (simp add: in_set_conv_decomp)
  have first: "pattern_matches id ''.*'' t \<longleftrightarrow> t \<noteq> [] \<and> hd t = CHR ''.''"
    using prefix_matches [of "''.''" t] by (cases t) (auto simp: wild_def)
  have last: "pattern_matches id ''*.'' t \<longleftrightarrow> t \<noteq> [] \<and> last t = CHR ''.''"
  proof -
    have "pattern_matches id ''*.'' t \<longleftrightarrow> (\<exists>a. t = a @ ''.'')"
      using literal_matches [of "''.''"] by (simp add: star_suffix_matches wild_def)
    also have "\<dots> \<longleftrightarrow> t \<noteq> [] \<and> last t = CHR ''.''" by (metis append_butlast_last_id last_snoc snoc_eq_iff_butlast)
    finally show ?thesis .
  qed
  have dots: "pattern_matches id ''*..*'' t \<longleftrightarrow> (\<exists>a b. t = a @ ''..'' @ b)"
    using inside_matches [of "''..''" t] by (simp add: wild_def)
  have lit: "pattern_matches id [] t \<longleftrightarrow> t = []" "pattern_matches id ''user'' t \<longleftrightarrow> t = ''user''"
    using literal_matches [of "''user''" t] by (simp_all add: wild_def)
  show ?thesis unfolding badmboxpatterns_def allowed_hierarchy_def
    using one [of "CHR 0x09"] one [of "CHR 0x0A"] one [of "CHR ''/''"] first last dots lit
    by (simp add: wild_def) blast
qed

section \<open>Properties\<close>

text \<open>
  C15: the check of a new mailbox name ends, and accepts exactly the names that fit, keep the rules of the
  hierarchy (not empty, not \<^verbatim>\<open>user\<close>, no tab, line feed or slash, no empty component), do not begin with a
  tilde and are the canonical modified UTF-7 of a text: every character that may stand for itself does,
  ampersands are written \<^verbatim>\<open>&-\<close>, and each maximal run of other characters, none of them US-ASCII or half of a
  surrogate pair, is encoded once, with zero padding.
\<close>

theorem policycheck_accepts:
  assumes "NUL \<notin> set name"
  shows "mboxname_policycheck unixsep name = Some (length name \<le> MAX_MAILBOX_NAME \<and> allowed_hierarchy name \<and>
    hd name \<noteq> CHR 0x7E \<and> (\<exists>is. valid_items unixsep False is \<and> name = concat (map encode is)))"
proof -
  have "\<forall>p \<in> set badmboxpatterns. NUL \<notin> set p" by (simp add: badmboxpatterns_def)
  then have p: "pattern_loop badmboxpatterns name = Some (allowed_hierarchy name)"
    using pattern_loop_decides [OF assms] patterns_hierarchy by simp
  have "hd name = deref name" if "allowed_hierarchy name" using that by (cases name) (simp_all add: allowed_hierarchy_def deref_def)
  then show ?thesis by (auto simp: mboxname_policycheck_def p policy_loop_iff)
qed

theorem policycheck_accepts_witness:
  "mboxname_policycheck False ''user.bob.&ZeU-'' = Some True"
proof -
  let ?u = "[False, True, True, False, False, True, False, True, True, True, True, False, False, True, False, True]"
  let ?is = "map Plain ''user.bob.'' @ [Run [?u]]"
  have n: "''user.bob.&ZeU-'' = concat (map encode ?is)" by code_simp
  have v: "valid_items False False ?is" by code_simp
  have "allowed_hierarchy ''user.bob.&ZeU-''"
    unfolding allowed_hierarchy_def by (auto simp: append_eq_Cons_conv Cons_eq_append_conv)
  moreover have "\<exists>is. valid_items False False is \<and> ''user.bob.&ZeU-'' = concat (map encode is)" using n v by blast
  ultimately show ?thesis using policycheck_accepts [of "''user.bob.&ZeU-''" False] by (simp add: MAX_MAILBOX_NAME_def)
qed

end
