(* ===== verification/Timsieved_Lex.thy ===== *)
theory Timsieved_Lex
  imports Prelude
begin

text \<open>
  The lexer of the ManageSieve server, \<^verbatim>\<open>timsieved/lex.c\<close>.

  The stream is the bytes that are still to be read; at its end \<^verbatim>\<open>prot_getc\<close> returns \<^verbatim>\<open>EOF\<close>. Pushing \<^verbatim>\<open>EOF\<close>
  back stores the byte 255. A token is its number: that of a byte, or one of the numbers above 255.
  The buffer holds the text of an atom or a quoted string; its size is \<^verbatim>\<open>maxscriptsize\<close>, which is not
  negative. Memory is always granted.

  \<^verbatim>\<open>string_allocate\<close> terminates the copy of a buffer, but not the string of a literal, which is filled in
  afterwards. The bytes up to the next NUL are therefore part of the literal for whoever reads it as a
  C string; they are what the memory happened to hold, \<^verbatim>\<open>le_heap\<close>.
\<close>

section \<open>Data\<close>

record mystring =
  ms_data :: string
  ms_tail :: string

text \<open>\<^verbatim>\<open>string_DATAPTR\<close>, read as a C string.\<close>

definition string_DATAPTR :: "mystring \<Rightarrow> string" where
  "string_DATAPTR m = takeWhile (\<lambda>c. c \<noteq> NUL) (ms_data m @ ms_tail m)"

datatype lexer_state =
    LEXER_STATE_RECOVER | LEXER_STATE_RECOVER_CR | LEXER_STATE_CR | LEXER_STATE_QSTR | LEXER_STATE_LITERAL
  | LEXER_STATE_NUMBER | LEXER_STATE_NORMAL | LEXER_STATE_ATOM

definition TIMSIEVE_OK :: int where "TIMSIEVE_OK = 0"
definition TIMSIEVE_FAIL :: int where "TIMSIEVE_FAIL = - 1"
definition TIMSIEVE_NOEXIST :: int where "TIMSIEVE_NOEXIST = - 6"

definition SPACE :: int where "SPACE = 32"
definition EOL :: int where "EOL = 300"
definition STRING :: int where "STRING = 301"
definition NUMBER :: int where "NUMBER = 302"
definition AUTHENTICATE :: int where "AUTHENTICATE = 400"
definition LOGOUT :: int where "LOGOUT = 401"
definition GETSCRIPT :: int where "GETSCRIPT = 402"
definition PUTSCRIPT :: int where "PUTSCRIPT = 403"
definition SETACTIVE :: int where "SETACTIVE = 404"
definition LISTSCRIPTS :: int where "LISTSCRIPTS = 405"
definition DELETESCRIPT :: int where "DELETESCRIPT = 406"
definition CAPABILITY :: int where "CAPABILITY = 407"
definition HAVESPACE :: int where "HAVESPACE = 408"
definition STARTTLS :: int where "STARTTLS = 409"

named_theorems token_defs \<open>numbers of the tokens\<close>

declare SPACE_def [token_defs] EOL_def [token_defs] STRING_def [token_defs] NUMBER_def [token_defs]
  AUTHENTICATE_def [token_defs] LOGOUT_def [token_defs] GETSCRIPT_def [token_defs] PUTSCRIPT_def [token_defs]
  SETACTIVE_def [token_defs] LISTSCRIPTS_def [token_defs] DELETESCRIPT_def [token_defs]
  CAPABILITY_def [token_defs] HAVESPACE_def [token_defs] STARTTLS_def [token_defs]
  TIMSIEVE_OK_def [token_defs] TIMSIEVE_FAIL_def [token_defs] TIMSIEVE_NOEXIST_def [token_defs]

record lex_env =
  maxscriptsize :: nat
  tls_enabled :: bool
  le_heap :: string

record lexed =
  lx_token :: int
  lx_str :: "mystring option"
  lx_num :: "64 word option"
  lx_state :: lexer_state
  lx_rest :: string

section \<open>Operations\<close>

definition token_lookup :: "bool \<Rightarrow> string \<Rightarrow> int" where
  "token_lookup tls str =
     (if str = ''authenticate'' then AUTHENTICATE
      else if str = ''capability'' then CAPABILITY
      else if str = ''deletescript'' then DELETESCRIPT
      else if str = ''getscript'' then GETSCRIPT
      else if str = ''havespace'' then HAVESPACE
      else if str = ''listscripts'' then LISTSCRIPTS
      else if str = ''logout'' then LOGOUT
      else if str = ''putscript'' then PUTSCRIPT
      else if str = ''setactive'' then SETACTIVE
      else if str = ''starttls'' \<and> tls then STARTTLS
      else - 1)"

definition tok :: "int \<Rightarrow> string \<Rightarrow> lexed" where
  "tok t s = \<lparr>lx_token = t, lx_str = None, lx_num = None, lx_state = LEXER_STATE_NORMAL, lx_rest = s\<rparr>"

text \<open>\<^verbatim>\<open>ERR\<close>; with the byte pushed back in front of the rest it is \<^verbatim>\<open>ERR_PUSHBACK\<close>.\<close>

definition ERR :: "string \<Rightarrow> lexed" where
  "ERR s = \<lparr>lx_token = TIMSIEVE_FAIL, lx_str = None, lx_num = None, lx_state = LEXER_STATE_RECOVER, lx_rest = s\<rparr>"

definition pushed_EOF :: char where "pushed_EOF = CHR 0xFF"

definition isalpha :: "char \<Rightarrow> bool" where
  "isalpha c \<longleftrightarrow> isupper c \<or> islower c"

definition digit :: "char \<Rightarrow> 64 word" where
  "digit c = of_nat (of_char c - 48)"

definition full :: "lex_env \<Rightarrow> string \<Rightarrow> bool" where
  "full e buff \<longleftrightarrow> int (maxscriptsize e) - 10 \<le> int (length buff)"

text \<open>The literal, from behind its plus sign on.\<close>

definition read_literal :: "lex_env \<Rightarrow> 64 word \<Rightarrow> string \<Rightarrow> lexed" where
  "read_literal e count s =
     (let n = unat count in
      if n > maxscriptsize e then ERR (drop n s)
      else (tok STRING (drop n s))\<lparr>lx_str :=
        Some \<lparr>ms_data = take n s @ replicate (n - length s) pushed_EOF, ms_tail = le_heap e\<rparr>\<rparr>)"

definition literal :: "lex_env \<Rightarrow> 64 word \<Rightarrow> string \<Rightarrow> lexed" where
  "literal e count s = (case s of
     [] \<Rightarrow> ERR [pushed_EOF]
   | ch # s1 \<Rightarrow> if ch \<noteq> CHR ''}'' then ERR s
     else (case s1 of
       [] \<Rightarrow> ERR []
     | ch # s2 \<Rightarrow> if ch \<noteq> CR then ERR s1
       else (case s2 of
         [] \<Rightarrow> ERR []
       | ch # s3 \<Rightarrow> if ch \<noteq> LF then ERR s2 else read_literal e count s3)))"

text \<open>What the loop does with one more byte: it goes on with a state, the buffer, both numbers and the rest, or returns.\<close>

datatype lex_move = Done lexed | Go lexer_state string "64 word" "64 word" string

definition lex_char :: "lex_env \<Rightarrow> lexer_state \<Rightarrow> string \<Rightarrow> 64 word \<Rightarrow> 64 word \<Rightarrow> char \<Rightarrow> string \<Rightarrow> lex_move" where
  "lex_char e st buff num count ch s = (case st of
     LEXER_STATE_RECOVER \<Rightarrow>
       Go (if ch = LF then LEXER_STATE_NORMAL else if ch = CR then LEXER_STATE_RECOVER_CR else st) buff num count s
   | LEXER_STATE_RECOVER_CR \<Rightarrow>
       Go (if ch = LF then LEXER_STATE_NORMAL else st) buff num count s
   | LEXER_STATE_CR \<Rightarrow> if ch = LF then Done (tok EOL s) else Done (ERR (ch # s))
   | LEXER_STATE_QSTR \<Rightarrow>
       if ch = CHR 0x22 then Done ((tok STRING s)\<lparr>lx_str := Some \<lparr>ms_data = buff, ms_tail = []\<rparr>\<rparr>)
       else if ch = NUL \<or> ch = CR \<or> ch = LF \<or> 0x7F < (of_char ch :: nat) then Done (ERR (ch # s))
       else if full e buff then Done (ERR (ch # s))
       else if ch = CHR 0x5C
       then (case s of
           [] \<Rightarrow> Done (ERR [pushed_EOF])
         | ch # s' \<Rightarrow> if ch \<noteq> CHR 0x22 \<and> ch \<noteq> CHR 0x5C then Done (ERR s) else Go st (buff @ [ch]) num count s')
       else Go st (buff @ [ch]) num count s
   | LEXER_STATE_LITERAL \<Rightarrow>
       if isdigit ch
       then (let newcount = count * 10 + digit ch in
         if newcount < count then Done (ERR (ch # s)) else Go st buff num newcount s)
       else if ch \<noteq> CHR ''+'' then Done (ERR (ch # s))
       else Done (literal e count s)
   | LEXER_STATE_NUMBER \<Rightarrow>
       if isdigit ch
       then (let newcount = num * 10 + digit ch in
         if newcount < num then Done (ERR (ch # s)) else Go st buff newcount count s)
       else Done ((tok NUMBER (ch # s))\<lparr>lx_num := Some num\<rparr>)
   | LEXER_STATE_NORMAL \<Rightarrow>
       if isalpha ch then Go LEXER_STATE_ATOM (buff @ [tolower ch]) num count s
       else if isdigit ch then Go LEXER_STATE_NUMBER buff (digit ch) count s
       else if ch = CHR 0x22 then Go LEXER_STATE_QSTR buff num count s
       else if ch = CHR ''{'' then Go LEXER_STATE_LITERAL buff num 0 s
       else if ch = CR then Go LEXER_STATE_CR buff num count s
       else if ch = LF then Done (tok EOL s)
       else Done (tok (of_char ch) s)
   | LEXER_STATE_ATOM \<Rightarrow>
       if \<not> isalpha ch
       then (let t = token_lookup (tls_enabled e) buff in
         if t \<noteq> - 1 then Done (tok t (ch # s)) else Done (ERR (ch # s)))
       else if full e buff then Done (ERR (ch # s))
       else Go st (buff @ [tolower ch]) num count s)"

lemma lex_char_shorter: "lex_char e st buff num count ch s = Go st' b n k s' \<Longrightarrow> length s' \<le> length s"
  by (auto simp: lex_char_def Let_def split: lexer_state.splits if_splits list.splits)

function lex_loop :: "lex_env \<Rightarrow> lexer_state \<Rightarrow> string \<Rightarrow> 64 word \<Rightarrow> 64 word \<Rightarrow> string \<Rightarrow> lexed" where
  "lex_loop e st buff num count s = (case s of
     [] \<Rightarrow> (tok LOGOUT [])\<lparr>lx_state := st\<rparr>
   | ch # s \<Rightarrow> (case lex_char e st buff num count ch s of
       Done r \<Rightarrow> r
     | Go st buff num count s \<Rightarrow> lex_loop e st buff num count s))"
  by pat_completeness auto
termination
  by (relation "measure (\<lambda>(e, st, b, n, k, s). length s)") (auto dest!: lex_char_shorter)

declare lex_loop.simps [simp del]

lemma lex_step:
  "lex_loop e st buff num count [] = (tok LOGOUT [])\<lparr>lx_state := st\<rparr>"
  "lex_loop e st buff num count (ch # s) = (case lex_char e st buff num count ch s of
     Done r \<Rightarrow> r | Go st buff num count s \<Rightarrow> lex_loop e st buff num count s)"
  by (simp_all add: lex_loop.simps)

definition timlex :: "lex_env \<Rightarrow> lexer_state \<Rightarrow> string \<Rightarrow> lexed" where
  "timlex e st s = lex_loop e st [] 0 0 s"

lemmas lexing = lex_step lex_char_def Let_def

section \<open>Reading what a client writes\<close>

text \<open>A quoted string, a literal and a number, as a client writes them.\<close>

definition quoted :: "string \<Rightarrow> string" where
  "quoted s = CHR 0x22 # concat (map (\<lambda>c. if c = CHR 0x22 \<or> c = CHR 0x5C then [CHR 0x5C, c] else [c]) s) @ [CHR 0x22]"

definition quotable :: "lex_env \<Rightarrow> string \<Rightarrow> bool" where
  "quotable e s \<longleftrightarrow> length s + 10 \<le> maxscriptsize e \<and> (\<forall>c \<in> set s. c \<noteq> NUL \<and> c \<noteq> CR \<and> c \<noteq> LF \<and> (of_char c :: nat) \<le> 0x7F)"

lemma quoted_loop:
  "\<forall>c \<in> set s. c \<noteq> NUL \<and> c \<noteq> CR \<and> c \<noteq> LF \<and> (of_char c :: nat) \<le> 0x7F \<Longrightarrow> length buff + length s + 10 \<le> maxscriptsize e \<Longrightarrow>
   lex_loop e LEXER_STATE_QSTR buff num count
     (concat (map (\<lambda>c. if c = CHR 0x22 \<or> c = CHR 0x5C then [CHR 0x5C, c] else [c]) s) @ CHR 0x22 # r) =
   (tok STRING r)\<lparr>lx_str := Some \<lparr>ms_data = buff @ s, ms_tail = []\<rparr>\<rparr>"
proof (induction s arbitrary: buff)
  case Nil
  then show ?case by (simp add: lexing)
next
  case (Cons c s)
  have "\<not> full e buff" using Cons.prems by (simp add: full_def)
  then show ?case using Cons.IH [of "buff @ [c]"] Cons.prems by (auto simp: lexing)
qed

lemma timlex_quoted:
  "quotable e s \<Longrightarrow> timlex e LEXER_STATE_NORMAL (quoted s @ r) = (tok STRING r)\<lparr>lx_str := Some \<lparr>ms_data = s, ms_tail = []\<rparr>\<rparr>"
  using quoted_loop [of s "[]" e 0 0 r]
  by (simp add: timlex_def quoted_def quotable_def lexing isalpha_def isupper_def islower_def isdigit_def)


lemma digit_char: "n < 10 \<Longrightarrow> isdigit (char_of (48 + n)) \<and> digit (char_of (48 + n)) = of_nat n \<and>
  \<not> isalpha (char_of (48 + n))"
  by (simp add: isdigit_def digit_def isalpha_def isupper_def islower_def less_eq_char_def)

lemma next_digit:
  assumes "m < 2 ^ 64"
  shows "of_nat (m div 10) * 10 + of_nat (m mod 10) = (of_nat m :: 64 word)" "\<not> (of_nat m :: 64 word) < of_nat (m div 10)"
proof -
  have "(of_nat (m div 10) * 10 + of_nat (m mod 10) :: 64 word) = of_nat (m div 10 * 10 + m mod 10)"
    by (simp only: of_nat_add of_nat_mult of_nat_numeral)
  then show "of_nat (m div 10) * 10 + of_nat (m mod 10) = (of_nat m :: 64 word)" by (simp only: div_mult_mod_eq)
  have "unat (of_nat m :: 64 word) = m" "unat (of_nat (m div 10) :: 64 word) = m div 10"
    using assms by (simp_all add: unat_of_nat)
  then show "\<not> (of_nat m :: 64 word) < of_nat (m div 10)" by (simp add: word_less_nat_alt)
qed

lemma literal_digits:
  "m < 2 ^ 64 \<Longrightarrow> lex_loop e LEXER_STATE_LITERAL buff num 0 (decimal m @ r) = lex_loop e LEXER_STATE_LITERAL buff num (of_nat m) r"
proof (induction m arbitrary: r rule: decimal.induct)
  case (1 m)
  show ?case
  proof (cases "m < 10")
    case True
    then show ?thesis using digit_char [OF True] by (simp add: decimal.simps [of m] lexing)
  next
    case False
    then have "lex_loop e LEXER_STATE_LITERAL buff num 0 (decimal m @ r) =
        lex_loop e LEXER_STATE_LITERAL buff num (of_nat (m div 10)) (char_of (48 + m mod 10) # r)"
      using 1(1) [OF False, of "char_of (48 + m mod 10) # r"] 1(2) by (simp add: decimal.simps [of m])
    also have "\<dots> = lex_loop e LEXER_STATE_LITERAL buff num (of_nat m) r"
      using digit_char [of "m mod 10"] next_digit [OF 1(2)] by (simp add: lexing)
    finally show ?thesis .
  qed
qed

lemma number_digits:
  "m < 2 ^ 64 \<Longrightarrow> lex_loop e LEXER_STATE_NORMAL buff 0 count (decimal m @ r) = lex_loop e LEXER_STATE_NUMBER buff (of_nat m) count r"
proof (induction m arbitrary: r rule: decimal.induct)
  case (1 m)
  show ?case
  proof (cases "m < 10")
    case True
    then show ?thesis using digit_char [OF True] by (simp add: decimal.simps [of m] lexing)
  next
    case False
    then have "lex_loop e LEXER_STATE_NORMAL buff 0 count (decimal m @ r) =
        lex_loop e LEXER_STATE_NUMBER buff (of_nat (m div 10)) count (char_of (48 + m mod 10) # r)"
      using 1(1) [OF False, of "char_of (48 + m mod 10) # r"] 1(2) by (simp add: decimal.simps [of m])
    also have "\<dots> = lex_loop e LEXER_STATE_NUMBER buff (of_nat m) count r"
      using digit_char [of "m mod 10"] next_digit [OF 1(2)] by (simp add: lexing)
    finally show ?thesis .
  qed
qed

lemma normal_chars: "\<not> isalpha (CHR ''{'')" "\<not> isdigit (CHR ''{'')" "\<not> isdigit (CHR ''+'')" "\<not> isalpha CR" "\<not> isdigit CR"
  "\<not> isalpha (CHR '' '')" "\<not> isdigit (CHR '' '')"
  by (simp_all add: isalpha_def isupper_def islower_def isdigit_def)

definition literal_text :: "string \<Rightarrow> string" where
  "literal_text s = ''{'' @ decimal (length s) @ ''+}'' @ [CR, LF] @ s"

lemma timlex_literal:
  assumes "length s \<le> maxscriptsize e" and "length s < 2 ^ 64"
  shows "timlex e LEXER_STATE_NORMAL (literal_text s @ r) = (tok STRING r)\<lparr>lx_str := Some \<lparr>ms_data = s, ms_tail = le_heap e\<rparr>\<rparr>"
proof -
  have n: "unat (of_nat (length s) :: 64 word) = length s" using assms(2) by (simp add: unat_of_nat)
  have "timlex e LEXER_STATE_NORMAL (literal_text s @ r) =
      lex_loop e LEXER_STATE_LITERAL [] 0 0 (decimal (length s) @ ''+}'' @ [CR, LF] @ s @ r)"
    by (simp add: timlex_def literal_text_def lexing normal_chars)
  also have "\<dots> = lex_loop e LEXER_STATE_LITERAL [] 0 (of_nat (length s)) (''+}'' @ [CR, LF] @ s @ r)"
    by (rule literal_digits [OF assms(2)])
  also have "\<dots> = (tok STRING r)\<lparr>lx_str := Some \<lparr>ms_data = s, ms_tail = le_heap e\<rparr>\<rparr>"
    using assms(1) n by (simp add: lexing normal_chars literal_def read_literal_def)
  finally show ?thesis .
qed

lemma timlex_number:
  "m < 2 ^ 64 \<Longrightarrow> \<not> isdigit c \<Longrightarrow> timlex e LEXER_STATE_NORMAL (decimal m @ c # r) = (tok NUMBER (c # r))\<lparr>lx_num := Some (of_nat m)\<rparr>"
  by (simp add: timlex_def number_digits) (simp add: lexing)

lemma timlex_space: "timlex e LEXER_STATE_NORMAL (CHR '' '' # r) = tok SPACE r"
  by (simp add: timlex_def lexing normal_chars SPACE_def)

lemma timlex_eol: "timlex e LEXER_STATE_NORMAL (CR # LF # r) = tok EOL r"
  by (simp add: timlex_def lexing normal_chars)

lemma atom_loop:
  "\<forall>c \<in> set w. isalpha c \<Longrightarrow> length buff + length w + 10 \<le> maxscriptsize e \<Longrightarrow>
   lex_loop e LEXER_STATE_ATOM buff num count (w @ r) = lex_loop e LEXER_STATE_ATOM (buff @ map tolower w) num count r"
proof (induction w arbitrary: buff)
  case (Cons c w)
  have "\<not> full e buff" using Cons.prems by (simp add: full_def)
  then show ?case using Cons.IH [of "buff @ [tolower c]"] Cons.prems by (simp add: lexing)
qed simp

text \<open>A command, in any case, before a space or the end of the line.\<close>

lemma timlex_command:
  assumes "\<forall>c \<in> set w. isalpha c" and "w \<noteq> []" and "length w + 10 \<le> maxscriptsize e"
    and "token_lookup (tls_enabled e) (map tolower w) = t" and "t \<noteq> - 1" and "\<not> isalpha c"
  shows "timlex e LEXER_STATE_NORMAL (w @ c # r) = tok t (c # r)"
proof -
  obtain a v where w: "w = a # v" using assms(2) by (cases w) auto
  then have "timlex e LEXER_STATE_NORMAL (w @ c # r) = lex_loop e LEXER_STATE_ATOM [tolower a] 0 0 (v @ c # r)"
    using assms(1) by (simp add: timlex_def lexing)
  also have "\<dots> = lex_loop e LEXER_STATE_ATOM (map tolower w) 0 0 (c # r)"
    using atom_loop [of v "[tolower a]" e] assms(1,3) w by simp
  also have "\<dots> = tok t (c # r)" using assms(4,5,6) by (simp add: lexing)
  finally show ?thesis .
qed

end
