(* ===== verification/Timsieved_Actions.thy ===== *)
theory Timsieved_Actions
  imports Timsieved_Lex Sieve_Encoding "HOL-Library.AList"
begin

text \<open>
  The actions of the ManageSieve server on the Sieve directory of a user, \<^verbatim>\<open>timsieved/actions.c\<close>.

  A directory is the list of its entries, in the order \<^verbatim>\<open>readdir\<close> gives them: files with their bytes and
  symbolic links with their target. The system refuses names of more than \<^verbatim>\<open>NAME_MAX\<close> bytes. Which
  system calls fail for other reasons, and how much is written before the disk is full, is the record
  \<^verbatim>\<open>action_io\<close>; the bytes of the variable \<^verbatim>\<open>path\<close> of \<^verbatim>\<open>putscript\<close> when nothing has been stored in it are its
  field \<^verbatim>\<open>io_garbage\<close>. The parser of scripts, which yacc generates, is the field \<^verbatim>\<open>script_parse\<close> of the
  configuration: the messages of its errors, or the tree.

  An action returns its C result, the bytes it sends, the directory and whether it wrote a line to the
  replication log. \<^verbatim>\<open>None\<close> is a run of the compiler without a defined result.
\<close>

section \<open>Directories\<close>

datatype node = File string | Link string

type_synonym sieve_dir = "(string \<times> node) list"

definition NAME_MAX :: nat where "NAME_MAX = 255"

definition fs_create :: "string \<Rightarrow> node \<Rightarrow> sieve_dir \<Rightarrow> sieve_dir option" where
  "fs_create n x d = (if length n > NAME_MAX then None else Some (AList.update n x d))"

definition fs_unlink :: "string \<Rightarrow> sieve_dir \<Rightarrow> sieve_dir option" where
  "fs_unlink n d = (if map_of d n = None then None else Some (AList.delete n d))"

definition fs_rename :: "string \<Rightarrow> string \<Rightarrow> sieve_dir \<Rightarrow> sieve_dir option" where
  "fs_rename a b d = (case map_of d a of
     None \<Rightarrow> None
   | Some x \<Rightarrow> if length b > NAME_MAX then None else Some (AList.update b x (AList.delete a d)))"

definition fs_symlink :: "string \<Rightarrow> string \<Rightarrow> sieve_dir \<Rightarrow> sieve_dir option" where
  "fs_symlink t n d = (if map_of d n \<noteq> None then None else fs_create n (Link t) d)"

definition fs_readlink :: "sieve_dir \<Rightarrow> string \<Rightarrow> string option" where
  "fs_readlink d n = (case map_of d n of Some (Link t) \<Rightarrow> Some t | _ \<Rightarrow> None)"

text \<open>The bytes \<^verbatim>\<open>stat\<close> and \<^verbatim>\<open>fopen\<close> find, through a link.\<close>

definition fs_file :: "sieve_dir \<Rightarrow> string \<Rightarrow> string option" where
  "fs_file d n = (case map_of d n of
     Some (File c) \<Rightarrow> Some c
   | Some (Link t) \<Rightarrow> (case map_of d t of Some (File c) \<Rightarrow> Some c | _ \<Rightarrow> None)
   | None \<Rightarrow> None)"

record action_io =
  io_opendir :: bool
  io_fopen :: bool
  io_space :: nat
  io_open :: bool
  io_bc_space :: nat
  io_unlink :: "string \<Rightarrow> bool"
  io_rename :: "string \<Rightarrow> bool"
  io_symlink :: bool
  io_readlink :: bool
  io_garbage :: string

record sieve_config =
  script_parse :: "string \<Rightarrow> string + command list"
  maxscripts :: int
  maxsize :: nat

record sieve_reply =
  ac_result :: int
  ac_out :: string
  ac_dir :: sieve_dir
  ac_sync :: bool

section \<open>Names and replies\<close>

definition CRLF :: string where "CRLF = [CR, LF]"

definition dquote :: "string \<Rightarrow> string" where
  "dquote s = CHR 0x22 # s @ [CHR 0x22]"

definition refuse :: "int \<Rightarrow> string \<Rightarrow> sieve_dir \<Rightarrow> sieve_reply" where
  "refuse r text d = \<lparr>ac_result = r, ac_out = ''NO '' @ dquote text @ CRLF, ac_dir = d, ac_sync = False\<rparr>"

definition refuse_quota :: "string \<Rightarrow> sieve_dir \<Rightarrow> sieve_reply" where
  "refuse_quota text d =
     \<lparr>ac_result = TIMSIEVE_FAIL, ac_out = ''NO ('' @ dquote ''QUOTA'' @ '') '' @ dquote text @ CRLF, ac_dir = d, ac_sync = False\<rparr>"

definition agree :: "bool \<Rightarrow> sieve_dir \<Rightarrow> sieve_reply" where
  "agree sync d = \<lparr>ac_result = TIMSIEVE_OK, ac_out = ''OK'' @ CRLF, ac_dir = d, ac_sync = sync\<rparr>"

definition scriptname_valid :: "mystring \<Rightarrow> int" where
  "scriptname_valid name =
     (if length (ms_data name) < 1 then TIMSIEVE_FAIL
      else if CHR ''/'' \<in> set (ms_data name) \<or> NUL \<in> set (ms_data name) then TIMSIEVE_FAIL
      else TIMSIEVE_OK)"

text \<open>\<^verbatim>\<open>snprintf(path, size, "%s<suffix>", name)\<close> keeps all but the last byte for the text.\<close>

definition named :: "nat \<Rightarrow> string \<Rightarrow> string \<Rightarrow> string" where
  "named n name suffix = take (n - 1) (name @ suffix)"

definition is_script :: "string \<Rightarrow> bool" where
  "is_script n \<longleftrightarrow> length n \<ge> 7 \<and> drop (length n - 7) n = ''.script''"

definition countscripts :: "action_io \<Rightarrow> string \<Rightarrow> sieve_dir \<Rightarrow> int" where
  "countscripts io name d =
     (if \<not> io_opendir io then - 1
      else int (length (filter (\<lambda>(n, _). is_script n \<and> named 1023 name ''.script'' \<noteq> n) d)))"

definition BLOCKSIZE :: nat where "BLOCKSIZE = 1024"

section \<open>Reading and writing scripts\<close>

function get_loop :: "nat \<Rightarrow> nat \<Rightarrow> string \<Rightarrow> string" where
  "get_loop sz cnt stream =
     (if cnt < sz
      then (let amount = (if sz - cnt < BLOCKSIZE then sz - cnt else BLOCKSIZE) in
        take amount (take BLOCKSIZE stream) @ get_loop sz (cnt + amount) (drop BLOCKSIZE stream))
      else [])"
  by pat_completeness auto
termination
  by (relation "measure (\<lambda>(sz, cnt, stream). sz - cnt)") (auto simp: BLOCKSIZE_def)

declare get_loop.simps [simp del]

definition getscript :: "action_io \<Rightarrow> mystring \<Rightarrow> sieve_dir \<Rightarrow> sieve_reply" where
  "getscript io name d =
     (if scriptname_valid name \<noteq> TIMSIEVE_OK then refuse (scriptname_valid name) ''Invalid script name'' d
      else case fs_file d (named 1023 (string_DATAPTR name) ''.script'') of
        None \<Rightarrow> refuse TIMSIEVE_NOEXIST ''Script doesn't exist'' d
      | Some content \<Rightarrow>
          if \<not> io_fopen io then refuse TIMSIEVE_NOEXIST ''fopen failed'' d
          else \<lparr>ac_result = TIMSIEVE_OK,
            ac_out = ''{'' @ decimal (length content) @ ''}'' @ CRLF @ get_loop (length content) 0 content @ CRLF @ ''OK'' @ CRLF,
            ac_dir = d, ac_sync = False\<rparr>)"

fun write_loop :: "nat \<Rightarrow> nat \<Rightarrow> nat \<Rightarrow> string \<Rightarrow> string" where
  "write_loop len lup 0 dataptr = []"
| "write_loop len lup (Suc k) dataptr =
     (let amount = (if lup * BLOCKSIZE + BLOCKSIZE > len then len mod BLOCKSIZE else BLOCKSIZE) in
      take amount dataptr @ write_loop len (lup + 1) k (drop amount dataptr))"

text \<open>\<^verbatim>\<open>unlink\<close> whose result nobody looks at.\<close>

definition try_unlink :: "action_io \<Rightarrow> string \<Rightarrow> sieve_dir \<Rightarrow> sieve_dir" where
  "try_unlink io n d = (if io_unlink io n then (case fs_unlink n d of None \<Rightarrow> d | Some d \<Rightarrow> d) else d)"

definition try_rename :: "action_io \<Rightarrow> string \<Rightarrow> string \<Rightarrow> sieve_dir \<Rightarrow> sieve_dir" where
  "try_rename io a b d = (if io_rename io a then (case fs_rename a b d of None \<Rightarrow> d | Some d \<Rightarrow> d) else d)"

definition too_many :: "sieve_config \<Rightarrow> string" where
  "too_many cfg = ''You are only allowed '' @ (if maxscripts cfg < 0 then ''-'' else []) @ decimal (nat \<bar>maxscripts cfg\<bar>) @ '' scripts on this server''"

text \<open>The part of \<^verbatim>\<open>putscript\<close> behind the parser: the bytecode, and the renaming of both files.\<close>

definition install_script :: "action_io \<Rightarrow> string \<Rightarrow> string \<Rightarrow> command list \<Rightarrow> sieve_dir \<Rightarrow> sieve_reply option" where
  "install_script io name path cmds d =
     (case sieve_generate_bytecode cmds of
        Undefined \<Rightarrow> None
      | Fail \<Rightarrow> Some (refuse TIMSIEVE_FAIL ''bytecode generate failed'' (try_unlink io path d))
      | Next codep bc \<Rightarrow>
          (let bc_path = named 1023 name ''.bc.NEW'' in
           case (if io_open io then fs_create bc_path (File []) d else None) of
             None \<Rightarrow> Some (refuse TIMSIEVE_FAIL ''couldn't open bytecode file'' (try_unlink io path d))
           | Some d \<Rightarrow>
               (case sieve_emit_bytecode (cmds_size cmds + 2) bc \<lparr>f_bytes = [], f_pos = 0, f_limit = io_bc_space io\<rparr> of
                  Stuck \<Rightarrow> None
                | Failed f \<Rightarrow>
                    Some (refuse TIMSIEVE_FAIL ''bytecode emit failed'' (try_unlink io bc_path (try_unlink io path d)))
                | Ret n f \<Rightarrow>
                    Some (agree True (try_rename io bc_path (named 1023 name ''.bc'')
                      (try_rename io path (named 1023 name ''.script'') (AList.update bc_path (File (f_bytes f)) d)))))))"

definition putscript :: "sieve_config \<Rightarrow> action_io \<Rightarrow> mystring \<Rightarrow> mystring \<Rightarrow> bool \<Rightarrow> sieve_dir \<Rightarrow> sieve_reply option" where
  "putscript cfg io name data verify_only d =
     (let cname = string_DATAPTR name;
          path = (if verify_only then io_garbage io else named 1023 cname ''.script.NEW'')
      in if scriptname_valid name \<noteq> TIMSIEVE_OK then Some (refuse (scriptname_valid name) ''Invalid script name'' d)
      else if \<not> verify_only \<and> countscripts io cname d + 1 > maxscripts cfg then Some (refuse_quota (too_many cfg) d)
      else case (if \<not> io_fopen io then None else if verify_only then Some d else fs_create path (File []) d) of
        None \<Rightarrow> Some (refuse TIMSIEVE_NOEXIST (''Unable to open script for writing ('' @ path @ '')'') d)
      | Some d \<Rightarrow>
          (let len = length (ms_data data);
               stored = take (io_space io) (write_loop len 0 (len div BLOCKSIZE + 1) (ms_data data));
               d = (if verify_only then d else AList.update path (File stored) d)
           in case script_parse cfg stored of
             Inl msg \<Rightarrow>
               (let errstr = ''script errors:'' @ CRLF @ msg in
                Some \<lparr>ac_result = TIMSIEVE_FAIL, ac_out = ''NO {'' @ decimal (length errstr) @ ''}'' @ CRLF @ errstr @ CRLF,
                  ac_dir = try_unlink io path d, ac_sync = False\<rparr>)
           | Inr cmds \<Rightarrow> if verify_only then Some (agree True d) else install_script io cname path cmds d))"

section \<open>The active script\<close>

definition deleteactive :: "action_io \<Rightarrow> sieve_dir \<Rightarrow> sieve_reply" where
  "deleteactive io d =
     (case (if io_unlink io ''defaultbc'' then fs_unlink ''defaultbc'' d else None) of
        None \<Rightarrow> refuse TIMSIEVE_FAIL ''Unable to unlink active script'' d
      | Some d \<Rightarrow> \<lparr>ac_result = TIMSIEVE_OK, ac_out = [], ac_dir = d, ac_sync = True\<rparr>)"

definition isactive :: "action_io \<Rightarrow> string \<Rightarrow> sieve_dir \<Rightarrow> bool" where
  "isactive io name d = (case (if io_readlink io then fs_readlink d ''defaultbc'' else None) of
     None \<Rightarrow> False
   | Some t \<Rightarrow> named 1023 name ''.bc'' = take 1023 t)"

definition deletescript :: "action_io \<Rightarrow> mystring \<Rightarrow> sieve_dir \<Rightarrow> sieve_reply" where
  "deletescript io name d =
     (if scriptname_valid name \<noteq> TIMSIEVE_OK then refuse (scriptname_valid name) ''Invalid script name'' d
      else
        let cname = string_DATAPTR name;
            first = (if isactive io cname d then deleteactive io d else \<lparr>ac_result = TIMSIEVE_OK, ac_out = [], ac_dir = d, ac_sync = False\<rparr>);
            d = ac_dir first;
            script = named 1023 cname ''.script''; bc = named 1023 cname ''.bc''
        in if ac_result first \<noteq> TIMSIEVE_OK then first\<lparr>ac_result := TIMSIEVE_FAIL\<rparr>
        else case (if io_unlink io script then fs_unlink script d else None) of
          None \<Rightarrow> (refuse TIMSIEVE_FAIL ''Error deleting script'' d)\<lparr>ac_sync := ac_sync first\<rparr>
        | Some d \<Rightarrow>
            (case (if io_unlink io bc then fs_unlink bc d else None) of
               None \<Rightarrow> (refuse TIMSIEVE_FAIL ''Error deleting bytecode'' d)\<lparr>ac_sync := ac_sync first\<rparr>
             | Some d \<Rightarrow> agree True d))"

definition listscripts :: "action_io \<Rightarrow> sieve_dir \<Rightarrow> sieve_reply" where
  "listscripts io d =
     (if \<not> io_opendir io then refuse TIMSIEVE_FAIL ''Error opening directory'' d
      else \<lparr>ac_result = TIMSIEVE_OK,
        ac_out = concat (map (\<lambda>(n, _). if is_script n
          then (let namewo = take (length n - 7) n in
            dquote namewo @ (if isactive io namewo d then '' ACTIVE'' else []) @ CRLF) else []) d) @ ''OK'' @ CRLF,
        ac_dir = d, ac_sync = False\<rparr>)"

definition exists :: "string \<Rightarrow> sieve_dir \<Rightarrow> bool" where
  "exists str d \<longleftrightarrow> fs_file d (named 1023 str ''.script'') \<noteq> None"

definition setactive :: "action_io \<Rightarrow> mystring \<Rightarrow> sieve_dir \<Rightarrow> sieve_reply" where
  "setactive io name d =
     (let cname = string_DATAPTR name in
      if cname = []
      then (let r = deleteactive io d in
        if ac_result r \<noteq> TIMSIEVE_OK then r\<lparr>ac_result := TIMSIEVE_FAIL\<rparr> else agree True (ac_dir r))
      else if scriptname_valid name \<noteq> TIMSIEVE_OK then refuse (scriptname_valid name) ''Invalid script name'' d
      else if \<not> exists cname d then refuse TIMSIEVE_NOEXIST ''Script does not exist'' d
      else if isactive io cname d then agree False d
      else case (if io_symlink io then fs_symlink (named 1024 cname ''.bc'') ''defaultbc.NEW'' d else None) of
        None \<Rightarrow> refuse TIMSIEVE_FAIL ''Can't make link'' d
      | Some d \<Rightarrow>
          (case (if io_rename io ''defaultbc.NEW'' then fs_rename ''defaultbc.NEW'' ''defaultbc'' d else None) of
             None \<Rightarrow> refuse TIMSIEVE_FAIL ''Error renaming'' (try_unlink io ''defaultbc.NEW'' d)
           | Some d \<Rightarrow> agree True d))"

definition cmd_havespace :: "sieve_config \<Rightarrow> action_io \<Rightarrow> mystring \<Rightarrow> 64 word \<Rightarrow> sieve_dir \<Rightarrow> sieve_reply" where
  "cmd_havespace cfg io name num d =
     (if scriptname_valid name \<noteq> TIMSIEVE_OK then refuse (scriptname_valid name) ''Invalid script name'' d
      else if unat num > maxsize cfg
      then refuse_quota (''Script size is too large. Max script size is '' @ decimal (maxsize cfg) @ '' bytes'') d
      else if countscripts io (string_DATAPTR name) d + 1 > maxscripts cfg then refuse_quota (too_many cfg) d
      else agree False d)"


section \<open>The store of scripts\<close>

text \<open>
  What the directory stands for: the scripts by name, and the name of the active one. The directory is
  consistent when beside every script lies the bytecode the compiler makes of it, the link to the
  active script leads to the bytecode of a script, and no link is left half made.
\<close>

definition scripts_of :: "sieve_dir \<Rightarrow> string \<rightharpoonup> string" where
  "scripts_of d n = (case map_of d (n @ ''.script'') of Some (File c) \<Rightarrow> Some c | _ \<Rightarrow> None)"

definition active_of :: "sieve_dir \<Rightarrow> string option" where
  "active_of d = (case map_of d ''defaultbc'' of Some (Link t) \<Rightarrow> Some (take (length t - 3) t) | _ \<Rightarrow> None)"

definition compiled :: "sieve_config \<Rightarrow> string \<Rightarrow> string option" where
  "compiled cfg c = (case script_parse cfg c of Inl _ \<Rightarrow> None | Inr cmds \<Rightarrow> Some (enc_script cmds))"

definition consistent :: "sieve_config \<Rightarrow> (string \<rightharpoonup> node) \<Rightarrow> bool" where
  "consistent cfg m \<longleftrightarrow>
     (\<forall>n x. m (n @ ''.script'') = Some x \<longrightarrow> (\<exists>c b. x = File c \<and> compiled cfg c = Some b \<and> m (n @ ''.bc'') = Some (File b))) \<and>
     (\<forall>x. m ''defaultbc'' = Some x \<longrightarrow> (\<exists>n. x = Link (n @ ''.bc'') \<and> m (n @ ''.script'') \<noteq> None)) \<and>
     m ''defaultbc.NEW'' = None"

definition shape :: "sieve_dir \<Rightarrow> bool" where
  "shape d \<longleftrightarrow> distinct (map fst d) \<and> (\<forall>k \<in> fst ` set d. length k \<le> NAME_MAX)"

definition dir_ok :: "sieve_config \<Rightarrow> sieve_dir \<Rightarrow> bool" where
  "dir_ok cfg d \<longleftrightarrow> shape d \<and> consistent cfg (map_of d)"

text \<open>Names of different kinds are different.\<close>

lemma suffixes_differ [simp]:
  "m @ ''.script'' \<noteq> n @ ''.bc''" "m @ ''.script'' \<noteq> n @ ''.script.NEW''" "m @ ''.script'' \<noteq> n @ ''.bc.NEW''"
  "m @ ''.bc'' \<noteq> n @ ''.script''" "m @ ''.bc'' \<noteq> n @ ''.script.NEW''" "m @ ''.bc'' \<noteq> n @ ''.bc.NEW''"
  "m @ ''.script.NEW'' \<noteq> n @ ''.script''" "m @ ''.script.NEW'' \<noteq> n @ ''.bc''" "m @ ''.script.NEW'' \<noteq> n @ ''.bc.NEW''"
  "m @ ''.bc.NEW'' \<noteq> n @ ''.script''" "m @ ''.bc.NEW'' \<noteq> n @ ''.bc''" "m @ ''.bc.NEW'' \<noteq> n @ ''.script.NEW''"
  by (auto dest: arg_cong [where f = rev])

lemma links_differ [simp]:
  "m @ ''.script'' \<noteq> ''defaultbc''" "m @ ''.bc'' \<noteq> ''defaultbc''" "m @ ''.script.NEW'' \<noteq> ''defaultbc''" "m @ ''.bc.NEW'' \<noteq> ''defaultbc''"
  "m @ ''.script'' \<noteq> ''defaultbc.NEW''" "m @ ''.bc'' \<noteq> ''defaultbc.NEW''" "m @ ''.script.NEW'' \<noteq> ''defaultbc.NEW''" "m @ ''.bc.NEW'' \<noteq> ''defaultbc.NEW''"
  by (auto dest: arg_cong [where f = rev])

lemmas links_differ_sym [simp] = links_differ [THEN not_sym]

lemma write_loop_all: "len div BLOCKSIZE + 1 = lup + k \<Longrightarrow> 0 < k \<Longrightarrow> length p = len - lup * BLOCKSIZE \<Longrightarrow> lup * BLOCKSIZE \<le> len \<Longrightarrow>
  write_loop len lup k p = p"
proof (induction k arbitrary: lup p)
  case (Suc k)
  show ?case
  proof (cases "k = 0")
    case True
    then have l: "lup = len div BLOCKSIZE" using Suc.prems(1) by simp
    have "lup * BLOCKSIZE + BLOCKSIZE > len" "len - lup * BLOCKSIZE = len mod BLOCKSIZE"
      using l div_mult_mod_eq [of len BLOCKSIZE] mod_less_divisor [of BLOCKSIZE len] by (auto simp: BLOCKSIZE_def minus_div_mult_eq_mod)
    then show ?thesis using True Suc.prems(3) by simp
  next
    case False
    then have "Suc lup \<le> len div BLOCKSIZE" using Suc.prems(1) by simp
    then have "Suc lup * BLOCKSIZE \<le> len div BLOCKSIZE * BLOCKSIZE" by (intro mult_le_mono1)
    also have "\<dots> \<le> len" by simp
    finally have le: "lup * BLOCKSIZE + BLOCKSIZE \<le> len" by simp
    have "write_loop len (Suc lup) k (drop BLOCKSIZE p) = drop BLOCKSIZE p"
      by (rule Suc.IH) (use Suc.prems False le in simp_all)
    then show ?thesis using le by simp
  qed
qed simp

lemma write_all: "write_loop (length p) 0 (length p div BLOCKSIZE + 1) p = p"
  by (rule write_loop_all) simp_all

declare write_loop.simps [simp del]

lemma get_all: "sz = cnt + length stream \<Longrightarrow> get_loop sz cnt stream = stream"
proof (induction sz cnt stream rule: get_loop.induct)
  case (1 sz cnt stream)
  show ?case
  proof (cases "stream = []")
    case False
    then have c: "cnt < sz" using 1(2) by simp
    let ?a = "if sz - cnt < BLOCKSIZE then sz - cnt else BLOCKSIZE"
    have "get_loop sz (cnt + ?a) (drop BLOCKSIZE stream) = drop BLOCKSIZE stream"
      using 1(1) [OF c refl] 1(2) by simp
    moreover have "take ?a (take BLOCKSIZE stream) = take BLOCKSIZE stream" using 1(2) by simp
    ultimately show ?thesis using c by (subst get_loop.simps) (simp only: Let_def if_True append_take_drop_id)
  qed (use 1(2) in \<open>simp add: get_loop.simps\<close>)
qed


lemma shape_update: "shape d \<Longrightarrow> length n \<le> NAME_MAX \<Longrightarrow> shape (AList.update n x d)"
  by (auto simp: shape_def distinct_update dom_update)

lemma shape_delete: "shape d \<Longrightarrow> shape (AList.delete n d)"
  by (auto simp: shape_def distinct_delete) (auto simp: AList.delete_eq)

lemma shape_short: "shape d \<Longrightarrow> map_of d n \<noteq> None \<Longrightarrow> length n \<le> NAME_MAX"
  by (auto simp: shape_def dest!: map_of_SomeD)

lemma shape_try: "shape d \<Longrightarrow> shape (try_unlink io n d)" "shape d \<Longrightarrow> shape (try_rename io a b d)"
  by (auto simp: try_unlink_def try_rename_def fs_unlink_def fs_rename_def shape_delete shape_update split: option.splits)

text \<open>A name that is cut is too long for the directory anyway.\<close>

lemma named_eq: "length (n @ s) \<le> NAME_MAX \<Longrightarrow> NAME_MAX < k \<Longrightarrow> named k n s = n @ s"
  by (simp add: named_def)

lemma named_long: "NAME_MAX < length (n @ s) \<Longrightarrow> NAME_MAX < k - 1 \<Longrightarrow> NAME_MAX < length (named k n s)"
  by (simp add: named_def)

lemma lookup_named: "shape d \<Longrightarrow> NAME_MAX < k - 1 \<Longrightarrow> map_of d (named k n s) = map_of d (n @ s)"
proof (cases "length (n @ s) \<le> NAME_MAX")
  case False
  assume a: "shape d" "NAME_MAX < k - 1"
  then have "map_of d (named k n s) = None" "map_of d (n @ s) = None"
    using False shape_short [OF a(1)] named_long [of n s k] by (metis not_le)+
  then show ?thesis by simp
qed (simp add: named_eq)

lemma create_named: "NAME_MAX < k - 1 \<Longrightarrow> fs_create (named k n s) x d = fs_create (n @ s) x d"
  using named_long [of n s k] named_eq [of n s k] by (auto simp: fs_create_def not_le)

text \<open>What is left of a directory once the files on their way are put aside.\<close>

definition same_view :: "(string \<rightharpoonup> node) \<Rightarrow> (string \<rightharpoonup> node) \<Rightarrow> bool" where
  "same_view m m' \<longleftrightarrow> (\<forall>n. m (n @ ''.script'') = m' (n @ ''.script'') \<and> m (n @ ''.bc'') = m' (n @ ''.bc'')) \<and>
     m ''defaultbc'' = m' ''defaultbc'' \<and> m ''defaultbc.NEW'' = m' ''defaultbc.NEW''"

lemma same_view_refl: "same_view m m"
  by (simp add: same_view_def)

lemma view_consistent: "same_view m m' \<Longrightarrow> consistent cfg m \<longleftrightarrow> consistent cfg m'"
  by (simp add: same_view_def consistent_def)

lemma view_abs: "same_view (map_of d) (map_of d') \<Longrightarrow> scripts_of d = scripts_of d' \<and> active_of d = active_of d'"
  by (auto simp: same_view_def scripts_of_def active_of_def)

lemma view_new_files:
  "same_view (m(n @ ''.script.NEW'' := x)) m' \<longleftrightarrow> same_view m m'" "same_view (m(n @ ''.bc.NEW'' := x)) m' \<longleftrightarrow> same_view m m'"
  by (simp_all add: same_view_def)

lemma try_unlink_map: "io_unlink io n \<Longrightarrow> distinct (map fst d) \<Longrightarrow> map_of (try_unlink io n d) = (map_of d)(n := None)"
  by (auto simp: try_unlink_def fs_unlink_def delete_conv' split: option.splits)

lemma try_rename_map:
  "io_rename io a \<Longrightarrow> length b \<le> NAME_MAX \<Longrightarrow> map_of d a = Some x \<Longrightarrow> map_of (try_rename io a b d) = (map_of d)(a := None, b \<mapsto> x)"
  by (simp add: try_rename_def fs_rename_def update_conv' delete_conv')

text \<open>
  The system calls the program relies on silently: a file it created can be removed or renamed again.
\<close>

definition dependable :: "action_io \<Rightarrow> bool" where
  "dependable io \<longleftrightarrow> (\<forall>n. io_unlink io n) \<and> (\<forall>n. io_rename io n) \<and> io_readlink io"

text \<open>What the code relies on of the parser and of the disk.\<close>

definition compiles :: "sieve_config \<Rightarrow> action_io \<Rightarrow> bool" where
  "compiles cfg io \<longleftrightarrow> (\<forall>c cmds. script_parse cfg c = Inr cmds \<longrightarrow>
     list_all wf_cmd cmds \<and> length (enc_script cmds) < 2 ^ 31 \<and> length (enc_script cmds) \<le> io_bc_space io)"

lemma install_script_effect:
  assumes "dependable io" and "compiles cfg io" and "script_parse cfg c = Inr cmds" and "shape d"
    and path: "path = n @ ''.script.NEW''" "length path \<le> NAME_MAX" "map_of d path = Some (File c)"
  shows "\<exists>r. install_script io n path cmds d = Some r \<and> shape (ac_dir r) \<and>
    (if io_open io
     then ac_result r = TIMSIEVE_OK \<and>
       same_view (map_of (ac_dir r)) ((map_of d)(n @ ''.script'' \<mapsto> File c, n @ ''.bc'' \<mapsto> File (enc_script cmds)))
     else ac_result r = TIMSIEVE_FAIL \<and> same_view (map_of (ac_dir r)) (map_of d))"
proof -
  have wf: "list_all wf_cmd cmds" "length (enc_script cmds) < 2 ^ 31" "length (enc_script cmds) \<le> io_bc_space io"
    using assms(2,3) by (auto simp: compiles_def)
  obtain codep bc where gen: "sieve_generate_bytecode cmds = Next codep bc" using script_ok [OF wf(1)] by blast
  have emit: "\<exists>k f. sieve_emit_bytecode (cmds_size cmds + 2) bc \<lparr>f_bytes = [], f_pos = 0, f_limit = io_bc_space io\<rparr> = Ret k f \<and>
      f_bytes f = enc_script cmds"
    using sieve_emit_ok [OF wf(1,2) gen _ wf(3), of "cmds_size cmds + 2"] by auto
  have len: "length (n @ ''.bc.NEW'') \<le> NAME_MAX" "length (n @ ''.bc'') \<le> NAME_MAX" "length (n @ ''.script'') \<le> NAME_MAX"
    using path(1,2) by simp_all
  have big: "NAME_MAX < 1023" by (simp add: NAME_MAX_def)
  note nm = named_eq [OF len(1) big] named_eq [OF len(2) big] named_eq [OF len(3) big]
  show ?thesis
  proof (cases "io_open io")
    case False
    have "distinct (map fst d)" using assms(4) by (simp add: shape_def)
    then have "map_of (try_unlink io path d) = (map_of d)(path := None)"
      using assms(1) by (intro try_unlink_map) (simp_all add: dependable_def)
    then have "same_view (map_of (try_unlink io path d)) (map_of d)" by (simp add: path(1) view_new_files same_view_refl)
    then show ?thesis using False gen shape_try(1) [OF assms(4)] by (simp add: install_script_def Let_def refuse_def)
  next
    case True
    obtain k f where f: "sieve_emit_bytecode (cmds_size cmds + 2) bc \<lparr>f_bytes = [], f_pos = 0, f_limit = io_bc_space io\<rparr> = Ret k f"
      "f_bytes f = enc_script cmds" using emit by blast
    let ?d1 = "AList.update (n @ ''.bc.NEW'') (File (enc_script cmds)) (AList.update (n @ ''.bc.NEW'') (File []) d)"
    let ?d2 = "try_rename io path (n @ ''.script'') ?d1" and ?b = "n @ ''.bc.NEW''"
    let ?d3 = "try_rename io ?b (n @ ''.bc'') ?d2"
    have m1: "map_of ?d1 = (map_of d)(?b \<mapsto> File (enc_script cmds))" by (simp add: update_conv')
    have m2: "map_of ?d2 = (map_of ?d1)(path := None, n @ ''.script'' \<mapsto> File c)"
      using assms(1) path len m1 by (intro try_rename_map) (simp_all add: dependable_def)
    have m3: "map_of ?d3 = (map_of ?d2)(?b := None, n @ ''.bc'' \<mapsto> File (enc_script cmds))"
      using assms(1) path len m1 m2 by (intro try_rename_map) (simp_all add: dependable_def)
    have s: "shape ?d3" by (intro shape_try shape_update assms(4) len(1))
    have "install_script io n path cmds d = Some (agree True ?d3)"
      using True gen f len(1) nm by (simp add: install_script_def Let_def fs_create_def)
    moreover have "same_view (map_of ?d3) ((map_of d)(n @ ''.script'' \<mapsto> File c, n @ ''.bc'' \<mapsto> File (enc_script cmds)))"
      unfolding m3 m2 m1 by (simp add: path(1) same_view_def)
    ultimately show ?thesis using True s by (simp add: agree_def)
  qed
qed


definition plain_name :: "mystring \<Rightarrow> string \<Rightarrow> bool" where
  "plain_name name n \<longleftrightarrow> name = \<lparr>ms_data = n, ms_tail = []\<rparr> \<and> NUL \<notin> set n"

lemma plain_cname: "plain_name name n \<Longrightarrow> string_DATAPTR name = n"
  by (auto simp: plain_name_def string_DATAPTR_def takeWhile_eq_all_conv)

definition valid_name :: "string \<Rightarrow> bool" where
  "valid_name n \<longleftrightarrow> n \<noteq> [] \<and> CHR ''/'' \<notin> set n \<and> NUL \<notin> set n"

lemma scriptname_valid_iff: "plain_name name n \<Longrightarrow> scriptname_valid name = TIMSIEVE_OK \<longleftrightarrow> valid_name n"
  by (auto simp: plain_name_def scriptname_valid_def valid_name_def TIMSIEVE_OK_def TIMSIEVE_FAIL_def Suc_le_eq)

lemma scriptname_bad: "scriptname_valid name \<noteq> TIMSIEVE_OK \<Longrightarrow> scriptname_valid name = TIMSIEVE_FAIL"
  by (simp add: scriptname_valid_def split: if_splits)

lemma codes_differ [simp]: "TIMSIEVE_FAIL \<noteq> TIMSIEVE_OK" "TIMSIEVE_NOEXIST \<noteq> TIMSIEVE_OK"
  by (simp_all add: TIMSIEVE_OK_def TIMSIEVE_FAIL_def TIMSIEVE_NOEXIST_def)

lemma consistent_put:
  assumes "consistent cfg m" and "compiled cfg c = Some b"
  shows "consistent cfg (m(n @ ''.script'' \<mapsto> File c, n @ ''.bc'' \<mapsto> File b))"
  using assms by (auto simp: consistent_def) metis

lemma abs_put:
  assumes "same_view (map_of d') ((map_of d)(n @ ''.script'' \<mapsto> File c, n @ ''.bc'' \<mapsto> x))"
  shows "scripts_of d' = (scripts_of d)(n \<mapsto> c)" "active_of d' = active_of d"
proof -
  show "scripts_of d' = (scripts_of d)(n \<mapsto> c)"
    using assms by (intro ext) (simp add: same_view_def scripts_of_def)
  show "active_of d' = active_of d" using assms by (simp add: same_view_def active_of_def)
qed

lemma dir_ok_view: "dir_ok cfg d \<Longrightarrow> shape d' \<Longrightarrow> same_view (map_of d') (map_of d) \<Longrightarrow>
  dir_ok cfg d' \<and> scripts_of d' = scripts_of d \<and> active_of d' = active_of d"
  using view_consistent [of "map_of d'" "map_of d" cfg] view_abs [of d' d] by (simp add: dir_ok_def)

text \<open>When a script is accepted.\<close>

definition accepted :: "sieve_config \<Rightarrow> action_io \<Rightarrow> string \<Rightarrow> string \<Rightarrow> sieve_dir \<Rightarrow> bool" where
  "accepted cfg io n c d \<longleftrightarrow> valid_name n \<and> length n + 11 \<le> NAME_MAX \<and> countscripts io n d + 1 \<le> maxscripts cfg \<and>
     compiled cfg c \<noteq> None \<and> io_fopen io \<and> io_open io"

lemma putscript_effect:
  assumes "dependable io" and "compiles cfg io" and "dir_ok cfg d" and "plain_name name n" and "length (ms_data data) \<le> io_space io"
  shows "\<exists>r. putscript cfg io name data False d = Some r \<and> dir_ok cfg (ac_dir r) \<and> active_of (ac_dir r) = active_of d \<and>
    (if accepted cfg io n (ms_data data) d
     then ac_result r = TIMSIEVE_OK \<and> scripts_of (ac_dir r) = (scripts_of d)(n \<mapsto> ms_data data)
     else ac_result r \<noteq> TIMSIEVE_OK \<and> scripts_of (ac_dir r) = scripts_of d)"
proof -
  let ?c = "ms_data data" and ?path = "n @ ''.script.NEW''"
  have shape: "shape d" using assms(3) by (simp add: dir_ok_def)
  have cname: "string_DATAPTR name = n" by (rule plain_cname [OF assms(4)])
  have valid: "scriptname_valid name = TIMSIEVE_OK \<longleftrightarrow> valid_name n" by (rule scriptname_valid_iff [OF assms(4)])
  have stored: "take (io_space io) (write_loop (length ?c) 0 (length ?c div BLOCKSIZE + 1) ?c) = ?c"
    unfolding write_all using assms(5) by simp
  have big: "NAME_MAX < 1023 - 1" "NAME_MAX < 1023" by (simp_all add: NAME_MAX_def)
  consider (bad) "\<not> valid_name n" | (quota) "valid_name n" "countscripts io n d + 1 > maxscripts cfg"
    | (shut) "valid_name n" "countscripts io n d + 1 \<le> maxscripts cfg" "\<not> io_fopen io \<or> length ?path > NAME_MAX"
    | (go) "valid_name n" "countscripts io n d + 1 \<le> maxscripts cfg" "io_fopen io" "length ?path \<le> NAME_MAX"
    by linarith
  then show ?thesis
  proof cases
    case bad
    then have "putscript cfg io name data False d = Some (refuse (scriptname_valid name) ''Invalid script name'' d)"
      using valid by (simp add: putscript_def Let_def)
    then show ?thesis using bad assms(3) scriptname_bad [of name] valid by (simp add: refuse_def accepted_def)
  next
    case quota
    then have "putscript cfg io name data False d = Some (refuse_quota (too_many cfg) d)"
      using valid cname by (simp add: putscript_def Let_def)
    then show ?thesis using quota assms(3) by (simp add: refuse_quota_def accepted_def)
  next
    case shut
    have "(if \<not> io_fopen io then None else fs_create (named 1023 n ''.script.NEW'') (File []) d) = None"
      unfolding create_named [OF big(1)] using shut(3) by (auto simp: fs_create_def)
    then have "\<exists>t. putscript cfg io name data False d = Some (refuse TIMSIEVE_NOEXIST t d)"
      using shut(1,2) valid cname by (auto simp: putscript_def Let_def)
    then show ?thesis using shut assms(3) by (auto simp: refuse_def accepted_def)
  next
    case go
    have path: "named 1023 n ''.script.NEW'' = ?path" by (rule named_eq [OF go(4) big(2)])
    let ?d = "AList.update ?path (File ?c) (AList.update ?path (File []) d)"
    have sh: "shape ?d" by (intro shape_update shape go(4))
    have md: "map_of ?d = (map_of d)(?path \<mapsto> File ?c)" by (simp add: update_conv')
    have put: "putscript cfg io name data False d = (case script_parse cfg ?c of
        Inl msg \<Rightarrow>
          (let errstr = ''script errors:'' @ CRLF @ msg in
           Some \<lparr>ac_result = TIMSIEVE_FAIL, ac_out = ''NO {'' @ decimal (length errstr) @ ''}'' @ CRLF @ errstr @ CRLF,
             ac_dir = try_unlink io ?path ?d, ac_sync = False\<rparr>)
      | Inr cmds \<Rightarrow> install_script io n ?path cmds ?d)"
      using go valid cname path stored by (simp add: putscript_def Let_def fs_create_def split: sum.split)
    show ?thesis
    proof (cases "script_parse cfg ?c")
      case (Inl msg)
      have "map_of (try_unlink io ?path ?d) = (map_of ?d)(?path := None)"
        using assms(1) sh by (intro try_unlink_map) (simp_all add: dependable_def shape_def)
      then have "same_view (map_of (try_unlink io ?path ?d)) (map_of d)"
        unfolding md by (simp add: view_new_files same_view_refl)
      then have "dir_ok cfg (try_unlink io ?path ?d) \<and> scripts_of (try_unlink io ?path ?d) = scripts_of d \<and>
          active_of (try_unlink io ?path ?d) = active_of d"
        by (rule dir_ok_view [OF assms(3) shape_try(1) [OF sh]])
      then show ?thesis using put Inl by (simp add: Let_def accepted_def compiled_def)
    next
      case (Inr cmds)
      have "map_of ?d ?path = Some (File ?c)" unfolding md by simp
      then obtain r where r: "install_script io n ?path cmds ?d = Some r" "shape (ac_dir r)"
        "if io_open io
         then ac_result r = TIMSIEVE_OK \<and>
           same_view (map_of (ac_dir r)) ((map_of ?d)(n @ ''.script'' \<mapsto> File ?c, n @ ''.bc'' \<mapsto> File (enc_script cmds)))
         else ac_result r = TIMSIEVE_FAIL \<and> same_view (map_of (ac_dir r)) (map_of ?d)"
        using install_script_effect [OF assms(1,2) Inr sh refl go(4)] by blast
      have cb: "compiled cfg ?c = Some (enc_script cmds)" using Inr by (simp add: compiled_def)
      show ?thesis
      proof (cases "io_open io")
        case True
        then have v: "same_view (map_of (ac_dir r)) ((map_of d)(n @ ''.script'' \<mapsto> File ?c, n @ ''.bc'' \<mapsto> File (enc_script cmds)))"
          using r(3) unfolding md by (simp add: same_view_def)
        have "dir_ok cfg (ac_dir r)"
          using r(2) view_consistent [OF v, of cfg] consistent_put [of cfg "map_of d" ?c "enc_script cmds" n] assms(3) cb
          by (simp add: dir_ok_def)
        then show ?thesis using put Inr r True go cb abs_put [OF v] by (simp add: accepted_def)
      next
        case False
        then have v: "same_view (map_of (ac_dir r)) (map_of d)" using r(3) unfolding md by (simp add: same_view_def)
        then show ?thesis using put Inr r False dir_ok_view [OF assms(3) r(2) v] by (simp add: accepted_def)
      qed
    qed
  qed
qed


text \<open>The other operations, on a consistent directory.\<close>

lemma active_target:
  assumes "dir_ok cfg d" and "dependable io"
  shows "isactive io n d \<longleftrightarrow> active_of d = Some n"
proof (cases "map_of d ''defaultbc''")
  case (Some x)
  then obtain k where k: "x = Link (k @ ''.bc'')" "map_of d (k @ ''.script'') \<noteq> None"
    using assms(1) by (auto simp: dir_ok_def consistent_def)
  have "length (k @ ''.script'') \<le> NAME_MAX" by (rule shape_short [OF _ k(2)]) (use assms(1) in \<open>simp add: dir_ok_def\<close>)
  then have len: "length (k @ ''.bc'') \<le> 252" by (simp add: NAME_MAX_def)
  have "named 1023 n ''.bc'' = take 1023 (k @ ''.bc'') \<longleftrightarrow> n = k"
  proof
    assume e: "named 1023 n ''.bc'' = take 1023 (k @ ''.bc'')"
    have t: "take 1023 (k @ ''.bc'') = k @ ''.bc''" using len by simp
    have "length (named 1023 n ''.bc'') \<le> 252" unfolding e t by (rule len)
    then have "length (n @ ''.bc'') \<le> 1022" by (auto simp: named_def)
    then have "named 1023 n ''.bc'' = n @ ''.bc''" by (simp add: named_def)
    then show "n = k" using e t by simp
  next
    assume "n = k"
    then show "named 1023 n ''.bc'' = take 1023 (k @ ''.bc'')" using len by (simp add: named_def)
  qed
  moreover have "isactive io n d \<longleftrightarrow> named 1023 n ''.bc'' = take 1023 (k @ ''.bc'')"
    using assms(2) Some k(1) by (simp add: isactive_def fs_readlink_def dependable_def)
  moreover have "active_of d = Some k" using Some k(1) by (simp add: active_of_def)
  ultimately show ?thesis by auto
qed (use assms in \<open>simp add: isactive_def fs_readlink_def active_of_def dependable_def\<close>)

lemma script_found:
  assumes "dir_ok cfg d"
  shows "fs_file d (named 1023 n ''.script'') = scripts_of d n"
    and "scripts_of d n = Some c \<longleftrightarrow> map_of d (n @ ''.script'') = Some (File c)"
    and "scripts_of d n = None \<longleftrightarrow> map_of d (n @ ''.script'') = None"
proof -
  have l: "map_of d (named 1023 n ''.script'') = map_of d (n @ ''.script'')"
    using assms by (intro lookup_named) (simp_all add: dir_ok_def NAME_MAX_def)
  have f: "map_of d (n @ ''.script'') = Some x \<Longrightarrow> \<exists>c. x = File c" for x using assms by (auto simp: dir_ok_def consistent_def)
  show "fs_file d (named 1023 n ''.script'') = scripts_of d n"
    "scripts_of d n = Some c \<longleftrightarrow> map_of d (n @ ''.script'') = Some (File c)"
    "scripts_of d n = None \<longleftrightarrow> map_of d (n @ ''.script'') = None"
    using f by (auto simp: fs_file_def scripts_of_def l split: option.splits node.splits)
qed

lemma getscript_effect:
  assumes "dir_ok cfg d" and "plain_name name n" and "valid_name n" and "scripts_of d n = Some c" and "io_fopen io"
  shows "getscript io name d = \<lparr>ac_result = TIMSIEVE_OK,
    ac_out = ''{'' @ decimal (length c) @ ''}'' @ CRLF @ c @ CRLF @ ''OK'' @ CRLF, ac_dir = d, ac_sync = False\<rparr>"
  using assms(3-5) script_found(1) [OF assms(1), of n] scriptname_valid_iff [OF assms(2)] plain_cname [OF assms(2)]
  by (simp add: getscript_def get_all)

lemma deletescript_effect:
  assumes "dependable io" and "dir_ok cfg d" and "plain_name name n"
  shows "dir_ok cfg (ac_dir (deletescript io name d)) \<and>
    (if valid_name n \<and> scripts_of d n \<noteq> None
     then ac_result (deletescript io name d) = TIMSIEVE_OK \<and> scripts_of (ac_dir (deletescript io name d)) = (scripts_of d)(n := None) \<and>
       active_of (ac_dir (deletescript io name d)) = (if active_of d = Some n then None else active_of d)
     else ac_result (deletescript io name d) \<noteq> TIMSIEVE_OK \<and> ac_dir (deletescript io name d) = d)"
proof -
  have cname: "string_DATAPTR name = n" by (rule plain_cname [OF assms(3)])
  have valid: "scriptname_valid name = TIMSIEVE_OK \<longleftrightarrow> valid_name n" by (rule scriptname_valid_iff [OF assms(3)])
  have shape: "shape d" and cons: "consistent cfg (map_of d)" using assms(2) by (simp_all add: dir_ok_def)
  have big: "NAME_MAX < 1023" by (simp add: NAME_MAX_def)
  consider (bad) "\<not> valid_name n" | (none) "valid_name n" "scripts_of d n = None" | (some) c where "valid_name n" "scripts_of d n = Some c"
    by (cases "scripts_of d n") auto
  then show ?thesis
  proof cases
    case bad
    then show ?thesis using assms(2) valid scriptname_bad [of name] by (simp add: deletescript_def refuse_def)
  next
    case none
    then have m: "map_of d (n @ ''.script'') = None" using script_found(3) [OF assms(2)] by simp
    then have u: "fs_unlink (named 1023 n ''.script'') d = None"
      using lookup_named [OF shape, of 1023 n "''.script''"] by (simp add: fs_unlink_def NAME_MAX_def)
    have "active_of d \<noteq> Some n"
    proof
      assume "active_of d = Some n"
      then obtain t where "map_of d ''defaultbc'' = Some (Link t)" "n = take (length t - 3) t"
        by (auto simp: active_of_def split: option.splits node.splits)
      then show False using cons m by (fastforce simp: consistent_def)
    qed
    then have "\<not> isactive io n d" using active_target [OF assms(2,1)] by simp
    then show ?thesis using none assms(2) valid cname u by (simp add: deletescript_def Let_def refuse_def)
  next
    case some
    have m: "map_of d (n @ ''.script'') = Some (File c)" using script_found(2) [OF assms(2)] some(2) by simp
    then obtain b where b: "map_of d (n @ ''.bc'') = Some (File b)" using cons by (fastforce simp: consistent_def)
    have len: "length (n @ ''.script'') \<le> NAME_MAX" "length (n @ ''.bc'') \<le> NAME_MAX"
      by (rule shape_short [OF shape]; use m b in simp)+
    note nm = named_eq [OF len(1) big] named_eq [OF len(2) big]
    have unl: "io_unlink io x" for x using assms(1) by (simp add: dependable_def)
    let ?e = "if active_of d = Some n then AList.delete ''defaultbc'' d else d"
    let ?d = "AList.delete (n @ ''.bc'') (AList.delete (n @ ''.script'') ?e)"
    have act: "isactive io n d \<longleftrightarrow> active_of d = Some n" by (rule active_target [OF assms(2,1)])
    have link: "map_of d ''defaultbc'' \<noteq> None" if "active_of d = Some n"
      using that by (auto simp: active_of_def split: option.splits)
    have me: "map_of ?e = (map_of d)(''defaultbc'' := (if active_of d = Some n then None else map_of d ''defaultbc''))"
      by (auto simp: delete_conv')
    define first where "first = (if isactive io n d then deleteactive io d else \<lparr>ac_result = TIMSIEVE_OK, ac_out = [], ac_dir = d, ac_sync = False\<rparr>)"
    have first: "ac_result first = TIMSIEVE_OK" "ac_dir first = ?e"
      using act link unl by (auto simp: first_def deleteactive_def fs_unlink_def)
    have me_script: "map_of ?e (n @ ''.script'') = Some (File c)" using m me by simp
    have "map_of (AList.delete (n @ ''.script'') ?e) (n @ ''.bc'') = Some (File b)"
      unfolding delete_conv' me using b by simp
    then have del: "deletescript io name d = agree True ?d"
      unfolding deletescript_def cname Let_def first_def [symmetric] nm
      using some(1) valid first unl me_script by (simp add: fs_unlink_def)
    have md: "map_of ?d = (map_of ?e)(n @ ''.script'' := None, n @ ''.bc'' := None)" by (simp add: delete_conv' fun_upd_twist)
    have "consistent cfg (map_of ?d)"
    proof -
      have "\<exists>k. x = Link (k @ ''.bc'') \<and> k \<noteq> n \<and> map_of d (k @ ''.script'') \<noteq> None"
        if "map_of d ''defaultbc'' = Some x" "active_of d \<noteq> Some n" for x
        using that cons by (auto simp: consistent_def active_of_def)
      then show ?thesis using cons unfolding md me consistent_def by (auto split: if_splits)
    qed
    moreover have "shape ?d" using shape by (simp add: shape_delete)
    moreover have "scripts_of ?d = (scripts_of d)(n := None)"
      by (intro ext) (simp only: scripts_of_def md me, simp add: scripts_of_def)
    moreover have "active_of ?d = (if active_of d = Some n then None else active_of d)"
    proof -
      have "map_of ?d ''defaultbc'' = (if active_of d = Some n then None else map_of d ''defaultbc'')" by (simp only: md me) simp
      then show ?thesis unfolding active_of_def [of ?d] by (simp add: active_of_def [of d])
    qed
    ultimately show ?thesis using some del by (simp add: dir_ok_def agree_def)
  qed
qed


lemma active_link: "dir_ok cfg d \<Longrightarrow> active_of d = None \<longleftrightarrow> map_of d ''defaultbc'' = None"
  by (auto simp: dir_ok_def consistent_def active_of_def split: option.splits node.splits)

lemma consistent_link:
  assumes "consistent cfg m" and "x = None \<or> (\<exists>n. x = Some (Link (n @ ''.bc'')) \<and> m (n @ ''.script'') \<noteq> None)"
  shows "consistent cfg (m(''defaultbc'' := x))"
  using assms by (auto simp: consistent_def)

lemma change_link:
  assumes "dir_ok cfg d" and "shape d'" and "map_of d' = (map_of d)(''defaultbc'' := x)"
    and "x = None \<or> (\<exists>n. x = Some (Link (n @ ''.bc'')) \<and> map_of d (n @ ''.script'') \<noteq> None)"
  shows "dir_ok cfg d'" and "scripts_of d' = scripts_of d"
    and "active_of d' = (case x of Some (Link t) \<Rightarrow> Some (take (length t - 3) t) | _ \<Rightarrow> None)"
proof -
  show "dir_ok cfg d'" using assms consistent_link [OF _ assms(4)] by (simp add: dir_ok_def)
  show "scripts_of d' = scripts_of d" by (intro ext) (simp add: scripts_of_def assms(3))
  show "active_of d' = (case x of Some (Link t) \<Rightarrow> Some (take (length t - 3) t) | _ \<Rightarrow> None)"
    by (simp add: active_of_def assms(3))
qed

lemma setactive_effect:
  assumes "dependable io" and "dir_ok cfg d" and "plain_name name n"
  shows "dir_ok cfg (ac_dir (setactive io name d)) \<and> scripts_of (ac_dir (setactive io name d)) = scripts_of d \<and>
    (if n = [] then (ac_result (setactive io name d) = TIMSIEVE_OK \<longleftrightarrow> active_of d \<noteq> None) \<and> active_of (ac_dir (setactive io name d)) = None
     else if valid_name n \<and> scripts_of d n \<noteq> None \<and> (io_symlink io \<or> active_of d = Some n)
     then ac_result (setactive io name d) = TIMSIEVE_OK \<and> active_of (ac_dir (setactive io name d)) = Some n
     else ac_result (setactive io name d) \<noteq> TIMSIEVE_OK \<and> active_of (ac_dir (setactive io name d)) = active_of d)"
proof -
  have cname: "string_DATAPTR name = n" by (rule plain_cname [OF assms(3)])
  have valid: "scriptname_valid name = TIMSIEVE_OK \<longleftrightarrow> valid_name n" by (rule scriptname_valid_iff [OF assms(3)])
  have shape: "shape d" and new: "map_of d ''defaultbc.NEW'' = None" using assms(2) by (simp_all add: dir_ok_def consistent_def)
  have unl: "io_unlink io x" "io_rename io x" for x using assms(1) by (simp_all add: dependable_def)
  have ex: "exists n d \<longleftrightarrow> scripts_of d n \<noteq> None" using script_found(1) [OF assms(2)] by (simp add: exists_def)
  have act: "isactive io n d \<longleftrightarrow> active_of d = Some n" by (rule active_target [OF assms(2,1)])
  consider (off) "n = []" "active_of d \<noteq> None" | (none) "n = []" "active_of d = None" | (bad) "n \<noteq> []" "\<not> valid_name n"
    | (missing) "n \<noteq> []" "valid_name n" "scripts_of d n = None" | (same) "n \<noteq> []" "valid_name n" "scripts_of d n \<noteq> None" "active_of d = Some n"
    | (nolink) "n \<noteq> []" "valid_name n" "scripts_of d n \<noteq> None" "active_of d \<noteq> Some n" "\<not> io_symlink io"
    | (go) "n \<noteq> []" "valid_name n" "scripts_of d n \<noteq> None" "active_of d \<noteq> Some n" "io_symlink io"
    by blast
  then show ?thesis
  proof cases
    case off
    let ?d = "AList.delete ''defaultbc'' d"
    have "map_of d ''defaultbc'' \<noteq> None" using off(2) active_link [OF assms(2)] by simp
    then have "setactive io name d = agree True ?d"
      using off cname unl by (auto simp: setactive_def Let_def deleteactive_def fs_unlink_def)
    moreover have m: "map_of ?d = (map_of d)(''defaultbc'' := None)" by (simp add: delete_conv')
    ultimately show ?thesis
      using change_link [OF assms(2) shape_delete [OF shape] m] off by (simp add: agree_def)
  next
    case none
    then have "fs_unlink ''defaultbc'' d = None" using active_link [OF assms(2)] by (simp add: fs_unlink_def)
    then show ?thesis using none cname assms(2) by (simp add: setactive_def Let_def deleteactive_def refuse_def)
  next
    case bad
    then show ?thesis using cname valid scriptname_bad [of name] assms(2) by (simp add: setactive_def Let_def refuse_def)
  next
    case missing
    then show ?thesis using cname valid ex assms(2) by (simp add: setactive_def Let_def refuse_def)
  next
    case same
    then show ?thesis using cname valid ex act assms(2) by (simp add: setactive_def Let_def agree_def)
  next
    case nolink
    then show ?thesis using cname valid ex act assms(2) by (simp add: setactive_def Let_def refuse_def)
  next
    case go
    have s: "map_of d (n @ ''.script'') \<noteq> None" using go(3) script_found(3) [OF assms(2)] by simp
    have len: "length (n @ ''.script'') \<le> NAME_MAX" by (rule shape_short [OF shape s])
    have nm: "named 1024 n ''.bc'' = n @ ''.bc''" by (rule named_eq) (use len in \<open>simp_all add: NAME_MAX_def\<close>)
    let ?l = "Link (n @ ''.bc'')"
    let ?d = "AList.update ''defaultbc'' ?l (AList.delete ''defaultbc.NEW'' (AList.update ''defaultbc.NEW'' ?l d))"
    have "setactive io name d = agree True ?d"
      using go cname valid ex act unl new nm
      by (simp add: setactive_def Let_def fs_symlink_def fs_create_def fs_rename_def update_conv' NAME_MAX_def)
    moreover have m: "map_of ?d = (map_of d)(''defaultbc'' := Some ?l)"
      using new by (auto simp: update_conv' delete_conv')
    moreover have "shape ?d" by (intro shape_update shape_delete shape) (simp_all add: NAME_MAX_def)
    ultimately show ?thesis using change_link [OF assms(2) _ m] go s by (simp add: agree_def)
  qed
qed


section \<open>Counting\<close>

lemma is_script_iff: "is_script k \<longleftrightarrow> (\<exists>n. k = n @ ''.script'')"
proof
  assume "is_script k"
  then show "\<exists>n. k = n @ ''.script''" unfolding is_script_def by (metis append_take_drop_id)
qed (auto simp: is_script_def)

lemma countscripts_card:
  assumes "dir_ok cfg d" and "io_opendir io"
  shows "countscripts io n d = int (card (dom (scripts_of d) - {n}))"
proof -
  let ?P = "\<lambda>k. is_script k \<and> named 1023 n ''.script'' \<noteq> k"
  have shape: "shape d" using assms(1) by (simp add: dir_ok_def)
  have key: "k \<in> fst ` set d \<longleftrightarrow> map_of d k \<noteq> None" for k by (simp add: map_of_eq_None_iff)
  have "fst ` set (filter (\<lambda>(k, _). ?P k) d) = (\<lambda>m. m @ ''.script'') ` (dom (scripts_of d) - {n})"
  proof (intro set_eqI iffI)
    fix k assume "k \<in> fst ` set (filter (\<lambda>(k, _). ?P k) d)"
    then have "k \<in> fst ` set d" "?P k" by force+
    then have k: "map_of d k \<noteq> None" "?P k" using key by blast+
    then obtain m where m: "k = m @ ''.script''" by (auto simp: is_script_iff)
    then have "length (m @ ''.script'') \<le> NAME_MAX" using shape_short [OF shape k(1)] by simp
    then have "m \<noteq> n" using k(2) m named_eq [of n "''.script''" 1023] by (auto simp: NAME_MAX_def)
    moreover have "scripts_of d m \<noteq> None" using k(1) m script_found(3) [OF assms(1)] by simp
    ultimately show "k \<in> (\<lambda>m. m @ ''.script'') ` (dom (scripts_of d) - {n})" using m by auto
  next
    fix k assume "k \<in> (\<lambda>m. m @ ''.script'') ` (dom (scripts_of d) - {n})"
    then obtain m where m: "k = m @ ''.script''" "scripts_of d m \<noteq> None" "m \<noteq> n" by auto
    then have s: "map_of d k \<noteq> None" using script_found(3) [OF assms(1)] by simp
    have "named 1023 n ''.script'' \<noteq> k"
    proof
      assume e: "named 1023 n ''.script'' = k"
      have "length k \<le> NAME_MAX" by (rule shape_short [OF shape s])
      then have "length (n @ ''.script'') \<le> 1022" using e by (auto simp: named_def NAME_MAX_def)
      then show False using e m by (simp add: named_def)
    qed
    then have P: "?P k" using m(1) is_script_iff by blast
    obtain x where "(k, x) \<in> set d" using s by (auto dest: map_of_SomeD)
    then have "(k, x) \<in> set (filter (\<lambda>(k, _). ?P k) d)" using P by simp
    then show "k \<in> fst ` set (filter (\<lambda>(k, _). ?P k) d)" by (rule rev_image_eqI) simp
  qed
  moreover have "card (fst ` set (filter (\<lambda>(k, _). ?P k) d)) = length (filter (\<lambda>(k, _). ?P k) d)"
    using shape distinct_card [of "map fst (filter (\<lambda>(k, _). ?P k) d)"] by (simp add: shape_def distinct_map_filter)
  moreover have "card ((\<lambda>m. m @ ''.script'') ` (dom (scripts_of d) - {n})) = card (dom (scripts_of d) - {n})"
    by (rule card_image) (simp add: inj_on_def)
  ultimately show ?thesis using assms(2) by (simp add: countscripts_def)
qed

section \<open>Sequences of requests\<close>

datatype store_request = Put string string | Delete string | Activate string

definition unheaped :: "string \<Rightarrow> mystring" where
  "unheaped s = \<lparr>ms_data = s, ms_tail = []\<rparr>"

fun perform_request :: "sieve_config \<Rightarrow> action_io \<times> store_request \<Rightarrow> sieve_dir \<Rightarrow> sieve_reply option" where
  "perform_request cfg (io, Put n c) d = putscript cfg io (unheaped n) (unheaped c) False d"
| "perform_request cfg (io, Delete n) d = Some (deletescript io (unheaped n) d)"
| "perform_request cfg (io, Activate n) d = Some (setactive io (unheaped n) d)"

text \<open>The specification: what a request does to the scripts and to the name of the active one.\<close>

type_synonym store = "(string \<rightharpoonup> string) \<times> string option"

definition may_put :: "sieve_config \<Rightarrow> action_io \<Rightarrow> string \<Rightarrow> string \<Rightarrow> (string \<rightharpoonup> string) \<Rightarrow> bool" where
  "may_put cfg io n c S \<longleftrightarrow> valid_name n \<and> length n + 11 \<le> NAME_MAX \<and> io_opendir io \<and> int (card (dom S - {n})) + 1 \<le> maxscripts cfg \<and>
     compiled cfg c \<noteq> None \<and> io_fopen io \<and> io_open io"

fun spec_request :: "sieve_config \<Rightarrow> action_io \<times> store_request \<Rightarrow> store \<Rightarrow> store" where
  "spec_request cfg (io, Put n c) (S, A) = (if may_put cfg io n c S then (S(n \<mapsto> c), A) else (S, A))"
| "spec_request cfg (io, Delete n) (S, A) = (if valid_name n \<and> S n \<noteq> None then (S(n := None), if A = Some n then None else A) else (S, A))"
| "spec_request cfg (io, Activate n) (S, A) =
     (if n = [] then (S, None) else if valid_name n \<and> S n \<noteq> None \<and> io_symlink io then (S, Some n) else (S, A))"

fun store_request_ok :: "sieve_config \<Rightarrow> action_io \<times> store_request \<Rightarrow> bool" where
  "store_request_ok cfg (io, q) \<longleftrightarrow> dependable io \<and> compiles cfg io \<and> io_opendir io \<and> (case q of
     Put n c \<Rightarrow> NUL \<notin> set n \<and> length c \<le> io_space io | Delete n \<Rightarrow> NUL \<notin> set n | Activate n \<Rightarrow> NUL \<notin> set n)"

definition store_of :: "sieve_dir \<Rightarrow> store" where
  "store_of d = (scripts_of d, active_of d)"

lemma request_simulates:
  assumes "dir_ok cfg d" and "store_request_ok cfg l"
  shows "\<exists>d'. map_option ac_dir (perform_request cfg l d) = Some d' \<and> dir_ok cfg d' \<and> store_of d' = spec_request cfg l (store_of d)"
proof -
  obtain io q where l: "l = (io, q)" by fastforce
  have io: "dependable io" "compiles cfg io" "io_opendir io" using assms(2) l by (cases q; simp)+
  show ?thesis
  proof (cases q)
    case (Put n c)
    then have p: "plain_name (unheaped n) n" "length (ms_data (unheaped c)) \<le> io_space io"
      using assms(2) l by (simp_all add: plain_name_def unheaped_def)
    have "accepted cfg io n c d \<longleftrightarrow> may_put cfg io n c (scripts_of d)"
      using countscripts_card [OF assms(1) io(3)] io(3) by (simp add: accepted_def may_put_def)
    then show ?thesis using putscript_effect [OF io(1,2) assms(1) p] l Put by (auto simp: store_of_def unheaped_def split: if_splits)
  next
    case (Delete n)
    then have p: "plain_name (unheaped n) n" using assms(2) l by (simp add: plain_name_def unheaped_def)
    show ?thesis using deletescript_effect [OF io(1) assms(1) p] l Delete by (auto simp: store_of_def split: if_splits)
  next
    case (Activate n)
    then have p: "plain_name (unheaped n) n" using assms(2) l by (simp add: plain_name_def unheaped_def)
    show ?thesis using setactive_effect [OF io(1) assms(1) p] l Activate by (auto simp: store_of_def split: if_splits)
  qed
qed

interpretation scripts: simulation "dir_ok cfg" store_of "\<lambda>l d. map_option ac_dir (perform_request cfg l d)" "spec_request cfg" "store_request_ok cfg" for cfg
  by unfold_locales (rule request_simulates)


section \<open>Properties\<close>

text \<open>
  C11: the Sieve directory implements a store of scripts. After any sequence of requests to put, delete and
  activate scripts, refused ones included, the directory holds exactly the scripts and the active name
  the specification gives, beside every script lies its compiled bytecode, and the link to the active
  script leads to the bytecode of an existing script.
\<close>

theorem script_store:
  assumes "dir_ok cfg d" and "list_all (store_request_ok cfg) qs"
  shows "\<exists>d'. foldl (\<lambda>r l. Option.bind r (\<lambda>d. map_option ac_dir (perform_request cfg l d))) (Some d) qs = Some d' \<and>
    dir_ok cfg d' \<and> store_of d' = fold (spec_request cfg) qs (store_of d)"
  by (rule scripts.simulates_all [OF assms])

text \<open>A parser for a witness: every text is the empty script.\<close>

definition lenient :: sieve_config where
  "lenient = \<lparr>script_parse = (\<lambda>_. Inr []), maxscripts = 2, maxsize = 1024\<rparr>"

definition roomy :: action_io where
  "roomy = \<lparr>io_opendir = True, io_fopen = True, io_space = 100, io_open = True, io_bc_space = 100, io_unlink = (\<lambda>_. True),
     io_rename = (\<lambda>_. True), io_symlink = True, io_readlink = True, io_garbage = []\<rparr>"

lemma empty_dir_ok: "dir_ok cfg []"
  by (simp add: dir_ok_def shape_def consistent_def)

lemma lenient_ok: "NUL \<notin> set n \<Longrightarrow> length c \<le> 100 \<Longrightarrow> store_request_ok lenient (roomy, Put n c)" "store_request_ok lenient (roomy, Activate ''a'')"
  by (simp_all add: lenient_def roomy_def dependable_def compiles_def enc_script_def BYTECODE_MAGIC_def enc_block.simps htonl_def)

theorem script_store_witness:
  "\<exists>d'. foldl (\<lambda>r l. Option.bind r (\<lambda>d. map_option ac_dir (perform_request lenient l d))) (Some [])
      [(roomy, Put ''a'' ''keep;''), (roomy, Activate ''a'')] = Some d' \<and> store_of d' = ([''a'' \<mapsto> ''keep;''], Some ''a'')"
proof -
  have "may_put lenient roomy ''a'' ''keep;'' Map.empty"
    by (simp add: may_put_def lenient_def roomy_def valid_name_def NAME_MAX_def compiled_def)
  then have "fold (spec_request lenient) [(roomy, Put ''a'' ''keep;''), (roomy, Activate ''a'')] (store_of []) =
      ([''a'' \<mapsto> ''keep;''], Some ''a'')"
    by (simp add: store_of_def scripts_of_def [abs_def] active_of_def valid_name_def roomy_def)
  moreover have "list_all (store_request_ok lenient) [(roomy, Put ''a'' ''keep;''), (roomy, Activate ''a'')]"
    using lenient_ok(1) [of "''a''" "''keep;''"] lenient_ok(2) by simp
  ultimately show ?thesis using script_store [OF empty_dir_ok] by metis
qed

text \<open>
  C39: a script that was put is the one that is got: after an accepted \<^verbatim>\<open>PUTSCRIPT\<close>, \<^verbatim>\<open>GETSCRIPT\<close> of the name sends
  the bytes of the script as a literal.
\<close>

theorem put_then_get:
  assumes "dir_ok cfg d" and "dependable io" and "compiles cfg io" and "NUL \<notin> set n" and "length c \<le> io_space io"
    and "putscript cfg io (unheaped n) (unheaped c) False d = Some r" and "ac_result r = TIMSIEVE_OK" and "io_fopen io'"
  shows "ac_out (getscript io' (unheaped n) (ac_dir r)) = ''{'' @ decimal (length c) @ ''}'' @ CRLF @ c @ CRLF @ ''OK'' @ CRLF"
proof -
  have p: "plain_name (unheaped n) n" "length (ms_data (unheaped c)) \<le> io_space io"
    using assms(4,5) by (simp_all add: plain_name_def unheaped_def)
  have r: "dir_ok cfg (ac_dir r)" "valid_name n" "scripts_of (ac_dir r) n = Some c"
    using putscript_effect [OF assms(2,3,1) p] assms(6,7) by (auto simp: accepted_def unheaped_def split: if_splits)
  then show ?thesis using getscript_effect [OF r(1) p(1) r(2,3) assms(8)] by simp
qed

theorem put_then_get_witness:
  "\<exists>r. putscript lenient roomy (unheaped ''a'') (unheaped ''keep;'') False [] = Some r \<and>
    ac_out (getscript roomy (unheaped ''a'') (ac_dir r)) = ''{5}'' @ CRLF @ ''keep;'' @ CRLF @ ''OK'' @ CRLF"
proof -
  have ok: "dependable roomy" "compiles lenient roomy" using lenient_ok(1) [of "''a''" "[]"] by simp_all
  have p: "plain_name (unheaped ''a'') ''a''" "length (ms_data (unheaped ''keep;'')) \<le> io_space roomy"
    by (simp_all add: plain_name_def unheaped_def roomy_def)
  have "accepted lenient roomy ''a'' ''keep;'' []"
    by (simp add: accepted_def lenient_def roomy_def valid_name_def NAME_MAX_def compiled_def countscripts_def)
  then obtain r where r: "putscript lenient roomy (unheaped ''a'') (unheaped ''keep;'') False [] = Some r" "ac_result r = TIMSIEVE_OK"
    using putscript_effect [OF ok empty_dir_ok p] by (auto simp: unheaped_def)
  have "ac_out (getscript roomy (unheaped ''a'') (ac_dir r)) = ''{'' @ decimal (length ''keep;'') @ ''}'' @ CRLF @ ''keep;'' @ CRLF @ ''OK'' @ CRLF"
    by (rule put_then_get [OF empty_dir_ok ok _ _ r]) (simp_all add: roomy_def)
  moreover have "decimal (length ''keep;'') = ''5''" by code_simp
  ultimately show ?thesis using r(1) by simp
qed

end
