(* ===== verification/Timsieved_Parser.thy ===== *)
theory Timsieved_Parser
  imports Timsieved_Actions Mboxname Sieve_Interp
begin

text \<open>
  The commands of the ManageSieve server, \<^verbatim>\<open>timsieved/parser.c\<close>, and its loop, \<^verbatim>\<open>cmdloop\<close> of
  \<^verbatim>\<open>timsieved/timsieved.c\<close>.

  The state of a session is a record: the lexer and the bytes to read, the bytes sent, the global
  variables of the parser, the current directory and the contents of the Sieve directories by path.
  What comes from elsewhere is the record \<^verbatim>\<open>sieved_env\<close>: SASL as a function of the mechanism and of what the
  client sent, Open Directory, base64, TLS, the list of mailboxes, connections to other servers and the
  options. A command returns, or ends the process (\<^verbatim>\<open>Fatal\<close>), or it does something C leaves undefined
  (\<^verbatim>\<open>Lost\<close>): it writes behind the buffer of a path, or the compiler does.
\<close>

section \<open>Data\<close>

datatype sasl_status = SASL_CONTINUE string | SASL_OK "string option" "string option" | SASL_ERROR

datatype mailbox_place = No_Mailbox | Local_Mailbox | Remote_Mailbox string

record sieved_env =
  en_lex :: lex_env
  en_cfg :: sieve_config
  en_names :: name_config
  en_sasl :: "string \<Rightarrow> string option \<Rightarrow> string list \<Rightarrow> sasl_status"
  en_authuser :: "string option"
  en_reset :: bool
  en_decode64 :: "string \<Rightarrow> string option"
  en_encode64 :: "string \<Rightarrow> string"
  en_mailbox :: "string option \<Rightarrow> mailbox_place"
  en_admin :: bool
  en_referrals :: bool
  en_domainfromip :: bool
  en_backend :: "string \<Rightarrow> string \<Rightarrow> string option + unit"
  en_fulldirhash :: bool
  en_chdir :: "string \<Rightarrow> bool"
  en_apple_auth :: bool
  en_od :: "string \<Rightarrow> string option \<Rightarrow> string \<Rightarrow> (string option \<times> string) option \<times> string \<times> string"
  en_admins :: "string option"
  en_tls_init :: bool
  en_tls_start :: bool
  en_setprop :: bool
  en_murder :: bool
  en_version :: string
  en_mechs :: "string option"
  en_od_plain :: bool
  en_od_login :: bool
  en_od_cram_md5 :: bool
  en_od_gssapi :: bool
  en_regex :: bool
  en_extensions :: "sieve_ext set"
  en_interp :: interp_callbacks

record session =
  ss_lex :: lexer_state
  ss_in :: string
  ss_out :: string
  authenticated :: bool
  verify_only :: bool
  starttls_done :: bool
  referral_host :: "string option"
  ss_backend :: bool
  ss_cwd :: string
  ss_sieve_dir :: string
  ss_sync :: nat
  ss_world :: "string \<Rightarrow> sieve_dir"

datatype outcome = Returned bool session | Fatal session | Lost

section \<open>Helpers\<close>

definition prot_printf :: "string \<Rightarrow> session \<Rightarrow> session" where
  "prot_printf t s = s\<lparr>ss_out := ss_out s @ t\<rparr>"

definition NO :: "string \<Rightarrow> string" where
  "NO t = ''NO '' @ dquote t @ CRLF"

definition fatal :: "string \<Rightarrow> session \<Rightarrow> outcome" where
  "fatal t s = Fatal (prot_printf (''NO Fatal error: '' @ t @ CRLF) s)"

definition next_token :: "sieved_env \<Rightarrow> session \<Rightarrow> lexed \<times> session" where
  "next_token env s = (let r = timlex (en_lex env) (ss_lex s) (ss_in s) in (r, s\<lparr>ss_lex := lx_state r, ss_in := lx_rest r\<rparr>))"

text \<open>\<^verbatim>\<open>if (timlex(...) != token) { error_msg = ...; goto error; }\<close>\<close>

definition expect :: "sieved_env \<Rightarrow> int \<Rightarrow> string \<Rightarrow> session \<Rightarrow> (string \<times> session) + (lexed \<times> session)" where
  "expect env t msg s = (let (r, s) = next_token env s in if lx_token r \<noteq> t then Inl (msg, s) else Inr (r, s))"

fun unless_error :: "'e + 'a \<Rightarrow> ('a \<Rightarrow> 'e + 'b) \<Rightarrow> 'e + 'b" where
  "unless_error (Inl e) f = Inl e"
| "unless_error (Inr x) f = f x"

text \<open>The arguments of a command that names a script.\<close>

definition name_argument :: "sieved_env \<Rightarrow> string \<Rightarrow> session \<Rightarrow> (string \<times> session) + (mystring \<times> session)" where
  "name_argument env cmd s =
     unless_error (expect env SPACE (''SPACE must occur after '' @ cmd) s) (\<lambda>(_, s).
     unless_error (expect env STRING ''Did not specify script name'' s) (\<lambda>(r, s). Inr (the (lx_str r), s)))"

definition end_of_line :: "sieved_env \<Rightarrow> 'a \<Rightarrow> session \<Rightarrow> (string \<times> session) + ('a \<times> session)" where
  "end_of_line env x s = unless_error (expect env EOL ''Expected EOL'' s) (\<lambda>(_, s). Inr (x, s))"

section \<open>The Sieve directory of a user\<close>

fun hash_loop :: "32 word \<Rightarrow> string \<Rightarrow> 32 word" where
  "hash_loop n [] = n"
| "hash_loop n (c # pt) = (if c = CHR ''.'' then n
     else hash_loop ((push_bit 3 n XOR drop_bit 5 n) XOR of_nat (of_char c)) pt)"

definition dir_hash_c :: "bool \<Rightarrow> string \<Rightarrow> char" where
  "dir_hash_c fulldirhash name =
     (if fulldirhash then char_of (65 + unat (hash_loop 0 name) mod 23)
      else let c = tolower (deref name) in if \<not> islower c then CHR ''q'' else c)"

definition FNAME_DOMAINDIR :: string where "FNAME_DOMAINDIR = ''/domain/''"

text \<open>
  The buffer has 1024 bytes. \<^verbatim>\<open>snprintf\<close> returns the length the text would have had, so \<^verbatim>\<open>len\<close> may pass the
  size; the next \<^verbatim>\<open>snprintf\<close> then writes behind the buffer, with no bound.
\<close>

definition user_path :: "sieved_env \<Rightarrow> string \<Rightarrow> string \<Rightarrow> string option" where
  "user_path env foo userid =
     (let sz = 1024;
          (user, domain) = (if virtdomains (en_names env) \<and> CHR ''@'' \<in> set userid
            then (case strrchr (take (sz - 1) userid) (CHR ''@'') of None \<Rightarrow> (take (sz - 1) userid, None) | Some (u, d) \<Rightarrow> (u, Some d))
            else (userid, None));
          part = (case domain of None \<Rightarrow> []
            | Some d \<Rightarrow> FNAME_DOMAINDIR @ [dir_hash_c (en_fulldirhash env) d] @ ''/'' @ d)
      in if domain \<noteq> None \<and> length foo > sz then None
      else if en_admin env then Some (take (sz - 1) (foo @ part @ ''/global''))
      else if length foo + length part > sz then None
      else Some (take (sz - 1) (foo @ part @ ''/'' @ [dir_hash_c (en_fulldirhash env) user] @ ''/'' @ user)))"

text \<open>The new directory replaces \<^verbatim>\<open>sieve_dir\<close> even when the change to it fails.\<close>

definition actions_setuser :: "sieved_env \<Rightarrow> string \<Rightarrow> session \<Rightarrow> (bool \<times> session) option" where
  "actions_setuser env userid s = (case user_path env (ss_sieve_dir s) userid of
     None \<Rightarrow> None
   | Some p \<Rightarrow> if en_chdir env p then Some (True, s\<lparr>ss_sieve_dir := p, ss_cwd := p\<rparr>) else Some (False, s\<lparr>ss_sieve_dir := p\<rparr>))"

section \<open>Authentication\<close>

lemma timlex_rest: "length (lx_rest (lex_loop e st b n k s)) \<le> length s \<and>
  (lx_token (lex_loop e st b n k s) = STRING \<or> lx_token (lex_loop e st b n k s) = EOL \<longrightarrow> length (lx_rest (lex_loop e st b n k s)) < length s)"
proof (induction e st b n k s rule: lex_loop.induct)
  case (1 e st b n k s)
  show ?case
  proof (cases s)
    case Nil
    then show ?thesis by (simp add: lex_step tok_def token_defs)
  next
    case (Cons ch r)
    show ?thesis
    proof (cases "lex_char e st b n k ch r")
      case (Go st' b' n' k' s')
      then have "length s' \<le> length r" by (rule lex_char_shorter)
      moreover have "lex_loop e st b n k s = lex_loop e st' b' n' k' s'" using Cons Go by (simp add: lex_step)
      ultimately show ?thesis using 1 [OF Cons Go] Cons by auto
    next
      case (Done x)
      have "length (lx_rest x) \<le> length (ch # r) \<and> (lx_token x = STRING \<or> lx_token x = EOL \<longrightarrow> length (lx_rest x) < length (ch # r))"
        using Done unfolding lex_char_def literal_def read_literal_def Let_def tok_def ERR_def
        by (auto simp: token_defs token_lookup_def split: lexer_state.splits if_splits list.splits)
      then show ?thesis using Cons Done by (simp add: lex_step)
    qed
  qed
qed

text \<open>A failure of the authentication: the SASL connection is reset.\<close>

definition auth_failed :: "sieved_env \<Rightarrow> session \<Rightarrow> outcome" where
  "auth_failed env s = (if en_reset env then Returned False s else fatal ''could not reset the sasl_conn_t after failure'' s)"

definition decode :: "sieved_env \<Rightarrow> string \<Rightarrow> string option" where
  "decode env t = (if t = [] then Some [] else en_decode64 env t)"

text \<open>The mailbox of the user decides where the scripts are.\<close>

definition strcspn :: "string \<Rightarrow> char \<Rightarrow> nat" where
  "strcspn s c = length (takeWhile (\<lambda>x. x \<noteq> c) s)"

definition internal_user :: "sieved_env \<Rightarrow> namespace \<Rightarrow> string \<Rightarrow> string" where
  "internal_user env ns u = mboxname_hiersep_tointernal ns u (if virtdomains (en_names env) then strcspn u (CHR ''@'') else 0)"

definition inbox_name :: "sieved_env \<Rightarrow> namespace \<Rightarrow> string \<Rightarrow> string option" where
  "inbox_name env ns u =
     (if isalt ns then mboxname_tointernal_alt (en_names env) ns ''INBOX'' (Some u) else mboxname_tointernal (en_names env) ns ''INBOX'' (Some u))"

definition percent_at :: "string \<Rightarrow> string" where
  "percent_at u = (case strchr u (CHR ''@'') of None \<Rightarrow> u | Some (a, b) \<Rightarrow> a @ ''%'' @ b)"

definition cut_partition :: "string \<Rightarrow> string" where
  "cut_partition server = takeWhile (\<lambda>c. c \<noteq> CHR ''!'') server"

definition logged_in :: "string option \<Rightarrow> sieved_env \<Rightarrow> session \<Rightarrow> outcome" where
  "logged_in serverout env s =
     Returned True ((prot_printf (case serverout of
         Some t \<Rightarrow> ''OK (SASL '' @ dquote (en_encode64 env t) @ '')'' @ CRLF | None \<Rightarrow> ''OK'' @ CRLF) s)\<lparr>authenticated := True\<rparr>)"

definition remote_user :: "sieved_env \<Rightarrow> string option \<Rightarrow> string \<Rightarrow> string \<Rightarrow> string \<Rightarrow> session \<Rightarrow> outcome" where
  "remote_user env serverout canon_user user server s =
     (if en_referrals env
      then if en_domainfromip env
        then (case en_authuser env of
            None \<Rightarrow> auth_failed env s
          | Some a \<Rightarrow> logged_in serverout env
              (s\<lparr>referral_host := Some (percent_at a @ '';'' @ percent_at canon_user @ ''@'' @ server)\<rparr>))
        else logged_in serverout env (s\<lparr>referral_host := Some server\<rparr>)
      else case en_backend env (cut_partition server) user of
        Inl statusline \<Rightarrow>
          Returned True (prot_printf (NO (case statusline of Some t \<Rightarrow> t | None \<Rightarrow> ''Authentication to backend server failed'')) s)
      | Inr _ \<Rightarrow> logged_in serverout env (s\<lparr>ss_backend := True\<rparr>))"

definition set_user :: "sieved_env \<Rightarrow> string option \<Rightarrow> string \<Rightarrow> session \<Rightarrow> outcome" where
  "set_user env serverout user s = (case actions_setuser env user s of
     None \<Rightarrow> Lost
   | Some (ok, s) \<Rightarrow> if ok then logged_in serverout env s else auth_failed env s)"

definition place_user :: "sieved_env \<Rightarrow> string option \<Rightarrow> string \<Rightarrow> session \<Rightarrow> outcome" where
  "place_user env serverout canon_user s =
     (let verify = (canon_user = ''anonymous''); s = s\<lparr>verify_only := verify\<rparr> in
      if verify then logged_in serverout env s
      else case mboxname_init_namespace (en_names env) False of
        None \<Rightarrow> fatal ''IMAP_NAMESPACE_BADPREFIX'' s
      | Some ns \<Rightarrow>
          (let user = internal_user env ns canon_user; place = en_mailbox env (inbox_name env ns user) in
           case place of
             Remote_Mailbox server \<Rightarrow> remote_user env serverout canon_user user server s
           | _ \<Rightarrow>
               if place = No_Mailbox \<and> \<not> en_admin env then auth_failed env s
               else set_user env serverout user s))"

text \<open>The exchange of challenges and responses; every response uses up some of the input.\<close>

function auth_loop :: "sieved_env \<Rightarrow> string \<Rightarrow> string option \<Rightarrow> string list \<Rightarrow> session \<Rightarrow> outcome" where
  "auth_loop env mech init resp s = (case en_sasl env mech init resp of
     SASL_ERROR \<Rightarrow> auth_failed env s
   | SASL_OK serverout user \<Rightarrow> (case user of None \<Rightarrow> auth_failed env s | Some u \<Rightarrow> place_user env serverout u s)
   | SASL_CONTINUE serverout \<Rightarrow>
       (let t = en_encode64 env serverout;
            s = prot_printf (''{'' @ decimal (length t) @ ''}'' @ CRLF @ t @ CRLF) s;
            (r1, s) = next_token env s
        in if lx_token r1 \<noteq> STRING then auth_failed env s
        else case decode env (ms_data (the (lx_str r1))) of
          None \<Rightarrow> auth_failed env s
        | Some c \<Rightarrow>
            (let (r2, s) = next_token env s in
             if lx_token r2 \<noteq> EOL then auth_failed env s else auth_loop env mech init (resp @ [c]) s)))"
  by pat_completeness auto
termination
proof (relation "measure (\<lambda>(env, mech, init, resp, s). length (ss_in s))", simp, clarsimp)
  fix env s serverout r1 s1 c r2 s2
  assume "(r1, s1) = next_token env (prot_printf serverout s)" "lx_token r1 = STRING" "(r2, s2) = next_token env s1" "lx_token r2 = EOL"
  then show "length (ss_in s2) < length (ss_in s)"
    using timlex_rest [of "en_lex env" "ss_lex s" "[]" 0 0 "ss_in s"] timlex_rest [of "en_lex env" "ss_lex s1" "[]" 0 0 "ss_in s1"]
    by (auto simp: next_token_def Let_def timlex_def prot_printf_def)
qed

definition cmd_authenticate :: "sieved_env \<Rightarrow> mystring \<Rightarrow> mystring option \<Rightarrow> session \<Rightarrow> outcome" where
  "cmd_authenticate env mechanism_name initial_challenge s =
     (let mech = string_DATAPTR mechanism_name in
      case initial_challenge of
        None \<Rightarrow> auth_loop env mech None [] s
      | Some c \<Rightarrow> (case decode env (ms_data c) of None \<Rightarrow> auth_failed env s | Some t \<Rightarrow> auth_loop env mech (Some t) [] s))"

text \<open>The words of an option, each cut to the size of a buffer, and whether one of them is the administrator.\<close>

function admin_listed :: "string \<Rightarrow> string \<Rightarrow> bool" where
  "admin_listed who val =
     (if val = [] then False
      else let w = takeWhile (\<lambda>c. \<not> isspace c) val in
        who = take 1023 w \<or> admin_listed who (dropWhile isspace (if w = [] then drop 1 (val) else drop (length w) val)))"
  by pat_completeness auto
termination
proof (relation "measure (\<lambda>(who, val). length val)")
  fix who val w assume "val \<noteq> []" "w = takeWhile (\<lambda>c. \<not> isspace c) (val :: string)"
  then have "length (if w = [] then drop 1 val else drop (length w) val) < length val" by (cases val) auto
  then show "((who, dropWhile isspace (if w = [] then drop 1 val else drop (length w) val)), who, val) \<in> measure (\<lambda>(who, val). length val)"
    using length_dropWhile_le [of isspace "if w = [] then drop 1 val else drop (length w) val"] by simp
qed simp

definition od_mechanism :: "string \<Rightarrow> string" where
  "od_mechanism mech =
     (if map tolower mech = ''cram-md5'' then ''SIEVE-CRAM-MD5''
      else if map tolower mech = ''login'' then ''SIEVE-LOGIN''
      else if map tolower mech = ''plain'' then ''SIEVE-PLAIN'' else mech)"

definition od_place_user :: "sieved_env \<Rightarrow> string \<Rightarrow> session \<Rightarrow> outcome" where
  "od_place_user env username s =
     (let verify = (username = ''anonymous''); s = s\<lparr>verify_only := verify\<rparr> in
      if verify then logged_in None env s
      else case mboxname_init_namespace (en_names env) False of
        None \<Rightarrow> fatal ''IMAP_NAMESPACE_BADPREFIX'' s
      | Some ns \<Rightarrow>
          (let user = internal_user env ns username in
           case en_mailbox env (inbox_name env ns user) of
             No_Mailbox \<Rightarrow> Returned False s
           | Remote_Mailbox server \<Rightarrow> fatal ''remote host not supported'' s
           | Local_Mailbox \<Rightarrow> set_user env None user s))"

text \<open>
  \<^verbatim>\<open>odDoAuthenticate\<close> talks to the client itself: what is left of the input, what it sent, and, when it
  succeeds, the administrator that authenticated in place of the user, if any, and the user.
\<close>

definition od_refused :: "sieved_env \<Rightarrow> string option \<Rightarrow> bool" where
  "od_refused env auth_id = (case auth_id of None \<Rightarrow> False
     | Some a \<Rightarrow> (case en_admins env of None \<Rightarrow> True | Some val \<Rightarrow> \<not> admin_listed a val))"

definition cmd_od_authenticate :: "sieved_env \<Rightarrow> mystring \<Rightarrow> mystring option \<Rightarrow> session \<Rightarrow> outcome" where
  "cmd_od_authenticate env mechanism_name initial_challenge s =
     (let (r, rest, sent) = en_od env (od_mechanism (string_DATAPTR mechanism_name)) (map_option string_DATAPTR initial_challenge) (ss_in s);
          s = prot_printf sent (s\<lparr>ss_in := rest\<rparr>)
      in case r of
        None \<Rightarrow> Returned False s
      | Some (auth_id, username) \<Rightarrow> if od_refused env auth_id then Returned False s else od_place_user env username s)"

section \<open>The other commands\<close>

definition cmd_starttls :: "sieved_env \<Rightarrow> session \<Rightarrow> outcome" where
  "cmd_starttls env s =
     (if starttls_done s then Returned False (prot_printf (NO ''TLS already active'') s)
      else if \<not> en_tls_init env then Returned False (prot_printf (NO ''Error initializing TLS'') s)
      else
        let s = prot_printf (''OK '' @ dquote ''Begin TLS negotiation now'' @ CRLF) s in
        if \<not> en_tls_start env then Returned False (prot_printf (NO ''Starttls failed'') s)
        else if \<not> en_setprop env then fatal ''sasl_setprop() failed: cmd_starttls()'' s
        else Returned False (s\<lparr>starttls_done := True\<rparr>))"

text \<open>The mechanisms of SASL as SASL lists them, or those of Open Directory by the options.\<close>

definition od_mechanisms :: "sieved_env \<Rightarrow> string" where
  "od_mechanisms env =
     (let s = (if en_od_plain env then ''PLAIN'' else []);
          needSpace = en_od_plain env;
          s = (if en_od_login env then s @ (if needSpace then '' '' else []) @ ''LOGIN'' else s);
          needSpace = (needSpace \<or> en_od_login env);
          s = (if en_od_cram_md5 env then s @ (if needSpace then '' '' else []) @ ''CRAM-MD5'' else s);
          needSpace = (needSpace \<or> en_od_cram_md5 env)
      in if en_od_gssapi env then s @ (if needSpace then '' '' else []) @ ''GSSAPI'' else s)"

definition capabilities :: "sieved_env \<Rightarrow> bool \<Rightarrow> bool \<Rightarrow> string" where
  "capabilities env tls auth =
     dquote ''IMPLEMENTATION'' @ '' '' @ dquote (''Cyrus timsieved'' @ (if en_murder env then '' (Murder)'' else []) @ '' '' @ en_version env) @ CRLF @
     (if en_apple_auth env then dquote ''SASL'' @ '' '' @ dquote (od_mechanisms env) @ CRLF
      else if auth then []
      else case en_mechs env of None \<Rightarrow> [] | Some l \<Rightarrow> dquote ''SASL'' @ '' '' @ dquote l @ CRLF) @
     dquote ''SIEVE'' @ '' '' @ dquote (fst (sieve_listextensions (en_regex env) (en_extensions env) (en_interp env) None)) @ CRLF @
     (if tls_enabled (en_lex env) \<and> \<not> tls \<and> \<not> auth then dquote ''STARTTLS'' @ CRLF else []) @ ''OK'' @ CRLF"

definition cmd_logout :: "session \<Rightarrow> session" where
  "cmd_logout s = prot_printf (''OK '' @ dquote ''Logout Complete'' @ CRLF) s"

text \<open>An action works on the current directory.\<close>

definition act :: "sieve_reply \<Rightarrow> session \<Rightarrow> outcome" where
  "act r s = Returned False (prot_printf (ac_out r) (s\<lparr>ss_world := (ss_world s)(ss_cwd s := ac_dir r),
     ss_sync := (if ac_sync r then ss_sync s + 1 else ss_sync s)\<rparr>))"

definition here :: "session \<Rightarrow> sieve_dir" where
  "here s = ss_world s (ss_cwd s)"

definition parse_error :: "string \<times> session \<Rightarrow> outcome" where
  "parse_error = (\<lambda>(msg, s). Returned False (prot_printf (NO msg) s))"

definition do_referral :: "string \<Rightarrow> session \<Rightarrow> outcome" where
  "do_referral host s =
     Returned True (prot_printf (''BYE (REFERRAL '' @ dquote (''sieve://'' @ cut_partition (take 4095 host)) @ '') '' @ dquote ''Try Remote.'' @ CRLF) s)"

text \<open>A command with its arguments: an error in them, the referral, or what it does.\<close>

definition run_command :: "(string \<times> session) + ('a \<times> session) \<Rightarrow> ('a \<Rightarrow> session \<Rightarrow> outcome) \<Rightarrow> outcome" where
  "run_command args f = (case args of
     Inl e \<Rightarrow> parse_error e
   | Inr (x, s) \<Rightarrow> (case referral_host s of Some h \<Rightarrow> do_referral h s | None \<Rightarrow> f x s))"

section \<open>The parser\<close>

function first_token :: "sieved_env \<Rightarrow> session \<Rightarrow> int \<times> session" where
  "first_token env s = (let (r, s) = next_token env s in if lx_token r = EOL then first_token env s else (lx_token r, s))"
  by pat_completeness auto
termination
proof (relation "measure (\<lambda>(env, s). length (ss_in s))", simp, clarsimp)
  fix env s r s' assume "(r, s') = next_token env s" "lx_token r = EOL"
  then show "length (ss_in s') < length (ss_in s)"
    using timlex_rest [of "en_lex env" "ss_lex s" "[]" 0 0 "ss_in s"] by (auto simp: next_token_def Let_def timlex_def)
qed

definition challenge_argument :: "sieved_env \<Rightarrow> mystring \<Rightarrow> session \<Rightarrow> (string \<times> session) + ((mystring \<times> mystring option) \<times> session)" where
  "challenge_argument env m s =
     (let (r, s) = next_token env s in
      if lx_token r = EOL then Inr ((m, None), s)
      else if lx_token r \<noteq> SPACE then Inl (''Expected SPACE'', s)
      else unless_error (expect env STRING ''Expected string'' s) (\<lambda>(c, s). end_of_line env (m, lx_str c) s))"

definition auth_arguments :: "sieved_env \<Rightarrow> session \<Rightarrow> (string \<times> session) + ((mystring \<times> mystring option) \<times> session)" where
  "auth_arguments env s =
     unless_error (expect env SPACE ''SPACE must occur after AUTHENTICATE'' s) (\<lambda>(_, s).
     unless_error (expect env STRING ''Did not specify mechanism name'' s) (\<lambda>(m, s). challenge_argument env (the (lx_str m)) s))"

definition authenticate :: "sieved_env \<Rightarrow> session \<Rightarrow> outcome" where
  "authenticate env s = (case auth_arguments env s of
     Inl e \<Rightarrow> parse_error e
   | Inr ((m, c), s) \<Rightarrow>
       if authenticated s then Returned False (prot_printf (NO ''Already authenticated'') s)
       else (case (if en_apple_auth env then cmd_od_authenticate env m c s else cmd_authenticate env m c s) of
           Returned True s \<Rightarrow> Returned False s
         | Returned False s \<Rightarrow> parse_error (''Authentication Error'', s)
         | x \<Rightarrow> x))"

definition havespace_arguments :: "sieved_env \<Rightarrow> session \<Rightarrow> (string \<times> session) + ((mystring \<times> 64 word) \<times> session)" where
  "havespace_arguments env s =
     unless_error (name_argument env ''HAVESPACE'' s) (\<lambda>(n, s).
     unless_error (expect env SPACE ''Expected SPACE'' s) (\<lambda>(_, s).
     unless_error (expect env NUMBER ''Expected Number'' s) (\<lambda>(r, s). end_of_line env (n, the (lx_num r)) s)))"

definition putscript_arguments :: "sieved_env \<Rightarrow> session \<Rightarrow> (string \<times> session) + ((mystring \<times> mystring) \<times> session)" where
  "putscript_arguments env s =
     unless_error (name_argument env ''PUTSCRIPT'' s) (\<lambda>(n, s).
     unless_error (expect env SPACE ''Expected SPACE'' s) (\<lambda>(_, s).
     unless_error (expect env STRING ''Did not specify legal script data length'' s) (\<lambda>(r, s).
       end_of_line env (n, the (lx_str r)) s)))"

definition name_line :: "sieved_env \<Rightarrow> string \<Rightarrow> session \<Rightarrow> (string \<times> session) + (mystring \<times> session)" where
  "name_line env cmd s = unless_error (name_argument env cmd s) (\<lambda>(n, s). end_of_line env n s)"

definition logout :: "sieved_env \<Rightarrow> session \<Rightarrow> outcome" where
  "logout env s = (let (r, s) = next_token env s in
     if lx_token r \<noteq> EOL \<and> lx_token r \<noteq> - 1 \<and> lx_token r \<noteq> LOGOUT then parse_error (''Garbage after logout command'', s)
     else Returned True (cmd_logout s))"

definition recovering :: "string \<Rightarrow> session \<Rightarrow> outcome" where
  "recovering msg s = parse_error (msg, s\<lparr>ss_lex := LEXER_STATE_RECOVER\<rparr>)"

definition dispatch :: "sieved_env \<Rightarrow> action_io \<Rightarrow> int \<Rightarrow> session \<Rightarrow> outcome" where
  "dispatch env io t s =
     (if t = AUTHENTICATE then authenticate env s
      else if t = CAPABILITY then run_command (end_of_line env () s)
        (\<lambda>_ s. Returned False (prot_printf (capabilities env (starttls_done s) (authenticated s)) s))
      else if t = HAVESPACE then run_command (havespace_arguments env s)
        (\<lambda>(n, k) s. act (cmd_havespace (en_cfg env) io n k (here s)) s)
      else if t = LOGOUT then logout env s
      else if t = GETSCRIPT then run_command (name_line env ''GETSCRIPT'' s) (\<lambda>n s. act (getscript io n (here s)) s)
      else if t = PUTSCRIPT then run_command (putscript_arguments env s)
        (\<lambda>(n, d) s. case putscript (en_cfg env) io n d (verify_only s) (here s) of None \<Rightarrow> Lost | Some r \<Rightarrow> act r s)
      else if t = SETACTIVE then run_command (name_line env ''SETACTIVE'' s) (\<lambda>n s. act (setactive io n (here s)) s)
      else if t = DELETESCRIPT then run_command (name_line env ''DELETESCRIPT'' s) (\<lambda>n s. act (deletescript io n (here s)) s)
      else if t = LISTSCRIPTS then run_command (end_of_line env () s) (\<lambda>_ s. act (listscripts io (here s)) s)
      else if t = STARTTLS then run_command (end_of_line env () s) (\<lambda>_ s. cmd_starttls env s)
      else parse_error (''Expected a command. Got something else.'', s))"

definition parser :: "sieved_env \<Rightarrow> action_io \<Rightarrow> session \<Rightarrow> outcome" where
  "parser env io s =
     (let (t, s) = first_token env s in
      if \<not> authenticated s \<and> t > 255 \<and> t \<noteq> AUTHENTICATE \<and> t \<noteq> LOGOUT \<and> t \<noteq> CAPABILITY \<and> (\<not> tls_enabled (en_lex env) \<or> t \<noteq> STARTTLS)
      then recovering ''Authenticate first'' s
      else if verify_only s \<and> t > 255 \<and> t \<noteq> PUTSCRIPT \<and> t \<noteq> LOGOUT then recovering ''Script verification only'' s
      else dispatch env io t s)"

text \<open>
  The loop. The environment may be another one at every command; \<^verbatim>\<open>Waiting\<close> is a session that goes on
  when there is none left. A session whose user has his mailbox elsewhere is handed to \<^verbatim>\<open>bitpipe\<close>, which
  copies bytes.
\<close>

datatype session_end = Closed session | Piped session | Aborted session | Broken | Waiting session

fun command_loop :: "(sieved_env \<times> action_io) list \<Rightarrow> session \<Rightarrow> session_end" where
  "command_loop envs s = (if ss_backend s then Piped s
     else case envs of
       [] \<Rightarrow> Waiting s
     | (env, io) # envs \<Rightarrow> (case parser env io s of
         Returned done s \<Rightarrow> if done then Closed s else command_loop envs s
       | Fatal s \<Rightarrow> Aborted s
       | Lost \<Rightarrow> Broken))"

definition cmdloop :: "sieved_env \<Rightarrow> (sieved_env \<times> action_io) list \<Rightarrow> session \<Rightarrow> session_end" where
  "cmdloop env envs s = command_loop envs (prot_printf (capabilities env False False) (s\<lparr>ss_cwd := ''/tmp/''\<rparr>))"

section \<open>What a command reads\<close>

definition lex_ready :: "session \<Rightarrow> bool" where
  "lex_ready s \<longleftrightarrow> ss_in s = [] \<or> ss_lex s = LEXER_STATE_NORMAL \<or> ss_lex s = LEXER_STATE_RECOVER"

text \<open>Between two commands the lexer is ready, and from there every token uses up some of the input.\<close>

lemma lex_done_state: "lex_char e st b n k ch r = Done x \<Longrightarrow> lx_state x = LEXER_STATE_NORMAL \<or> lx_state x = LEXER_STATE_RECOVER"
  unfolding lex_char_def literal_def read_literal_def Let_def tok_def ERR_def
  by (auto split: lexer_state.splits if_splits list.splits)

lemma lex_loop_state:
  "lx_rest (lex_loop e st b n k s) = [] \<or> lx_state (lex_loop e st b n k s) = LEXER_STATE_NORMAL \<or> lx_state (lex_loop e st b n k s) = LEXER_STATE_RECOVER"
proof (induction e st b n k s rule: lex_loop.induct)
  case (1 e st b n k s)
  show ?case
  proof (cases s)
    case (Cons ch r)
    then show ?thesis using 1 [OF Cons] lex_done_state [of e st b n k ch r]
      by (auto simp: lex_step split: lex_move.split)
  qed (simp add: lex_step tok_def)
qed

lemma lex_first_char:
  assumes "st = LEXER_STATE_NORMAL \<or> st = LEXER_STATE_RECOVER" and "lex_char e st b n k ch r = Done x"
  shows "lx_rest x = r"
proof -
  have rest: "tok t r = x \<Longrightarrow> lx_rest x = r" for t by (drule arg_cong [where f = lx_rest]) (simp add: tok_def)
  have "lex_char e LEXER_STATE_NORMAL b n k ch r = Done x \<Longrightarrow> lx_rest x = r"
    unfolding lex_char_def by (simp only: lexer_state.case split: if_split_asm) (simp_all, (erule rest)+)
  moreover have "lex_char e LEXER_STATE_RECOVER b n k ch r \<noteq> Done x" by (simp add: lex_char_def)
  ultimately show ?thesis using assms by auto
qed

lemma lex_loop_uses:
  assumes "st = LEXER_STATE_NORMAL \<or> st = LEXER_STATE_RECOVER" and "s \<noteq> []"
  shows "length (lx_rest (lex_loop e st b n k s)) < length s"
proof -
  obtain ch r where s: "s = ch # r" using assms(2) by (cases s) auto
  show ?thesis
  proof (cases "lex_char e st b n k ch r")
    case (Done x)
    then show ?thesis using lex_first_char [OF assms(1) Done] by (simp add: s lex_step)
  next
    case (Go st' b' n' k' s')
    then show ?thesis using timlex_rest [of e st' b' n' k' s'] lex_char_shorter [OF Go] by (simp add: s lex_step)
  qed
qed

text \<open>\<^verbatim>\<open>s'\<close> is \<^verbatim>\<open>s\<close> after some reading.\<close>

definition reads :: "session \<Rightarrow> session \<Rightarrow> bool" where
  "reads s s' \<longleftrightarrow> s' = s\<lparr>ss_lex := ss_lex s', ss_in := ss_in s'\<rparr> \<and> length (ss_in s') \<le> length (ss_in s) \<and> (lex_ready s \<longrightarrow> lex_ready s')"

lemma reads_refl [simp]: "reads s s"
  by (simp add: reads_def)

lemma reads_trans: "reads s t \<Longrightarrow> reads t u \<Longrightarrow> reads s u"
  by (cases s; cases t; cases u) (auto simp: reads_def)

lemma next_token_reads: "next_token env s = (r, s') \<Longrightarrow> reads s s'"
  using timlex_rest [of "en_lex env" "ss_lex s" "[]" 0 0 "ss_in s"] lex_loop_state [of "en_lex env" "ss_lex s" "[]" 0 0 "ss_in s"]
  by (auto simp: next_token_def Let_def reads_def lex_ready_def timlex_def)

lemma next_token_uses: "next_token env s = (r, s') \<Longrightarrow> lex_ready s \<Longrightarrow>
  if ss_in s = [] then lx_token r = LOGOUT else length (ss_in s') < length (ss_in s)"
  using lex_loop_uses [of "ss_lex s" "ss_in s" "en_lex env"]
  by (auto simp: next_token_def Let_def lex_ready_def timlex_def lex_step(1) tok_def)

lemma first_token_reads:
  assumes "first_token env s = (t, s')"
  shows "reads s s' \<and> (lex_ready s \<longrightarrow> (if ss_in s = [] then t = LOGOUT else length (ss_in s') < length (ss_in s)))"
  using assms
proof (induction env s rule: first_token.induct)
  case (1 env s)
  obtain r u where n: "next_token env s = (r, u)" by fastforce
  note read = next_token_reads [OF n] and uses = next_token_uses [OF n]
  show ?case
  proof (cases "lx_token r = EOL")
    case True
    then have f: "first_token env u = (t, s')" using n 1(2) by simp
    have "ss_in s = [] \<Longrightarrow> lex_ready s \<Longrightarrow> False" using uses True by (simp add: token_defs)
    moreover have "reads u s'" using 1(1) [OF n [symmetric] refl True f] by simp
    moreover have "length (ss_in s') \<le> length (ss_in u)" using \<open>reads u s'\<close> by (simp add: reads_def)
    ultimately show ?thesis using reads_trans [OF read] uses by (auto split: if_splits)
  next
    case False
    then show ?thesis using n 1(2) read uses by auto
  qed
qed

declare first_token.simps [simp del]

definition arguments_read :: "session \<Rightarrow> (string \<times> session) + ('a \<times> session) \<Rightarrow> bool" where
  "arguments_read s x \<longleftrightarrow> reads s (case x of Inl (_, s') \<Rightarrow> s' | Inr (_, s') \<Rightarrow> s')"

lemma expect_reads: "arguments_read s (expect env t msg s)"
  using next_token_reads [of env s] by (auto simp: expect_def arguments_read_def split: prod.splits)

lemma unless_error_reads:
  "arguments_read s x \<Longrightarrow> (\<And>a u. x = Inr (a, u) \<Longrightarrow> arguments_read u (f (a, u))) \<Longrightarrow> arguments_read s (unless_error x f)"
  by (cases x) (auto simp: arguments_read_def intro: reads_trans split: sum.splits)

lemma arguments_read_Inr [simp]: "arguments_read s (Inr (x, s))"
  by (simp add: arguments_read_def)

lemma name_argument_reads: "arguments_read s (name_argument env cmd s)"
  unfolding name_argument_def by (auto intro!: unless_error_reads expect_reads)

lemma end_of_line_reads: "arguments_read s (end_of_line env x s)"
  unfolding end_of_line_def by (auto intro!: unless_error_reads expect_reads)

lemma arguments_reads:
  "arguments_read s (name_line env cmd s)" "arguments_read s (havespace_arguments env s)" "arguments_read s (putscript_arguments env s)"
  unfolding name_line_def havespace_arguments_def putscript_arguments_def
  by (auto intro!: unless_error_reads expect_reads end_of_line_reads name_argument_reads)

lemma challenge_argument_reads: "arguments_read s (challenge_argument env m s)"
proof -
  obtain r u where n: "next_token env s = (r, u)" by fastforce
  have "arguments_read u (unless_error (expect env STRING ''Expected string'' u) (\<lambda>(c, s). end_of_line env (m, lx_str c) s))"
    by (auto intro!: unless_error_reads expect_reads end_of_line_reads)
  then show ?thesis using n next_token_reads [OF n]
    by (auto simp: challenge_argument_def arguments_read_def intro: reads_trans)
qed

lemma auth_arguments_reads: "arguments_read s (auth_arguments env s)"
  unfolding auth_arguments_def by (auto intro!: unless_error_reads expect_reads challenge_argument_reads)

section \<open>What a command changes\<close>

definition outcome_keeps :: "(session \<Rightarrow> bool) \<Rightarrow> outcome \<Rightarrow> bool" where
  "outcome_keeps Q x \<longleftrightarrow> (case x of Returned _ s \<Rightarrow> Q s | Fatal s \<Rightarrow> Q s | Lost \<Rightarrow> True)"

lemma outcome_keeps_simps [simp]: "outcome_keeps Q (Returned b s) = Q s" "outcome_keeps Q (Fatal s) = Q s" "outcome_keeps Q Lost"
  by (simp_all add: outcome_keeps_def)

definition progress :: "session \<Rightarrow> session \<Rightarrow> bool" where
  "progress s s' \<longleftrightarrow> length (ss_in s') \<le> length (ss_in s) \<and> (lex_ready s \<longrightarrow> lex_ready s')"

text \<open>Open Directory reads from the client, and never gives anything back.\<close>

definition od_reads :: "sieved_env \<Rightarrow> bool" where
  "od_reads env \<longleftrightarrow> (\<forall>m c i. length (fst (snd (en_od env m c i))) \<le> length i)"

definition quiet :: "sieved_env \<Rightarrow> session \<Rightarrow> session \<Rightarrow> bool" where
  "quiet env s s' \<longleftrightarrow> ss_world s' = ss_world s \<and> (od_reads env \<longrightarrow> progress s s')"

definition calm :: "sieved_env \<Rightarrow> session \<Rightarrow> session \<Rightarrow> bool" where
  "calm env s s' \<longleftrightarrow> quiet env s s' \<and> authenticated s' = authenticated s \<and> ss_cwd s' = ss_cwd s"

lemma quiet_trans: "quiet env s t \<Longrightarrow> quiet env t u \<Longrightarrow> quiet env s u"
  by (auto simp: quiet_def progress_def)

lemma calm_trans: "calm env s t \<Longrightarrow> calm env t u \<Longrightarrow> calm env s u"
  by (auto simp: calm_def intro: quiet_trans)

lemma calm_refl [simp]: "calm env s s"
  by (simp add: calm_def quiet_def progress_def)

lemma calm_quiet: "calm env s t \<Longrightarrow> quiet env s t"
  by (simp add: calm_def)

lemma reads_calm:
  assumes "reads s t"
  shows "calm env s t"
proof -
  have "ss_world t = ss_world s" "authenticated t = authenticated s" "ss_cwd t = ss_cwd s"
    using assms unfolding reads_def by (metis session.select_convs session.surjective session.update_convs(1,2))+
  then show ?thesis using assms by (simp add: reads_def calm_def quiet_def progress_def)
qed

lemma ready_update [simp]:
  "lex_ready (prot_printf t s) = lex_ready s" "lex_ready (s\<lparr>authenticated := a\<rparr>) = lex_ready s"
  "lex_ready (s\<lparr>verify_only := a\<rparr>) = lex_ready s" "lex_ready (s\<lparr>referral_host := h\<rparr>) = lex_ready s"
  "lex_ready (s\<lparr>ss_backend := a\<rparr>) = lex_ready s" "lex_ready (s\<lparr>ss_cwd := p\<rparr>) = lex_ready s"
  "lex_ready (s\<lparr>ss_sieve_dir := p\<rparr>) = lex_ready s" "lex_ready (s\<lparr>starttls_done := a\<rparr>) = lex_ready s"
  "lex_ready (s\<lparr>ss_world := w, ss_sync := k\<rparr>) = lex_ready s"
  by (simp_all add: lex_ready_def prot_printf_def)

lemma printf_fields [simp]:
  "ss_world (prot_printf t s) = ss_world s" "ss_in (prot_printf t s) = ss_in s" "authenticated (prot_printf t s) = authenticated s"
  "ss_cwd (prot_printf t s) = ss_cwd s" "ss_lex (prot_printf t s) = ss_lex s" "verify_only (prot_printf t s) = verify_only s"
  by (simp_all add: prot_printf_def)

lemmas quiet_defs = quiet_def progress_def

lemma auth_failed_quiet: "quiet env s0 s \<Longrightarrow> outcome_keeps (quiet env s0) (auth_failed env s)"
  by (simp add: auth_failed_def fatal_def quiet_defs)

lemma logged_in_quiet: "quiet env s0 s \<Longrightarrow> outcome_keeps (quiet env s0) (logged_in t env s)"
  by (simp add: logged_in_def quiet_defs)

lemma set_user_quiet: "quiet env s0 s \<Longrightarrow> outcome_keeps (quiet env s0) (set_user env t u s)"
  by (auto simp: set_user_def actions_setuser_def quiet_defs intro!: auth_failed_quiet logged_in_quiet split: option.split)

lemma remote_user_quiet: "quiet env s0 s \<Longrightarrow> outcome_keeps (quiet env s0) (remote_user env t c u v s)"
  by (auto simp: remote_user_def quiet_defs intro!: auth_failed_quiet logged_in_quiet split: option.split sum.split)

lemma place_user_quiet:
  assumes "quiet env s0 s"
  shows "outcome_keeps (quiet env s0) (place_user env t c s)"
proof -
  have q: "quiet env s0 (s\<lparr>verify_only := v\<rparr>)" for v using assms by (simp add: quiet_defs)
  then have f: "outcome_keeps (quiet env s0) (fatal m (s\<lparr>verify_only := v\<rparr>))" for m v by (simp add: fatal_def quiet_defs)
  show ?thesis unfolding place_user_def Let_def
    by (simp add: f q logged_in_quiet set_user_quiet remote_user_quiet auth_failed_quiet split: option.split mailbox_place.split)
qed

lemma token_quiet: "next_token env s = (r, t) \<Longrightarrow> quiet env s0 s \<Longrightarrow> quiet env s0 t"
  using reads_calm [OF next_token_reads] calm_quiet quiet_trans by blast

lemma auth_loop_quiet: "quiet env s0 s \<Longrightarrow> outcome_keeps (quiet env s0) (auth_loop env mech init resp s)"
proof (induction env mech init resp s rule: auth_loop.induct)
  case (1 env mech init resp s)
  show ?case
  proof (cases "en_sasl env mech init resp")
    case (SASL_CONTINUE out)
    let ?s = "prot_printf (''{'' @ decimal (length (en_encode64 env out)) @ ''}'' @ CRLF @ en_encode64 env out @ CRLF) s"
    obtain r1 s1 where n1: "next_token env ?s = (r1, s1)" by fastforce
    obtain r2 s2 where n2: "next_token env s1 = (r2, s2)" by fastforce
    have "quiet env s0 ?s" using 1(2) by (simp add: quiet_defs)
    then have q1: "quiet env s0 s1" and q2: "quiet env s0 s2" using token_quiet [OF n1] token_quiet [OF n2] by auto
    have rec: "lx_token r1 = STRING \<Longrightarrow> decode env (ms_data (the (lx_str r1))) = Some c \<Longrightarrow> lx_token r2 = EOL \<Longrightarrow>
        outcome_keeps (quiet env s0) (auth_loop env mech init (resp @ [c]) s2)" for c
      using 1(1) [OF SASL_CONTINUE refl refl n1 [symmetric] refl _ _ n2 [symmetric] refl _ q2] by simp
    show ?thesis using rec q1 q2 n1 n2 SASL_CONTINUE
      by (subst auth_loop.simps) (auto simp: Let_def intro!: auth_failed_quiet split: option.split)
  qed (use 1(2) in \<open>auto simp: auth_failed_quiet place_user_quiet auth_loop.simps split: option.split\<close>)
qed

declare auth_loop.simps [simp del]

lemma cmd_authenticate_quiet: "quiet env s0 s \<Longrightarrow> outcome_keeps (quiet env s0) (cmd_authenticate env m c s)"
  by (auto simp: cmd_authenticate_def Let_def intro!: auth_loop_quiet auth_failed_quiet split: option.split)

lemma od_place_user_quiet:
  assumes "quiet env s0 s"
  shows "outcome_keeps (quiet env s0) (od_place_user env u s)"
proof -
  have q: "quiet env s0 (s\<lparr>verify_only := v\<rparr>)" for v using assms by (simp add: quiet_defs)
  then have f: "outcome_keeps (quiet env s0) (fatal m (s\<lparr>verify_only := v\<rparr>))" for m v by (simp add: fatal_def quiet_defs)
  show ?thesis unfolding od_place_user_def Let_def
    by (simp add: f q logged_in_quiet set_user_quiet split: option.split mailbox_place.split)
qed

lemma cmd_od_authenticate_quiet: "outcome_keeps (quiet env s) (cmd_od_authenticate env m c s)"
proof -
  obtain r rest sent where od: "en_od env (od_mechanism (string_DATAPTR m)) (map_option string_DATAPTR c) (ss_in s) = (r, rest, sent)"
    using prod_cases3 by blast
  have "od_reads env \<Longrightarrow> length rest \<le> length (ss_in s)" unfolding od_reads_def using od by (metis fst_conv snd_conv)
  then have "quiet env s (prot_printf sent (s\<lparr>ss_in := rest\<rparr>))" by (auto simp: quiet_defs lex_ready_def)
  then show ?thesis using od_place_user_quiet unfolding cmd_od_authenticate_def od Let_def prod.case
    by (cases r) (simp_all split: prod.split)
qed

text \<open>
  What one command may change: before the authentication no directory, and afterwards only the current
  one, which then stays the same.
\<close>

definition changes :: "sieved_env \<Rightarrow> session \<Rightarrow> session \<Rightarrow> bool" where
  "changes env s s' \<longleftrightarrow> (od_reads env \<longrightarrow> progress s s') \<and>
     (if authenticated s then authenticated s' \<and> ss_cwd s' = ss_cwd s \<and> (\<forall>p. p \<noteq> ss_cwd s \<longrightarrow> ss_world s' p = ss_world s p)
      else ss_world s' = ss_world s)"

lemma calm_changes: "calm env s t \<Longrightarrow> changes env s t"
  by (simp add: calm_def changes_def quiet_def)

lemma quiet_changes: "quiet env s t \<Longrightarrow> \<not> authenticated s \<Longrightarrow> changes env s t"
  by (simp add: changes_def quiet_def)

lemma calm_then_changes: "calm env s t \<Longrightarrow> changes env t u \<Longrightarrow> changes env s u"
  by (auto simp: changes_def calm_def quiet_defs)

lemma keeps_mono: "outcome_keeps Q x \<Longrightarrow> (\<And>s. Q s \<Longrightarrow> R s) \<Longrightarrow> outcome_keeps R x"
  by (cases x) auto

lemma keeps_if: "(b \<Longrightarrow> outcome_keeps Q x) \<Longrightarrow> (\<not> b \<Longrightarrow> outcome_keeps Q y) \<Longrightarrow> outcome_keeps Q (if b then x else y)"
  by simp

lemma calm_printf [simp]: "calm env s (prot_printf m t) \<longleftrightarrow> calm env s t"
  by (simp add: calm_def quiet_defs)

lemma parse_error_changes: "calm env s t \<Longrightarrow> outcome_keeps (changes env s) (parse_error (m, t))"
  by (simp add: parse_error_def calm_changes)

lemma act_changes: "calm env s t \<Longrightarrow> authenticated s \<Longrightarrow> outcome_keeps (changes env s) (act r t)"
  by (auto simp: act_def changes_def calm_def quiet_defs)

lemma run_command_changes:
  assumes "arguments_read s args" and "\<And>x t. calm env s t \<Longrightarrow> outcome_keeps (changes env s) (f x t)"
  shows "outcome_keeps (changes env s) (run_command args f)"
proof (cases args)
  case (Inl e)
  then show ?thesis using assms(1) reads_calm [of s "snd e" env] parse_error_changes [of env s "snd e" "fst e"]
    by (cases e) (simp add: run_command_def arguments_read_def)
next
  case (Inr y)
  obtain x t where y: "y = (x, t)" by (cases y)
  have c: "calm env s t" using assms(1) Inr y reads_calm by (simp add: arguments_read_def)
  then have "outcome_keeps (changes env s) (do_referral h t)" for h by (simp add: do_referral_def calm_changes)
  then show ?thesis using Inr y assms(2) [OF c] by (simp add: run_command_def split: option.split)
qed

lemma authenticate_changes: "outcome_keeps (changes env s) (authenticate env s)"
proof (cases "auth_arguments env s")
  case (Inl e)
  then show ?thesis using auth_arguments_reads [of s env] reads_calm [of s "snd e" env] parse_error_changes [of env s "snd e" "fst e"]
    by (cases e) (simp add: authenticate_def arguments_read_def)
next
  case (Inr y)
  obtain m c t where y: "y = ((m, c), t)" by (metis surj_pair)
  have calm: "calm env s t" using auth_arguments_reads [of s env] Inr y reads_calm by (simp add: arguments_read_def)
  let ?x = "if en_apple_auth env then cmd_od_authenticate env m c t else cmd_authenticate env m c t"
  have "outcome_keeps (quiet env t) ?x" using cmd_od_authenticate_quiet cmd_authenticate_quiet [of env t t] by (simp add: quiet_defs)
  then have x: "outcome_keeps (quiet env s) ?x" by (rule keeps_mono) (rule quiet_trans [OF calm_quiet [OF calm]])
  show ?thesis
  proof (cases "authenticated t")
    case True
    then show ?thesis using Inr y calm by (simp add: authenticate_def calm_changes)
  next
    case False
    then have "\<not> authenticated s" using calm by (simp add: calm_def)
    then have ch: "quiet env s u \<Longrightarrow> changes env s u" for u using quiet_changes by blast
    have pr: "quiet env s u \<Longrightarrow> quiet env s (prot_printf k u)" for u k by (simp add: quiet_defs)
    show ?thesis using Inr y False x ch pr
      by (cases ?x) (auto simp: authenticate_def parse_error_def split: bool.split)
  qed
qed

lemma logout_changes: "outcome_keeps (changes env s) (logout env s)"
proof -
  obtain r t where n: "next_token env s = (r, t)" by fastforce
  have c: "calm env s t" by (rule reads_calm [OF next_token_reads [OF n]])
  then show ?thesis using n parse_error_changes [OF c] by (simp add: logout_def cmd_logout_def calm_changes)
qed

lemma cmd_starttls_changes: "calm env s t \<Longrightarrow> outcome_keeps (changes env s) (cmd_starttls env t)"
  by (simp add: cmd_starttls_def fatal_def calm_changes Let_def) (auto simp: changes_def calm_def quiet_defs)

lemma dispatch_changes:
  assumes "authenticated s \<or> t \<le> 255 \<or> t = AUTHENTICATE \<or> t = LOGOUT \<or> t = CAPABILITY \<or> t = STARTTLS"
  shows "outcome_keeps (changes env s) (dispatch env io t s)"
proof -
  note args = end_of_line_reads arguments_reads
  have act: "authenticated s" if "t = HAVESPACE \<or> t = GETSCRIPT \<or> t = PUTSCRIPT \<or> t = SETACTIVE \<or> t = DELETESCRIPT \<or> t = LISTSCRIPTS"
    using that assms by (auto simp: token_defs)
  have put: "outcome_keeps (changes env s) (case putscript cfg io n d v w of None \<Rightarrow> Lost | Some r \<Rightarrow> act r u)"
    if "calm env s u" "authenticated s" for cfg n d v w u
    using act_changes [OF that] by (simp split: option.split)
  show ?thesis unfolding dispatch_def
    by (intro keeps_if) (auto intro!: run_command_changes args authenticate_changes logout_changes cmd_starttls_changes
        parse_error_changes act_changes put act simp: calm_changes)
qed

lemma parser_changes:
  shows "outcome_keeps (changes env s) (parser env io s)"
    and "od_reads env \<Longrightarrow> lex_ready s \<Longrightarrow> ss_in s \<noteq> [] \<Longrightarrow> outcome_keeps (\<lambda>u. lex_ready u \<and> length (ss_in u) < length (ss_in s)) (parser env io s)"
proof -
  obtain t s1 where f: "first_token env s = (t, s1)" by fastforce
  have reads: "reads s s1" and uses: "lex_ready s \<Longrightarrow> ss_in s \<noteq> [] \<Longrightarrow> length (ss_in s1) < length (ss_in s)"
    using first_token_reads [OF f] by auto
  have calm: "calm env s s1" by (rule reads_calm [OF reads])
  have rec: "outcome_keeps (changes env s1) (recovering m s1)" for m
    by (auto simp: recovering_def parse_error_def changes_def progress_def lex_ready_def)
  have p: "outcome_keeps (changes env s1) (parser env io s)"
    unfolding parser_def f Let_def prod.case using rec dispatch_changes [of s1 t env io] by auto
  then show "outcome_keeps (changes env s) (parser env io s)" by (rule keeps_mono) (rule calm_then_changes [OF calm])
  assume "od_reads env" "lex_ready s" "ss_in s \<noteq> []"
  then show "outcome_keeps (\<lambda>u. lex_ready u \<and> length (ss_in u) < length (ss_in s)) (parser env io s)"
    using keeps_mono [OF p, of "\<lambda>u. lex_ready u \<and> length (ss_in u) < length (ss_in s)"] uses reads
    by (simp add: changes_def progress_def reads_def)
qed

text \<open>At the end of the input the server takes the client for gone.\<close>

lemma parser_at_end:
  assumes "ss_in s = []"
  shows "\<exists>t. parser env io s = Returned True t"
proof -
  have nt: "next_token env u = (r, u') \<Longrightarrow> lx_token r = LOGOUT \<and> ss_in u' = []" if "ss_in u = []" for u u' r
    using that by (auto simp: next_token_def Let_def timlex_def lex_step(1) tok_def)
  obtain r u where n: "next_token env s = (r, u)" by fastforce
  note u = nt [OF assms n]
  obtain r' u' where n': "next_token env u = (r', u')" by fastforce
  have "lx_token r' = LOGOUT" using nt n' u by blast
  moreover have "first_token env s = (LOGOUT, u)" using n u by (subst first_token.simps) (simp add: token_defs)
  ultimately show ?thesis using n' by (simp add: parser_def dispatch_def logout_def) (simp add: token_defs)
qed

section \<open>Sessions\<close>



declare command_loop.simps [simp del]






lemma command_loop_ends:
  assumes "list_all (\<lambda>(env, io). od_reads env) envs" and "lex_ready s" and "length (ss_in s) < length envs"
  shows "command_loop envs s \<noteq> Waiting t"
  using assms
proof (induction envs arbitrary: s)
  case (Cons e envs)
  obtain env io where e: "e = (env, io)" by (cases e)
  show ?case
  proof (cases "ss_in s = []")
    case True
    then show ?thesis using e parser_at_end [OF True, of env io] by (auto simp: command_loop.simps)
  next
    case False
    have "outcome_keeps (\<lambda>u. lex_ready u \<and> length (ss_in u) < length (ss_in s)) (parser env io s)"
      using Cons.prems e False by (intro parser_changes(2)) simp_all
    then show ?thesis using e Cons.IH Cons.prems
      by (cases "parser env io s") (auto simp: command_loop.simps [of "(env, io) # envs" s])
  qed
qed simp

text \<open>
  C40: a session ends. When the client has sent \<^verbatim>\<open>n\<close> bytes and gone away, the server does not run more than
  \<^verbatim>\<open>n + 1\<close> commands, whatever the bytes are: then the session has been closed, handed to another server or
  broken off.
\<close>

theorem session_ends:
  assumes "list_all (\<lambda>(env, io). od_reads env) envs" and "ss_lex s = LEXER_STATE_NORMAL" and "length (ss_in s) < length envs"
  shows "cmdloop env envs s \<noteq> Waiting t"
  unfolding cmdloop_def
proof (rule command_loop_ends [OF assms(1)])
  show "lex_ready (prot_printf (capabilities env False False) (s\<lparr>ss_cwd := ''/tmp/''\<rparr>))" using assms(2) by (simp add: lex_ready_def)
qed (use assms(3) in simp)

section \<open>A client and the server\<close>

text \<open>A session that reads on at \<^verbatim>\<open>r\<close>.\<close>

definition reading :: "session \<Rightarrow> string \<Rightarrow> session" where
  "reading s r = s\<lparr>ss_lex := LEXER_STATE_NORMAL, ss_in := r\<rparr>"

lemma reading_fields [simp]:
  "ss_in (reading s r) = r" "ss_lex (reading s r) = LEXER_STATE_NORMAL" "reading (reading s r) r' = reading s r'"
  "authenticated (reading s r) = authenticated s" "verify_only (reading s r) = verify_only s"
  "referral_host (reading s r) = referral_host s" "here (reading s r) = here s" "ss_cwd (reading s r) = ss_cwd s"
  "ss_backend (reading s r) = ss_backend s"
  by (simp_all add: reading_def here_def)

lemma expect_token:
  assumes "timlex (en_lex env) LEXER_STATE_NORMAL x = v" and "lx_token v = t" and "lx_state v = LEXER_STATE_NORMAL" and "lx_rest v = r"
  shows "expect env t msg (reading s x) = Inr (v, reading s r)"
  using assms by (auto simp: expect_def next_token_def Let_def reading_def)

lemma expect_space: "expect env SPACE msg (reading s (CHR '' '' # r)) = Inr (tok SPACE r, reading s r)"
  by (rule expect_token [OF timlex_space]) (simp_all add: tok_def)

lemma expect_quoted: "quotable (en_lex env) n \<Longrightarrow>
  expect env STRING msg (reading s (quoted n @ r)) = Inr ((tok STRING r)\<lparr>lx_str := Some (unheaped n)\<rparr>, reading s r)"
  unfolding unheaped_def by (rule expect_token [OF timlex_quoted]) (simp_all add: tok_def)

lemma expect_literal: "length c \<le> maxscriptsize (en_lex env) \<Longrightarrow> length c < 2 ^ 64 \<Longrightarrow>
  expect env STRING msg (reading s (literal_text c @ r)) =
  Inr ((tok STRING r)\<lparr>lx_str := Some \<lparr>ms_data = c, ms_tail = le_heap (en_lex env)\<rparr>\<rparr>, reading s r)"
  by (rule expect_token [OF timlex_literal]) (simp_all add: tok_def)

lemma expect_eol: "expect env EOL msg (reading s (CRLF @ r)) = Inr (tok EOL r, reading s r)"
  by (rule expect_token) (simp_all add: tok_def CRLF_def timlex_eol)

lemma eol_read: "end_of_line env x (reading s (CRLF @ r)) = Inr (x, reading s r)"
  by (simp add: end_of_line_def expect_eol)

lemma name_argument_read: "quotable (en_lex env) n \<Longrightarrow>
  name_argument env cmd (reading s (CHR '' '' # quoted n @ r)) = Inr (unheaped n, reading s r)"
  by (simp add: name_argument_def expect_space expect_quoted)

lemma name_line_read: "quotable (en_lex env) n \<Longrightarrow>
  name_line env cmd (reading s (CHR '' '' # quoted n @ CRLF @ r)) = Inr (unheaped n, reading s r)"
  using eol_read [of env "unheaped n" s r] by (simp add: name_line_def name_argument_read)

lemma putscript_arguments_read:
  "quotable (en_lex env) n \<Longrightarrow> length c \<le> maxscriptsize (en_lex env) \<Longrightarrow> length c < 2 ^ 64 \<Longrightarrow>
   putscript_arguments env (reading s (CHR '' '' # quoted n @ CHR '' '' # literal_text c @ CRLF @ r)) =
   Inr ((unheaped n, \<lparr>ms_data = c, ms_tail = le_heap (en_lex env)\<rparr>), reading s r)"
  by (simp add: putscript_arguments_def name_argument_read expect_space expect_literal eol_read)

text \<open>The text of a request.\<close>

fun request_text :: "store_request \<Rightarrow> string" where
  "request_text (Put n c) = ''PUTSCRIPT '' @ quoted n @ '' '' @ literal_text c @ CRLF"
| "request_text (Delete n) = ''DELETESCRIPT '' @ quoted n @ CRLF"
| "request_text (Activate n) = ''SETACTIVE '' @ quoted n @ CRLF"

fun writable :: "lex_env \<Rightarrow> store_request \<Rightarrow> bool" where
  "writable e (Put n c) \<longleftrightarrow> quotable e n \<and> length c \<le> maxscriptsize e \<and> length c < 2 ^ 64"
| "writable e (Delete n) \<longleftrightarrow> quotable e n"
| "writable e (Activate n) \<longleftrightarrow> quotable e n"

lemma upper_alpha: "isalpha c \<longleftrightarrow> (CHR ''A'' \<le> c \<and> c \<le> CHR ''Z'') \<or> (CHR ''a'' \<le> c \<and> c \<le> CHR ''z'')"
  by (auto simp: isalpha_def isupper_def islower_def)

lemma first_token_read:
  "timlex (en_lex env) LEXER_STATE_NORMAL x = tok t r \<Longrightarrow> t \<noteq> EOL \<Longrightarrow> first_token env (reading s x) = (t, reading s r)"
  by (subst first_token.simps) (simp add: next_token_def Let_def reading_def tok_def)

lemma command_words:
  "map tolower ''PUTSCRIPT'' = ''putscript''" "map tolower ''DELETESCRIPT'' = ''deletescript''" "map tolower ''SETACTIVE'' = ''setactive''"
  by code_simp+

lemma command_token:
  assumes "22 \<le> maxscriptsize (en_lex env)"
  shows "first_token env (reading s (''PUTSCRIPT'' @ CHR '' '' # r)) = (PUTSCRIPT, reading s (CHR '' '' # r))"
    and "first_token env (reading s (''DELETESCRIPT'' @ CHR '' '' # r)) = (DELETESCRIPT, reading s (CHR '' '' # r))"
    and "first_token env (reading s (''SETACTIVE'' @ CHR '' '' # r)) = (SETACTIVE, reading s (CHR '' '' # r))"
  using assms
  by (intro first_token_read timlex_command; (simp only: command_words)?; simp add: upper_alpha token_lookup_def token_defs)+

lemma putscript_tail: "putscript cfg io n \<lparr>ms_data = c, ms_tail = h\<rparr> v d = putscript cfg io n (unheaped c) v d"
  by (simp only: putscript_def unheaped_def mystring.select_convs)

text \<open>The server performs the request and leaves what follows it to be read.\<close>

lemma parser_performs:
  assumes "22 \<le> maxscriptsize (en_lex env)" and "writable (en_lex env) q" and "authenticated s" and "\<not> verify_only s" and "referral_host s = None"
    and "perform_request (en_cfg env) (io, q) (here s) = Some a"
  shows "parser env io (reading s (request_text q @ r)) = act a (reading s r)"
proof (cases q)
  case (Put n c)
  have "first_token env (reading s (request_text q @ r)) = (PUTSCRIPT, reading s (CHR '' '' # quoted n @ CHR '' '' # literal_text c @ CRLF @ r))"
    using command_token(1) [of env s "quoted n @ CHR '' '' # literal_text c @ CRLF @ r"] assms(1) Put by simp
  then show ?thesis using assms(2-) Put
    by (simp add: parser_def dispatch_def token_defs run_command_def putscript_arguments_read putscript_tail)
next
  case (Delete n)
  have "first_token env (reading s (request_text q @ r)) = (DELETESCRIPT, reading s (CHR '' '' # quoted n @ CRLF @ r))"
    using command_token(2) [of env s "quoted n @ CRLF @ r"] assms(1) Delete by simp
  then show ?thesis using assms(2-) Delete by (simp add: parser_def dispatch_def token_defs run_command_def name_line_read)
next
  case (Activate n)
  have "first_token env (reading s (request_text q @ r)) = (SETACTIVE, reading s (CHR '' '' # quoted n @ CRLF @ r))"
    using command_token(3) [of env s "quoted n @ CRLF @ r"] assms(1) Activate by simp
  then show ?thesis using assms(2-) Activate by (simp add: parser_def dispatch_def token_defs run_command_def name_line_read)
qed

lemma act_reading: "\<exists>s'. act a (reading s r) = Returned False (reading s' r) \<and> here s' = ac_dir a \<and> ss_cwd s' = ss_cwd s \<and>
  authenticated s' = authenticated s \<and> verify_only s' = verify_only s \<and> referral_host s' = referral_host s \<and> ss_backend s' = ss_backend s"
  by (rule exI [of _ "prot_printf (ac_out a) (s\<lparr>ss_world := (ss_world s)(ss_cwd s := ac_dir a),
        ss_sync := (if ac_sync a then ss_sync s + 1 else ss_sync s)\<rparr>)"])
    (simp add: act_def reading_def here_def prot_printf_def)

fun client_text :: "(action_io \<times> store_request) list \<Rightarrow> string" where
  "client_text [] = []"
| "client_text ((io, q) # qs) = request_text q @ client_text qs"

lemma client_session:
  assumes "22 \<le> maxscriptsize (en_lex env)" and "list_all (\<lambda>(io, q). writable (en_lex env) q) qs"
    and "list_all (store_request_ok (en_cfg env)) qs"
    and "authenticated s" and "\<not> verify_only s" and "referral_host s = None" and "\<not> ss_backend s" and "dir_ok (en_cfg env) (here s)"
  shows "\<exists>t. command_loop (map (\<lambda>(io, q). (env, io)) qs @ [(env, last_io)]) (reading s (client_text qs)) = Closed t \<and>
    dir_ok (en_cfg env) (here t) \<and> store_of (here t) = fold (spec_request (en_cfg env)) qs (store_of (here s)) \<and> ss_cwd t = ss_cwd s"
  using assms(2-)
proof (induction qs arbitrary: s)
  case Nil
  have f: "first_token env (reading s []) = (LOGOUT, reading s [])" "next_token env (reading s []) = ((tok LOGOUT []), reading s [])"
    by (subst first_token.simps) (simp_all add: next_token_def Let_def reading_def timlex_def lex_step(1) tok_def token_defs)
  have "parser env last_io (reading s []) = Returned True (cmd_logout (reading s []))"
    using Nil.prems f by (simp add: parser_def dispatch_def logout_def token_defs) (simp add: tok_def)
  then show ?case using Nil.prems by (simp add: command_loop.simps cmd_logout_def here_def reading_def prot_printf_def)
next
  case (Cons l qs)
  obtain io q where l: "l = (io, q)" by (cases l)
  obtain a where a: "perform_request (en_cfg env) l (here s) = Some a" "dir_ok (en_cfg env) (ac_dir a)"
      "store_of (ac_dir a) = spec_request (en_cfg env) l (store_of (here s))"
    using request_simulates [of "en_cfg env" "here s" l] Cons.prems by auto
  let ?r = "client_text qs"
  have p: "parser env io (reading s (request_text q @ ?r)) = act a (reading s ?r)"
    using Cons.prems a(1) assms(1) l by (intro parser_performs) simp_all
  obtain s' where s': "act a (reading s ?r) = Returned False (reading s' ?r)" "here s' = ac_dir a" "ss_cwd s' = ss_cwd s"
      "authenticated s' = authenticated s" "verify_only s' = verify_only s" "referral_host s' = referral_host s" "ss_backend s' = ss_backend s"
    using act_reading by blast
  have "command_loop (map (\<lambda>(io, q). (env, io)) (l # qs) @ [(env, last_io)]) (reading s (client_text (l # qs))) =
      command_loop (map (\<lambda>(io, q). (env, io)) qs @ [(env, last_io)]) (reading s' ?r)"
    using p s'(1) l Cons.prems by (subst command_loop.simps) simp
  then show ?case using Cons.IH [of s'] s' a Cons.prems by simp
qed

text \<open>
  C4: the server carries out what a client asks for. When an authenticated client, whose scripts are on this
  server, sends requests to put, delete and activate scripts and closes the connection, the session
  ends, and the current directory holds exactly the scripts and the active name the specification gives
  for these requests, with the compiled bytecode beside every script.
\<close>

theorem client_requests_carried_out:
  assumes "22 \<le> maxscriptsize (en_lex env)" and "list_all (\<lambda>(io, q). writable (en_lex env) q) qs"
    and "list_all (store_request_ok (en_cfg env)) qs" and "dir_ok (en_cfg env) (here s)"
    and "authenticated s" and "\<not> verify_only s" and "referral_host s = None" and "\<not> ss_backend s"
    and "ss_lex s = LEXER_STATE_NORMAL" and "ss_in s = client_text qs"
  shows "\<exists>t. command_loop (map (\<lambda>(io, q). (env, io)) qs @ [(env, last_io)]) s = Closed t \<and> dir_ok (en_cfg env) (here t) \<and>
    store_of (here t) = fold (spec_request (en_cfg env)) qs (store_of (here s))"
proof -
  have "reading s (client_text qs) = s" using assms(9,10) by (simp add: reading_def)
  then show ?thesis using client_session [OF assms(1,2,3,5,6,7,8,4), of last_io] by auto
qed

section \<open>Witnesses\<close>

text \<open>A server that lets \<^verbatim>\<open>bob\<close> in without a password.\<close>

definition server :: sieved_env where
  "server = \<lparr>en_lex = \<lparr>maxscriptsize = 1024, tls_enabled = False, le_heap = []\<rparr>, en_cfg = lenient, en_names = site,
     en_sasl = (\<lambda>_ _ _. SASL_OK None (Some ''bob'')), en_authuser = None, en_reset = True,
     en_decode64 = Some, en_encode64 = (\<lambda>t. t), en_mailbox = (\<lambda>_. Local_Mailbox), en_admin = False, en_referrals = False,
     en_domainfromip = False, en_backend = (\<lambda>_ _. Inr ()), en_fulldirhash = False, en_chdir = (\<lambda>_. True),
     en_apple_auth = False, en_od = (\<lambda>_ _ i. (None, i, [])), en_admins = None, en_tls_init = False, en_tls_start = False,
     en_setprop = False, en_murder = False, en_version = ''v2'', en_mechs = Some ''PLAIN'',
     en_od_plain = False, en_od_login = False, en_od_cram_md5 = False, en_od_gssapi = False, en_regex = False, en_extensions = {},
     en_interp = sieve_interp_alloc False\<rparr>"

definition newcomer :: "string \<Rightarrow> session" where
  "newcomer i = \<lparr>ss_lex = LEXER_STATE_NORMAL, ss_in = i, ss_out = [], authenticated = False, verify_only = False, starttls_done = False,
     referral_host = None, ss_backend = False, ss_cwd = ''/'', ss_sieve_dir = ''/sieve'', ss_sync = 0, ss_world = (\<lambda>_. [])\<rparr>"

definition hello :: string where
  "hello = ''AUTHENTICATE '' @ dquote ''PLAIN'' @ CRLF @ ''LISTSCRIPTS'' @ CRLF"

lemma server_od: "od_reads server"
  by (simp add: server_def od_reads_def)



theorem session_ends_witness:
  "\<forall>t. cmdloop server (replicate (length hello + 1) (server, roomy)) (newcomer hello) \<noteq> Waiting t"
  by (intro allI session_ends) (simp_all add: newcomer_def server_od list_all_iff)

theorem client_requests_carried_out_witness:
  "\<exists>t. command_loop [(server, roomy), (server, roomy), (server, roomy)]
       ((newcomer (request_text (Put ''a'' ''keep;'') @ request_text (Activate ''a'')))\<lparr>authenticated := True\<rparr>) = Closed t \<and>
     store_of (here t) = ([''a'' \<mapsto> ''keep;''], Some ''a'')"
proof -
  let ?qs = "[(roomy, Put ''a'' ''keep;''), (roomy, Activate ''a'')]"
  have env: "en_cfg server = lenient" "en_lex server = \<lparr>maxscriptsize = 1024, tls_enabled = False, le_heap = []\<rparr>"
    by (simp_all add: server_def)
  have "may_put lenient roomy ''a'' ''keep;'' Map.empty"
    by (simp add: may_put_def lenient_def roomy_def valid_name_def NAME_MAX_def compiled_def)
  then have spec: "fold (spec_request lenient) ?qs (store_of []) = ([''a'' \<mapsto> ''keep;''], Some ''a'')"
    by (simp add: store_of_def scripts_of_def [abs_def] active_of_def valid_name_def roomy_def)
  have ok: "list_all (store_request_ok lenient) ?qs" using lenient_ok(1) [of "''a''" "''keep;''"] lenient_ok(2) by simp
  have "\<exists>t. command_loop (map (\<lambda>(io, q). (server, io)) ?qs @ [(server, roomy)]) ((newcomer (client_text ?qs))\<lparr>authenticated := True\<rparr>) = Closed t \<and>
      dir_ok (en_cfg server) (here t) \<and>
      store_of (here t) = fold (spec_request (en_cfg server)) ?qs (store_of (here ((newcomer (client_text ?qs))\<lparr>authenticated := True\<rparr>)))"
    by (rule client_requests_carried_out) (simp_all add: env ok [simplified] quotable_def newcomer_def here_def empty_dir_ok)
  moreover have "store_of (here ((newcomer (client_text ?qs))\<lparr>authenticated := True\<rparr>)) = store_of []"
    by (simp add: here_def newcomer_def)
  ultimately show ?thesis using spec env(1) by auto
qed

end
