(* ===== verification/Cyrusdb.thy ===== *)
theory Cyrusdb
  imports Cyrusdb_Flat
begin

text \<open>
  The interface of the databases, \<^verbatim>\<open>struct cyrusdb_backend\<close> of \<^verbatim>\<open>lib/cyrusdb.h\<close>: a record of operations. A caller
  sees a database only through it. The argument \<^verbatim>\<open>struct txn **\<close> is of a type of the backend, with the values
  \<^verbatim>\<open>NULL\<close> (\<^verbatim>\<open>be_none\<close>) and the address of a \<^verbatim>\<open>NULL\<close> (\<^verbatim>\<open>be_null\<close>); \<^verbatim>\<open>be_open\<close> tells whether it is the address of a
  transaction. \<^verbatim>\<open>None\<close> as a result is undefined behaviour.

  The locale \<^verbatim>\<open>cyrusdb\<close> states what a caller may rely on when no system call fails; the flat database is an
  instance.
\<close>

definition CYRUSDB_AGAIN :: int where "CYRUSDB_AGAIN = - 2"

record ('t, 'd) cyrusdb_backend =
  be_none :: 't
  be_null :: 't
  be_open :: "'t \<Rightarrow> bool"
  be_fetch :: "string \<Rightarrow> 't \<Rightarrow> 'd \<Rightarrow> (int \<times> string option \<times> 't \<times> 'd) option"
  be_fetchlock :: "string \<Rightarrow> 't \<Rightarrow> 'd \<Rightarrow> (int \<times> string option \<times> 't \<times> 'd) option"
  be_store :: "string \<Rightarrow> string \<Rightarrow> 't \<Rightarrow> 'd \<Rightarrow> (int \<times> 't \<times> 'd) option"
  be_delete :: "string \<Rightarrow> 't \<Rightarrow> bool \<Rightarrow> 'd \<Rightarrow> (int \<times> 't \<times> 'd) option"
  be_commit :: "'t \<Rightarrow> 'd \<Rightarrow> (int \<times> 'd) option"
  be_abort :: "'t \<Rightarrow> 'd \<Rightarrow> (int \<times> 'd) option"

text \<open>
  \<^verbatim>\<open>view t d C V\<close>: in the state \<^verbatim>\<open>d\<close> the committed contents are \<^verbatim>\<open>C\<close> and those the holder of \<^verbatim>\<open>t\<close> sees are \<^verbatim>\<open>V\<close>.
\<close>

locale cyrusdb =
  fixes B :: "('t, 'd) cyrusdb_backend"
    and view :: "'t \<Rightarrow> 'd \<Rightarrow> (string \<rightharpoonup> string) \<Rightarrow> (string \<rightharpoonup> string) \<Rightarrow> bool"
    and good_key :: "string \<Rightarrow> bool" and good_data :: "string \<Rightarrow> bool"
  assumes null_view: "view (be_none B) d C V \<Longrightarrow> view (be_null B) d C C"
    and none_view: "view (be_none B) d C V \<Longrightarrow> V = C"
    and null_not_none: "be_null B \<noteq> be_none B"
    and open_not_none: "be_open B t \<Longrightarrow> t \<noteq> be_none B"
    and fetch: "view t d C V \<Longrightarrow> good_key k \<Longrightarrow>
      \<exists>t' d'. be_fetch B k t d = Some (if V k = None then CYRUSDB_NOTFOUND else CYRUSDB_OK, V k, t', d') \<and> view t' d' C V \<and>
        (if t = be_none B then t' = t else be_open B t')"
    and fetchlock: "view t d C V \<Longrightarrow> good_key k \<Longrightarrow>
      \<exists>t' d'. be_fetchlock B k t d = Some (if V k = None then CYRUSDB_NOTFOUND else CYRUSDB_OK, V k, t', d') \<and> view t' d' C V \<and>
        (if t = be_none B then t' = t else be_open B t')"
    and store: "view t d C V \<Longrightarrow> good_key k \<Longrightarrow> good_data x \<Longrightarrow>
      \<exists>t' d'. be_store B k x t d = Some (CYRUSDB_OK, t', d') \<and>
        (if t = be_none B then t' = t \<and> view t' d' (V(k \<mapsto> x)) (V(k \<mapsto> x)) else be_open B t' \<and> view t' d' C (V(k \<mapsto> x)))"
    and delete: "view t d C V \<Longrightarrow> good_key k \<Longrightarrow> V k \<noteq> None \<Longrightarrow>
      \<exists>t' d'. be_delete B k t f d = Some (CYRUSDB_OK, t', d') \<and>
        (if t = be_none B then t' = t \<and> view t' d' (V(k := None)) (V(k := None)) else be_open B t' \<and> view t' d' C (V(k := None)))"
    and commit: "be_open B t \<Longrightarrow> view t d C V \<Longrightarrow> \<exists>d'. be_commit B t d = Some (CYRUSDB_OK, d') \<and> view (be_none B) d' V V"
    and abort: "be_open B t \<Longrightarrow> view t d C V \<Longrightarrow> \<exists>d'. be_abort B t d = Some (CYRUSDB_OK, d') \<and> view (be_none B) d' C C"
begin

lemma read_committed:
  "view (be_none B) d C C \<Longrightarrow> good_key k \<Longrightarrow>
   \<exists>d'. be_fetch B k (be_none B) d = Some (if C k = None then CYRUSDB_NOTFOUND else CYRUSDB_OK, C k, be_none B, d') \<and>
     view (be_none B) d' C C"
  using fetch [of "be_none B" d C C k] by auto

text \<open>Reading a key for an update, storing it and committing.\<close>

lemma update_committed:
  assumes "view (be_none B) d C C" and "good_key k" and "good_data x"
  shows "\<exists>t1 d1 t2 d2 d3. be_fetchlock B k (be_null B) d = Some (if C k = None then CYRUSDB_NOTFOUND else CYRUSDB_OK, C k, t1, d1) \<and>
    be_open B t1 \<and> be_store B k x t1 d1 = Some (CYRUSDB_OK, t2, d2) \<and> be_open B t2 \<and>
    be_commit B t2 d2 = Some (CYRUSDB_OK, d3) \<and> view (be_none B) d3 (C(k \<mapsto> x)) (C(k \<mapsto> x))"
proof -
  obtain t1 d1 where 1: "be_fetchlock B k (be_null B) d = Some (if C k = None then CYRUSDB_NOTFOUND else CYRUSDB_OK, C k, t1, d1)"
      "view t1 d1 C C" "be_open B t1"
    using fetchlock [OF null_view [OF assms(1)] assms(2)] null_not_none by auto
  obtain t2 d2 where 2: "be_store B k x t1 d1 = Some (CYRUSDB_OK, t2, d2)" "be_open B t2" "view t2 d2 C (C(k \<mapsto> x))"
    using store [OF 1(2) assms(2,3)] open_not_none [OF 1(3)] by auto
  then show ?thesis using 1 commit [OF 2(2,3)] by blast
qed

end

section \<open>The flat database as an instance\<close>

definition cyrusdb_flat :: "flat_io \<Rightarrow> (mytid, flat_world \<times> flat_db) cyrusdb_backend" where
  "cyrusdb_flat io = \<lparr>be_none = No_txn, be_null = Null_txn, be_open = (\<lambda>t. case t of Txn _ \<Rightarrow> True | _ \<Rightarrow> False),
     be_fetch = (\<lambda>k t (w, db). map_option (\<lambda>(r, x, t, w, db). (r, x, t, (w, db))) (myfetch io k (length k) t w db)),
     be_fetchlock = (\<lambda>k t (w, db). map_option (\<lambda>(r, x, t, w, db). (r, x, t, (w, db))) (myfetch io k (length k) t w db)),
     be_store = (\<lambda>k x t (w, db). map_option (\<lambda>(r, t, w, db). (r, t, (w, db))) (flat_store io k (length k) (Some x) t w db)),
     be_delete = (\<lambda>k t f (w, db). map_option (\<lambda>(r, t, w, db). (r, t, (w, db))) (flat_delete io k (length k) t w db)),
     be_commit = (\<lambda>t (w, db). case t of Txn x \<Rightarrow> Some (commit_txn io x w db) | _ \<Rightarrow> None),
     be_abort = (\<lambda>t (w, db). case t of Txn x \<Rightarrow> Some (0, abort_txn io x w db) | _ \<Rightarrow> None)\<rparr>"

text \<open>A disk on which every call succeeds.\<close>

definition working_io :: flat_io where
  "working_io = \<lparr>io_lock = True, io_open = True, io_write = None, io_stat = True, io_sync = True, io_unlock = True\<rparr>"

lemma working_io_ok: "io_ok working_io"
  by (simp add: io_ok_def working_io_def)

definition flat_view :: "mytid \<Rightarrow> flat_world \<times> flat_db \<Rightarrow> (string \<rightharpoonup> string) \<Rightarrow> (string \<rightharpoonup> string) \<Rightarrow> bool" where
  "flat_view t d C V \<longleftrightarrow> view_ok t (fst d) (snd d) C V"

definition flat_data :: "string \<Rightarrow> bool" where
  "flat_data x \<longleftrightarrow> LF \<notin> set x \<and> NUL \<notin> set x"

lemma started_open: "view_ok t w db C V \<Longrightarrow> if t = No_txn then started t = No_txn else (case started t of Txn _ \<Rightarrow> True | _ \<Rightarrow> False)"
  by (cases t) (auto simp: started_def view_ok_def)

lemma flat_fetch:
  assumes "view_ok t w db C V" and "key_ok k"
  shows "\<exists>t' w' db'. myfetch working_io k (length k) t w db = Some (if V k = None then CYRUSDB_NOTFOUND else CYRUSDB_OK, V k, t', w', db') \<and>
    view_ok t' w' db' C V \<and> (if t = No_txn then t' = t else (case t' of Txn _ \<Rightarrow> True | _ \<Rightarrow> False))"
  using myfetch_view [OF assms(1) working_io_ok assms(2)] started_open [OF assms(1)] by (auto simp: CYRUSDB_OK_def split: if_splits)

lemma flat_change:
  assumes "view_ok t w db C V" and "good_put k x"
  shows "\<exists>t' w' db'. mystore working_io k (length k) x t True w db = Some (CYRUSDB_OK, t', w', db') \<and>
    (if t = No_txn then t' = t \<and> view_ok t' w' db' (V(k := x)) (V(k := x))
     else (case t' of Txn _ \<Rightarrow> True | _ \<Rightarrow> False) \<and> view_ok t' w' db' C (V(k := x)))"
  using mystore_view [OF assms(1) working_io_ok assms(2), of True] by (auto simp: put_result_def CYRUSDB_OK_def split: if_splits)

interpretation flat: cyrusdb "cyrusdb_flat working_io" flat_view key_ok flat_data
proof (unfold_locales, goal_cases)
  case (1 d C V)
  then show ?case by (auto simp: cyrusdb_flat_def flat_view_def view_ok_def)
next
  case (2 d C V)
  then show ?case by (auto simp: cyrusdb_flat_def flat_view_def view_ok_def)
next
  case 3
  then show ?case by (simp add: cyrusdb_flat_def)
next
  case (4 t)
  then show ?case by (auto simp: cyrusdb_flat_def split: mytid.splits)
next
  case (5 t d C V k)
  then show ?case using flat_fetch [of t "fst d" "snd d" C V k] by (cases d) (force simp: cyrusdb_flat_def flat_view_def)
next
  case (6 t d C V k)
  then show ?case using flat_fetch [of t "fst d" "snd d" C V k] by (cases d) (force simp: cyrusdb_flat_def flat_view_def)
next
  case (7 t d C V k x)
  then have "good_put k (Some x)" by (simp add: good_put_def flat_data_def)
  then show ?case using flat_change [of t "fst d" "snd d" C V k "Some x"] 7
    by (cases d) (force simp: cyrusdb_flat_def flat_view_def flat_store_def split: if_splits)
next
  case (8 t d C V k f)
  then have "good_put k None" by (simp add: good_put_def)
  then show ?case using flat_change [of t "fst d" "snd d" C V k None] 8
    by (cases d) (force simp: cyrusdb_flat_def flat_view_def flat_delete_def split: if_splits)
next
  case (9 t d C V)
  then show ?case using commit_view [of _ "fst d" "snd d" C V, OF _ working_io_ok]
    by (cases d) (force simp: cyrusdb_flat_def flat_view_def CYRUSDB_OK_def split: mytid.splits)
next
  case (10 t d C V)
  then show ?case using abort_view [of _ "fst d" "snd d" C V, OF _ working_io_ok]
    by (cases d) (force simp: cyrusdb_flat_def flat_view_def CYRUSDB_OK_def split: mytid.splits)
qed

end
