(* ===== verification/Quota.thy ===== *)
theory Quota
  imports Cyrusdb
begin

text \<open>
  Quota roots, \<^verbatim>\<open>imap/quota_db.c\<close>, over the interface of the databases. The backend \<^verbatim>\<open>QDB\<close> and the state of the
  database are arguments. An error is a value of \<^verbatim>\<open>imap_error\<close>; \<^verbatim>\<open>None\<close> in its place is the result 0.

  \<^verbatim>\<open>uquota_t\<close> has 64 bits. A number that does not fit is reduced by \<^verbatim>\<open>sscanf\<close>; the C library does not say
  how, the model takes the low bits.
\<close>

section \<open>Data\<close>

datatype imap_error = IMAP_IOERROR | IMAP_MAILBOX_BADFORMAT | IMAP_MAILBOX_NOTSUPPORTED | IMAP_MAILBOX_NONEXISTENT
  | IMAP_MAILBOX_POPLOCKED | IMAP_PERMISSION_DENIED | IMAP_QUOTA_EXCEEDED | IMAP_QUOTAROOT_NONEXISTENT | IMAP_AGAIN

definition QUOTA_UNITS :: nat where "QUOTA_UNITS = 1024"

record quota =
  qu_root :: "string option"
  qu_used :: "64 word"
  qu_limit :: int

section \<open>The text of an entry\<close>

definition quota_text :: "quota \<Rightarrow> string" where
  "quota_text q = decimal (unat (qu_used q)) @ '' '' @ (if qu_limit q < 0 then ''-'' else []) @ decimal (nat \<bar>qu_limit q\<bar>)"

definition digits_value :: "string \<Rightarrow> nat" where
  "digits_value s = foldl (\<lambda>n c. 10 * n + (of_char c - 48)) 0 s"

definition scan_number :: "string \<Rightarrow> (int \<times> string) option" where
  "scan_number s =
     (let s = dropWhile isspace s;
          neg = (deref s = CHR ''-''); s = (if deref s = CHR ''-'' \<or> deref s = CHR ''+'' then tl s else s);
          d = takeWhile isdigit s
      in if d = [] then None else Some (if neg then - int (digits_value d) else int (digits_value d), dropWhile isdigit s))"

definition sscanf_quota :: "string \<Rightarrow> quota \<Rightarrow> quota" where
  "sscanf_quota s q = (case scan_number s of
     None \<Rightarrow> q
   | Some (n, s) \<Rightarrow>
       (let q = q\<lparr>qu_used := word_of_int n\<rparr> in
        case scan_number (dropWhile isspace s) of
          None \<Rightarrow> q
        | Some (l, _) \<Rightarrow> q\<lparr>qu_limit := sint (word_of_int l :: 32 word)\<rparr>))"

section \<open>Operations\<close>

definition quota_read ::
  "('t, 'd) cyrusdb_backend \<Rightarrow> quota \<Rightarrow> 't \<Rightarrow> bool \<Rightarrow> 'd \<Rightarrow> (imap_error option \<times> quota \<times> 't \<times> 'd) option" where
  "quota_read QDB q tid wrlock d = (case qu_root q of
     None \<Rightarrow> Some (Some IMAP_QUOTAROOT_NONEXISTENT, q, tid, d)
   | Some root \<Rightarrow>
       if root = [] then Some (Some IMAP_QUOTAROOT_NONEXISTENT, q, tid, d)
       else (case (if wrlock then be_fetchlock QDB root tid d else be_fetch QDB root tid d) of
           None \<Rightarrow> None
         | Some (r, x, tid, d) \<Rightarrow> Some (
             if r = CYRUSDB_OK then (None, case x of None \<Rightarrow> q\<lparr>qu_used := 0, qu_limit := 2147483647\<rparr> | Some x \<Rightarrow> sscanf_quota x q, tid, d)
             else if r = CYRUSDB_AGAIN then (Some IMAP_AGAIN, q, tid, d)
             else if r = CYRUSDB_NOTFOUND then (Some IMAP_QUOTAROOT_NONEXISTENT, q, tid, d)
             else (Some IMAP_IOERROR, q, tid, d))))"

definition quota_commit :: "('t, 'd) cyrusdb_backend \<Rightarrow> 't \<Rightarrow> 'd \<Rightarrow> ('t \<times> 'd) option" where
  "quota_commit QDB tid d = (if be_open QDB tid then map_option (\<lambda>(r, d). (be_null QDB, d)) (be_commit QDB tid d) else Some (tid, d))"

definition quota_abort :: "('t, 'd) cyrusdb_backend \<Rightarrow> 't \<Rightarrow> 'd \<Rightarrow> ('t \<times> 'd) option" where
  "quota_abort QDB tid d = (if be_open QDB tid then map_option (\<lambda>(r, d). (be_null QDB, d)) (be_abort QDB tid d) else Some (tid, d))"

definition quota_write :: "('t, 'd) cyrusdb_backend \<Rightarrow> quota \<Rightarrow> 't \<Rightarrow> 'd \<Rightarrow> (imap_error option \<times> 't \<times> 'd) option" where
  "quota_write QDB q tid d = (case qu_root q of
     None \<Rightarrow> Some (None, tid, d)
   | Some root \<Rightarrow>
       if root = [] then Some (Some IMAP_QUOTAROOT_NONEXISTENT, tid, d)
       else (case be_store QDB root (quota_text q) tid d of
           None \<Rightarrow> None
         | Some (r, tid, d) \<Rightarrow> Some (if r = CYRUSDB_OK then None else if r = CYRUSDB_AGAIN then Some IMAP_AGAIN else Some IMAP_IOERROR, tid, d)))"

text \<open>The result of the database is returned as it is.\<close>

definition quota_delete :: "('t, 'd) cyrusdb_backend \<Rightarrow> quota \<Rightarrow> 't \<Rightarrow> 'd \<Rightarrow> ((imap_error + int) \<times> 't \<times> 'd) option" where
  "quota_delete QDB q tid d = (case qu_root q of
     None \<Rightarrow> Some (Inr 0, tid, d)
   | Some root \<Rightarrow>
       if root = [] then Some (Inl IMAP_QUOTAROOT_NONEXISTENT, tid, d)
       else map_option (\<lambda>(r, tid, d). (Inr r, tid, d)) (be_delete QDB root tid False d))"

text \<open>
  \<^verbatim>\<open>quota_findroot\<close>: the loop cuts the name of the mailbox behind the domain at its last dot until a root is
  found; the name it ends with is in the buffer.
\<close>

function findroot_loop :: "('t, 'd) cyrusdb_backend \<Rightarrow> string \<Rightarrow> string \<Rightarrow> 'd \<Rightarrow> (bool \<times> string \<times> 'd) option" where
  "findroot_loop QDB domain mbox d = (case be_fetch QDB (domain @ mbox) (be_none QDB) d of
     None \<Rightarrow> None
   | Some (r, _, _, d) \<Rightarrow>
       if r = CYRUSDB_OK then Some (True, mbox, d)
       else (case strrchr mbox (CHR ''.'') of
           None \<Rightarrow> Some (False, mbox, d)
         | Some (mbox, _) \<Rightarrow> findroot_loop QDB domain mbox d))"
  by pat_completeness auto
termination
  by (relation "measure (\<lambda>(QDB, domain, mbox, d). length mbox)") (auto dest!: strrchr_Some)

declare findroot_loop.simps [simp del]

definition quota_findroot :: "('t, 'd) cyrusdb_backend \<Rightarrow> bool \<Rightarrow> nat \<Rightarrow> string \<Rightarrow> 'd \<Rightarrow> (bool \<times> string \<times> 'd) option" where
  "quota_findroot QDB virtdomains retlen name d =
     (let ret = take (retlen - 1) name;
          (domain, mbox) = (if virtdomains then (case strchr ret (CHR ''!'') of Some (a, b) \<Rightarrow> (a @ ''!'', b) | None \<Rightarrow> ([], ret)) else ([], ret))
      in case findroot_loop QDB domain mbox d of
        None \<Rightarrow> None
      | Some (found, mbox, d) \<Rightarrow>
          if found then Some (True, domain @ mbox, d)
          else if domain = [] then Some (False, mbox, d)
          else (case be_fetch QDB domain (be_none QDB) d of
              None \<Rightarrow> None
            | Some (r, _, _, d) \<Rightarrow> Some (r = CYRUSDB_OK, domain, d)))"

section \<open>Reading what was written\<close>

lemma digits_snoc: "digits_value (s @ [c]) = 10 * digits_value s + (of_char c - 48)"
  by (simp add: digits_value_def)

lemma decimal_digits: "(\<forall>c\<in>set (decimal n). isdigit c) \<and> decimal n \<noteq> [] \<and> digits_value (decimal n) = n"
proof (induction n rule: decimal.induct)
  case (1 n)
  have d: "isdigit (char_of (48 + k)) \<and> of_char (char_of (48 + k) :: char) = 48 + k" if "k < 10" for k :: nat
    using that by (simp add: isdigit_def less_eq_char_def)
  show ?case
  proof (cases "n < 10")
    case True
    then show ?thesis using d [OF True] by (simp add: decimal.simps [of n] digits_value_def)
  next
    case False
    then have "decimal n = decimal (n div 10) @ [char_of (48 + n mod 10)]" by (simp add: decimal.simps [of n])
    then show ?thesis using 1 [OF False] d [of "n mod 10"] by (simp add: digits_snoc)
  qed
qed

lemma isdigit_other [simp]: "isdigit c \<Longrightarrow> c \<noteq> CHR ''-'' \<and> c \<noteq> CHR ''+'' \<and> \<not> isspace c"
  by (auto simp: isdigit_def isspace_def less_eq_char_def)

lemma decimal_Cons: obtains c s where "decimal n = c # s" and "isdigit c"
  using decimal_digits [of n] by (cases "decimal n") auto

lemma scan_decimal:
  assumes "s = [] \<or> \<not> isdigit (hd s)"
  shows "scan_number (decimal n @ s) = Some (int n, s)" and "scan_number (''-'' @ decimal n @ s) = Some (- int n, s)"
proof -
  obtain c r where c: "decimal n = c # r" "isdigit c" by (rule decimal_Cons)
  have "takeWhile isdigit (decimal n @ s) = decimal n" "dropWhile isdigit (decimal n @ s) = s"
    using assms decimal_digits [of n] by (cases s; auto simp: takeWhile_append dropWhile_append)+
  then show "scan_number (decimal n @ s) = Some (int n, s)" "scan_number (''-'' @ decimal n @ s) = Some (- int n, s)"
    using c decimal_digits [of n] isdigit_other [OF c(2)] by (auto simp: scan_number_def Let_def isspace_def less_eq_char_def)
qed

definition limit_ok :: "quota \<Rightarrow> bool" where
  "limit_ok q \<longleftrightarrow> - (2 ^ 31) \<le> qu_limit q \<and> qu_limit q < 2 ^ 31"

lemma sint_limit: "limit_ok q \<Longrightarrow> sint (word_of_int (qu_limit q) :: 32 word) = qu_limit q"
  by (simp add: limit_ok_def signed_of_int signed_take_bit_int_eq_self)

lemma scan_quota_text:
  assumes "limit_ok q"
  shows "sscanf_quota (quota_text q) q' = q\<lparr>qu_root := qu_root q'\<rparr>"
proof -
  let ?l = "(if qu_limit q < 0 then ''-'' else []) @ decimal (nat \<bar>qu_limit q\<bar>)"
  obtain c r where c: "decimal (nat \<bar>qu_limit q\<bar>) = c # r" "isdigit c" by (rule decimal_Cons)
  have 1: "scan_number (quota_text q) = Some (int (unat (qu_used q)), '' '' @ ?l)"
    using scan_decimal(1) [of "'' '' @ ?l" "unat (qu_used q)"] by (simp add: quota_text_def isdigit_def less_eq_char_def)
  have "dropWhile isspace ('' '' @ ?l) = ?l" using c isdigit_other [OF c(2)] by (auto simp: isspace_def less_eq_char_def)
  then have 2: "scan_number (dropWhile isspace ('' '' @ ?l)) = Some (qu_limit q, [])"
    using scan_decimal [of "[]" "nat \<bar>qu_limit q\<bar>"] by auto
  show ?thesis using 1 2 sint_limit [OF assms] by (simp add: sscanf_quota_def del: append_Cons append_Nil)
qed

lemma quota_text_flat: "flat_data (quota_text q)"
proof -
  have "LF \<notin> set (decimal n) \<and> NUL \<notin> set (decimal n)" for n
    using decimal_digits [of n] by (auto simp: isdigit_def less_eq_char_def)
  then show ?thesis by (auto simp: flat_data_def quota_text_def)
qed

section \<open>Quotas over a database\<close>

text \<open>The ancestors of a mailbox: the mailbox, and what is in front of one of its dots.\<close>

definition ancestor :: "string \<Rightarrow> string \<Rightarrow> bool" where
  "ancestor p mbox \<longleftrightarrow> p = mbox \<or> (\<exists>q. mbox = p @ ''.'' @ q)"

lemma ancestor_refl [simp]: "ancestor p p"
  by (simp add: ancestor_def)

lemma ancestor_cut:
  assumes "strrchr mbox (CHR ''.'') = Some (m, t)"
  shows "ancestor p mbox \<longleftrightarrow> p = mbox \<or> ancestor p m"
proof -
  have m: "mbox = m @ ''.'' @ t" "CHR ''.'' \<notin> set t" using strrchr_Some [OF assms] by auto
  have "p = m \<or> (\<exists>q. m = p @ ''.'' @ q)" if "m @ ''.'' @ t = p @ ''.'' @ q" for q
    using that m(2) by (auto simp: append_eq_append_conv2 Cons_eq_append_conv append_eq_Cons_conv)
  then show ?thesis using m(1) by (auto simp: ancestor_def)
qed

lemma ancestor_top: "strrchr mbox (CHR ''.'') = None \<Longrightarrow> ancestor p mbox \<longleftrightarrow> p = mbox"
  by (auto simp: ancestor_def strrchr_def strchr_None_iff)

context cyrusdb
begin

lemma quota_read_committed:
  assumes "view (be_none B) d C C" and "good_key root" and "root \<noteq> []" and "qu_root q = Some root"
    and "\<And>x. C root = Some x \<Longrightarrow> \<exists>q. limit_ok q \<and> x = quota_text q"
  shows "\<exists>d'. view (be_none B) d' C C \<and> (case C root of
       None \<Rightarrow> quota_read B q (be_none B) False d = Some (Some IMAP_QUOTAROOT_NONEXISTENT, q, be_none B, d')
     | Some x \<Rightarrow> \<exists>q'. limit_ok q' \<and> x = quota_text q' \<and>
         quota_read B q (be_none B) False d = Some (None, q'\<lparr>qu_root := Some root\<rparr>, be_none B, d'))"
proof -
  obtain d' where d': "view (be_none B) d' C C"
    "be_fetch B root (be_none B) d = Some (if C root = None then CYRUSDB_NOTFOUND else CYRUSDB_OK, C root, be_none B, d')"
    using read_committed [OF assms(1,2)] by blast
  show ?thesis
  proof (cases "C root")
    case None
    then show ?thesis using d' assms by (auto simp: quota_read_def CYRUSDB_NOTFOUND_def CYRUSDB_OK_def CYRUSDB_AGAIN_def)
  next
    case (Some x)
    then obtain q' where "limit_ok q'" "x = quota_text q'" using assms(5) by blast
    then show ?thesis using d' assms Some scan_quota_text [of q' q] by (auto simp: quota_read_def)
  qed
qed

text \<open>A change of a quota: it is read under a lock, written and committed.\<close>

lemma quota_change:
  assumes "view (be_none B) d C C" and "good_key root" and "root \<noteq> []" and "qu_root q = Some root" and "qu_root q' = Some root"
    and "C root = Some (quota_text p)" and "limit_ok p" and "good_data (quota_text q')"
  shows "\<exists>t1 d1 t2 d2 d3. quota_read B q (be_null B) True d = Some (None, p\<lparr>qu_root := Some root\<rparr>, t1, d1) \<and>
    quota_write B q' t1 d1 = Some (None, t2, d2) \<and> quota_commit B t2 d2 = Some (be_null B, d3) \<and>
    view (be_none B) d3 (C(root \<mapsto> quota_text q')) (C(root \<mapsto> quota_text q'))"
proof -
  obtain t1 d1 t2 d2 d3 where 1: "be_fetchlock B root (be_null B) d = Some (CYRUSDB_OK, C root, t1, d1)" "be_open B t1"
      "be_store B root (quota_text q') t1 d1 = Some (CYRUSDB_OK, t2, d2)" "be_open B t2" "be_commit B t2 d2 = Some (CYRUSDB_OK, d3)"
      "view (be_none B) d3 (C(root \<mapsto> quota_text q')) (C(root \<mapsto> quota_text q'))"
    using update_committed [OF assms(1,2,8)] assms(6) by auto
  have "quota_read B q (be_null B) True d = Some (None, p\<lparr>qu_root := Some root\<rparr>, t1, d1)"
    using 1 assms scan_quota_text [of p q] by (simp add: quota_read_def)
  moreover have "quota_write B q' t1 d1 = Some (None, t2, d2)" using 1 assms by (simp add: quota_write_def)
  moreover have "quota_commit B t2 d2 = Some (be_null B, d3)" using 1 by (simp add: quota_commit_def)
  ultimately show ?thesis using 1 by blast
qed

lemma quota_read_locked:
  assumes "view (be_none B) d C C" and "good_key root" and "root \<noteq> []" and "qu_root q = Some root" and "C root = Some (quota_text p)" and "limit_ok p"
  shows "\<exists>t d'. quota_read B q (be_null B) True d = Some (None, p\<lparr>qu_root := Some root\<rparr>, t, d') \<and> be_open B t \<and> view t d' C C"
proof -
  obtain t d' where 1: "be_fetchlock B root (be_null B) d = Some (CYRUSDB_OK, C root, t, d')" "view t d' C C" "be_open B t"
    using fetchlock [OF null_view [OF assms(1)] assms(2)] null_not_none assms(5) by auto
  then show ?thesis using assms scan_quota_text [of p q] by (auto simp: quota_read_def)
qed

lemma quota_write_commit:
  assumes "be_open B t" and "view t d C V" and "good_key root" and "root \<noteq> []" and "qu_root q = Some root" and "good_data (quota_text q)"
  shows "\<exists>t' d' d''. quota_write B q t d = Some (None, t', d') \<and> quota_commit B t' d' = Some (be_null B, d'') \<and>
    view (be_none B) d'' (V(root \<mapsto> quota_text q)) (V(root \<mapsto> quota_text q))"
proof -
  obtain t' d' where 1: "be_store B root (quota_text q) t d = Some (CYRUSDB_OK, t', d')" "be_open B t'" "view t' d' C (V(root \<mapsto> quota_text q))"
    using store [OF assms(2,3,6)] open_not_none [OF assms(1)] by auto
  obtain d'' where "be_commit B t' d' = Some (CYRUSDB_OK, d'')" "view (be_none B) d'' (V(root \<mapsto> quota_text q)) (V(root \<mapsto> quota_text q))"
    using commit [OF 1(2,3)] by blast
  then show ?thesis using 1 assms by (auto simp: quota_write_def quota_commit_def)
qed

lemma quota_abort_view:
  assumes "be_open B t" and "view t d C V"
  shows "\<exists>d'. quota_abort B t d = Some (be_null B, d') \<and> view (be_none B) d' C C"
  using abort [OF assms] assms(1) by (auto simp: quota_abort_def)

lemma findroot_loop_view:
  assumes "view (be_none B) d C C" and "\<And>p. ancestor p mbox \<Longrightarrow> good_key (domain @ p)"
  shows "\<exists>d' p. view (be_none B) d' C C \<and>
    (findroot_loop B domain mbox d = Some (True, p, d') \<and> ancestor p mbox \<and> C (domain @ p) \<noteq> None \<and>
       (\<forall>p'. ancestor p' mbox \<longrightarrow> C (domain @ p') \<noteq> None \<longrightarrow> length p' \<le> length p) \<or>
     findroot_loop B domain mbox d = Some (False, p, d') \<and> (\<forall>p'. ancestor p' mbox \<longrightarrow> C (domain @ p') = None))"
  using assms
proof (induction "length mbox" arbitrary: mbox d rule: less_induct)
  case less
  obtain d1 where d1: "view (be_none B) d1 C C" "be_fetch B (domain @ mbox) (be_none B) d =
      Some (if C (domain @ mbox) = None then CYRUSDB_NOTFOUND else CYRUSDB_OK, C (domain @ mbox), be_none B, d1)"
    using read_committed [OF less.prems(1) less.prems(2) [OF ancestor_refl]] by blast
  note unfold = findroot_loop.simps [of B domain mbox d] d1(2)
  consider "C (domain @ mbox) \<noteq> None" | "C (domain @ mbox) = None" "strrchr mbox (CHR ''.'') = None"
    | m t where "C (domain @ mbox) = None" "strrchr mbox (CHR ''.'') = Some (m, t)" by fastforce
  then show ?case
  proof cases
    case 1
    then show ?thesis using d1(1) unfold by (auto simp: ancestor_def)
  next
    case 2
    then show ?thesis using d1(1) unfold by (auto simp: ancestor_top CYRUSDB_NOTFOUND_def CYRUSDB_OK_def)
  next
    case 3
    have l: "length m < length mbox" using strrchr_Some [OF 3(2)] by auto
    have g: "good_key (domain @ p)" if "ancestor p m" for p using less.prems(2) ancestor_cut [OF 3(2)] that by blast
    have "findroot_loop B domain mbox d = findroot_loop B domain m d1"
      using 3 unfold by (simp add: CYRUSDB_NOTFOUND_def CYRUSDB_OK_def)
    then show ?thesis using less.hyps [OF l d1(1) g] 3(1) ancestor_cut [OF 3(2)] by fastforce
  qed
qed

end

section \<open>Properties\<close>

text \<open>
  C20: A quota changed in a transaction is the quota read afterwards: the read under the lock gives the entry the
  database has, the write and the commit succeed, a later read gives back exactly what was written, and the
  other roots keep their entries.
\<close>

theorem quota_update_persists:
  assumes "flat_view No_txn d C C" and "key_ok root" and "root \<noteq> []" and "qu_root q = Some root" and "qu_root q' = Some root"
    and "C root = Some (quota_text p)" and "limit_ok p" and "limit_ok q'"
  shows "\<exists>t1 d1 t2 d2 d3 d4. quota_read (cyrusdb_flat working_io) q Null_txn True d = Some (None, p\<lparr>qu_root := Some root\<rparr>, t1, d1) \<and>
    quota_write (cyrusdb_flat working_io) q' t1 d1 = Some (None, t2, d2) \<and>
    quota_commit (cyrusdb_flat working_io) t2 d2 = Some (Null_txn, d3) \<and>
    quota_read (cyrusdb_flat working_io) q No_txn False d3 = Some (None, q', No_txn, d4) \<and>
    flat_view No_txn d4 (C(root \<mapsto> quota_text q')) (C(root \<mapsto> quota_text q'))"
proof -
  let ?B = "cyrusdb_flat working_io"
  have n: "be_none ?B = No_txn" "be_null ?B = Null_txn" by (simp_all add: cyrusdb_flat_def)
  obtain t1 d1 t2 d2 d3 where 1: "quota_read ?B q Null_txn True d = Some (None, p\<lparr>qu_root := Some root\<rparr>, t1, d1)"
      "quota_write ?B q' t1 d1 = Some (None, t2, d2)" "quota_commit ?B t2 d2 = Some (Null_txn, d3)"
      "flat_view No_txn d3 (C(root \<mapsto> quota_text q')) (C(root \<mapsto> quota_text q'))"
    using flat.quota_change [of d C root q q' p] assms quota_text_flat [of q'] n by auto
  obtain d4 where 4: "flat_view No_txn d4 (C(root \<mapsto> quota_text q')) (C(root \<mapsto> quota_text q'))"
    "be_fetch ?B root No_txn d3 = Some (CYRUSDB_OK, Some (quota_text q'), No_txn, d4)"
    using flat.read_committed [of d3 "C(root \<mapsto> quota_text q')" root] 1(4) assms(2) n by auto
  have "quota_read ?B q No_txn False d3 = Some (None, q', No_txn, d4)"
    using 4(2) assms scan_quota_text [of q' q] by (simp add: quota_read_def)
  then show ?thesis using 1 4(1) by blast
qed

text \<open>
  C19: \<^verbatim>\<open>quota_findroot\<close> gives the nearest quota root: among the mailbox and its ancestors in the same domain
  the longest that is a root; when there is none, the root of the domain, if there is one; and it reports
  failure exactly when there is none of these. The database keeps its contents.
\<close>

theorem quota_findroot_nearest:
  assumes "flat_view No_txn d C C" and "key_ok name" and "length name < retlen"
    and "(if virtdomains then (case strchr name (CHR ''!'') of Some (a, b) \<Rightarrow> (a @ ''!'', b) | None \<Rightarrow> ([], name)) else ([], name)) = (domain, mbox)"
  shows "\<exists>found root d'. quota_findroot (cyrusdb_flat working_io) virtdomains retlen name d = Some (found, root, d') \<and> flat_view No_txn d' C C \<and>
    (if \<exists>p. ancestor p mbox \<and> C (domain @ p) \<noteq> None
     then found \<and> (\<exists>p. root = domain @ p \<and> ancestor p mbox \<and> C root \<noteq> None \<and>
       (\<forall>p'. ancestor p' mbox \<and> C (domain @ p') \<noteq> None \<longrightarrow> length p' \<le> length p))
     else found = (domain \<noteq> [] \<and> C domain \<noteq> None) \<and> (found \<longrightarrow> root = domain))"
proof -
  let ?B = "cyrusdb_flat working_io"
  have n: "be_none ?B = No_txn" by (simp add: cyrusdb_flat_def)
  have name: "name = domain @ mbox" using assms(4) by (auto simp: strchr_Some_iff split: if_splits option.splits)
  have k: "key_ok domain" "\<And>p. ancestor p mbox \<Longrightarrow> key_ok (domain @ p)" using assms(2) name by (auto simp: key_ok_def ancestor_def)
  have t: "take (retlen - 1) name = name" using assms(3) by simp
  obtain d1 p where 1: "flat_view No_txn d1 C C"
    "findroot_loop ?B domain mbox d = Some (True, p, d1) \<and> ancestor p mbox \<and> C (domain @ p) \<noteq> None \<and>
       (\<forall>p'. ancestor p' mbox \<longrightarrow> C (domain @ p') \<noteq> None \<longrightarrow> length p' \<le> length p) \<or>
     findroot_loop ?B domain mbox d = Some (False, p, d1) \<and> (\<forall>p'. ancestor p' mbox \<longrightarrow> C (domain @ p') = None)"
    using flat.findroot_loop_view [of d C mbox domain] assms(1) k(2) n by auto
  obtain d2 where 2: "flat_view No_txn d2 C C"
    "be_fetch ?B domain No_txn d1 = Some (if C domain = None then CYRUSDB_NOTFOUND else CYRUSDB_OK, C domain, No_txn, d2)"
    using flat.read_committed [of d1 C domain] 1(1) k(1) n by auto
  have u: "quota_findroot ?B virtdomains retlen name d = (case findroot_loop ?B domain mbox d of
        None \<Rightarrow> None
      | Some (found, mbox, d) \<Rightarrow>
          if found then Some (True, domain @ mbox, d)
          else if domain = [] then Some (False, mbox, d)
          else (case be_fetch ?B domain (be_none ?B) d of None \<Rightarrow> None | Some (r, _, _, d) \<Rightarrow> Some (r = CYRUSDB_OK, domain, d)))"
    using assms(4) t by (simp add: quota_findroot_def)
  from 1(2) show ?thesis
  proof
    assume a: "findroot_loop ?B domain mbox d = Some (True, p, d1) \<and> ancestor p mbox \<and> C (domain @ p) \<noteq> None \<and>
       (\<forall>p'. ancestor p' mbox \<longrightarrow> C (domain @ p') \<noteq> None \<longrightarrow> length p' \<le> length p)"
    then have "quota_findroot ?B virtdomains retlen name d = Some (True, domain @ p, d1)" by (simp add: u)
    moreover have "\<exists>p. ancestor p mbox \<and> C (domain @ p) \<noteq> None" using a by blast
    ultimately show ?thesis using 1(1) a by (simp only: if_True) blast
  next
    assume a: "findroot_loop ?B domain mbox d = Some (False, p, d1) \<and> (\<forall>p'. ancestor p' mbox \<longrightarrow> C (domain @ p') = None)"
    show ?thesis
    proof (cases "domain = []")
      case True
      then have "quota_findroot ?B virtdomains retlen name d = Some (False, p, d1)" using a by (simp add: u)
      then show ?thesis using 1(1) a True by force
    next
      case False
      then have "quota_findroot ?B virtdomains retlen name d = Some (C domain \<noteq> None, domain, d2)"
        using a 2(2) n by (simp add: u CYRUSDB_NOTFOUND_def CYRUSDB_OK_def)
      then show ?thesis using 2(1) a False by force
    qed
  qed
qed

section \<open>Witnesses\<close>

definition two_quotas :: "(string \<times> string) list" where
  "two_quotas = [(''user'', ''7 1000''), (''user.b'', ''2 50'')]"

definition quota_disk :: "flat_world \<times> flat_db" where
  "quota_disk = (\<lparr>fw_file = \<lparr>in_ino = 1, in_text = file_text two_quotas\<rparr>, fw_new = None, fw_locked = False, fw_next = 2\<rparr>,
     \<lparr>db_ino = 1, db_base = file_text two_quotas\<rparr>)"

lemma two_quotas_ok: "file_ok two_quotas" "list_all (\<lambda>e. NUL \<notin> set (snd e)) two_quotas"
  by (simp_all add: two_quotas_def file_ok_def entry_ok_def TOCOMPARE_def)

lemma quota_disk_ok: "flat_view No_txn quota_disk (map_of two_quotas) (map_of two_quotas)"
  using two_quotas_ok by (auto simp: flat_view_def view_ok_def quota_disk_def text_map_def)

lemma quota_text_2: "quota_text \<lparr>qu_root = Some ''user.b'', qu_used = 2, qu_limit = 50\<rparr> = ''2 50''"
  by code_simp

theorem quota_update_persists_witness:
  "\<exists>t1 d1 t2 d2. quota_read (cyrusdb_flat working_io) \<lparr>qu_root = Some ''user.b'', qu_used = 0, qu_limit = 0\<rparr> Null_txn True quota_disk =
      Some (None, \<lparr>qu_root = Some ''user.b'', qu_used = 2, qu_limit = 50\<rparr>, t1, d1) \<and>
    quota_write (cyrusdb_flat working_io) \<lparr>qu_root = Some ''user.b'', qu_used = 9, qu_limit = - 1\<rparr> t1 d1 = Some (None, t2, d2)"
proof -
  have "map_of two_quotas ''user.b'' = Some (quota_text \<lparr>qu_root = Some ''user.b'', qu_used = 2, qu_limit = 50\<rparr>)"
    by (simp add: two_quotas_def quota_text_2)
  then show ?thesis
    using quota_update_persists [OF quota_disk_ok, of "''user.b''" "\<lparr>qu_root = Some ''user.b'', qu_used = 0, qu_limit = 0\<rparr>"
        "\<lparr>qu_root = Some ''user.b'', qu_used = 9, qu_limit = - 1\<rparr>" "\<lparr>qu_root = Some ''user.b'', qu_used = 2, qu_limit = 50\<rparr>"]
    by (auto simp: limit_ok_def)
qed

theorem quota_findroot_nearest_witness:
  "\<exists>root d'. quota_findroot (cyrusdb_flat working_io) False 100 ''user.b.x'' quota_disk = Some (True, root, d')"
proof -
  have "ancestor ''user.b'' ''user.b.x'' \<and> map_of two_quotas ''user.b'' \<noteq> None" by (simp add: ancestor_def two_quotas_def)
  then have "\<exists>p. ancestor p ''user.b.x'' \<and> map_of two_quotas ([] @ p) \<noteq> None" by auto
  then show ?thesis using quota_findroot_nearest [OF quota_disk_ok, of "''user.b.x''" 100 False "[]" "''user.b.x''"] by auto
qed

end
