(* ===== verification/Mailbox_Index.thy ===== *)
theory Mailbox_Index
  imports Quota
begin

text \<open>
  The index file of a mailbox, \<^verbatim>\<open>cyrus.index\<close>: its header, its records and the operations of
  \<^verbatim>\<open>imap/mailbox.c\<close> that read and write them.

  A file is the list of its bytes; \<^verbatim>\<open>mb_index\<close> is the file the mailbox has open, which is also what is mapped
  into memory. An \<^verbatim>\<open>unsigned long\<close> is a natural number and a \<^verbatim>\<open>time_t\<close> an integer; where \<^verbatim>\<open>htonl\<close> keeps 32 bits of
  them the conversion to a word is written. Fields of 64 bits (\<^verbatim>\<open>HAVE_LONG_LONG_INT\<close>) are words. Whether a
  write or an \<^verbatim>\<open>fsync\<close> succeeds is an argument. The upgrade of an index in an older format is not part of
  the model: \<^verbatim>\<open>Index_Upgrade\<close> says that the code would start it.
\<close>

section \<open>Numbers in a file\<close>

definition get32 :: "string \<Rightarrow> nat \<Rightarrow> 32 word" where
  "get32 b off = ntohl (take 4 (drop off b))"

definition put32 :: "nat \<Rightarrow> 32 word \<Rightarrow> string \<Rightarrow> string" where
  "put32 off w b = take off b @ htonl w @ drop (off + 4) b"

definition get64 :: "string \<Rightarrow> nat \<Rightarrow> 64 word" where
  "get64 b off = word_cat (get32 b off) (get32 b (off + 4))"

definition put64 :: "nat \<Rightarrow> 64 word \<Rightarrow> string \<Rightarrow> string" where
  "put64 off w b = put32 (off + 4) (ucast w) (put32 off (ucast (drop_bit 32 w)) b)"

definition put_bytes :: "nat \<Rightarrow> string \<Rightarrow> string \<Rightarrow> string" where
  "put_bytes off x b = take off b @ x @ drop (off + length x) b"

text \<open>What is at another place stays.\<close>

definition apart :: "nat \<Rightarrow> nat \<Rightarrow> nat \<Rightarrow> nat \<Rightarrow> bool" where
  "apart o1 n1 o2 n2 \<longleftrightarrow> o1 + n1 \<le> o2 \<or> o2 + n2 \<le> o1"

named_theorems fields \<open>reading and writing the fields of a file\<close>

lemma length_put_bytes [simp, fields]: "off + length x \<le> length b \<Longrightarrow> length (put_bytes off x b) = length b"
  by (simp add: put_bytes_def)

lemma take_put_bytes: "off + length x \<le> length b \<Longrightarrow> take (length x) (drop off (put_bytes off x b)) = x"
  by (simp add: put_bytes_def)

lemma take_put_other:
  "off + length x \<le> length b \<Longrightarrow> apart off (length x) o' n \<Longrightarrow> take n (drop o' (put_bytes off x b)) = take n (drop o' b)"
proof -
  assume a: "off + length x \<le> length b" "apart off (length x) o' n"
  have t: "take n (drop o' b) = map (\<lambda>i. b ! i) [o'..<min (o' + n) (length b)]" for b :: string
    by (rule nth_equalityI) auto
  have "put_bytes off x b ! i = b ! i" if "i < off \<or> off + length x \<le> i" "i < length b" for i
    using a(1) that by (auto simp: put_bytes_def nth_append)
  then show ?thesis unfolding t using a by (auto simp: apart_def)
qed

lemma put32_bytes: "put32 off w b = put_bytes off (htonl w) b"
  by (simp add: put32_def put_bytes_def)

lemma length_put32 [simp, fields]: "off + 4 \<le> length b \<Longrightarrow> length (put32 off w b) = length b"
  by (simp add: put32_bytes)

lemma get_put32 [simp, fields]: "off + 4 \<le> length b \<Longrightarrow> get32 (put32 off w b) off = w"
  using take_put_bytes [of off "htonl w" b] by (simp add: get32_def put32_bytes)

lemma get_put32_other [fields]: "off + 4 \<le> length b \<Longrightarrow> apart off 4 o' 4 \<Longrightarrow> get32 (put32 off w b) o' = get32 b o'"
  using take_put_other [of off "htonl w" b o' 4] by (simp add: get32_def put32_bytes)

lemma length_put64 [simp, fields]: "off + 8 \<le> length b \<Longrightarrow> length (put64 off w b) = length b"
  by (simp add: put64_def)

lemma split64: "word_cat (ucast (drop_bit 32 w) :: 32 word) (ucast w :: 32 word) = (w :: 64 word)"
  by (rule bit_word_eqI) (auto simp: bit_word_cat_iff bit_ucast_iff bit_drop_bit_eq)

lemma get_put64 [simp, fields]: "off + 8 \<le> length b \<Longrightarrow> get64 (put64 off w b) off = w"
  by (simp add: get64_def put64_def get_put32_other apart_def split64)

lemma get32_put64 [fields]: "off + 8 \<le> length b \<Longrightarrow> apart off 8 o' 4 \<Longrightarrow> get32 (put64 off w b) o' = get32 b o'"
  by (auto simp: put64_def get_put32_other apart_def)

lemma get64_put32 [fields]: "off + 4 \<le> length b \<Longrightarrow> apart off 4 o' 8 \<Longrightarrow> get64 (put32 off w b) o' = get64 b o'"
  by (auto simp: get64_def get_put32_other apart_def)

lemma get64_put64 [fields]: "off + 8 \<le> length b \<Longrightarrow> apart off 8 o' 8 \<Longrightarrow> get64 (put64 off w b) o' = get64 b o'"
  by (auto simp: get64_def get32_put64 apart_def)

lemma take_put32_other [fields]:
  "off + 4 \<le> length b \<Longrightarrow> apart off 4 o' n \<Longrightarrow> take n (drop o' (put32 off w b)) = take n (drop o' b)"
  by (simp add: put32_bytes take_put_other)

lemma take_put64_other [fields]:
  "off + 8 \<le> length b \<Longrightarrow> apart off 8 o' n \<Longrightarrow> take n (drop o' (put64 off w b)) = take n (drop o' b)"
  by (auto simp: put64_def take_put32_other apart_def)

lemma get32_put_bytes [fields]:
  "off + length x \<le> length b \<Longrightarrow> apart off (length x) o' 4 \<Longrightarrow> get32 (put_bytes off x b) o' = get32 b o'"
  by (simp add: get32_def take_put_other)

lemma get64_put_bytes [fields]:
  "off + length x \<le> length b \<Longrightarrow> apart off (length x) o' 8 \<Longrightarrow> get64 (put_bytes off x b) o' = get64 b o'"
  by (auto simp: get64_def get32_put_bytes apart_def)

section \<open>The layout\<close>

definition OFFSET_GENERATION_NO :: nat where "OFFSET_GENERATION_NO = 0"
definition OFFSET_FORMAT :: nat where "OFFSET_FORMAT = 4"
definition OFFSET_MINOR_VERSION :: nat where "OFFSET_MINOR_VERSION = 8"
definition OFFSET_START_OFFSET :: nat where "OFFSET_START_OFFSET = 12"
definition OFFSET_RECORD_SIZE :: nat where "OFFSET_RECORD_SIZE = 16"
definition OFFSET_EXISTS :: nat where "OFFSET_EXISTS = 20"
definition OFFSET_LAST_APPENDDATE :: nat where "OFFSET_LAST_APPENDDATE = 24"
definition OFFSET_LAST_UID :: nat where "OFFSET_LAST_UID = 28"
definition OFFSET_QUOTA_MAILBOX_USED64 :: nat where "OFFSET_QUOTA_MAILBOX_USED64 = 32"
definition OFFSET_QUOTA_MAILBOX_USED :: nat where "OFFSET_QUOTA_MAILBOX_USED = 36"
definition OFFSET_POP3_LAST_LOGIN :: nat where "OFFSET_POP3_LAST_LOGIN = 40"
definition OFFSET_UIDVALIDITY :: nat where "OFFSET_UIDVALIDITY = 44"
definition OFFSET_DELETED :: nat where "OFFSET_DELETED = 48"
definition OFFSET_ANSWERED :: nat where "OFFSET_ANSWERED = 52"
definition OFFSET_FLAGGED :: nat where "OFFSET_FLAGGED = 56"
definition OFFSET_MAILBOX_OPTIONS :: nat where "OFFSET_MAILBOX_OPTIONS = 60"
definition OFFSET_LEAKED_CACHE :: nat where "OFFSET_LEAKED_CACHE = 64"
definition OFFSET_HIGHESTMODSEQ_64 :: nat where "OFFSET_HIGHESTMODSEQ_64 = 68"
definition OFFSET_HIGHESTMODSEQ :: nat where "OFFSET_HIGHESTMODSEQ = 72"
definition OFFSET_SPARE0 :: nat where "OFFSET_SPARE0 = 76"
definition OFFSET_SPARE1 :: nat where "OFFSET_SPARE1 = 80"
definition OFFSET_SPARE2 :: nat where "OFFSET_SPARE2 = 84"
definition OFFSET_SPARE3 :: nat where "OFFSET_SPARE3 = 88"
definition OFFSET_SPARE4 :: nat where "OFFSET_SPARE4 = 92"

definition MAX_USER_FLAGS :: nat where "MAX_USER_FLAGS = 16 * 8"
definition MESSAGE_UUID_PACKED_SIZE :: nat where "MESSAGE_UUID_PACKED_SIZE = 12"

definition OFFSET_UID :: nat where "OFFSET_UID = 0"
definition OFFSET_INTERNALDATE :: nat where "OFFSET_INTERNALDATE = 4"
definition OFFSET_SENTDATE :: nat where "OFFSET_SENTDATE = 8"
definition OFFSET_SIZE :: nat where "OFFSET_SIZE = 12"
definition OFFSET_HEADER_SIZE :: nat where "OFFSET_HEADER_SIZE = 16"
definition OFFSET_CONTENT_OFFSET :: nat where "OFFSET_CONTENT_OFFSET = 20"
definition OFFSET_CACHE_OFFSET :: nat where "OFFSET_CACHE_OFFSET = 24"
definition OFFSET_LAST_UPDATED :: nat where "OFFSET_LAST_UPDATED = 28"
definition OFFSET_SYSTEM_FLAGS :: nat where "OFFSET_SYSTEM_FLAGS = 32"
definition OFFSET_USER_FLAGS :: nat where "OFFSET_USER_FLAGS = 36"
definition OFFSET_CONTENT_LINES :: nat where "OFFSET_CONTENT_LINES = OFFSET_USER_FLAGS + MAX_USER_FLAGS div 8"
definition OFFSET_CACHE_VERSION :: nat where "OFFSET_CACHE_VERSION = OFFSET_CONTENT_LINES + 4"
definition OFFSET_MESSAGE_UUID :: nat where "OFFSET_MESSAGE_UUID = OFFSET_CACHE_VERSION + 4"
definition OFFSET_MODSEQ_64 :: nat where "OFFSET_MODSEQ_64 = OFFSET_MESSAGE_UUID + MESSAGE_UUID_PACKED_SIZE"
definition OFFSET_MODSEQ :: nat where "OFFSET_MODSEQ = OFFSET_MODSEQ_64 + 4"

definition INDEX_HEADER_SIZE :: nat where "INDEX_HEADER_SIZE = OFFSET_SPARE4 + 4"
definition INDEX_RECORD_SIZE :: nat where "INDEX_RECORD_SIZE = OFFSET_MODSEQ + 4"

definition MAILBOX_MINOR_VERSION :: int where "MAILBOX_MINOR_VERSION = 9"

definition FLAG_ANSWERED :: "32 word" where "FLAG_ANSWERED = 1"
definition FLAG_FLAGGED :: "32 word" where "FLAG_FLAGGED = 2"
definition FLAG_DELETED :: "32 word" where "FLAG_DELETED = 4"
definition FLAG_DRAFT :: "32 word" where "FLAG_DRAFT = 8"

definition OPT_POP3_NEW_UIDL :: nat where "OPT_POP3_NEW_UIDL = 1"
definition OPT_IMAP_CONDSTORE :: nat where "OPT_IMAP_CONDSTORE = 2"

named_theorems offsets \<open>offsets of the fields\<close>

declare OFFSET_GENERATION_NO_def [offsets] OFFSET_FORMAT_def [offsets] OFFSET_MINOR_VERSION_def [offsets]
  OFFSET_START_OFFSET_def [offsets] OFFSET_RECORD_SIZE_def [offsets] OFFSET_EXISTS_def [offsets]
  OFFSET_LAST_APPENDDATE_def [offsets] OFFSET_LAST_UID_def [offsets] OFFSET_QUOTA_MAILBOX_USED64_def [offsets]
  OFFSET_QUOTA_MAILBOX_USED_def [offsets] OFFSET_POP3_LAST_LOGIN_def [offsets] OFFSET_UIDVALIDITY_def [offsets]
  OFFSET_DELETED_def [offsets] OFFSET_ANSWERED_def [offsets] OFFSET_FLAGGED_def [offsets] OFFSET_MAILBOX_OPTIONS_def [offsets]
  OFFSET_LEAKED_CACHE_def [offsets] OFFSET_HIGHESTMODSEQ_64_def [offsets] OFFSET_HIGHESTMODSEQ_def [offsets]
  OFFSET_SPARE0_def [offsets] OFFSET_SPARE1_def [offsets] OFFSET_SPARE2_def [offsets] OFFSET_SPARE3_def [offsets]
  OFFSET_SPARE4_def [offsets]

declare OFFSET_UID_def [offsets] OFFSET_INTERNALDATE_def [offsets] OFFSET_SENTDATE_def [offsets] OFFSET_SIZE_def [offsets]
  OFFSET_HEADER_SIZE_def [offsets] OFFSET_CONTENT_OFFSET_def [offsets] OFFSET_CACHE_OFFSET_def [offsets]
  OFFSET_LAST_UPDATED_def [offsets] OFFSET_SYSTEM_FLAGS_def [offsets] OFFSET_USER_FLAGS_def [offsets]
  OFFSET_CONTENT_LINES_def [offsets] OFFSET_CACHE_VERSION_def [offsets] OFFSET_MESSAGE_UUID_def [offsets]
  OFFSET_MODSEQ_64_def [offsets] OFFSET_MODSEQ_def [offsets] INDEX_HEADER_SIZE_def [offsets] INDEX_RECORD_SIZE_def [offsets]
  MAX_USER_FLAGS_def [offsets] MESSAGE_UUID_PACKED_SIZE_def [offsets]

section \<open>Data\<close>

record index_record =
  ir_uid :: nat
  ir_internaldate :: int
  ir_sentdate :: int
  ir_size :: nat
  ir_header_size :: nat
  ir_content_offset :: nat
  ir_cache_offset :: nat
  ir_last_updated :: int
  ir_system_flags :: "32 word"
  ir_user_flags :: "32 word list"
  ir_content_lines :: nat
  ir_cache_version :: nat
  ir_uuid :: string
  ir_modseq :: "64 word"

record mailbox =
  mb_index :: string
  mb_cache :: string
  mb_index_ino :: nat
  mb_header_lock_count :: nat
  mb_index_lock_count :: nat
  mb_pop_lock_count :: nat
  generation_no :: "32 word"
  format :: int
  minor_version :: int
  start_offset :: nat
  record_size :: nat
  exists :: nat
  last_appenddate :: int
  last_uid :: nat
  quota_mailbox_used :: "64 word"
  pop3_last_login :: nat
  uidvalidity :: nat
  deleted :: nat
  answered :: nat
  flagged :: nat
  options :: nat
  leaked_cache_records :: nat
  highestmodseq :: "64 word"
  mb_quota :: quota
  myrights :: "32 word"
  flagname :: "string option list"

datatype index_result = Index_Ok mailbox | Index_Error imap_error | Index_Upgrade mailbox

section \<open>The header\<close>

definition mailbox_read_index_header :: "bool \<Rightarrow> mailbox \<Rightarrow> index_result" where
  "mailbox_read_index_header reconstruct m =
     (let b = mb_index m; g = (\<lambda>off. unat (get32 b off)) in
      if length b < OFFSET_POP3_LAST_LOGIN \<or> length b < g OFFSET_START_OFFSET then Index_Error IMAP_MAILBOX_BADFORMAT
      else
        let m = (if reconstruct then m\<lparr>generation_no := get32 b OFFSET_GENERATION_NO\<rparr> else m);
            m = m\<lparr>format := sint (get32 b OFFSET_FORMAT), minor_version := sint (get32 b OFFSET_MINOR_VERSION),
                  start_offset := g OFFSET_START_OFFSET, record_size := g OFFSET_RECORD_SIZE\<rparr>
        in if start_offset m < OFFSET_HIGHESTMODSEQ + 4 \<or> record_size m < INDEX_RECORD_SIZE \<or> minor_version m < MAILBOX_MINOR_VERSION
        then Index_Upgrade m
        else
          let m = m\<lparr>exists := g OFFSET_EXISTS, last_appenddate := int (g OFFSET_LAST_APPENDDATE), last_uid := g OFFSET_LAST_UID,
                quota_mailbox_used := (if minor_version m > 5 then get64 b OFFSET_QUOTA_MAILBOX_USED64
                  else ucast (get32 b OFFSET_QUOTA_MAILBOX_USED)),
                pop3_last_login := g OFFSET_POP3_LAST_LOGIN, uidvalidity := g OFFSET_UIDVALIDITY, deleted := g OFFSET_DELETED,
                answered := g OFFSET_ANSWERED, flagged := g OFFSET_FLAGGED, options := g OFFSET_MAILBOX_OPTIONS,
                leaked_cache_records := g OFFSET_LEAKED_CACHE, highestmodseq := get64 b OFFSET_HIGHESTMODSEQ_64\<rparr>;
              m = (if exists m = 0 then m\<lparr>options := options m OR OPT_POP3_NEW_UIDL\<rparr> else m)
          in if \<not> reconstruct \<and> minor_version m < MAILBOX_MINOR_VERSION then Index_Error IMAP_MAILBOX_BADFORMAT
          else Index_Ok m)"

text \<open>The bytes of the buffer before anything is stored in it are \<^verbatim>\<open>junk\<close>; every one is overwritten.\<close>

definition header_buf :: "string \<Rightarrow> mailbox \<Rightarrow> string" where
  "header_buf junk m =
     (let p = (\<lambda>off n. put32 off (of_nat n)) in
      (p OFFSET_SPARE4 0 \<circ> p OFFSET_SPARE3 0 \<circ> p OFFSET_SPARE2 0 \<circ> p OFFSET_SPARE1 0 \<circ> p OFFSET_SPARE0 0 \<circ>
       put64 OFFSET_HIGHESTMODSEQ_64 (highestmodseq m) \<circ> p OFFSET_LEAKED_CACHE (leaked_cache_records m) \<circ>
       p OFFSET_MAILBOX_OPTIONS (options m) \<circ> p OFFSET_FLAGGED (flagged m) \<circ> p OFFSET_ANSWERED (answered m) \<circ>
       p OFFSET_DELETED (deleted m) \<circ> p OFFSET_UIDVALIDITY (uidvalidity m) \<circ> p OFFSET_POP3_LAST_LOGIN (pop3_last_login m) \<circ>
       put64 OFFSET_QUOTA_MAILBOX_USED64 (quota_mailbox_used m) \<circ> p OFFSET_LAST_UID (last_uid m) \<circ>
       put32 OFFSET_LAST_APPENDDATE (word_of_int (last_appenddate m)) \<circ> p OFFSET_EXISTS (exists m) \<circ>
       p OFFSET_RECORD_SIZE (record_size m) \<circ> p OFFSET_START_OFFSET (start_offset m) \<circ>
       put32 OFFSET_MINOR_VERSION (word_of_int (minor_version m)) \<circ> put32 OFFSET_FORMAT (word_of_int (format m)) \<circ>
       put32 OFFSET_GENERATION_NO (generation_no m)) junk)"

text \<open>\<^verbatim>\<open>retry_write\<close> at a position: what is behind the end of the file is filled with NUL; a failed write leaves some of the bytes.\<close>

definition write_at :: "nat \<Rightarrow> string \<Rightarrow> string \<Rightarrow> string" where
  "write_at off x b = (if x = [] then b else put_bytes off x (b @ replicate (off + length x - length b) NUL))"

record write_io =
  wr_written :: "nat option"
  wr_sync :: bool

definition wr_bytes :: "write_io \<Rightarrow> string \<Rightarrow> string" where
  "wr_bytes io x = (case wr_written io of None \<Rightarrow> x | Some n \<Rightarrow> take n x)"

definition write_fails :: "write_io \<Rightarrow> string \<Rightarrow> bool" where
  "write_fails io x \<longleftrightarrow> length (wr_bytes io x) \<noteq> length x"

text \<open>\<^verbatim>\<open>None\<close> is a run that ends with the failed assertion on the lock.\<close>

definition mailbox_write_index_header :: "write_io \<Rightarrow> string \<Rightarrow> mailbox \<Rightarrow> (imap_error option \<times> mailbox) option" where
  "mailbox_write_index_header io junk m =
     (if mb_index_lock_count m = 0 then None
      else
        let buf = header_buf junk m; x = take (min INDEX_HEADER_SIZE (start_offset m)) buf;
            m = m\<lparr>mb_index := write_at 0 (wr_bytes io x) (mb_index m)\<rparr>
        in Some (if write_fails io x \<or> \<not> wr_sync io then Some IMAP_IOERROR else None, m))"

section \<open>Records\<close>

definition user_flags_buf :: "32 word list \<Rightarrow> string \<Rightarrow> string" where
  "user_flags_buf ws b = fold (\<lambda>n. put32 (OFFSET_USER_FLAGS + 4 * n) (ws ! n)) [0..<MAX_USER_FLAGS div 32] b"

definition mailbox_index_record_to_buf :: "index_record \<Rightarrow> string \<Rightarrow> string" where
  "mailbox_index_record_to_buf r =
     (let p = (\<lambda>off n. put32 off (of_nat n)); q = (\<lambda>off n. put32 off (word_of_int n)) in
      put64 OFFSET_MODSEQ_64 (ir_modseq r) \<circ> put_bytes OFFSET_MESSAGE_UUID (ir_uuid r) \<circ> p OFFSET_CACHE_VERSION (ir_cache_version r) \<circ>
      p OFFSET_CONTENT_LINES (ir_content_lines r) \<circ> user_flags_buf (ir_user_flags r) \<circ>
      put32 OFFSET_SYSTEM_FLAGS (ir_system_flags r) \<circ> q OFFSET_LAST_UPDATED (ir_last_updated r) \<circ>
      p OFFSET_CACHE_OFFSET (ir_cache_offset r) \<circ> p OFFSET_CONTENT_OFFSET (ir_content_offset r) \<circ>
      p OFFSET_HEADER_SIZE (ir_header_size r) \<circ> p OFFSET_SIZE (ir_size r) \<circ> q OFFSET_SENTDATE (ir_sentdate r) \<circ>
      q OFFSET_INTERNALDATE (ir_internaldate r) \<circ> p OFFSET_UID (ir_uid r))"

definition record_of_buf :: "string \<Rightarrow> index_record" where
  "record_of_buf buf = (let g = (\<lambda>off. unat (get32 buf off)) in
     \<lparr>ir_uid = g OFFSET_UID, ir_internaldate = int (g OFFSET_INTERNALDATE), ir_sentdate = int (g OFFSET_SENTDATE), ir_size = g OFFSET_SIZE,
      ir_header_size = g OFFSET_HEADER_SIZE, ir_content_offset = g OFFSET_CONTENT_OFFSET, ir_cache_offset = g OFFSET_CACHE_OFFSET,
      ir_last_updated = int (g OFFSET_LAST_UPDATED), ir_system_flags = get32 buf OFFSET_SYSTEM_FLAGS,
      ir_user_flags = map (\<lambda>n. get32 buf (OFFSET_USER_FLAGS + 4 * n)) [0..<MAX_USER_FLAGS div 32],
      ir_content_lines = g OFFSET_CONTENT_LINES, ir_cache_version = g OFFSET_CACHE_VERSION,
      ir_uuid = take MESSAGE_UUID_PACKED_SIZE (drop OFFSET_MESSAGE_UUID buf), ir_modseq = get64 buf OFFSET_MODSEQ_64\<rparr>)"

definition record_offset :: "mailbox \<Rightarrow> nat \<Rightarrow> nat" where
  "record_offset m msgno = start_offset m + (msgno - 1) * record_size m"

definition mailbox_read_index_record :: "mailbox \<Rightarrow> nat \<Rightarrow> imap_error + index_record" where
  "mailbox_read_index_record m msgno =
     (let offset = record_offset m msgno in
      if offset + INDEX_RECORD_SIZE > length (mb_index m) then Inl IMAP_IOERROR else Inr (record_of_buf (drop offset (mb_index m))))"

definition mailbox_write_index_record :: "write_io \<Rightarrow> string \<Rightarrow> mailbox \<Rightarrow> nat \<Rightarrow> index_record \<Rightarrow> bool \<Rightarrow> imap_error option \<times> mailbox" where
  "mailbox_write_index_record io junk m msgno r sync =
     (let x = take INDEX_RECORD_SIZE (mailbox_index_record_to_buf r junk);
          m' = m\<lparr>mb_index := write_at (record_offset m msgno) (wr_bytes io x) (mb_index m)\<rparr>
      in (if write_fails io x \<or> sync \<and> \<not> wr_sync io then Some IMAP_IOERROR else None, m'))"

text \<open>The third test looks at \<^verbatim>\<open>last_updated\<close> and sets \<^verbatim>\<open>internaldate\<close>.\<close>

definition sane_times :: "int \<Rightarrow> index_record \<Rightarrow> index_record" where
  "sane_times now r =
     (let r = (if ir_internaldate r \<le> 0 then r\<lparr>ir_internaldate := now\<rparr> else r);
          r = (if ir_sentdate r \<le> 0 then r\<lparr>ir_sentdate := now\<rparr> else r)
      in if ir_last_updated r \<le> 0 then r\<lparr>ir_internaldate := now\<rparr> else r)"

definition record_bytes :: "nat \<Rightarrow> index_record \<Rightarrow> string" where
  "record_bytes sz r = mailbox_index_record_to_buf r (replicate sz NUL)"

definition mailbox_append_index :: "write_io \<Rightarrow> int \<Rightarrow> mailbox \<Rightarrow> index_record list \<Rightarrow> nat \<Rightarrow> bool \<Rightarrow> (imap_error option \<times> mailbox) option" where
  "mailbox_append_index io now m rs start sync =
     (if mb_index_lock_count m = 0 then None
      else if record_size m < INDEX_RECORD_SIZE then Some (Some IMAP_MAILBOX_BADFORMAT, m)
      else
        let buf = concat (map (\<lambda>r. record_bytes (record_size m) (sane_times now r)) rs);
            last_offset = start_offset m + start * record_size m;
            b = write_at last_offset (wr_bytes io buf) (mb_index m)
        in if write_fails io buf \<or> sync \<and> \<not> wr_sync io
        then Some (Some IMAP_IOERROR, m\<lparr>mb_index := take last_offset b @ replicate (last_offset - length b) NUL\<rparr>)
        else Some (None, m\<lparr>mb_index := b\<rparr>))"

section \<open>Round trips\<close>

definition fits32 :: "nat \<Rightarrow> bool" where
  "fits32 n \<longleftrightarrow> n < 2 ^ 32"

definition time_ok :: "int \<Rightarrow> bool" where
  "time_ok t \<longleftrightarrow> 0 \<le> t \<and> t < 2 ^ 32"

lemma unat_of_fits [simp]: "fits32 n \<Longrightarrow> unat (of_nat n :: 32 word) = n"
  by (simp add: fits32_def unat_of_nat)

lemma time_of_word [simp]: "time_ok t \<Longrightarrow> uint (word_of_int t :: 32 word) = t"
  by (simp add: time_ok_def uint_word_of_int)

definition record_fits :: "index_record \<Rightarrow> bool" where
  "record_fits r \<longleftrightarrow> fits32 (ir_uid r) \<and> time_ok (ir_internaldate r) \<and> time_ok (ir_sentdate r) \<and> fits32 (ir_size r) \<and>
     fits32 (ir_header_size r) \<and> fits32 (ir_content_offset r) \<and> fits32 (ir_cache_offset r) \<and> time_ok (ir_last_updated r) \<and>
     length (ir_user_flags r) = MAX_USER_FLAGS div 32 \<and> fits32 (ir_content_lines r) \<and> fits32 (ir_cache_version r) \<and>
     length (ir_uuid r) = MESSAGE_UUID_PACKED_SIZE"

text \<open>Fields written one behind the other are the concatenation of their bytes.\<close>

lemma put_first: "put32 0 w b = htonl w @ drop 4 b"
  by (simp add: put32_def)

lemma put_next: "length x = off \<Longrightarrow> k = off \<Longrightarrow> put32 off w (x @ drop k b) = (x @ htonl w) @ drop (off + 4) b"
  by (simp add: put32_def add.commute)

lemma put_bytes_next: "length x = off \<Longrightarrow> k = off \<Longrightarrow> put_bytes off y (x @ drop k b) = (x @ y) @ drop (off + length y) b"
  by (simp add: put_bytes_def add.commute)

lemma user_flags_four: "user_flags_buf ws b = put32 48 (ws ! 3) (put32 44 (ws ! 2) (put32 40 (ws ! 1) (put32 36 (ws ! 0) b)))"
proof -
  have "[0..<4] = [0, 1, 2, 3 :: nat]" by (simp add: upt_rec)
  then show ?thesis by (simp add: user_flags_buf_def offsets)
qed

lemma flags_list: "length ws = 4 \<Longrightarrow> [ws ! 0, ws ! 1, ws ! 2, ws ! 3] = (ws :: 'a list)"
  by (auto simp: numeral_eq_Suc length_Suc_conv)

definition htonll :: "64 word \<Rightarrow> string" where
  "htonll w = htonl (ucast (drop_bit 32 w)) @ htonl (ucast w)"

definition record_text :: "index_record \<Rightarrow> string" where
  "record_text r = htonl (of_nat (ir_uid r)) @ htonl (word_of_int (ir_internaldate r)) @ htonl (word_of_int (ir_sentdate r)) @
     htonl (of_nat (ir_size r)) @ htonl (of_nat (ir_header_size r)) @ htonl (of_nat (ir_content_offset r)) @
     htonl (of_nat (ir_cache_offset r)) @ htonl (word_of_int (ir_last_updated r)) @ htonl (ir_system_flags r) @
     htonl (ir_user_flags r ! 0) @ htonl (ir_user_flags r ! 1) @ htonl (ir_user_flags r ! 2) @ htonl (ir_user_flags r ! 3) @
     htonl (of_nat (ir_content_lines r)) @ htonl (of_nat (ir_cache_version r)) @ ir_uuid r @ htonll (ir_modseq r)"

lemmas put_in_order = o_apply put_first put_next put_bytes_next length_append htonl_length Let_def put64_def

lemma record_buf_text:
  assumes "length (ir_uuid r) = 12"
  shows "mailbox_index_record_to_buf r b = record_text r @ drop 80 b"
proof -
  have n: "(4 + 4 :: nat) = 8" "(8 + 4 :: nat) = 12" "(12 + 4 :: nat) = 16" "(16 + 4 :: nat) = 20" "(20 + 4 :: nat) = 24"
    "(24 + 4 :: nat) = 28" "(28 + 4 :: nat) = 32" "(32 + 4 :: nat) = 36" "(36 + 4 :: nat) = 40" "(40 + 4 :: nat) = 44"
    "(44 + 4 :: nat) = 48" "(48 + 4 :: nat) = 52" "(52 + 4 :: nat) = 56" "(56 + 4 :: nat) = 60" "(60 + 12 :: nat) = 72"
    "(72 + 4 :: nat) = 76" "(76 + 4 :: nat) = 80" "(36 + 16 :: nat) = 52" "(16 * 8 div 8 :: nat) = 16" by simp_all
  show ?thesis unfolding mailbox_index_record_to_buf_def user_flags_four offsets record_text_def htonll_def
    by (simp only: put_in_order n assms append_assoc [symmetric] o_def)
qed

lemma length_record_text: "length (ir_uuid r) = 12 \<Longrightarrow> length (record_text r) = 80"
  by (simp add: record_text_def htonll_def)

lemma get32_at: "length x = off \<Longrightarrow> get32 (x @ htonl w @ y) off = w"
  by (simp add: get32_def)

lemma get64_at: "length x = off \<Longrightarrow> get64 (x @ htonll w @ y) off = w"
  by (simp add: get64_def get32_def htonll_def split64)

lemmas get_text = get32_def get64_def htonll_def split64

lemma record_fields:
  assumes "length (ir_uuid r) = 12"
  shows "get32 (record_text r @ y) OFFSET_UID = of_nat (ir_uid r)" "get32 (record_text r @ y) OFFSET_INTERNALDATE = word_of_int (ir_internaldate r)"
    "get32 (record_text r @ y) OFFSET_SENTDATE = word_of_int (ir_sentdate r)" "get32 (record_text r @ y) OFFSET_SIZE = of_nat (ir_size r)"
    "get32 (record_text r @ y) OFFSET_HEADER_SIZE = of_nat (ir_header_size r)" "get32 (record_text r @ y) OFFSET_CONTENT_OFFSET = of_nat (ir_content_offset r)"
    "get32 (record_text r @ y) OFFSET_CACHE_OFFSET = of_nat (ir_cache_offset r)" "get32 (record_text r @ y) OFFSET_LAST_UPDATED = word_of_int (ir_last_updated r)"
    "get32 (record_text r @ y) OFFSET_SYSTEM_FLAGS = ir_system_flags r" "get32 (record_text r @ y) OFFSET_CONTENT_LINES = of_nat (ir_content_lines r)"
    "get32 (record_text r @ y) OFFSET_CACHE_VERSION = of_nat (ir_cache_version r)" "get64 (record_text r @ y) OFFSET_MODSEQ_64 = ir_modseq r"
  using assms by (simp_all add: record_text_def get_text offsets)

lemma record_of_text:
  assumes "record_fits r"
  shows "record_of_buf (record_text r @ y) = r"
proof -
  have uuid: "length (ir_uuid r) = 12" and ws: "length (ir_user_flags r) = 4" using assms by (simp_all add: record_fits_def offsets)
  let ?b = "record_text r @ y"
  note 1 = record_fields [OF uuid, of y]
  have "[0..<4] = [0, 1, 2, 3 :: nat]" by (simp add: upt_rec)
  then have "map (\<lambda>n. get32 ?b (OFFSET_USER_FLAGS + 4 * n)) [0..<MAX_USER_FLAGS div 32] =
      [ir_user_flags r ! 0, ir_user_flags r ! 1, ir_user_flags r ! 2, ir_user_flags r ! 3]"
    by (simp add: record_text_def get_text offsets)
  then have 2: "map (\<lambda>n. get32 ?b (OFFSET_USER_FLAGS + 4 * n)) [0..<MAX_USER_FLAGS div 32] = ir_user_flags r"
    using flags_list [OF ws] by simp
  have "take MESSAGE_UUID_PACKED_SIZE (drop OFFSET_MESSAGE_UUID ?b) = ir_uuid r" using uuid by (simp add: record_text_def offsets)
  then show ?thesis using 1 2 assms by (simp add: record_of_buf_def Let_def record_fits_def)
qed

definition header_bytes :: "mailbox \<Rightarrow> string" where
  "header_bytes m = htonl (generation_no m) @ htonl (word_of_int (format m)) @ htonl (word_of_int (minor_version m)) @
     htonl (of_nat (start_offset m)) @ htonl (of_nat (record_size m)) @ htonl (of_nat (exists m)) @
     htonl (word_of_int (last_appenddate m)) @ htonl (of_nat (last_uid m)) @ htonll (quota_mailbox_used m) @
     htonl (of_nat (pop3_last_login m)) @ htonl (of_nat (uidvalidity m)) @ htonl (of_nat (deleted m)) @
     htonl (of_nat (answered m)) @ htonl (of_nat (flagged m)) @ htonl (of_nat (options m)) @
     htonl (of_nat (leaked_cache_records m)) @ htonll (highestmodseq m) @ htonl 0 @ htonl 0 @ htonl 0 @ htonl 0 @ htonl 0"

lemma length_header_bytes [simp]: "length (header_bytes m) = 96"
  by (simp add: header_bytes_def htonll_def)

lemma header_buf_text: "header_buf junk m = header_bytes m @ drop 96 junk"
proof -
  have n: "(4 + 4 :: nat) = 8" "(8 + 4 :: nat) = 12" "(12 + 4 :: nat) = 16" "(16 + 4 :: nat) = 20" "(20 + 4 :: nat) = 24"
    "(24 + 4 :: nat) = 28" "(28 + 4 :: nat) = 32" "(32 + 4 :: nat) = 36" "(36 + 4 :: nat) = 40" "(40 + 4 :: nat) = 44"
    "(44 + 4 :: nat) = 48" "(48 + 4 :: nat) = 52" "(52 + 4 :: nat) = 56" "(56 + 4 :: nat) = 60" "(60 + 4 :: nat) = 64"
    "(64 + 4 :: nat) = 68" "(68 + 4 :: nat) = 72" "(72 + 4 :: nat) = 76" "(76 + 4 :: nat) = 80" "(80 + 4 :: nat) = 84"
    "(84 + 4 :: nat) = 88" "(88 + 4 :: nat) = 92" "(92 + 4 :: nat) = 96" by simp_all
  have z: "(of_nat 0 :: 32 word) = 0" by simp
  show ?thesis unfolding header_buf_def offsets header_bytes_def htonll_def
    by (simp only: put_in_order n append_assoc [symmetric] o_def z)
qed

definition header_fits :: "mailbox \<Rightarrow> bool" where
  "header_fits m \<longleftrightarrow> 0 \<le> format m \<and> format m < 2 ^ 31 \<and> MAILBOX_MINOR_VERSION \<le> minor_version m \<and> minor_version m < 2 ^ 31 \<and>
     INDEX_HEADER_SIZE \<le> start_offset m \<and> fits32 (start_offset m) \<and> INDEX_RECORD_SIZE \<le> record_size m \<and> fits32 (record_size m) \<and>
     fits32 (exists m) \<and> time_ok (last_appenddate m) \<and> fits32 (last_uid m) \<and> fits32 (pop3_last_login m) \<and> fits32 (uidvalidity m) \<and>
     fits32 (deleted m) \<and> fits32 (answered m) \<and> fits32 (flagged m) \<and> fits32 (options m) \<and> fits32 (leaked_cache_records m)"

lemma header_fields:
  "get32 (header_bytes m @ y) OFFSET_GENERATION_NO = generation_no m" "get32 (header_bytes m @ y) OFFSET_FORMAT = word_of_int (format m)"
  "get32 (header_bytes m @ y) OFFSET_MINOR_VERSION = word_of_int (minor_version m)"
  "get32 (header_bytes m @ y) OFFSET_START_OFFSET = of_nat (start_offset m)" "get32 (header_bytes m @ y) OFFSET_RECORD_SIZE = of_nat (record_size m)"
  "get32 (header_bytes m @ y) OFFSET_EXISTS = of_nat (exists m)" "get32 (header_bytes m @ y) OFFSET_LAST_APPENDDATE = word_of_int (last_appenddate m)"
  "get32 (header_bytes m @ y) OFFSET_LAST_UID = of_nat (last_uid m)" "get64 (header_bytes m @ y) OFFSET_QUOTA_MAILBOX_USED64 = quota_mailbox_used m"
  "get32 (header_bytes m @ y) OFFSET_POP3_LAST_LOGIN = of_nat (pop3_last_login m)"
  "get32 (header_bytes m @ y) OFFSET_UIDVALIDITY = of_nat (uidvalidity m)" "get32 (header_bytes m @ y) OFFSET_DELETED = of_nat (deleted m)"
  "get32 (header_bytes m @ y) OFFSET_ANSWERED = of_nat (answered m)" "get32 (header_bytes m @ y) OFFSET_FLAGGED = of_nat (flagged m)"
  "get32 (header_bytes m @ y) OFFSET_MAILBOX_OPTIONS = of_nat (options m)"
  "get32 (header_bytes m @ y) OFFSET_LEAKED_CACHE = of_nat (leaked_cache_records m)"
  "get64 (header_bytes m @ y) OFFSET_HIGHESTMODSEQ_64 = highestmodseq m"
  by (simp_all add: header_bytes_def get_text offsets)

lemma small_int_word: "0 \<le> n \<Longrightarrow> n < 2 ^ 31 \<Longrightarrow> sint (word_of_int n :: 32 word) = n"
  by (simp add: signed_of_int signed_take_bit_int_eq_self)

lemma read_header_text:
  assumes "header_fits m" and "mb_index m = header_bytes m @ y" and "start_offset m \<le> length (mb_index m)"
  shows "mailbox_read_index_header reconstruct m =
    Index_Ok (m\<lparr>options := if exists m = 0 then options m OR OPT_POP3_NEW_UIDL else options m\<rparr>)"
proof -
  have "sint (word_of_int (format m) :: 32 word) = format m" "sint (word_of_int (minor_version m) :: 32 word) = minor_version m"
    using assms(1) by (auto simp: header_fits_def MAILBOX_MINOR_VERSION_def intro!: small_int_word)
  moreover have "\<not> length (mb_index m) < OFFSET_POP3_LAST_LOGIN" using assms(2) by (simp add: offsets)
  moreover have "\<not> start_offset m < OFFSET_HIGHESTMODSEQ + 4" using assms(1) by (simp add: header_fits_def offsets)
  moreover have "m\<lparr>format := format m, minor_version := minor_version m, start_offset := start_offset m, record_size := record_size m\<rparr> = m" by simp
  moreover have "exists m = 0 \<Longrightarrow> m\<lparr>exists := 0\<rparr> = m" by (cases m) simp
  ultimately show ?thesis using assms unfolding mailbox_read_index_header_def
    by (auto simp: header_fields header_fits_def Let_def MAILBOX_MINOR_VERSION_def)
qed

section \<open>Files of records\<close>

definition io_works :: "write_io \<Rightarrow> bool" where
  "io_works io \<longleftrightarrow> wr_written io = None \<and> wr_sync io"

lemma io_works_simps [simp]: "io_works io \<Longrightarrow> wr_bytes io x = x" "io_works io \<Longrightarrow> \<not> write_fails io x" "io_works io \<Longrightarrow> wr_sync io"
  by (simp_all add: io_works_def wr_bytes_def write_fails_def)

text \<open>What is in front of a place that is written and what is behind it stays.\<close>

lemma write_at_inside: "off + length x \<le> length b \<Longrightarrow> write_at off x b = take off b @ x @ drop (off + length x) b"
  by (auto simp: write_at_def put_bytes_def)

lemma write_at_end: "write_at (length b) x b = b @ x"
  by (auto simp: write_at_def put_bytes_def)

lemma take_record: "record_of_buf b = record_of_buf (take 80 b)"
proof -
  have t: "take n (drop off (take 80 b)) = take n (drop off b)" if "off + n \<le> 80" for off n
    using that by (simp add: drop_take min_def)
  have "get32 (take 80 b) off = get32 b off" if "off + 4 \<le> 80" for off using t that by (simp add: get32_def)
  moreover from this have "get64 (take 80 b) off = get64 b off" if "off + 8 \<le> 80" for off using that by (simp add: get64_def)
  ultimately show ?thesis using t [of 60 12] by (simp add: record_of_buf_def Let_def offsets)
qed

lemma record_of_append:
  assumes "off + 80 \<le> length b"
  shows "record_of_buf (drop off (b @ x)) = record_of_buf (drop off b)"
proof -
  have "take 80 (drop off (b @ x)) = take 80 (drop off b)" using assms by simp
  then show ?thesis using take_record by metis
qed

lemma record_at: "record_fits r \<Longrightarrow> record_of_buf (mailbox_index_record_to_buf r junk @ y) = r"
  using record_buf_text [of r junk] record_of_text [of r "drop 80 junk @ y"] by (simp add: record_fits_def offsets)

lemma length_record_bytes: "record_fits r \<Longrightarrow> 80 \<le> sz \<Longrightarrow> length (record_bytes sz r) = sz"
  by (simp add: record_bytes_def record_buf_text record_fits_def offsets length_record_text)

lemma record_offset_mono: "0 < i \<Longrightarrow> i < j \<Longrightarrow> record_offset m i + record_size m \<le> record_offset m j"
proof -
  assume a: "0 < i" "i < j"
  then have "(i - 1) + 1 \<le> j - 1" by linarith
  from mult_le_mono1 [OF this, of "record_size m"] show ?thesis by (simp add: record_offset_def add_mult_distrib)
qed

lemma nth_blocks:
  assumes "\<And>x. x \<in> set xs \<Longrightarrow> length x = n" and "i < length xs"
  shows "drop (i * n) (concat xs) = xs ! i @ concat (drop (Suc i) xs)"
  using assms
proof (induction xs arbitrary: i)
  case (Cons x xs)
  then show ?case by (cases i) auto
qed simp

text \<open>Appending behind the last record adds the bytes of the new ones or, on failure, nothing.\<close>

lemma append_index_bytes:
  fixes now rs
  assumes "0 < mb_index_lock_count m" and "INDEX_RECORD_SIZE \<le> record_size m" and "length (mb_index m) = start_offset m + n * record_size m"
  defines "x \<equiv> concat (map (\<lambda>r. record_bytes (record_size m) (sane_times now r)) rs)"
  shows "mailbox_append_index io now m rs n sync =
    Some (if write_fails io x \<or> sync \<and> \<not> wr_sync io then (Some IMAP_IOERROR, m) else (None, m\<lparr>mb_index := mb_index m @ x\<rparr>))"
proof -
  have "wr_bytes io x = x" if "\<not> write_fails io x" using that by (auto simp: write_fails_def wr_bytes_def split: option.splits)
  then show ?thesis
    using assms(1-3) write_at_end [of "mb_index m" "wr_bytes io x"] by (auto simp: mailbox_append_index_def Let_def x_def [symmetric])
qed

lemma write_header_bytes:
  assumes "96 \<le> start_offset m" and "0 < mb_index_lock_count m" and "io_works io" and "start_offset m \<le> length (mb_index m)"
  shows "mailbox_write_index_header io junk m = Some (None, m\<lparr>mb_index := header_bytes m @ drop 96 (mb_index m)\<rparr>)"
proof -
  have x: "take (min INDEX_HEADER_SIZE (start_offset m)) (header_buf junk m) = header_bytes m"
    using assms(1) by (simp add: header_buf_text offsets min_def)
  have w: "write_at 0 (header_bytes m) (mb_index m) = header_bytes m @ drop 96 (mb_index m)"
    using assms(1,4) by (simp add: write_at_inside)
  show ?thesis unfolding mailbox_write_index_header_def x Let_def using assms(2,3) w by simp
qed

section \<open>Properties\<close>

text \<open>
  A header that was written is read back: every field has its value again, except that a mailbox without
  messages gets the option \<^verbatim>\<open>OPT_POP3_NEW_UIDL\<close>, and the records keep their values.
\<close>

theorem index_header_persists:
  assumes "header_fits m" and "0 < mb_index_lock_count m" and "io_works io" and "start_offset m \<le> length (mb_index m)"
  shows "\<exists>m'. mailbox_write_index_header io junk m = Some (None, m') \<and> m' = m\<lparr>mb_index := mb_index m'\<rparr> \<and>
    mailbox_read_index_header reconstruct m' = Index_Ok (m'\<lparr>options := if exists m = 0 then options m OR OPT_POP3_NEW_UIDL else options m\<rparr>) \<and>
    (\<forall>msgno. mailbox_read_index_record m' msgno = mailbox_read_index_record m msgno)"
proof -
  have s: "96 \<le> start_offset m" using assms(1) by (simp add: header_fits_def offsets)
  let ?m = "m\<lparr>mb_index := header_bytes m @ drop 96 (mb_index m)\<rparr>"
  have 1: "mailbox_write_index_header io junk m = Some (None, ?m)" by (rule write_header_bytes [OF s assms(2-4)])
  have l: "length (header_bytes m @ drop 96 (mb_index m)) = length (mb_index m)" using s assms(4) by simp
  have f: "header_fits ?m" "header_bytes ?m = header_bytes m" using assms(1) by (simp_all add: header_fits_def header_bytes_def)
  have 2: "mailbox_read_index_header reconstruct ?m = Index_Ok (?m\<lparr>options := if exists m = 0 then options m OR OPT_POP3_NEW_UIDL else options m\<rparr>)"
    using read_header_text [OF f(1), of "drop 96 (mb_index m)" reconstruct] f(2) l assms(4) by simp
  have "drop off (header_bytes m @ drop 96 (mb_index m)) = drop off (mb_index m)" if "96 \<le> off" for off
    using that by (simp add: add.commute)
  then have 3: "mailbox_read_index_record ?m msgno = mailbox_read_index_record m msgno" for msgno
    using l s by (simp add: mailbox_read_index_record_def record_offset_def Let_def)
  show ?thesis using 1 2 3 by (intro exI [of _ ?m]) simp
qed

text \<open>
  A record that was written is read back under its message number, and the other messages keep their records.
\<close>

theorem index_record_persists:
  assumes "record_fits r" and "io_works io" and "INDEX_RECORD_SIZE \<le> record_size m" and "0 < msgno"
    and "record_offset m msgno + INDEX_RECORD_SIZE \<le> length (mb_index m)" and "length junk = INDEX_RECORD_SIZE"
  shows "\<exists>m'. mailbox_write_index_record io junk m msgno r sync = (None, m') \<and> m' = m\<lparr>mb_index := mb_index m'\<rparr> \<and>
    mailbox_read_index_record m' msgno = Inr r \<and> length (mb_index m') = length (mb_index m) \<and>
    take (start_offset m) (mb_index m') = take (start_offset m) (mb_index m) \<and>
    (\<forall>n > 0. n \<noteq> msgno \<longrightarrow> mailbox_read_index_record m' n = mailbox_read_index_record m n)"
proof -
  let ?o = "record_offset m msgno" and ?x = "mailbox_index_record_to_buf r junk" and ?b = "mb_index m"
  let ?c = "take ?o ?b @ ?x @ drop (?o + 80) ?b"
  let ?m = "m\<lparr>mb_index := ?c\<rparr>"
  have lx: "length ?x = 80" using assms(1,6) by (simp add: record_buf_text record_fits_def offsets length_record_text)
  have lb: "?o + 80 \<le> length ?b" and sz: "80 \<le> record_size m" using assms(3,5) by (simp_all add: offsets)
  have w: "write_at ?o ?x ?b = ?c" using lb lx by (simp add: write_at_inside)
  have 1: "mailbox_write_index_record io junk m msgno r sync = (None, ?m)"
    using assms(2) w lx by (simp add: mailbox_write_index_record_def Let_def offsets)
  have l: "length ?c = length ?b" using lb lx by simp
  have ro: "record_offset ?m n = record_offset m n" for n by (simp add: record_offset_def)
  have 2: "mailbox_read_index_record ?m msgno = Inr r"
    using lb l record_at [OF assms(1), of junk "drop (?o + 80) ?b"] by (simp add: mailbox_read_index_record_def ro offsets)
  have "take 80 (drop (record_offset m n) ?c) = take 80 (drop (record_offset m n) ?b)" if n: "0 < n" "n \<noteq> msgno" for n
  proof -
    have "apart ?o 80 (record_offset m n) 80"
      using record_offset_mono [of n msgno m] record_offset_mono [of msgno n m] assms(4) n sz unfolding apart_def by linarith
    then show ?thesis using take_put_other [of ?o ?x ?b "record_offset m n" 80] lx lb by (simp add: put_bytes_def)
  qed
  then have "record_of_buf (drop (record_offset m n) ?c) = record_of_buf (drop (record_offset m n) ?b)" if "0 < n" "n \<noteq> msgno" for n
    using take_record that by metis
  then have 3: "mailbox_read_index_record ?m n = mailbox_read_index_record m n" if "0 < n" "n \<noteq> msgno" for n
    using that l by (simp add: mailbox_read_index_record_def ro Let_def)
  have "start_offset m \<le> ?o" by (simp add: record_offset_def)
  then have 4: "take (start_offset m) ?c = take (start_offset m) ?b" using lb by simp
  show ?thesis using 1 2 3 4 l by (intro exI [of _ ?m]) simp
qed

text \<open>
  C21: Records that were appended behind the last message are read back under the next message numbers, with
  the dates \<^verbatim>\<open>sane_times\<close> gives them, and the messages before them keep their records; when the write fails the
  file is what it was.
\<close>

theorem index_append_persists:
  assumes "0 < mb_index_lock_count m" and "INDEX_RECORD_SIZE \<le> record_size m"
    and "length (mb_index m) = start_offset m + n * record_size m" and "list_all (\<lambda>r. record_fits (sane_times now r)) rs"
  shows "\<exists>r m'. mailbox_append_index io now m rs n sync = Some (r, m') \<and> m' = m\<lparr>mb_index := mb_index m'\<rparr> \<and>
    (if r = None
     then (\<forall>i \<le> n. i > 0 \<longrightarrow> mailbox_read_index_record m' i = mailbox_read_index_record m i) \<and>
       (\<forall>i < length rs. mailbox_read_index_record m' (n + i + 1) = Inr (sane_times now (rs ! i))) \<and>
       length (mb_index m') = start_offset m + (n + length rs) * record_size m
     else r = Some IMAP_IOERROR \<and> m' = m) \<and> (io_works io \<longrightarrow> r = None)"
proof -
  let ?blocks = "map (\<lambda>r. record_bytes (record_size m) (sane_times now r)) rs"
  let ?x = "concat ?blocks" and ?b = "mb_index m" and ?o = "start_offset m + n * record_size m"
  have sz: "80 \<le> record_size m" using assms(2) by (simp add: offsets)
  have bl: "length x = record_size m" if "x \<in> set ?blocks" for x
    using that assms(4) length_record_bytes [OF _ sz] by (auto simp: list_all_iff)
  have lx: "length ?x = length rs * record_size m"
    using assms(4) length_record_bytes [OF _ sz] by (induction rs) auto
  note app = append_index_bytes [OF assms(1-3), of io now rs sync]
  show ?thesis
  proof (cases "write_fails io ?x \<or> sync \<and> \<not> wr_sync io")
    case True
    then show ?thesis using app by auto
  next
    case False
    let ?m = "m\<lparr>mb_index := ?b @ ?x\<rparr>"
    have r: "mailbox_append_index io now m rs n sync = Some (None, ?m)" using app False by simp
    have ro: "record_offset ?m i = record_offset m i" for i by (simp add: record_offset_def)
    have "record_offset m i + record_size m \<le> length ?b" if "0 < i" "i \<le> n" for i
      using record_offset_mono [of i "Suc n" m] that assms(3) by (simp add: record_offset_def)
    then have le: "record_offset m i + 80 \<le> length ?b" if "0 < i" "i \<le> n" for i using that sz by (meson add_le_cancel_left le_trans)
    have 1: "mailbox_read_index_record ?m i = mailbox_read_index_record m i" if "0 < i" "i \<le> n" for i
      using le [OF that] record_of_append [OF le [OF that], of ?x] by (simp add: mailbox_read_index_record_def ro Let_def offsets del: drop_append)
    have 2: "mailbox_read_index_record ?m (n + i + 1) = Inr (sane_times now (rs ! i))" if i: "i < length rs" for i
    proof -
      have o: "record_offset m (n + i + 1) = length ?b + i * record_size m" using assms(3) by (simp add: record_offset_def add_mult_distrib)
      have "drop (i * record_size m) ?x = record_bytes (record_size m) (sane_times now (rs ! i)) @ concat (drop (Suc i) ?blocks)"
        using nth_blocks [of ?blocks "record_size m" i] bl i by simp
      moreover have "record_fits (sane_times now (rs ! i))" using assms(4) i by (simp add: list_all_length)
      ultimately have "record_of_buf (drop (i * record_size m) ?x) = sane_times now (rs ! i)" by (simp add: record_bytes_def record_at)
      moreover have "i * record_size m + record_size m \<le> length rs * record_size m"
        using mult_le_mono1 [of "Suc i" "length rs" "record_size m"] i by simp
      ultimately show ?thesis using sz lx o by (simp add: mailbox_read_index_record_def ro Let_def offsets)
    qed
    have "length (?b @ ?x) = start_offset m + (n + length rs) * record_size m" using assms(3) lx by (simp add: add_mult_distrib)
    then show ?thesis using r 1 2 by auto
  qed
qed

section \<open>Witnesses\<close>

definition sample_record :: index_record where
  "sample_record = \<lparr>ir_uid = 7, ir_internaldate = 100, ir_sentdate = 0, ir_size = 500, ir_header_size = 200, ir_content_offset = 200,
     ir_cache_offset = 4, ir_last_updated = 120, ir_system_flags = FLAG_DELETED, ir_user_flags = replicate 4 0, ir_content_lines = 9,
     ir_cache_version = 2, ir_uuid = replicate 12 NUL, ir_modseq = 1\<rparr>"

definition sample_mailbox :: mailbox where
  "sample_mailbox = \<lparr>mb_index = replicate 96 NUL, mb_cache = replicate 4 NUL, mb_index_ino = 1,
     mb_header_lock_count = 0, mb_index_lock_count = 1, mb_pop_lock_count = 0, generation_no = 3, format = 0, minor_version = 9,
     start_offset = 96, record_size = 80, exists = 0, last_appenddate = 5, last_uid = 6, quota_mailbox_used = 0, pop3_last_login = 0,
     uidvalidity = 11, deleted = 0, answered = 0, flagged = 0, options = 2, leaked_cache_records = 0, highestmodseq = 1,
     mb_quota = \<lparr>qu_root = None, qu_used = 0, qu_limit = 0\<rparr>, myrights = 0, flagname = []\<rparr>"

definition sample_io :: write_io where
  "sample_io = \<lparr>wr_written = None, wr_sync = True\<rparr>"

lemma samples_ok: "header_fits sample_mailbox" "record_fits (sane_times 50 sample_record)" "io_works sample_io"
  by (simp_all add: header_fits_def sample_mailbox_def fits32_def time_ok_def offsets MAILBOX_MINOR_VERSION_def
      record_fits_def sample_record_def sane_times_def io_works_def sample_io_def)

theorem index_header_persists_witness:
  "\<exists>m'. mailbox_write_index_header sample_io [] sample_mailbox = Some (None, m') \<and>
    mailbox_read_index_header False m' = Index_Ok (m'\<lparr>options := 3\<rparr>)"
proof -
  have "(2 OR OPT_POP3_NEW_UIDL :: nat) = 3" by (simp add: OPT_POP3_NEW_UIDL_def)
  then show ?thesis using index_header_persists [OF samples_ok(1) _ samples_ok(3), of "[]" False]
    by (auto simp: sample_mailbox_def)
qed

theorem index_append_persists_witness:
  "\<exists>m'. mailbox_append_index sample_io 50 sample_mailbox [sample_record] 0 True = Some (None, m') \<and>
    mailbox_read_index_record m' 1 = Inr (sample_record\<lparr>ir_sentdate := 50\<rparr>)"
proof -
  have l: "list_all (\<lambda>r. record_fits (sane_times 50 r)) [sample_record]" using samples_ok(2) by simp
  have "sane_times 50 sample_record = sample_record\<lparr>ir_sentdate := 50\<rparr>" by (simp add: sane_times_def sample_record_def)
  then show ?thesis
    using index_append_persists [OF _ _ _ l, of sample_mailbox 0 sample_io True] samples_ok(3)
    by (auto simp: sample_mailbox_def offsets split: if_splits)
qed

end
