(* ===== verification/Mailbox_Expunge.thy ===== *)
theory Mailbox_Expunge
  imports Mailbox_Index
begin

text \<open>
  Locking a mailbox and expunging messages from it: \<^verbatim>\<open>mailbox_open_index\<close>, \<^verbatim>\<open>mailbox_lock_index\<close> and its relatives,
  \<^verbatim>\<open>process_records\<close> and \<^verbatim>\<open>mailbox_expunge\<close> of \<^verbatim>\<open>imap/mailbox.c\<close>.

  \<^verbatim>\<open>maildir\<close> is what the directory of the mailbox has under the names \<^verbatim>\<open>cyrus.index\<close>, \<^verbatim>\<open>cyrus.cache\<close> and
  \<^verbatim>\<open>cyrus.expunge\<close>, and the message files, by the UID in their names. Files with the ending \<^verbatim>\<open>.NEW\<close> are written
  from scratch each time and count only when they are renamed. The file \<^verbatim>\<open>cyrus.header\<close> is the one the mailbox
  has read: locking it does not read it again. Which system calls succeed is told by a record of arguments. A
  result \<^verbatim>\<open>None\<close> is undefined behaviour, a failed assertion, or the upgrade of an old index.
\<close>

section \<open>The directory, locks\<close>

record maildir =
  md_ino :: nat
  md_index :: string
  md_cache :: string
  md_expunge :: "string option"
  md_messages :: "nat set"

text \<open>\<^verbatim>\<open>mailbox_open_index\<close> without \<^verbatim>\<open>mailbox_doing_reconstruct\<close>: the files do not change between the tries to find matching generations.\<close>

definition mailbox_open_index :: "bool \<Rightarrow> maildir \<Rightarrow> mailbox \<Rightarrow> index_result" where
  "mailbox_open_index opens d m =
     (if \<not> opens then Index_Error IMAP_IOERROR
      else if length (md_index d) < 4 \<or> length (md_cache d) < 4 then Index_Error IMAP_MAILBOX_BADFORMAT
      else if get32 (md_index d) OFFSET_GENERATION_NO \<noteq> get32 (md_cache d) OFFSET_GENERATION_NO then Index_Error IMAP_MAILBOX_BADFORMAT
      else mailbox_read_index_header False (m\<lparr>mb_index := md_index d, mb_cache := md_cache d, mb_index_ino := md_ino d,
        generation_no := get32 (md_index d) OFFSET_GENERATION_NO\<rparr>))"

text \<open>The result of locking: the first component is false when the call of the system fails.\<close>

record lock_io =
  lk_header :: bool
  lk_index :: bool
  lk_stat :: bool
  lk_reopen :: bool
  lk_pop :: "imap_error option"

definition mailbox_lock_header :: "lock_io \<Rightarrow> mailbox \<Rightarrow> (imap_error option \<times> mailbox) option" where
  "mailbox_lock_header io m =
     (if mb_header_lock_count m > 0 then Some (None, m\<lparr>mb_header_lock_count := mb_header_lock_count m + 1\<rparr>)
      else if mb_index_lock_count m \<noteq> 0 then None
      else if lk_header io then Some (None, m\<lparr>mb_header_lock_count := 1\<rparr>) else Some (Some IMAP_IOERROR, m))"

definition mailbox_lock_index :: "lock_io \<Rightarrow> maildir \<Rightarrow> mailbox \<Rightarrow> (imap_error option \<times> mailbox) option" where
  "mailbox_lock_index io d m =
     (if mb_index_lock_count m > 0 then Some (None, m\<lparr>mb_index_lock_count := mb_index_lock_count m + 1\<rparr>)
      else if \<not> lk_index io \<or> \<not> lk_stat io then Some (Some IMAP_IOERROR, m)
      else
        let l = m\<lparr>mb_index_lock_count := 1\<rparr> in
        case (if mb_index_ino l = md_ino d then Index_Ok l else mailbox_open_index (lk_reopen io) d l) of
          Index_Error e \<Rightarrow> Some (Some e, l)
        | Index_Upgrade _ \<Rightarrow> None
        | Index_Ok l \<Rightarrow>
            (case mailbox_read_index_header False (l\<lparr>mb_index := md_index d\<rparr>) of
              Index_Error e \<Rightarrow> Some (Some e, l\<lparr>mb_index := md_index d, mb_index_lock_count := 0\<rparr>)
            | Index_Upgrade _ \<Rightarrow> None
            | Index_Ok l \<Rightarrow> Some (None, l)))"

definition mailbox_lock_pop :: "lock_io \<Rightarrow> mailbox \<Rightarrow> imap_error option \<times> mailbox" where
  "mailbox_lock_pop io m =
     (if mb_pop_lock_count m > 0 then (None, m\<lparr>mb_pop_lock_count := mb_pop_lock_count m + 1\<rparr>)
      else (case lk_pop io of None \<Rightarrow> (None, m\<lparr>mb_pop_lock_count := 1\<rparr>) | Some e \<Rightarrow> (Some e, m)))"

definition mailbox_unlock_header :: "mailbox \<Rightarrow> mailbox" where
  "mailbox_unlock_header m = m\<lparr>mb_header_lock_count := mb_header_lock_count m - 1\<rparr>"

definition mailbox_unlock_index :: "mailbox \<Rightarrow> mailbox" where
  "mailbox_unlock_index m = m\<lparr>mb_index_lock_count := mb_index_lock_count m - 1\<rparr>"

definition mailbox_unlock_pop :: "mailbox \<Rightarrow> mailbox" where
  "mailbox_unlock_pop m = m\<lparr>mb_pop_lock_count := mb_pop_lock_count m - 1\<rparr>"

definition unlock_all :: "mailbox \<Rightarrow> mailbox" where
  "unlock_all m = mailbox_unlock_header (mailbox_unlock_index (mailbox_unlock_pop m))"

section \<open>Entries of the cache\<close>

definition NUM_CACHE_FIELDS :: nat where "NUM_CACHE_FIELDS = 10"

definition CACHE_ITEM_NEXT :: "string \<Rightarrow> nat \<Rightarrow> nat" where
  "CACHE_ITEM_NEXT b p = p + 4 + unat ((3 + get32 b p) AND NOT 3)"

fun cache_end :: "string \<Rightarrow> nat \<Rightarrow> nat \<Rightarrow> nat option" where
  "cache_end b 0 p = (if p \<le> length b then Some p else None)"
| "cache_end b (Suc n) p = (if p + 4 \<le> length b then cache_end b n (CACHE_ITEM_NEXT b p) else None)"

definition cache_record :: "string \<Rightarrow> nat \<Rightarrow> string option" where
  "cache_record b off = map_option (\<lambda>p. take (p - off) (drop off b)) (cache_end b NUM_CACHE_FIELDS off)"

section \<open>Copying records\<close>

record processed =
  pr_deleted :: "nat list"
  pr_quota :: "64 word"
  pr_answered :: "32 word"
  pr_marked :: "32 word"
  pr_flagged :: "32 word"
  pr_index :: "string option"
  pr_cache :: "string option"
  pr_total :: nat
  pr_expunge :: "string option"
  pr_pos :: nat

definition flag_bit :: "32 word \<Rightarrow> string \<Rightarrow> 32 word" where
  "flag_bit f buf = (if get32 buf OFFSET_SYSTEM_FLAGS AND f \<noteq> 0 then 1 else 0)"

definition remember :: "string \<Rightarrow> processed \<Rightarrow> processed" where
  "remember buf p = p\<lparr>pr_deleted := pr_deleted p @ [unat (get32 buf OFFSET_UID)],
     pr_quota := pr_quota p + ucast (get32 buf OFFSET_SIZE), pr_answered := pr_answered p + flag_bit FLAG_ANSWERED buf,
     pr_marked := pr_marked p + flag_bit FLAG_DELETED buf, pr_flagged := pr_flagged p + flag_bit FLAG_FLAGGED buf\<rparr>"

definition truncate_to :: "nat \<Rightarrow> string \<Rightarrow> string" where
  "truncate_to n b = take n b @ replicate (n - length b) NUL"

text \<open>\<^verbatim>\<open>app\<close> tells how many bytes of each record reach \<^verbatim>\<open>cyrus.expunge\<close>; \<^verbatim>\<open>None\<close> is all.\<close>

definition copy_expunged :: "(nat \<Rightarrow> nat option) \<Rightarrow> int \<Rightarrow> nat \<Rightarrow> string \<Rightarrow> processed \<Rightarrow> bool \<times> processed" where
  "copy_expunged app now last_offset buf p = (case pr_expunge p of
     None \<Rightarrow> (True, p)
   | Some b \<Rightarrow>
       (let x = put32 OFFSET_LAST_UPDATED (word_of_int now) buf;
            y = (case app (pr_pos p) of None \<Rightarrow> x | Some n \<Rightarrow> take n x);
            b = write_at (pr_pos p) y b
        in if length y = length x then (True, p\<lparr>pr_expunge := Some b, pr_pos := pr_pos p + length x\<rparr>)
           else (False, p\<lparr>pr_expunge := Some (truncate_to last_offset b)\<rparr>)))"

definition keep_record :: "string \<Rightarrow> string \<Rightarrow> processed \<Rightarrow> processed option" where
  "keep_record cache buf p = (case pr_cache p of
     Some c \<Rightarrow>
       (let off = unat (get32 buf OFFSET_CACHE_OFFSET) in
        if off = 0 then Some p
        else
          let p = p\<lparr>pr_index := map_option (\<lambda>i. i @ put32 OFFSET_CACHE_OFFSET (of_nat (pr_total p)) buf) (pr_index p)\<rparr>
          in map_option (\<lambda>x. p\<lparr>pr_total := pr_total p + length x, pr_cache := Some (c @ x)\<rparr>) (cache_record cache off))
   | None \<Rightarrow> Some (p\<lparr>pr_index := map_option (\<lambda>i. i @ buf) (pr_index p)\<rparr>))"

fun process_loop ::
  "(nat \<Rightarrow> nat option) \<Rightarrow> int \<Rightarrow> nat \<Rightarrow> string \<Rightarrow> nat \<Rightarrow> (string \<Rightarrow> bool) \<Rightarrow> string list \<Rightarrow> processed \<Rightarrow> (imap_error option \<times> processed) option" where
  "process_loop app now last_offset cache sz decide [] p = Some (None, p)"
| "process_loop app now last_offset cache sz decide (buf # bs) p =
     (if length buf < sz then None
      else if get32 buf OFFSET_UID = 0 then Some (Some IMAP_IOERROR, p)
      else if decide buf then
        (case copy_expunged app now last_offset buf (remember buf p) of
          (False, p) \<Rightarrow> Some (Some IMAP_IOERROR, p)
        | (True, p) \<Rightarrow> process_loop app now last_offset cache sz decide bs p)
      else (case keep_record cache buf p of None \<Rightarrow> None | Some p \<Rightarrow> process_loop app now last_offset cache sz decide bs p))"

text \<open>The records of a file; one that is not in the file is short.\<close>

definition records_of :: "nat \<Rightarrow> nat \<Rightarrow> nat \<Rightarrow> string \<Rightarrow> string list" where
  "records_of start sz n b = map (\<lambda>i. take sz (drop (start + i * sz) b)) [0..<n]"

definition fix_header :: "nat \<Rightarrow> processed \<Rightarrow> string \<Rightarrow> string" where
  "fix_header start p h =
     (let n = of_nat (length (pr_deleted p));
          sub = (\<lambda>off k h. put32 off (get32 h off - k) h);
          h = sub OFFSET_EXISTS n h;
          h = (if pr_cache p \<noteq> None then put32 OFFSET_LEAKED_CACHE 0 h
               else put32 OFFSET_LEAKED_CACHE (get32 h OFFSET_LEAKED_CACHE + n) h);
          h = sub OFFSET_ANSWERED (pr_answered p) h;
          h = sub OFFSET_DELETED (pr_marked p) h;
          h = sub OFFSET_FLAGGED (pr_flagged p) h;
          h = put64 OFFSET_QUOTA_MAILBOX_USED64 (get64 h OFFSET_QUOTA_MAILBOX_USED64 - pr_quota p) h
      in if start < INDEX_HEADER_SIZE then put32 OFFSET_START_OFFSET (of_nat INDEX_HEADER_SIZE) h else h)"

definition process_records ::
  "(nat \<Rightarrow> nat option) \<Rightarrow> int \<Rightarrow> nat \<Rightarrow> mailbox \<Rightarrow> (string \<Rightarrow> bool) \<Rightarrow> string \<Rightarrow> nat \<Rightarrow> processed \<Rightarrow> (imap_error option \<times> processed) option" where
  "process_records app now last_offset m decide base n p =
     (let start = start_offset m; sz = record_size m in
      if start > INDEX_HEADER_SIZE \<or> sz > INDEX_HEADER_SIZE then None
      else (case process_loop app now last_offset (mb_cache m) sz decide (records_of start sz n base) p of
          None \<Rightarrow> None
        | Some (Some e, p) \<Rightarrow> Some (Some e, p)
        | Some (None, p) \<Rightarrow>
            (case pr_index p of
              None \<Rightarrow> Some (None, p)
            | Some i \<Rightarrow>
                if length i < start then Some (Some IMAP_IOERROR, p)
                else Some (None, p\<lparr>pr_index := Some (fix_header start p (take start i) @ drop start i)\<rparr>))))"

section \<open>Expunging\<close>

record expunge_io =
  xo_locks :: lock_io
  xo_open :: bool
  xo_newindex :: bool
  xo_newcache :: bool
  xo_lock_expunge :: bool
  xo_header :: write_io
  xo_newexpunge :: bool
  xo_append :: "nat \<Rightarrow> nat option"
  xo_read :: bool
  xo_update :: write_io
  xo_flush :: bool
  xo_rename_index :: bool
  xo_rename_cache :: bool
  xo_rename_expunge :: bool

datatype 'a stage = Undefined | Failed "string option" | Continue 'a

text \<open>\<^verbatim>\<open>cyrus.expunge\<close> is opened unless messages are removed at once; \<^verbatim>\<open>Inl\<close> is an early return.\<close>

definition open_expunge :: "expunge_io \<Rightarrow> bool \<Rightarrow> bool \<Rightarrow> bool \<Rightarrow> maildir \<Rightarrow> imap_error option + string option \<times> maildir" where
  "open_expunge io immediate force cleanup d =
     (if immediate \<and> \<not> cleanup then Inr (None, d)
      else case md_expunge d of
          Some b \<Rightarrow> if xo_open io then Inr (Some b, d) else Inl (Some IMAP_IOERROR)
        | None \<Rightarrow>
            if cleanup then (if force then Inr (None, d) else Inl None)
            else if xo_open io then Inr (Some [], d\<lparr>md_expunge := Some []\<rparr>) else Inl (Some IMAP_IOERROR))"

definition lock_all :: "lock_io \<Rightarrow> maildir \<Rightarrow> mailbox \<Rightarrow> (imap_error option \<times> mailbox) option" where
  "lock_all io d m = (case mailbox_lock_header io m of
     None \<Rightarrow> None
   | Some (Some e, m) \<Rightarrow> Some (Some e, m)
   | Some (None, m) \<Rightarrow>
       (case mailbox_lock_index io d m of
         None \<Rightarrow> None
       | Some (Some e, m) \<Rightarrow> Some (Some e, mailbox_unlock_header m)
       | Some (None, m) \<Rightarrow>
           (case mailbox_lock_pop io m of
             (Some e, m) \<Rightarrow> Some (Some e, mailbox_unlock_header (mailbox_unlock_index m))
           | (None, m) \<Rightarrow> Some (None, m))))"

definition new_header :: "bool \<Rightarrow> mailbox \<Rightarrow> string \<Rightarrow> string" where
  "new_header renew m b =
     (let h = take (start_offset m) b in if renew then put32 OFFSET_GENERATION_NO (generation_no m + 1) h else h)"

definition grow_header :: "nat \<Rightarrow> string \<Rightarrow> string" where
  "grow_header start h = h @ map (\<lambda>n. if n = OFFSET_UIDVALIDITY + 3 then CHR 0x01 else NUL) [start..<INDEX_HEADER_SIZE]"

definition empty_header :: "string \<Rightarrow> string" where
  "empty_header h = (put32 OFFSET_LEAKED_CACHE 0 \<circ> put64 OFFSET_QUOTA_MAILBOX_USED64 0 \<circ> put32 OFFSET_FLAGGED 0 \<circ>
     put32 OFFSET_DELETED 0 \<circ> put32 OFFSET_ANSWERED 0 \<circ> put32 OFFSET_EXISTS 0) h"

text \<open>
  Locking \<^verbatim>\<open>cyrus.expunge\<close>, giving an empty one a header and counting its records. The result is the file, the
  number of its records and whether a new file is written in its place.
\<close>

definition expunge_file :: "expunge_io \<Rightarrow> bool \<Rightarrow> string \<Rightarrow> string option \<Rightarrow> (string option \<times> nat \<times> bool) stage" where
  "expunge_file io select h x = (case x of
     None \<Rightarrow> Continue (None, 0, False)
   | Some b \<Rightarrow>
       if \<not> xo_lock_expunge io then Failed x
       else
         let e = empty_header h; b' = (if b = [] then write_at 0 (wr_bytes (xo_header io) e) b else b) in
         if b = [] \<and> (write_fails (xo_header io) e \<or> \<not> wr_sync (xo_header io)) then Failed (Some b')
         else if length b' < OFFSET_EXISTS + 4 then Undefined
         else
           let n = unat (get32 b' OFFSET_EXISTS) in
           if select \<and> n > 0 \<and> \<not> xo_newexpunge io then Failed (Some b') else Continue (Some b', n, select \<and> n > 0))"

definition less_used :: "64 word \<Rightarrow> quota \<Rightarrow> quota" where
  "less_used n u = u\<lparr>qu_used := if n \<le> qu_used u then qu_used u - n else 0\<rparr>"

definition release_quota ::
  "('t, 'd) cyrusdb_backend \<Rightarrow> 64 word \<Rightarrow> mailbox \<Rightarrow> 'd \<Rightarrow> (bool \<times> mailbox \<times> 'd) option" where
  "release_quota QDB n m q = (case quota_read QDB (mb_quota m) (be_null QDB) True q of
     None \<Rightarrow> None
   | Some (Some e, u, tid, q) \<Rightarrow> Some (e = IMAP_QUOTAROOT_NONEXISTENT, m\<lparr>mb_quota := u\<rparr>, q)
   | Some (None, u, tid, q) \<Rightarrow>
       (let u = less_used n u in
        case quota_write QDB u tid q of
          None \<Rightarrow> None
        | Some (Some _, tid, q) \<Rightarrow> Some (True, m\<lparr>mb_quota := u\<rparr>, q)
        | Some (None, tid, q) \<Rightarrow> map_option (\<lambda>(_, q). (True, m\<lparr>mb_quota := u\<rparr>, q)) (quota_commit QDB tid q)))"

definition add_counts :: "int \<Rightarrow> nat \<Rightarrow> processed \<Rightarrow> string \<Rightarrow> string" where
  "add_counts now start p h =
     (let add = (\<lambda>off k h. put32 off (get32 h off + k) h);
          h = put32 OFFSET_LAST_APPENDDATE (word_of_int now) h;
          h = add OFFSET_EXISTS (of_nat (length (pr_deleted p))) h;
          h = add OFFSET_ANSWERED (pr_answered p) h;
          h = add OFFSET_DELETED (pr_marked p) h;
          h = add OFFSET_FLAGGED (pr_flagged p) h;
          h = put64 OFFSET_QUOTA_MAILBOX_USED64 (get64 h OFFSET_QUOTA_MAILBOX_USED64 + pr_quota p) h
      in if start < INDEX_HEADER_SIZE then put32 OFFSET_START_OFFSET (of_nat INDEX_HEADER_SIZE) h else h)"

text \<open>The header of \<^verbatim>\<open>cyrus.expunge\<close> after records were appended; the first component tells whether it succeeds.\<close>

definition update_expunge :: "expunge_io \<Rightarrow> int \<Rightarrow> nat \<Rightarrow> nat \<Rightarrow> processed \<Rightarrow> string \<Rightarrow> bool \<times> string" where
  "update_expunge io now start last_offset p b =
     (if \<not> xo_read io \<or> length b < start then (False, truncate_to last_offset b)
      else
        let h = add_counts now start p (take start b); b = write_at 0 (wr_bytes (xo_update io) h) b in
        if write_fails (xo_update io) h \<or> \<not> wr_sync (xo_update io) then (False, truncate_to last_offset b) else (True, b))"

text \<open>
  The records of \<^verbatim>\<open>cyrus.expunge\<close> in cleanup mode, or its header otherwise. The result is what was processed, the
  new file for the records that stay, \<^verbatim>\<open>cyrus.expunge\<close>, and the number of records that stay in it.
\<close>

definition second_phase ::
  "expunge_io \<Rightarrow> int \<Rightarrow> bool \<Rightarrow> bool \<Rightarrow> (string \<Rightarrow> bool) \<Rightarrow> mailbox \<Rightarrow> nat \<Rightarrow> bool \<Rightarrow> string option \<Rightarrow> processed \<Rightarrow>
   (processed \<times> string option \<times> string option \<times> int) stage" where
  "second_phase io now immediate cleanup decide m n select x p =
     (if cleanup then
        (case process_records (\<lambda>_. None) now 0 m decide (case x of None \<Rightarrow> [] | Some b \<Rightarrow> b) n
            (p\<lparr>pr_index := if select then map_option (new_header True m) x else None, pr_expunge := None\<rparr>) of
          None \<Rightarrow> Undefined
        | Some (Some e, _) \<Rightarrow> Failed (pr_expunge p)
        | Some (None, p') \<Rightarrow> Continue (p', pr_index p', pr_expunge p, int n - (int (length (pr_deleted p')) - int (length (pr_deleted p)))))
      else if \<not> immediate then
        (case pr_expunge p of
          None \<Rightarrow> Undefined
        | Some b \<Rightarrow>
            (case update_expunge io now (start_offset m) (start_offset m + n * record_size m) p b of
              (False, b) \<Rightarrow> Failed (Some b)
            | (True, b) \<Rightarrow> Continue (p, None, Some b, 0)))
      else Continue (p, None, pr_expunge p, 0))"

definition put_expunge :: "string option \<Rightarrow> maildir \<Rightarrow> maildir" where
  "put_expunge x d = (case x of None \<Rightarrow> d | Some b \<Rightarrow> d\<lparr>md_expunge := Some b\<rparr>)"

text \<open>Flushing and renaming the new files and removing the messages.\<close>

definition install :: "expunge_io \<Rightarrow> bool \<Rightarrow> string \<Rightarrow> processed \<Rightarrow> string option \<Rightarrow> int \<Rightarrow> maildir \<Rightarrow> imap_error option \<times> maildir" where
  "install io cleanup i p newexpunge left d =
     (if \<not> xo_flush io \<or> \<not> xo_rename_index io then (Some IMAP_IOERROR, d)
      else
        let d = d\<lparr>md_ino := Suc (md_ino d), md_index := i\<rparr>;
            d = (case pr_cache p of None \<Rightarrow> d | Some c \<Rightarrow> if xo_rename_cache io then d\<lparr>md_cache := c\<rparr> else d);
            d = (if cleanup then
                   let d = (case newexpunge of None \<Rightarrow> d | Some b \<Rightarrow> if xo_rename_expunge io then d\<lparr>md_expunge := Some b\<rparr> else d)
                   in if left = 0 then d\<lparr>md_expunge := None\<rparr> else d
                 else d)
        in (None, if pr_cache p \<noteq> None then d\<lparr>md_messages := md_messages d - set (pr_deleted p)\<rparr> else d))"

definition start_processed :: "string \<Rightarrow> string option \<Rightarrow> string option \<Rightarrow> nat \<Rightarrow> processed" where
  "start_processed i c x pos = \<lparr>pr_deleted = [], pr_quota = 0, pr_answered = 0, pr_marked = 0, pr_flagged = 0, pr_index = Some i, pr_cache = c,
     pr_total = 4, pr_expunge = x, pr_pos = pos\<rparr>"

definition decide_first :: "bool \<Rightarrow> (bool \<Rightarrow> string \<Rightarrow> bool) option \<Rightarrow> string \<Rightarrow> bool" where
  "decide_first cleanup decideproc buf = (case decideproc of
     Some f \<Rightarrow> f False buf
   | None \<Rightarrow> if cleanup then False else get32 buf OFFSET_SYSTEM_FLAGS AND FLAG_DELETED \<noteq> 0)"

definition decide_second :: "(bool \<Rightarrow> string \<Rightarrow> bool) option \<Rightarrow> string \<Rightarrow> bool" where
  "decide_second decideproc buf = (case decideproc of Some f \<Rightarrow> f True buf | None \<Rightarrow> True)"

text \<open>What is done under the locks.\<close>

definition expunge_locked ::
  "expunge_io \<Rightarrow> int \<Rightarrow> ('t, 'd) cyrusdb_backend \<Rightarrow> bool \<Rightarrow> bool \<Rightarrow> (bool \<Rightarrow> string \<Rightarrow> bool) option \<Rightarrow> string option \<Rightarrow>
   mailbox \<Rightarrow> maildir \<Rightarrow> 'd \<Rightarrow> (imap_error option \<times> mailbox \<times> maildir \<times> 'd) option" where
  "expunge_locked io now QDB immediate cleanup decideproc x m d q =
     (let start = start_offset m; use_cache = (immediate \<or> cleanup); h = new_header use_cache m (mb_index m) in
      if start > INDEX_HEADER_SIZE then None
      else if \<not> xo_newindex io \<or> use_cache \<and> \<not> xo_newcache io then Some (Some IMAP_IOERROR, m, d, q)
      else case expunge_file io (cleanup \<and> decideproc \<noteq> None) h x of
          Undefined \<Rightarrow> None
        | Failed x \<Rightarrow> Some (Some IMAP_IOERROR, m, put_expunge x d, q)
        | Continue (x, n, select) \<Rightarrow>
            (let last_offset = (if x = None then 0 else start + n * record_size m) in
             case process_records (xo_append io) now last_offset m (decide_first cleanup decideproc) (mb_index m) (exists m)
                 (start_processed (grow_header start h) (if use_cache then Some (take 4 h) else None) x last_offset) of
               None \<Rightarrow> None
             | Some (Some e, p) \<Rightarrow> Some (Some IMAP_IOERROR, m, put_expunge (pr_expunge p) d, q)
             | Some (None, p) \<Rightarrow>
                 (case release_quota QDB (pr_quota p) m q of
                   None \<Rightarrow> None
                 | Some (False, m, q) \<Rightarrow> Some (Some IMAP_IOERROR, m, put_expunge (pr_expunge p) d, q)
                 | Some (True, m, q) \<Rightarrow>
                     (case second_phase io now immediate cleanup (decide_second decideproc) m n select x p of
                       Undefined \<Rightarrow> None
                     | Failed x \<Rightarrow> Some (Some IMAP_IOERROR, m, put_expunge x d, q)
                     | Continue (p', newexpunge, x, left) \<Rightarrow>
                         (let (r, d) = install io cleanup (the (pr_index p)) p' newexpunge left (put_expunge x d) in Some (r, m, d, q))))))"

definition mailbox_expunge ::
  "expunge_io \<Rightarrow> int \<Rightarrow> ('t, 'd) cyrusdb_backend \<Rightarrow> bool \<Rightarrow> bool \<Rightarrow> bool \<Rightarrow> (bool \<Rightarrow> string \<Rightarrow> bool) option \<Rightarrow>
   mailbox \<Rightarrow> maildir \<Rightarrow> 'd \<Rightarrow> (imap_error option \<times> mailbox \<times> maildir \<times> 'd) option" where
  "mailbox_expunge io now QDB mode_immediate force cleanup decideproc m d q =
     (let immediate = (mode_immediate \<or> force \<and> \<not> cleanup) in
      case open_expunge io immediate force cleanup d of
        Inl r \<Rightarrow> Some (r, m, d, q)
      | Inr (x, d) \<Rightarrow>
          (case lock_all (xo_locks io) d m of
            None \<Rightarrow> None
          | Some (Some e, m) \<Rightarrow> Some (Some e, m, d, q)
          | Some (None, m) \<Rightarrow>
              map_option (\<lambda>(r, m, d, q). (r, unlock_all m, d, q)) (expunge_locked io now QDB immediate cleanup decideproc x m d q)))"

section \<open>Failures\<close>

lemma put_expunge_simps [simp]: "md_index (put_expunge x d) = md_index d" "md_cache (put_expunge x d) = md_cache d"
  "md_messages (put_expunge x d) = md_messages d" "md_ino (put_expunge x d) = md_ino d"
  by (simp_all add: put_expunge_def split: option.splits)

definition same_mail :: "maildir \<Rightarrow> maildir \<Rightarrow> bool" where
  "same_mail d d' \<longleftrightarrow> md_index d' = md_index d \<and> md_cache d' = md_cache d \<and> md_messages d' = md_messages d"

lemma same_mail_simps [simp]: "same_mail d d" "same_mail d (put_expunge x d') = same_mail d d'"
  "same_mail d (d'\<lparr>md_expunge := x\<rparr>) = same_mail d d'"
  by (simp_all add: same_mail_def)











section \<open>What is copied\<close>

definition uid_of :: "string \<Rightarrow> nat" where
  "uid_of r = unat (get32 r OFFSET_UID)"

definition flags_set :: "32 word \<Rightarrow> string list \<Rightarrow> 32 word" where
  "flags_set f rs = sum_list (map (flag_bit f) rs)"

definition octets :: "string list \<Rightarrow> 64 word" where
  "octets rs = sum_list (map (\<lambda>r. ucast (get32 r OFFSET_SIZE)) rs)"

text \<open>The counters of a header are those of its records.\<close>

definition counts_ok :: "string \<Rightarrow> string list \<Rightarrow> bool" where
  "counts_ok h rs \<longleftrightarrow> length h = INDEX_HEADER_SIZE \<and> get32 h OFFSET_EXISTS = of_nat (length rs) \<and> get32 h OFFSET_ANSWERED = flags_set FLAG_ANSWERED rs \<and>
     get32 h OFFSET_DELETED = flags_set FLAG_DELETED rs \<and> get32 h OFFSET_FLAGGED = flags_set FLAG_FLAGGED rs \<and>
     get64 h OFFSET_QUOTA_MAILBOX_USED64 = octets rs"

lemma remember_fields [simp]: "pr_index (remember b p) = pr_index p" "pr_cache (remember b p) = pr_cache p" "pr_total (remember b p) = pr_total p"
  "pr_expunge (remember b p) = pr_expunge p" "pr_pos (remember b p) = pr_pos p"
  by (simp_all add: remember_def)

lemma remember_index [simp]: "remember b (p\<lparr>pr_index := i\<rparr>) = (remember b p)\<lparr>pr_index := i\<rparr>"
  "remember b (p\<lparr>pr_cache := c\<rparr>) = (remember b p)\<lparr>pr_cache := c\<rparr>" "remember b (p\<lparr>pr_total := t\<rparr>) = (remember b p)\<lparr>pr_total := t\<rparr>"
  "remember b (p\<lparr>pr_expunge := x\<rparr>) = (remember b p)\<lparr>pr_expunge := x\<rparr>" "remember b (p\<lparr>pr_pos := o'\<rparr>) = (remember b p)\<lparr>pr_pos := o'\<rparr>"
  by (simp_all add: remember_def)

definition remember_all :: "string list \<Rightarrow> processed \<Rightarrow> processed" where
  "remember_all rs p = fold remember rs p"

lemma remember_all_simps [simp]: "remember_all [] p = p" "remember_all (b # rs) p = remember_all rs (remember b p)"
  by (simp_all add: remember_all_def)

lemma remember_all_fields [simp]:
  "pr_deleted (remember_all rs p) = pr_deleted p @ map uid_of rs" "pr_quota (remember_all rs p) = pr_quota p + octets rs"
  "pr_answered (remember_all rs p) = pr_answered p + flags_set FLAG_ANSWERED rs" "pr_marked (remember_all rs p) = pr_marked p + flags_set FLAG_DELETED rs"
  "pr_flagged (remember_all rs p) = pr_flagged p + flags_set FLAG_FLAGGED rs" "pr_index (remember_all rs p) = pr_index p"
  "pr_cache (remember_all rs p) = pr_cache p" "pr_total (remember_all rs p) = pr_total p" "pr_expunge (remember_all rs p) = pr_expunge p"
  "pr_pos (remember_all rs p) = pr_pos p"
  by (induction rs arbitrary: p) (simp_all add: remember_def flags_set_def octets_def uid_of_def add.assoc)

lemma remember_all_index [simp]: "remember_all rs (p\<lparr>pr_index := i\<rparr>) = (remember_all rs p)\<lparr>pr_index := i\<rparr>"
  "remember_all rs (p\<lparr>pr_cache := c\<rparr>) = (remember_all rs p)\<lparr>pr_cache := c\<rparr>" "remember_all rs (p\<lparr>pr_total := t\<rparr>) = (remember_all rs p)\<lparr>pr_total := t\<rparr>"
  "remember_all rs (p\<lparr>pr_expunge := x\<rparr>) = (remember_all rs p)\<lparr>pr_expunge := x\<rparr>" "remember_all rs (p\<lparr>pr_pos := o'\<rparr>) = (remember_all rs p)\<lparr>pr_pos := o'\<rparr>"
  by (induction rs arbitrary: p) simp_all

definition good_record :: "nat \<Rightarrow> string \<Rightarrow> bool" where
  "good_record sz r \<longleftrightarrow> length r = sz \<and> get32 r OFFSET_UID \<noteq> 0"

definition stamp :: "int \<Rightarrow> string \<Rightarrow> string" where
  "stamp now r = put32 OFFSET_LAST_UPDATED (word_of_int now) r"

text \<open>Without the cache: kept records are copied, the others go to \<^verbatim>\<open>cyrus.expunge\<close>.\<close>

lemma process_delayed:
  assumes "list_all (good_record sz) rs" and "80 \<le> sz" and "pr_cache p = None" and "pr_index p = Some i" and "pr_expunge p = Some b" and "pr_pos p = length b"
  shows "process_loop (\<lambda>_. None) now l cache sz decide rs p = Some (None, (remember_all (filter decide rs) p)
    \<lparr>pr_index := Some (i @ concat (filter (\<lambda>r. \<not> decide r) rs)), pr_expunge := Some (b @ concat (map (stamp now) (filter decide rs))),
     pr_pos := length (b @ concat (map (stamp now) (filter decide rs)))\<rparr>)"
  using assms
proof (induction rs arbitrary: p i b)
  case (Cons r rs)
  have r: "length r = sz" "get32 r OFFSET_UID \<noteq> 0" using Cons.prems by (simp_all add: good_record_def)
  have rs: "list_all (good_record sz) rs" using Cons.prems by simp
  show ?case
  proof (cases "decide r")
    case True
    let ?p = "(remember r p)\<lparr>pr_expunge := Some (b @ stamp now r), pr_pos := length (b @ stamp now r)\<rparr>"
    have "copy_expunged (\<lambda>_. None) now l r (remember r p) = (True, ?p)"
      using Cons.prems by (simp add: copy_expunged_def stamp_def write_at_end Let_def)
    then show ?thesis using True r Cons.prems Cons.IH [OF rs Cons.prems(2), of ?p i "b @ stamp now r"] by simp
  next
    case False
    let ?p = "p\<lparr>pr_index := Some (i @ r)\<rparr>"
    have "keep_record cache r p = Some ?p" using Cons.prems by (simp add: keep_record_def)
    then show ?thesis using False r Cons.prems Cons.IH [OF rs Cons.prems(2), of ?p "i @ r" b] by simp
  qed
qed simp

text \<open>With the cache: the entries of the kept records are copied and the records point to them.\<close>

definition offset_of :: "string \<Rightarrow> nat" where
  "offset_of r = unat (get32 r OFFSET_CACHE_OFFSET)"

definition entry_of :: "string \<Rightarrow> string \<Rightarrow> string" where
  "entry_of cache r = the (cache_record cache (offset_of r))"

definition has_entry :: "string \<Rightarrow> string \<Rightarrow> bool" where
  "has_entry cache r \<longleftrightarrow> offset_of r \<noteq> 0 \<and> cache_record cache (offset_of r) \<noteq> None"

definition moved :: "nat \<Rightarrow> string \<Rightarrow> string" where
  "moved t r = put32 OFFSET_CACHE_OFFSET (of_nat t) r"

fun relocate :: "string \<Rightarrow> nat \<Rightarrow> string list \<Rightarrow> string list" where
  "relocate cache t [] = []"
| "relocate cache t (r # rs) = moved t r # relocate cache (t + length (entry_of cache r)) rs"

lemma process_immediate:
  assumes "list_all (good_record sz) rs" and "list_all (has_entry cache) (filter (\<lambda>r. \<not> decide r) rs)"
    and "pr_cache p = Some c" and "pr_total p = length c" and "pr_index p = Some i" and "pr_expunge p = None"
  shows "process_loop app now l cache sz decide rs p = Some (None, (remember_all (filter decide rs) p)
    \<lparr>pr_index := Some (i @ concat (relocate cache (length c) (filter (\<lambda>r. \<not> decide r) rs))),
     pr_total := length (c @ concat (map (entry_of cache) (filter (\<lambda>r. \<not> decide r) rs))),
     pr_cache := Some (c @ concat (map (entry_of cache) (filter (\<lambda>r. \<not> decide r) rs)))\<rparr>)"
  using assms
proof (induction rs arbitrary: p i c)
  case (Cons r rs)
  have r: "length r = sz" "get32 r OFFSET_UID \<noteq> 0" using Cons.prems by (simp_all add: good_record_def)
  have rs: "list_all (good_record sz) rs" "list_all (has_entry cache) (filter (\<lambda>r. \<not> decide r) rs)"
    using Cons.prems by (simp_all split: if_splits)
  show ?case
  proof (cases "decide r")
    case True
    have "copy_expunged app now l r (remember r p) = (True, remember r p)" using Cons.prems by (simp add: copy_expunged_def)
    then show ?thesis using True r Cons.prems Cons.IH [OF rs, of "remember r p" c i] by simp
  next
    case False
    let ?e = "entry_of cache r"
    let ?p = "p\<lparr>pr_index := Some (i @ moved (length c) r), pr_total := length (c @ ?e), pr_cache := Some (c @ ?e)\<rparr>"
    have "has_entry cache r" using Cons.prems(2) False by simp
    then have "cache_record cache (offset_of r) = Some ?e" "offset_of r \<noteq> 0" by (auto simp: has_entry_def entry_of_def)
    then have "keep_record cache r p = Some ?p" using Cons.prems by (simp add: keep_record_def offset_of_def moved_def Let_def)
    then show ?thesis using False r Cons.prems Cons.IH [OF rs, of ?p "c @ ?e" "i @ moved (length c) r"] by simp
  qed
qed simp

text \<open>An entry that was copied is the same entry.\<close>

lemma get32_shift: "p + 4 \<le> e \<Longrightarrow> take (e - p) (drop p' b') = take (e - p) (drop p b) \<Longrightarrow> get32 b' p' = get32 b p"
  unfolding get32_def by (metis add_le_imp_le_diff add.commute min.absorb1 take_take)

lemma cache_end_le: "cache_end b n p = Some e \<Longrightarrow> p \<le> e \<and> e \<le> length b"
proof (induction n arbitrary: p)
  case (Suc n)
  then have "cache_end b n (CACHE_ITEM_NEXT b p) = Some e" by (simp split: if_splits)
  from Suc.IH [OF this] show ?case by (simp add: CACHE_ITEM_NEXT_def)
qed (simp split: if_splits)

lemma cache_end_shift:
  assumes "cache_end b n p = Some e" and "take (e - p) (drop p' b') = take (e - p) (drop p b)" and "p' + (e - p) \<le> length b'"
  shows "cache_end b' n p' = Some (p' + (e - p))"
  using assms
proof (induction n arbitrary: p p')
  case 0
  then show ?case by (auto split: if_splits)
next
  case (Suc n)
  let ?n = "CACHE_ITEM_NEXT b p"
  have r: "cache_end b n ?n = Some e" using Suc.prems(1) by (simp split: if_splits)
  have le: "?n \<le> e" "p + 4 \<le> ?n" "e \<le> length b" using cache_end_le [OF r] by (simp_all add: CACHE_ITEM_NEXT_def)
  have "get32 b' p' = get32 b p" using get32_shift [of p e p' b' b] le Suc.prems(2) by simp
  then have n': "CACHE_ITEM_NEXT b' p' = p' + (?n - p)" by (simp add: CACHE_ITEM_NEXT_def)
  have "take (e - ?n) (drop (?n - p) (take (e - p) (drop p' b'))) = take (e - ?n) (drop (?n - p) (take (e - p) (drop p b)))"
    using Suc.prems(2) by simp
  then have t: "take (e - ?n) (drop (p' + (?n - p)) b') = take (e - ?n) (drop ?n b)"
    using le by (simp add: drop_take min_def add.commute)
  have "p' + (?n - p) + (e - ?n) = p' + (e - p)" using le by simp
  then show ?case using Suc.IH [OF r t] Suc.prems(1,3) n' le by (simp split: if_splits)
qed

lemma cache_record_shift:
  assumes "cache_record b off = Some x" and "b' = u @ x @ v"
  shows "cache_record b' (length u) = Some x"
proof -
  obtain e where e: "cache_end b NUM_CACHE_FIELDS off = Some e" "x = take (e - off) (drop off b)"
    using assms(1) by (auto simp: cache_record_def)
  have "off \<le> e" "e \<le> length b" using cache_end_le [OF e(1)] by simp_all
  then have "length x = e - off" using e(2) by simp
  then show ?thesis using cache_end_shift [OF e(1), of "length u" b'] e(2) assms(2) by (simp add: cache_record_def)
qed

text \<open>Counters after a copy.\<close>

lemma sums_filter: "flags_set f (filter d rs) + flags_set f (filter (\<lambda>r. \<not> d r) rs) = flags_set f rs"
  "octets (filter d rs) + octets (filter (\<lambda>r. \<not> d r) rs) = octets rs"
  by (induction rs) (simp_all add: flags_set_def octets_def algebra_simps)

lemma sums_append: "flags_set f (rs @ ss) = flags_set f rs + flags_set f ss" "octets (rs @ ss) = octets rs + octets ss"
  by (simp_all add: flags_set_def octets_def)

lemma length_filters: "length (filter d rs) + length (filter (\<lambda>r. \<not> d r) rs) = length rs"
  by (induction rs) simp_all

lemmas counted = fields apart_def offsets

lemma fix_header_length: "length h = 96 \<Longrightarrow> length (fix_header 96 p h) = 96"
  by (simp add: fix_header_def Let_def offsets)

lemma fix_header_fields:
  assumes "length h = 96"
  shows "get32 (fix_header 96 p h) OFFSET_EXISTS = get32 h OFFSET_EXISTS - of_nat (length (pr_deleted p))"
    "get32 (fix_header 96 p h) OFFSET_ANSWERED = get32 h OFFSET_ANSWERED - pr_answered p"
    "get32 (fix_header 96 p h) OFFSET_DELETED = get32 h OFFSET_DELETED - pr_marked p"
    "get32 (fix_header 96 p h) OFFSET_FLAGGED = get32 h OFFSET_FLAGGED - pr_flagged p"
    "get64 (fix_header 96 p h) OFFSET_QUOTA_MAILBOX_USED64 = get64 h OFFSET_QUOTA_MAILBOX_USED64 - pr_quota p"
    "get32 (fix_header 96 p h) OFFSET_GENERATION_NO = get32 h OFFSET_GENERATION_NO"
  using assms by (simp_all add: fix_header_def Let_def counted)

lemma add_counts_length: "length h = 96 \<Longrightarrow> length (add_counts now 96 p h) = 96"
  by (simp add: add_counts_def Let_def offsets)

lemma add_counts_fields:
  assumes "length h = 96"
  shows "get32 (add_counts now 96 p h) OFFSET_EXISTS = get32 h OFFSET_EXISTS + of_nat (length (pr_deleted p))"
    "get32 (add_counts now 96 p h) OFFSET_ANSWERED = get32 h OFFSET_ANSWERED + pr_answered p"
    "get32 (add_counts now 96 p h) OFFSET_DELETED = get32 h OFFSET_DELETED + pr_marked p"
    "get32 (add_counts now 96 p h) OFFSET_FLAGGED = get32 h OFFSET_FLAGGED + pr_flagged p"
    "get64 (add_counts now 96 p h) OFFSET_QUOTA_MAILBOX_USED64 = get64 h OFFSET_QUOTA_MAILBOX_USED64 + pr_quota p"
  using assms by (simp_all add: add_counts_def Let_def counted)

text \<open>Only the flags, the size and the UID of a record count.\<close>

definition alike :: "string \<Rightarrow> string \<Rightarrow> bool" where
  "alike r r' \<longleftrightarrow> length r' = length r \<and> get32 r' OFFSET_UID = get32 r OFFSET_UID \<and> get32 r' OFFSET_SIZE = get32 r OFFSET_SIZE \<and>
     get32 r' OFFSET_SYSTEM_FLAGS = get32 r OFFSET_SYSTEM_FLAGS"

lemma alike_sums: "list_all2 alike rs rs' \<Longrightarrow> flags_set f rs' = flags_set f rs \<and> octets rs' = octets rs \<and> length rs' = length rs"
  by (induction rule: list_all2_induct) (auto simp: flags_set_def octets_def alike_def flag_bit_def)

lemma alike_counts: "list_all2 alike rs rs' \<Longrightarrow> counts_ok h rs' = counts_ok h rs"
  using alike_sums by (simp add: counts_ok_def)

lemma stamp_alike: "80 \<le> length r \<Longrightarrow> alike r (stamp now r)"
  by (simp add: alike_def stamp_def counted)

lemma moved_alike: "80 \<le> length r \<Longrightarrow> alike r (moved t r)"
  by (simp add: alike_def moved_def counted)

lemma relocate_alike: "list_all (\<lambda>r. 80 \<le> length r) rs \<Longrightarrow> list_all2 alike rs (relocate cache t rs)"
  by (induction rs arbitrary: t) (auto intro: moved_alike)

lemma fix_header_counts:
  assumes "counts_ok h rs" and "pr_deleted p = map uid_of (filter d rs)" and "pr_quota p = octets (filter d rs)"
    and "pr_answered p = flags_set FLAG_ANSWERED (filter d rs)" and "pr_marked p = flags_set FLAG_DELETED (filter d rs)"
    and "pr_flagged p = flags_set FLAG_FLAGGED (filter d rs)"
  shows "counts_ok (fix_header 96 p h) (filter (\<lambda>r. \<not> d r) rs)"
proof -
  have l: "length h = 96" using assms(1) by (simp add: counts_ok_def offsets)
  have n: "(of_nat (length rs) :: 32 word) - of_nat (length (filter d rs)) = of_nat (length (filter (\<lambda>r. \<not> d r) rs))"
    unfolding length_filters [of d rs, symmetric] by simp
  have f: "flags_set f rs - flags_set f (filter d rs) = flags_set f (filter (\<lambda>r. \<not> d r) rs)" for f
    using sums_filter(1) [of f d rs] by (metis add_diff_cancel_left')
  have o: "octets rs - octets (filter d rs) = octets (filter (\<lambda>r. \<not> d r) rs)" using sums_filter(2) [of d rs] by (metis add_diff_cancel_left')
  show ?thesis using assms l n f o by (simp add: counts_ok_def fix_header_fields fix_header_length INDEX_HEADER_SIZE_def OFFSET_SPARE4_def)
qed

section \<open>A run in which every call succeeds\<close>

lemma records_of_file:
  assumes "list_all (\<lambda>r. length r = sz) rs"
  shows "records_of (length h) sz (length rs) (h @ concat rs @ t) = rs"
proof (rule nth_equalityI)
  fix i assume "i < length (records_of (length h) sz (length rs) (h @ concat rs @ t))"
  then have i: "i < length rs" by (simp add: records_of_def)
  have b: "drop (i * sz) (concat rs) = rs ! i @ concat (drop (Suc i) rs)" using nth_blocks [of rs sz i] assms i by (auto simp: list_all_iff)
  have l: "length (rs ! i) = sz" using assms i by (simp add: list_all_length)
  have "records_of (length h) sz (length rs) (h @ concat rs @ t) ! i = take sz (drop (i * sz) (concat rs @ t))"
    using i by (simp add: records_of_def)
  also have "\<dots> = rs ! i" using b l by simp
  finally show "records_of (length h) sz (length rs) (h @ concat rs @ t) ! i = rs ! i" .
qed (simp add: records_of_def)

definition expunge_works :: "expunge_io \<Rightarrow> bool" where
  "expunge_works io \<longleftrightarrow> xo_open io \<and> xo_newindex io \<and> xo_newcache io \<and> xo_lock_expunge io \<and> io_works (xo_header io) \<and> xo_newexpunge io \<and>
     xo_append io = (\<lambda>_. None) \<and> xo_read io \<and> io_works (xo_update io) \<and> xo_flush io \<and> xo_rename_index io \<and> xo_rename_cache io \<and> xo_rename_expunge io"

text \<open>The mailbox \<^verbatim>\<open>m\<close> has the files of \<^verbatim>\<open>d\<close> open; the index has the header \<^verbatim>\<open>h\<close> and the records \<^verbatim>\<open>rs\<close>.\<close>

definition index_of :: "mailbox \<Rightarrow> maildir \<Rightarrow> string \<Rightarrow> string list \<Rightarrow> bool" where
  "index_of m d h rs \<longleftrightarrow> mb_index m = md_index d \<and> mb_cache m = md_cache d \<and> md_index d = h @ concat rs \<and> counts_ok h rs \<and>
     exists m = length rs \<and> start_offset m = INDEX_HEADER_SIZE \<and> INDEX_RECORD_SIZE \<le> record_size m \<and> record_size m \<le> INDEX_HEADER_SIZE \<and>
     list_all (good_record (record_size m)) rs"

context cyrusdb
begin

lemma release_quota_view:
  assumes "view (be_none B) q C C" and "good_key root" and "root \<noteq> []" and "qu_root (mb_quota m) = Some root"
    and "C root = Some (quota_text u)" and "limit_ok u" and "good_data (quota_text (less_used n u))"
  shows "\<exists>q'. release_quota B n m q = Some (True, m\<lparr>mb_quota := (less_used n u)\<lparr>qu_root := Some root\<rparr>\<rparr>, q') \<and>
    view (be_none B) q' (C(root \<mapsto> quota_text (less_used n u))) (C(root \<mapsto> quota_text (less_used n u)))"
proof -
  let ?u = "less_used n (u\<lparr>qu_root := Some root\<rparr>)"
  have t: "quota_text ?u = quota_text (less_used n u)" "qu_root ?u = Some root" "?u = (less_used n u)\<lparr>qu_root := Some root\<rparr>"
    by (simp_all add: quota_text_def less_used_def)
  obtain t1 d1 t2 d2 d3 where 1: "quota_read B (mb_quota m) (be_null B) True q = Some (None, u\<lparr>qu_root := Some root\<rparr>, t1, d1)"
      "quota_write B ?u t1 d1 = Some (None, t2, d2)" "quota_commit B t2 d2 = Some (be_null B, d3)"
      "view (be_none B) d3 (C(root \<mapsto> quota_text ?u)) (C(root \<mapsto> quota_text ?u))"
    using quota_change [OF assms(1-4), of ?u u] assms t by auto
  have "release_quota B n m q = Some (True, m\<lparr>mb_quota := ?u\<rparr>, d3)"
    unfolding release_quota_def using 1(1-3) by (simp add: Let_def)
  then show ?thesis using 1(4) t by auto
qed

end

lemma take_generation: "length h = 96 \<Longrightarrow> length (put32 OFFSET_GENERATION_NO g h) = 96 \<and> take 4 (put32 OFFSET_GENERATION_NO g h) = htonl g"
  by (simp add: put32_def offsets)

lemma generation_counts: "counts_ok (put32 OFFSET_GENERATION_NO g h) rs = counts_ok h rs"
proof (cases "length h = 96")
  case True
  then show ?thesis by (simp add: counts_ok_def counted)
next
  case False
  have "length (put32 OFFSET_GENERATION_NO g h) = 96 \<Longrightarrow> False" if "4 \<le> length h" using False that by (simp add: put32_def offsets)
  moreover have "length (put32 OFFSET_GENERATION_NO g h) \<noteq> 96" if "\<not> 4 \<le> length h" using that by (simp add: put32_def offsets)
  ultimately show ?thesis using False by (auto simp: counts_ok_def INDEX_HEADER_SIZE_def OFFSET_SPARE4_def)
qed

lemma immediate_records:
  assumes "index_of m d h rs" and "list_all (has_entry (md_cache d)) (filter (\<lambda>r. \<not> decide r) rs)"
  defines "h0 \<equiv> put32 OFFSET_GENERATION_NO (generation_no m + 1) h"
  shows "\<exists>p h'. process_records app now l m decide (mb_index m) (exists m) (start_processed (grow_header 96 h0) (Some (take 4 h0)) None l) = Some (None, p) \<and>
    pr_deleted p = map uid_of (filter decide rs) \<and> pr_quota p = octets (filter decide rs) \<and> pr_expunge p = None \<and>
    pr_cache p = Some (htonl (generation_no m + 1) @ concat (map (entry_of (md_cache d)) (filter (\<lambda>r. \<not> decide r) rs))) \<and>
    pr_index p = Some (h' @ concat (relocate (md_cache d) 4 (filter (\<lambda>r. \<not> decide r) rs))) \<and>
    counts_ok h' (filter (\<lambda>r. \<not> decide r) rs) \<and> get32 h' OFFSET_GENERATION_NO = generation_no m + 1"
proof -
  let ?K = "filter (\<lambda>r. \<not> decide r) rs" and ?sz = "record_size m" and ?c = "md_cache d" and ?p = "start_processed h0 (Some (take 4 h0)) None l"
  note ix = assms(1) [unfolded index_of_def]
  have hl: "length h = 96" using ix by (simp add: counts_ok_def offsets)
  have h0: "length h0 = 96" "take 4 h0 = htonl (generation_no m + 1)" "counts_ok h0 rs"
    using take_generation [OF hl] generation_counts ix by (simp_all add: h0_def)
  have g: "grow_header 96 h0 = h0" by (simp add: grow_header_def offsets)
  have rs: "records_of 96 ?sz (exists m) (mb_index m) = rs"
    using records_of_file [of ?sz rs h "[]"] ix hl by (auto simp: list_all_iff good_record_def)
  let ?q = "(remember_all (filter decide rs) ?p)\<lparr>pr_index := Some (h0 @ concat (relocate ?c 4 ?K)),
    pr_total := length (take 4 h0 @ concat (map (entry_of ?c) ?K)), pr_cache := Some (take 4 h0 @ concat (map (entry_of ?c) ?K))\<rparr>"
  have "process_loop app now l ?c ?sz decide rs ?p = Some (None, ?q)"
    using process_immediate [of ?sz rs ?c decide ?p "take 4 h0" h0 app now l] ix assms(2) h0(1) by (simp add: start_processed_def)
  then have "process_records app now l m decide (mb_index m) (exists m) ?p =
      Some (None, ?q\<lparr>pr_index := Some (fix_header 96 ?q h0 @ concat (relocate ?c 4 ?K))\<rparr>)"
    using ix rs h0(1) by (simp add: process_records_def INDEX_HEADER_SIZE_def OFFSET_SPARE4_def Let_def)
  moreover have "counts_ok (fix_header 96 ?q h0) ?K" by (rule fix_header_counts [OF h0(3)]) (simp_all add: start_processed_def)
  moreover have "get32 (fix_header 96 ?q h0) OFFSET_GENERATION_NO = generation_no m + 1"
    using fix_header_fields(6) [OF h0(1), of ?q] hl by (simp add: h0_def offsets)
  ultimately show ?thesis unfolding g using h0(2) by (auto simp: start_processed_def)
qed

text \<open>A record that was kept: only the place of its cache entry has changed, and the entry there is the same.\<close>

definition kept_as :: "string \<Rightarrow> string \<Rightarrow> string \<Rightarrow> string \<Rightarrow> bool" where
  "kept_as cache cache' r r' \<longleftrightarrow> r' = moved (offset_of r') r \<and> cache_record cache' (offset_of r') = cache_record cache (offset_of r)"

lemma relocate_kept:
  assumes "cache' = u @ concat (map (entry_of cache) rs)" and "list_all (has_entry cache) rs" and "list_all (\<lambda>r. 80 \<le> length r) rs"
    and "length cache' < 2 ^ 32"
  shows "list_all2 (kept_as cache cache') rs (relocate cache (length u) rs)"
  using assms
proof (induction rs arbitrary: u)
  case (Cons r rs)
  have e: "cache_record cache (offset_of r) = Some (entry_of cache r)" using Cons.prems(2) by (auto simp: has_entry_def entry_of_def)
  have l: "length u < 2 ^ 32" using Cons.prems(1,4) by simp
  have o: "offset_of (moved (length u) r) = length u"
    using Cons.prems(3) l by (simp add: offset_of_def moved_def unat_of_nat offsets)
  have "cache_record cache' (length u) = Some (entry_of cache r)" by (rule cache_record_shift [OF e]) (simp add: Cons.prems(1))
  moreover have "list_all2 (kept_as cache cache') rs (relocate cache (length (u @ entry_of cache r)) rs)"
    using Cons.prems by (intro Cons.IH) simp_all
  moreover from calculation(1) have "kept_as cache cache' r (moved (length u) r)" using e o by (simp add: kept_as_def)
  ultimately show ?case by simp
qed simp

section \<open>Properties\<close>

text \<open>
  C3: Expunging at once. The new index has exactly the records of the messages that are not expunged, in their order, each with
  the cache entry it had; its counters of messages, flags and octets are those of its records; index and cache carry the same,
  next generation, so that the mailbox can be opened again; exactly the files of the expunged messages are removed; and the quota
  root loses the octets of these messages.
\<close>

theorem expunge_immediate:
  assumes "expunge_works io" and "lock_all (xo_locks io) d m = Some (None, m0)" and "index_of m0 d h rs"
    and "decide = decide_first False decideproc"
    and "list_all (has_entry (md_cache d)) (filter (\<lambda>r. \<not> decide r) rs)"
    and "4 + length (concat (map (entry_of (md_cache d)) (filter (\<lambda>r. \<not> decide r) rs))) < 2 ^ 32"
    and "flat_view No_txn q C C" and "key_ok root" and "root \<noteq> []" and "qu_root (mb_quota m0) = Some root"
    and "C root = Some (quota_text u)" and "limit_ok u" and "mode_immediate \<or> force"
  shows "\<exists>m' d' q' h' rs'. mailbox_expunge io now (cyrusdb_flat working_io) mode_immediate force False decideproc m d q = Some (None, m', d', q') \<and>
    md_index d' = h' @ concat rs' \<and> counts_ok h' rs' \<and> list_all2 (kept_as (md_cache d) (md_cache d')) (filter (\<lambda>r. \<not> decide r) rs) rs' \<and>
    get32 h' OFFSET_GENERATION_NO = get32 (md_cache d') OFFSET_GENERATION_NO \<and>
    md_messages d' = md_messages d - uid_of ` set (filter decide rs) \<and> md_expunge d' = md_expunge d \<and>
    (let C' = C(root \<mapsto> quota_text (less_used (octets (filter decide rs)) u)) in flat_view No_txn q' C' C')"
proof -
  let ?K = "filter (\<lambda>r. \<not> decide r) rs" and ?n = "octets (filter decide rs)" and ?c = "md_cache d" and ?B = "cyrusdb_flat working_io"
  let ?h = "new_header True m0 (mb_index m0)"
  note io = assms(1) [unfolded expunge_works_def] and ix = assms(3) [unfolded index_of_def]
  have hl: "length h = 96" using ix by (simp add: counts_ok_def offsets)
  have h: "?h = put32 OFFSET_GENERATION_NO (generation_no m0 + 1) h" using ix hl by (simp add: new_header_def offsets)
  obtain p h' where p: "process_records (xo_append io) now 0 m0 decide (mb_index m0) (exists m0)
        (start_processed (grow_header 96 ?h) (Some (take 4 ?h)) None 0) = Some (None, p)"
      "pr_deleted p = map uid_of (filter decide rs)" "pr_quota p = ?n" "pr_expunge p = None"
      "pr_cache p = Some (htonl (generation_no m0 + 1) @ concat (map (entry_of ?c) ?K))" "pr_index p = Some (h' @ concat (relocate ?c 4 ?K))"
      "counts_ok h' ?K" "get32 h' OFFSET_GENERATION_NO = generation_no m0 + 1"
    using immediate_records [OF assms(3,5)] unfolding h by blast
  obtain q' where q': "release_quota ?B ?n m0 q = Some (True, m0\<lparr>mb_quota := (less_used ?n u)\<lparr>qu_root := Some root\<rparr>\<rparr>, q')"
      "flat_view No_txn q' (C(root \<mapsto> quota_text (less_used ?n u))) (C(root \<mapsto> quota_text (less_used ?n u)))"
    using flat.release_quota_view [of q C root m0 u ?n] assms(7-12) quota_text_flat by (auto simp: cyrusdb_flat_def)
  let ?d = "d\<lparr>md_ino := Suc (md_ino d), md_index := h' @ concat (relocate ?c 4 ?K), md_cache := htonl (generation_no m0 + 1) @ concat (map (entry_of ?c) ?K),
    md_messages := md_messages d - set (map uid_of (filter decide rs))\<rparr>"
  have "expunge_locked io now ?B True False decideproc None m0 d q = Some (None, m0\<lparr>mb_quota := (less_used ?n u)\<lparr>qu_root := Some root\<rparr>\<rparr>, ?d, q')"
    unfolding expunge_locked_def using io ix p q'(1) assms(4)
    by (simp add: Let_def expunge_file_def second_phase_def install_def put_expunge_def INDEX_HEADER_SIZE_def OFFSET_SPARE4_def)
  then have 1: "mailbox_expunge io now ?B mode_immediate force False decideproc m d q =
      Some (None, unlock_all (m0\<lparr>mb_quota := (less_used ?n u)\<lparr>qu_root := Some root\<rparr>\<rparr>), ?d, q')"
    using assms(2,13) by (auto simp: mailbox_expunge_def open_expunge_def)
  have r: "list_all (\<lambda>r. 80 \<le> length r) ?K" using ix by (auto simp: list_all_iff good_record_def offsets)
  have 2: "list_all2 (kept_as ?c (md_cache ?d)) ?K (relocate ?c 4 ?K)"
    using relocate_kept [of "md_cache ?d" "htonl (generation_no m0 + 1)" ?c ?K] assms(5,6) r by simp
  have 3: "counts_ok h' (relocate ?c 4 ?K)" using alike_counts [OF relocate_alike [OF r]] p(7) by simp
  have "get32 (md_cache ?d) OFFSET_GENERATION_NO = generation_no m0 + 1" by (simp add: get32_def offsets)
  then show ?thesis using 1 2 3 p(8) q'(2) by (intro exI [of _ "unlock_all (m0\<lparr>mb_quota := (less_used ?n u)\<lparr>qu_root := Some root\<rparr>\<rparr>)"] exI [of _ ?d] exI [of _ q'] exI [of _ h'] exI [of _ "relocate ?c 4 ?K"]) simp
qed

lemma lock_index_expunge: "mailbox_lock_index io (d\<lparr>md_expunge := x\<rparr>) = mailbox_lock_index io d"
proof
  fix m
  have f: "md_ino (d\<lparr>md_expunge := x\<rparr>) = md_ino d" "md_index (d\<lparr>md_expunge := x\<rparr>) = md_index d" "md_cache (d\<lparr>md_expunge := x\<rparr>) = md_cache d"
    by simp_all
  show "mailbox_lock_index io (d\<lparr>md_expunge := x\<rparr>) m = mailbox_lock_index io d m"
    unfolding mailbox_lock_index_def mailbox_open_index_def f ..
qed

lemma lock_all_expunge [simp]: "lock_all io (d\<lparr>md_expunge := x\<rparr>) m = lock_all io d m"
  unfolding lock_all_def lock_index_expunge ..

lemma empty_header_counts: "length h = 96 \<Longrightarrow> counts_ok (empty_header h) []"
  by (simp add: counts_ok_def empty_header_def flags_set_def octets_def counted)

lemma stamped_alike: "list_all (\<lambda>r. 80 \<le> length r) rs \<Longrightarrow> list_all2 alike rs (map (stamp now) rs)"
  by (induction rs) (auto intro: stamp_alike)

lemma add_counts_ok:
  assumes "counts_ok h es" and "pr_deleted p = map uid_of rs" and "pr_quota p = octets rs" and "pr_answered p = flags_set FLAG_ANSWERED rs"
    and "pr_marked p = flags_set FLAG_DELETED rs" and "pr_flagged p = flags_set FLAG_FLAGGED rs" and "list_all (\<lambda>r. 80 \<le> length r) rs"
  shows "counts_ok (add_counts now 96 p h) (es @ map (stamp now) rs)"
proof -
  have "length h = 96" using assms(1) by (simp add: counts_ok_def offsets)
  then show ?thesis using assms alike_sums [OF stamped_alike [OF assms(7), of now]]
    by (simp add: counts_ok_def add_counts_fields add_counts_length sums_append INDEX_HEADER_SIZE_def OFFSET_SPARE4_def)
qed

text \<open>\<^verbatim>\<open>cyrus.expunge\<close> has the records \<^verbatim>\<open>es\<close>; none, when there is no file.\<close>

definition expunge_of :: "nat \<Rightarrow> string option \<Rightarrow> string list \<Rightarrow> bool" where
  "expunge_of sz x es \<longleftrightarrow> (case x of None \<Rightarrow> es = []
     | Some b \<Rightarrow> (\<exists>h. b = h @ concat es \<and> counts_ok h es) \<and> list_all (\<lambda>r. length r = sz) es \<and> length es < 2 ^ 32)"

lemma expunge_file_delayed:
  assumes "expunge_works io" and "expunge_of sz (md_expunge d) es" and "length h = 96" and "80 \<le> sz"
  shows "\<exists>x d1 eh. open_expunge io False False False d = Inr (x, d1) \<and> d1 = d\<lparr>md_expunge := x\<rparr> \<and>
    expunge_file io False h x = Continue (Some (eh @ concat es), length es, False) \<and> counts_ok eh es \<and> length (eh @ concat es) = 96 + length es * sz"
proof (cases "md_expunge d")
  case None
  then have es: "es = []" using assms(2) by (simp add: expunge_of_def)
  let ?e = "empty_header h"
  have c: "counts_ok ?e []" by (rule empty_header_counts) (rule assms(3))
  then have l: "length ?e = 96" "get32 ?e OFFSET_EXISTS = 0" by (simp_all add: counts_ok_def offsets)
  have "write_at 0 ?e [] = ?e" using write_at_end [of "[]" ?e] by simp
  then have "expunge_file io False h (Some []) = Continue (Some ?e, 0, False)"
    using assms(1) l by (simp add: expunge_file_def expunge_works_def Let_def offsets)
  then show ?thesis using None es c l assms(1) by (auto simp: open_expunge_def expunge_works_def)
next
  case (Some b)
  then obtain eh where e: "b = eh @ concat es" "counts_ok eh es" "list_all (\<lambda>r. length r = sz) es" "length es < 2 ^ 32"
    using assms(2) by (auto simp: expunge_of_def)
  have l: "length eh = 96" using e(2) by (simp add: counts_ok_def offsets)
  have le: "length (concat es) = length es * sz" using e(3) by (induction es) auto
  have "get32 b OFFSET_EXISTS = of_nat (length es)" using e(1,2) l by (simp add: counts_ok_def get32_def offsets)
  then have "unat (get32 b OFFSET_EXISTS) = length es" using e(4) by (simp add: unat_of_nat)
  then have "expunge_file io False h (Some b) = Continue (Some b, length es, False)"
    using assms(1) l e(1) by (auto simp: expunge_file_def expunge_works_def Let_def offsets)
  moreover have "d = d\<lparr>md_expunge := Some b\<rparr>" using Some by (cases d) simp
  ultimately show ?thesis using Some e l le assms(1) by (auto simp: open_expunge_def expunge_works_def)
qed

lemma delayed_records:
  assumes "index_of m d h rs" and "length b = l"
  shows "\<exists>p h'. process_records (\<lambda>_. None) now l m decide (mb_index m) (exists m) (start_processed (grow_header 96 h) None (Some b) l) = Some (None, p) \<and>
    pr_deleted p = map uid_of (filter decide rs) \<and> pr_quota p = octets (filter decide rs) \<and> pr_answered p = flags_set FLAG_ANSWERED (filter decide rs) \<and>
    pr_marked p = flags_set FLAG_DELETED (filter decide rs) \<and> pr_flagged p = flags_set FLAG_FLAGGED (filter decide rs) \<and> pr_cache p = None \<and>
    pr_expunge p = Some (b @ concat (map (stamp now) (filter decide rs))) \<and>
    pr_index p = Some (h' @ concat (filter (\<lambda>r. \<not> decide r) rs)) \<and> counts_ok h' (filter (\<lambda>r. \<not> decide r) rs)"
proof -
  let ?K = "filter (\<lambda>r. \<not> decide r) rs" and ?D = "filter decide rs" and ?sz = "record_size m" and ?p = "start_processed h None (Some b) l"
  note ix = assms(1) [unfolded index_of_def]
  have hl: "length h = 96" and co: "counts_ok h rs" using ix by (simp_all add: counts_ok_def offsets)
  have g: "grow_header 96 h = h" by (simp add: grow_header_def offsets)
  have rs: "records_of 96 ?sz (exists m) (mb_index m) = rs"
    using records_of_file [of ?sz rs h "[]"] ix hl by (auto simp: list_all_iff good_record_def)
  let ?q = "(remember_all ?D ?p)\<lparr>pr_index := Some (h @ concat ?K), pr_expunge := Some (b @ concat (map (stamp now) ?D)),
     pr_pos := length (b @ concat (map (stamp now) ?D))\<rparr>"
  have "process_loop (\<lambda>_. None) now l (mb_cache m) ?sz decide rs ?p = Some (None, ?q)"
    using process_delayed [of ?sz rs ?p h b now l "mb_cache m" decide] ix assms(2)
    by (simp add: start_processed_def INDEX_RECORD_SIZE_def offsets)
  then have "process_records (\<lambda>_. None) now l m decide (mb_index m) (exists m) ?p =
      Some (None, ?q\<lparr>pr_index := Some (fix_header 96 ?q h @ concat ?K)\<rparr>)"
    using ix rs hl by (simp add: process_records_def INDEX_HEADER_SIZE_def OFFSET_SPARE4_def Let_def)
  moreover have "counts_ok (fix_header 96 ?q h) ?K" by (rule fix_header_counts [OF co]) (simp_all add: start_processed_def)
  ultimately show ?thesis unfolding g by (auto simp: start_processed_def)
qed

text \<open>
  C8: Expunging with delay loses no record. The records of the index are split: those that stay are the new index, in their
  order, the others are appended to \<^verbatim>\<open>cyrus.expunge\<close> with the time of the expunge; the counters of both files are those of
  their records; the cache and the message files stay, and the quota root loses the octets of the expunged messages.
\<close>

theorem expunge_delayed:
  assumes "expunge_works io" and "lock_all (xo_locks io) d m = Some (None, m0)" and "index_of m0 d h rs"
    and "expunge_of (record_size m0) (md_expunge d) es" and "decide = decide_first False decideproc"
    and "flat_view No_txn q C C" and "key_ok root" and "root \<noteq> []" and "qu_root (mb_quota m0) = Some root"
    and "C root = Some (quota_text u)" and "limit_ok u"
  shows "\<exists>m' d' q' h' eh'. mailbox_expunge io now (cyrusdb_flat working_io) False False False decideproc m d q = Some (None, m', d', q') \<and>
    md_index d' = h' @ concat (filter (\<lambda>r. \<not> decide r) rs) \<and> counts_ok h' (filter (\<lambda>r. \<not> decide r) rs) \<and>
    md_expunge d' = Some (eh' @ concat (es @ map (stamp now) (filter decide rs))) \<and> counts_ok eh' (es @ map (stamp now) (filter decide rs)) \<and>
    md_cache d' = md_cache d \<and> md_messages d' = md_messages d \<and>
    (let C' = C(root \<mapsto> quota_text (less_used (octets (filter decide rs)) u)) in flat_view No_txn q' C' C')"
proof -
  let ?K = "filter (\<lambda>r. \<not> decide r) rs" and ?D = "filter decide rs" and ?B = "cyrusdb_flat working_io" and ?sz = "record_size m0"
  let ?n = "octets ?D"
  note io = assms(1) [unfolded expunge_works_def] and ix = assms(3) [unfolded index_of_def]
  have hl: "length h = 96" using ix by (simp add: counts_ok_def offsets)
  have sz: "80 \<le> ?sz" using ix by (simp add: INDEX_RECORD_SIZE_def offsets)
  have h: "new_header False m0 (mb_index m0) = h" using ix hl by (simp add: new_header_def offsets)
  obtain x eh where x: "open_expunge io False False False d = Inr (x, d\<lparr>md_expunge := x\<rparr>)"
      "expunge_file io False h x = Continue (Some (eh @ concat es), length es, False)" "counts_ok eh es"
      "length (eh @ concat es) = 96 + length es * ?sz"
    using expunge_file_delayed [OF assms(1,4) hl sz] by blast
  let ?b = "eh @ concat es" and ?l = "96 + length es * ?sz"
  obtain p h' where p: "process_records (xo_append io) now ?l m0 decide (mb_index m0) (exists m0) (start_processed (grow_header 96 h) None (Some ?b) ?l) = Some (None, p)"
      "pr_deleted p = map uid_of ?D" "pr_quota p = ?n" "pr_answered p = flags_set FLAG_ANSWERED ?D" "pr_marked p = flags_set FLAG_DELETED ?D"
      "pr_flagged p = flags_set FLAG_FLAGGED ?D" "pr_cache p = None" "pr_expunge p = Some (?b @ concat (map (stamp now) ?D))"
      "pr_index p = Some (h' @ concat ?K)" "counts_ok h' ?K"
    using delayed_records [OF assms(3) x(4), of now decide] io by auto
  obtain q' where q': "release_quota ?B ?n m0 q = Some (True, m0\<lparr>mb_quota := (less_used ?n u)\<lparr>qu_root := Some root\<rparr>\<rparr>, q')"
      "flat_view No_txn q' (C(root \<mapsto> quota_text (less_used ?n u))) (C(root \<mapsto> quota_text (less_used ?n u)))"
    using flat.release_quota_view [of q C root m0 u ?n] assms(6-11) quota_text_flat by (auto simp: cyrusdb_flat_def)
  let ?e = "add_counts now 96 p eh"
  have el: "length eh = 96" "length ?e = 96" using x(3) by (simp_all add: counts_ok_def offsets add_counts_length)
  have rl: "list_all (\<lambda>r. 80 \<le> length r) ?D" using ix sz by (auto simp: list_all_iff good_record_def)
  have e: "counts_ok ?e (es @ map (stamp now) ?D)" by (rule add_counts_ok [OF x(3) p(2-6) rl])
  have "update_expunge io now 96 ?l p (?b @ concat (map (stamp now) ?D)) = (True, ?e @ concat (es @ map (stamp now) ?D))"
    using io el by (simp add: update_expunge_def Let_def write_at_inside)
  then have s: "second_phase io now False False (decide_second decideproc) (m0\<lparr>mb_quota := v\<rparr>) (length es) False (Some ?b) p =
      Continue (p, None, Some (?e @ concat (es @ map (stamp now) ?D)), 0)" for v
    using ix p(8) by (simp add: second_phase_def offsets)
  let ?d = "d\<lparr>md_expunge := Some (?e @ concat (es @ map (stamp now) ?D)), md_ino := Suc (md_ino d), md_index := h' @ concat ?K\<rparr>"
  have "expunge_locked io now ?B False False decideproc x m0 (d\<lparr>md_expunge := x\<rparr>) q =
      Some (None, m0\<lparr>mb_quota := (less_used ?n u)\<lparr>qu_root := Some root\<rparr>\<rparr>, ?d, q')"
    unfolding expunge_locked_def using io ix p q'(1) assms(5) s x(2) h
    by (simp add: Let_def install_def put_expunge_def INDEX_HEADER_SIZE_def OFFSET_SPARE4_def)
  then have "mailbox_expunge io now ?B False False False decideproc m d q =
      Some (None, unlock_all (m0\<lparr>mb_quota := (less_used ?n u)\<lparr>qu_root := Some root\<rparr>\<rparr>), ?d, q')"
    using assms(2) x(1) by (simp add: mailbox_expunge_def)
  then show ?thesis using e p(10) q'(2)
    by (intro exI [of _ "unlock_all (m0\<lparr>mb_quota := (less_used ?n u)\<lparr>qu_root := Some root\<rparr>\<rparr>)"] exI [of _ ?d] exI [of _ q'] exI [of _ h'] exI [of _ ?e]) simp
qed

section \<open>Witnesses\<close>

definition deleted_record :: index_record where
  "deleted_record = sample_record\<lparr>ir_sentdate := 50\<rparr>"

definition kept_record :: index_record where
  "kept_record = sample_record\<lparr>ir_uid := 8, ir_sentdate := 50, ir_system_flags := FLAG_ANSWERED\<rparr>"

definition two_records :: "string list" where
  "two_records = [record_text deleted_record, record_text kept_record]"

definition sample_header :: mailbox where
  "sample_header = sample_mailbox\<lparr>mb_index_lock_count := 0, exists := 2, last_uid := 8, deleted := 1, answered := 1, quota_mailbox_used := 1000,
     mb_cache := htonl 3 @ replicate 40 NUL, mb_quota := \<lparr>qu_root = Some ''user.b'', qu_used = 0, qu_limit = 0\<rparr>\<rparr>"

definition sample_box :: mailbox where
  "sample_box = sample_header\<lparr>mb_index := header_bytes sample_header @ concat two_records\<rparr>"

definition sample_dir :: maildir where
  "sample_dir = \<lparr>md_ino = 1, md_index = mb_index sample_box, md_cache = mb_cache sample_box, md_expunge = None, md_messages = {7, 8}\<rparr>"

definition sample_xo :: expunge_io where
  "sample_xo = \<lparr>xo_locks = \<lparr>lk_header = True, lk_index = True, lk_stat = True, lk_reopen = True, lk_pop = None\<rparr>, xo_open = True, xo_newindex = True,
     xo_newcache = True, xo_lock_expunge = True, xo_header = sample_io, xo_newexpunge = True, xo_append = (\<lambda>_. None), xo_read = True,
     xo_update = sample_io, xo_flush = True, xo_rename_index = True, xo_rename_cache = True, xo_rename_expunge = True\<rparr>"

definition locked_box :: mailbox where
  "locked_box = sample_box\<lparr>mb_header_lock_count := 1, mb_index_lock_count := 1, mb_pop_lock_count := 1\<rparr>"

lemma sample_xo_works: "expunge_works sample_xo"
  using samples_ok(3) by (simp add: expunge_works_def sample_xo_def)

lemma two_records_fields:
  "list_all (good_record 80) two_records" "flags_set FLAG_DELETED two_records = 1" "flags_set FLAG_ANSWERED two_records = 1"
  "flags_set FLAG_FLAGGED two_records = 0" "octets two_records = 1000" "length two_records = 2"
  using record_fields [of deleted_record "[]"] record_fields [of kept_record "[]"] length_record_text [of deleted_record] length_record_text [of kept_record]
  by (simp_all add: two_records_def good_record_def flags_set_def octets_def flag_bit_def deleted_record_def kept_record_def sample_record_def
      FLAG_DELETED_def FLAG_ANSWERED_def FLAG_FLAGGED_def)

lemma sample_counts: "counts_ok (header_bytes sample_header) two_records"
  using header_fields [of sample_header "[]"] two_records_fields
  by (simp add: counts_ok_def sample_header_def sample_mailbox_def INDEX_HEADER_SIZE_def OFFSET_SPARE4_def)

lemma sample_header_fits: "header_fits sample_header"
  using samples_ok(1) by (simp add: header_fits_def sample_header_def fits32_def)

lemma sample_index: "index_of locked_box sample_dir (header_bytes sample_header) two_records"
  using sample_counts two_records_fields
  by (simp add: index_of_def locked_box_def sample_dir_def sample_box_def) (simp add: sample_header_def sample_mailbox_def offsets)

lemma sample_lock: "lock_all (xo_locks sample_xo) sample_dir sample_box = Some (None, locked_box)"
proof -
  let ?m = "sample_box\<lparr>mb_header_lock_count := 1, mb_index_lock_count := 1\<rparr>"
  have f: "header_fits ?m" "header_bytes ?m = header_bytes sample_header"
    using sample_header_fits by (simp_all add: header_fits_def header_bytes_def sample_box_def)
  have e: "exists ?m = 2" "start_offset ?m = 96" "mb_index ?m = header_bytes sample_header @ concat two_records"
    by (simp_all add: sample_box_def sample_header_def sample_mailbox_def)
  have "mailbox_read_index_header False ?m = Index_Ok (?m\<lparr>options := options ?m\<rparr>)"
    using read_header_text [OF f(1), of "concat two_records" False] unfolding f(2) e by simp
  moreover have "?m\<lparr>options := options ?m\<rparr> = ?m" by simp
  ultimately have "mailbox_read_index_header False ?m = Index_Ok ?m" by (simp only:)
  moreover have "mb_header_lock_count sample_box = 0" "mb_index_lock_count sample_box = 0" "mb_pop_lock_count sample_box = 0" "mb_index_ino sample_box = 1"
    by (simp_all add: sample_box_def sample_header_def sample_mailbox_def)
  ultimately show ?thesis
    by (simp add: lock_all_def mailbox_lock_header_def mailbox_lock_index_def mailbox_lock_pop_def sample_xo_def sample_dir_def locked_box_def Let_def)
qed

lemma sample_decide: "filter (decide_first False None) two_records = [record_text deleted_record]"
  "filter (\<lambda>r. \<not> decide_first False None r) two_records = [record_text kept_record]"
  using record_fields [of deleted_record "[]"] record_fields [of kept_record "[]"]
  by (simp_all add: two_records_def decide_first_def deleted_record_def kept_record_def sample_record_def FLAG_DELETED_def FLAG_ANSWERED_def)

lemma cache_end_empty: "drop p b = replicate (4 * n) NUL \<Longrightarrow> p \<le> length b \<Longrightarrow> cache_end b n p = Some (length b)"
proof (induction n arbitrary: p)
  case 0
  then show ?case by simp
next
  case (Suc n)
  have l: "length b = p + (4 * n + 4)" using arg_cong [OF Suc.prems(1), of length] Suc.prems(2) by simp
  have "replicate 4 NUL = [NUL, NUL, NUL, NUL]" by (simp add: eval_nat_numeral)
  then have z: "ntohl (replicate 4 NUL) = 0" by (simp add: ntohl_def)
  have "take 4 (drop p b) = replicate 4 NUL" unfolding Suc.prems(1) take_replicate by simp
  then have "get32 b p = 0" unfolding get32_def using z by (simp only:)
  then have n: "CACHE_ITEM_NEXT b p = p + 4" by (simp add: CACHE_ITEM_NEXT_def)
  have "drop (p + 4) b = drop 4 (drop p b)" by (simp add: add.commute)
  also have "\<dots> = replicate (4 * n) NUL" using Suc.prems(1) by (simp add: drop_replicate del: drop_drop)
  finally show ?case using Suc.IH [of "p + 4"] l n by simp
qed

lemma sample_entry: "cache_record (md_cache sample_dir) 4 = Some (replicate 40 NUL)"
proof -
  let ?b = "htonl 3 @ replicate 40 NUL"
  have "cache_end ?b 10 4 = Some (length ?b)" by (rule cache_end_empty) simp_all
  then have "cache_record ?b 4 = Some (replicate 40 NUL)" by (simp add: cache_record_def NUM_CACHE_FIELDS_def)
  then show ?thesis by (simp add: sample_dir_def sample_box_def sample_header_def)
qed

lemma sample_kept: "offset_of (record_text kept_record) = 4" "uid_of (record_text deleted_record) = 7"
  using record_fields [of deleted_record "[]"] record_fields [of kept_record "[]"]
  by (simp_all add: offset_of_def uid_of_def deleted_record_def kept_record_def sample_record_def)

lemma sample_quota: "map_of two_quotas ''user.b'' = Some (quota_text \<lparr>qu_root = Some ''user.b'', qu_used = 2, qu_limit = 50\<rparr>)"
  by (simp add: two_quotas_def quota_text_2)

lemma sample_limit: "limit_ok \<lparr>qu_root = Some ''user.b'', qu_used = 2, qu_limit = 50\<rparr>"
  by (simp add: limit_ok_def)

lemma sample_root: "qu_root (mb_quota locked_box) = Some ''user.b''"
  by (simp add: locked_box_def sample_box_def sample_header_def)

theorem expunge_immediate_witness:
  "\<exists>m' d' q'. mailbox_expunge sample_xo 60 (cyrusdb_flat working_io) True False False None sample_box sample_dir quota_disk = Some (None, m', d', q') \<and>
    md_messages d' = {8}"
proof -
  have "list_all (has_entry (md_cache sample_dir)) (filter (\<lambda>r. \<not> decide_first False None r) two_records)"
    by (simp add: sample_decide has_entry_def sample_kept sample_entry)
  moreover have "4 + length (concat (map (entry_of (md_cache sample_dir)) (filter (\<lambda>r. \<not> decide_first False None r) two_records))) < 2 ^ 32"
    by (simp add: sample_decide entry_of_def sample_kept sample_entry)
  moreover have "md_messages sample_dir - uid_of ` set (filter (decide_first False None) two_records) = {8}"
    by (auto simp: sample_dir_def sample_decide sample_kept)
  moreover have "key_ok ''user.b''" "''user.b'' \<noteq> []" "True \<or> False" by simp_all
  ultimately show ?thesis
    using expunge_immediate [OF sample_xo_works sample_lock sample_index refl [of "decide_first False None"] _ _ quota_disk_ok _ _ sample_root
        sample_quota sample_limit, where now = 60 and mode_immediate = True and force = False] by metis
qed

theorem expunge_delayed_witness:
  "\<exists>m' d' q'. mailbox_expunge sample_xo 60 (cyrusdb_flat working_io) False False False None sample_box sample_dir quota_disk = Some (None, m', d', q') \<and>
    md_messages d' = {7, 8}"
proof -
  have e: "expunge_of (record_size locked_box) (md_expunge sample_dir) []" "md_messages sample_dir = {7, 8}" "key_ok ''user.b''" "''user.b'' \<noteq> []"
    by (simp_all add: expunge_of_def sample_dir_def)
  show ?thesis
    using expunge_delayed [OF sample_xo_works sample_lock sample_index e(1) refl [of "decide_first False None"] quota_disk_ok e(3,4) sample_root
        sample_quota sample_limit, of 60] e(2) by metis
qed


end
