(* ===== verification/Append.thy ===== *)
theory Append
  imports Mailbox_Expunge Acl Mboxname
begin

text \<open>
  Appending messages to a mailbox, \<^verbatim>\<open>imap/append.c\<close>: \<^verbatim>\<open>append_setup\<close>, \<^verbatim>\<open>append_fromstream\<close>, \<^verbatim>\<open>append_commit\<close> and
  \<^verbatim>\<open>append_abort\<close>.

  The files are those the mailbox has open (\<^verbatim>\<open>mb_index\<close>, \<^verbatim>\<open>mb_cache\<close>) and the set of the message files, by UID. What
  \<^verbatim>\<open>mailbox_open_header\<close> gives is an argument of \<^verbatim>\<open>append_setup\<close>. Copying and parsing a message and writing its cache
  entry (\<^verbatim>\<open>message_copy_strict\<close>, \<^verbatim>\<open>message_parse_file\<close>, \<^verbatim>\<open>message_create_record\<close> of \<^verbatim>\<open>imap/message.c\<close>) is the argument
  \<^verbatim>\<open>nm_made\<close> of a message: an error, or the record with the fields they fill in and the bytes added to the cache. Whether
  \<^verbatim>\<open>mailbox_write_header\<close> succeeds is an argument too, and the update of the seen state is only reported, as the list of
  UIDs it is called with.

  \<^verbatim>\<open>quota_used\<close> is an \<^verbatim>\<open>int\<close>: a word of 32 bits, extended with its sign when it is added to a number of octets.
\<close>

section \<open>Data\<close>





section \<open>Opening\<close>






section \<open>Giving up\<close>



section \<open>A message\<close>










section \<open>Committing\<close>





section \<open>Flags\<close>













section \<open>Messages that were added\<close>







lemma sane_times_fields [simp]: "ir_uid (sane_times now r) = ir_uid r" "ir_system_flags (sane_times now r) = ir_system_flags r"
  "ir_size (sane_times now r) = ir_size r" "ir_user_flags (sane_times now r) = ir_user_flags r"
  by (simp_all add: sane_times_def Let_def)
















section \<open>Many messages\<close>






section \<open>The commit\<close>











section \<open>Properties\<close>



section \<open>Witnesses\<close>













end
