(* ===== verification/Spec2Isabelle.thy ===== *)
theory Spec2Isabelle
  imports Acl Hash Sieve_Safety Sieve_Notify Master_Safety Cyrusdb_Flat Mboxname_Policy Timsieved_Parser Append
begin

text \<open>
  A verification development for the Cyrus IMAP server.

  \<^bold>\<open>The program.\<close> The server keeps the mail of many users. The master process (\<^verbatim>\<open>master/\<close>) starts the servers of
  the protocols and counts them. A message that arrives is given to the Sieve library (\<^verbatim>\<open>sieve/\<close>), which runs the
  compiled script of the user and tells the site, through callbacks, where the message goes; users install their
  scripts with the ManageSieve server (\<^verbatim>\<open>timsieved/\<close>), which compiles them. A message is stored in a mailbox
  (\<^verbatim>\<open>imap/append.c\<close>, \<^verbatim>\<open>imap/mailbox.c\<close>): a directory with a file for each message, an index of records of fixed
  size, a cache of what was parsed, and, for delayed expunges, an index of the expunged messages. Mailboxes have
  names (\<^verbatim>\<open>imap/mboxname.c\<close>) that are matched with patterns (\<^verbatim>\<open>lib/glob.c\<close>), access control lists (\<^verbatim>\<open>lib/acl.c\<close>,
  \<^verbatim>\<open>lib/acl_afs.c\<close>) of identifiers (\<^verbatim>\<open>lib/auth_unix.c\<close>), and quotas (\<^verbatim>\<open>imap/quota_db.c\<close>), which are entries of a
  database (\<^verbatim>\<open>lib/cyrusdb.h\<close>). One of the databases is a sorted text file (\<^verbatim>\<open>lib/cyrusdb_flat.c\<close>), searched by
  \<^verbatim>\<open>lib/bsearch.c\<close>.

  All paths here and in the theories are below \<^verbatim>\<open>src/cyrus_imap\<close>. A definition has the name of the C function,
  structure or constant it translates; the body of a loop or a part of a long function has a name of its own.

  \<^bold>\<open>The theories.\<close>

  \<^item> \<open>Prelude\<close>: C strings, \<^verbatim>\<open>ctype\<close>, words in network byte order, facts on lists, and the locales
    \<open>step_invariant\<close> and \<open>simulation\<close> that state machines share.

  \<^item> \<open>Auth_Unix\<close>, \<open>Acl\<close>: identifiers and groups; rights masks and their letters, the list
    \<^verbatim>\<open>identifier TAB rights TAB ...\<close> as a string, \<^verbatim>\<open>cyrus_acl_myrights\<close>, \<^verbatim>\<open>cyrus_acl_set\<close>, \<^verbatim>\<open>cyrus_acl_remove\<close>. The locale
    \<open>auth_canon\<close> is what the lists need of a mechanism; the Unix one is an instance. Shown: what setting an entry
    does to the entries and to the rights of every user, and that masks survive being written as letters.

  \<^item> \<open>Hash\<close>: the table of \<^verbatim>\<open>lib/hash.c\<close> with its sorted chains, a refinement of finite maps through the locale
    \<open>keyed_store\<close>.

  \<^item> \<open>Sieve_Tree\<close>, \<open>Sieve_Generate\<close>, \<open>Sieve_Emit\<close>, \<open>Sieve_Encoding\<close>: the parse tree and both passes of the compiler,
    \<^verbatim>\<open>sieve/bc_generate.c\<close> and \<^verbatim>\<open>sieve/bc_emit.c\<close>, with the growing array, the seeks and the jumps patched
    afterwards. The specification is the encoding of a tree as a pure function of the tree and of the position in
    the file; the compiler writes exactly that, and no write is outside the array.

  \<^item> \<open>Sieve_Comparator\<close>, \<open>Sieve_Message\<close>, \<open>Sieve_Eval\<close>: the comparators, the list of actions with its rules for
    conflicts, and the interpreter of \<^verbatim>\<open>sieve/bc_eval.c\<close> on the bytes of a file, every test and instruction and the
    inclusion of scripts. \<open>Sieve_Decode\<close>, \<open>Sieve_Tests\<close>, \<open>Sieve_Exec\<close>, \<open>Sieve_Run\<close> prove, layer by layer (words and
    strings, tests, commands, jumps), that running the bytes of a compiled script is executing its tree.

  \<^item> \<open>Sieve_Interp\<close>, \<open>Sieve_Script\<close>, \<open>Sieve_Safety\<close>, \<open>Sieve_Notify\<close>: the callbacks a site registers, the
    performing of the actions with every error, and what holds for any bytes and any answers of the site: no message
    is lost, a failed script does nothing, notifications and the implicit keep happen once. The locale
    \<open>action_invariant\<close> carries an invariant of the action list through the interpreter; it has two instances.

  \<^item> \<open>Master\<close>, \<open>Master_Safety\<close>: the table of children, the counters of the services, the machine that the messages
    of the children drive, the rate of forks and the schedule. The events are a step relation; two instances of
    \<open>step_invariant\<close> give what the counters mean and that the schedule stays sorted.

  \<^item> \<open>Bsearch\<close>, \<open>Cyrusdb_Flat\<close>, \<open>Cyrusdb\<close>: the binary search, equal to a linear one on sorted files for every hint;
    the flat database with its locks, transactions and failing system calls, a refinement of finite maps (locale
    \<open>map_store\<close>); the interface of the databases as a record of operations with the laws a caller relies on (locale
    \<open>cyrusdb\<close>), and the flat database as its instance.

  \<^item> \<open>Quota\<close>: entries and roots of quotas, proved once inside the locale \<open>cyrusdb\<close> and used on the flat database.

  \<^item> \<open>Mailbox_Index\<close>, \<open>Mailbox_Expunge\<close>, \<open>Append\<close>: \<^verbatim>\<open>cyrus.index\<close> byte by byte, the locks of a mailbox, the three kinds
    of expunge, and appending with commit and abort. The predicate \<open>counts_ok\<close> says that the counters of a header
    are those of the records behind it: committing an append and every expunge establish it. Failures of every write, rename and database call are arguments; the properties say what an error
    leaves behind.

  \<^item> \<open>Mboxname\<close>, \<open>Glob\<close>, \<open>Mboxname_Policy\<close>: the conversions between external and internal names, the patterns with
    their backtracking search, and the check of new names with the modified UTF-7 of IMAP against a specification of
    the canonical encoding.

  \<^item> \<open>Timsieved_Lex\<close>, \<open>Timsieved_Actions\<close>, \<open>Timsieved_Parser\<close>: the bytes of a client, the commands, authentication, and
    the Sieve directory as files and links. The directory is a \<open>simulation\<close> of an abstract store of scripts with an
    active one; the requests a client writes are carried out on it in order; a session touches one directory.

  \<^bold>\<open>State and errors.\<close> Structures are records, unions datatypes, linked lists lists. Files are lists of bytes and
  directories are finite lists or records of files. What the kernel, another server, a library or generated code
  answers is an argument; where it may depend on the past the argument is a function of the past. Error codes are
  values. \<open>None\<close>, or a constructor such as \<open>Stuck\<close> and \<open>Lost\<close>, is a run C does not define: a \<^verbatim>\<open>NULL\<close> pointer, a write
  outside a buffer, a failed assertion. The properties show that they do not happen, or under which inputs.

  \<^bold>\<open>Integers, bounds, fuel.\<close> Words of a file, masks and modification sequences are words of their width. Lengths,
  UIDs and counters are natural numbers, reduced where the code stores them in 32 bits; where a property needs that
  nothing wrapped, it says so (\<open>fits32\<close>, sums below \<open>2 ^ 31\<close>, compiled scripts below \<open>2 ^ 31\<close> bytes). The interpreter runs with
  fuel: \<open>script_fuel\<close> of the tree, or more, is enough for every compiled script, and does not change the result; on
  arbitrary bytes, where a loop may never end, running out is \<open>None\<close>. The second pass of the compiler needs fuel
  because the jumps of an arbitrary array may form a cycle; \<open>cmds_size\<close> of the tree plus two is enough for an array
  of the first pass. Other loops are structural or have a
  termination proof; a session of the ManageSieve server ends after one command more than there are bytes.

  \<^bold>\<open>The order of the properties.\<close> C1 to C10: the filter, its compiler and the mailbox, where mail could be lost. C11 to
  C22: scripts, databases, names, quotas, the index. C23 to C40: the master process, tables, rights, and further
  properties of the components above. The properties stand in the theory of their component, behind its lemmas, and
  the two that join components (appending with the quota database, requests with lexer, parser and store) in the last of them.

  \<^bold>\<open>Not modelled.\<close> The protocol engines for IMAP, POP3, LMTP, NNTP, MUPDATE and replication: each command reads and
  writes sockets, and what they decide rests on parts that are here. The list of mailboxes and the other users of
  databases (seen state, annotations, duplicate suppression): thin layers over the interface of \<open>Cyrusdb\<close>. The skiplist
  database, and Berkeley DB, which is third-party. Character sets and the parsers of yacc and lex: generated tables.
  The search engine, the administration programs and the clients. MIME parsing: what \<^verbatim>\<open>imap/message.c\<close> makes of a
  message is an argument of \<open>Append\<close>. Of the modelled files: upgrading old index formats, delivery by staging and
  copying between mailboxes, the start-up of the master process and the child's side of \<^verbatim>\<open>fork\<close>, and a
  \<^verbatim>\<open>foreach\<close> whose callback changes the database.
\<close>

end
